(* ===== verification/Prelude.thy ===== *)
theory Prelude
  imports Main "HOL-Library.Word" "HOL-Library.Multiset" "HOL-Library.Monad_Syntax"
begin

section \<open>Shared vocabulary of the rsloop development\<close>

text \<open>
  Types and lemmas the component theories share.

  \<^item> \<open>usize\<close> quantities (lengths, capacities, counters) are \<open>nat\<close>; where the
    source relies on saturating, checked or wrapping arithmetic the operation is
    written out (natural-number subtraction is \<open>saturating_sub\<close>).
    \<open>u64\<close> generations are \<open>64 word\<close>.
  \<^item> \<open>Instant\<close> is a \<open>nat\<close> (ticks of the monotonic clock).
  \<^item> a computation that can panic (slice or slab indexing out of range, \<open>expect\<close> on
    \<open>None\<close>) has type \<open>'a option\<close>, where \<open>None\<close> is the panic; that it does not happen
    is then a theorem.
  \<^item> a \<open>Result<T, E>\<close> is \<open>'e + 'a\<close>, with \<open>Inl\<close> for the error.
\<close>

type_synonym byte = "8 word"
type_synonym bytes = "byte list"
type_synonym instant = nat
type_synonym u64 = "64 word"

named_theorems inv_intros \<open>preservation of component invariants\<close>
named_theorems byte_simps \<open>equations about byte streams held in buffers and queues\<close>

abbreviation usize_max :: nat where
  "usize_max \<equiv> 2 ^ 64 - 1"

subsection \<open>Vectors indexed with bounds checks\<close>

definition vec_get :: "'a list \<Rightarrow> nat \<Rightarrow> 'a option" where
  "vec_get xs i = (if i < length xs then Some (xs ! i) else None)"

lemma vec_get_Some [simp]: "i < length xs \<Longrightarrow> vec_get xs i = Some (xs ! i)"
  by (simp add: vec_get_def)

lemma vec_get_None [simp]: "\<not> i < length xs \<Longrightarrow> vec_get xs i = None"
  by (simp add: vec_get_def)

lemma vec_get_eq_Some: "vec_get xs i = Some x \<longleftrightarrow> i < length xs \<and> xs ! i = x"
  by (auto simp: vec_get_def)

subsection \<open>Reachable states of a transition system\<close>

text \<open>
  The interleavings of several threads are step relations; an invariant that the initial
  state has and every step keeps holds in every reachable state.
\<close>

locale transition_system =
  fixes init :: "'s \<Rightarrow> bool"
    and step :: "'s \<Rightarrow> 's \<Rightarrow> bool"
    and inv :: "'s \<Rightarrow> bool"
  assumes inv_init: "init s \<Longrightarrow> inv s"
    and inv_step: "inv s \<Longrightarrow> step s t \<Longrightarrow> inv t"
begin

lemma inv_steps: "step\<^sup>*\<^sup>* s t \<Longrightarrow> inv s \<Longrightarrow> inv t"
  by (induction rule: rtranclp_induct) (auto intro: inv_step)

lemma inv_reachable: "init s \<Longrightarrow> step\<^sup>*\<^sup>* s t \<Longrightarrow> inv t"
  by (blast intro: inv_steps inv_init)

end

end
