(* ===== verification/Deadline_Heap.thy ===== *)
theory Deadline_Heap
  imports Prelude "HOL-Library.Product_Lexorder"
begin

section \<open>The indexed four-ary deadline heap (vibeio/timer.rs)\<close>

text \<open>
  \<open>DeadlineHeap\<close> keeps timer registrations in a slab (\<open>dh_entries\<close>) and a vector of slab
  indices (\<open>dh_heap\<close>) that is a four-ary min heap on the key \<open>(deadline, generation)\<close>;
  each entry knows its position in that vector, so that a registration can be cancelled.

  The \<open>slab\<close> crate is not part of the repository. The model keeps the slab as a finite map
  from indices to entries, and \<open>insert\<close> takes the index the slab chose (\<open>slot\<close>); the crate
  documents that it is vacant, which is the hypothesis \<open>slot \<notin> dom (dh_entries h)\<close> of the
  theorems about \<open>insert\<close>. Indexing a vector or the slab out of range panics: the operations
  return \<open>None\<close> there, and the theorems show that they do not under the invariant.
\<close>

record 'w timer_entry =
  te_deadline :: instant
  te_waker :: 'w
  te_generation :: u64
  te_heap_index :: nat

record timer_handle =
  th_slab_index :: nat
  th_generation :: u64

record 'w deadline_heap =
  dh_entries :: "nat \<rightharpoonup> 'w timer_entry"
  dh_heap :: "nat list"
  dh_next_generation :: u64

definition dh_new :: "'w deadline_heap" where
  "dh_new = \<lparr>dh_entries = Map.empty, dh_heap = [], dh_next_generation = 0\<rparr>"

definition entry_at :: "'w deadline_heap \<Rightarrow> nat \<Rightarrow> 'w timer_entry option" where
  "entry_at h i = do { s \<leftarrow> vec_get (dh_heap h) i; dh_entries h s }"

definition te_key :: "'w timer_entry \<Rightarrow> instant \<times> u64" where
  "te_key e = (te_deadline e, te_generation e)"

definition dh_less :: "'w deadline_heap \<Rightarrow> nat \<Rightarrow> nat \<Rightarrow> bool option" where
  "dh_less h left right = do {
     l \<leftarrow> entry_at h left;
     r \<leftarrow> entry_at h right;
     Some (te_key l < te_key r)
   }"

definition set_heap_index ::
    "nat \<Rightarrow> nat \<Rightarrow> 'w deadline_heap \<Rightarrow> 'w deadline_heap option" where
  "set_heap_index s i h = do {
     e \<leftarrow> dh_entries h s;
     Some (h\<lparr>dh_entries := (dh_entries h)(s \<mapsto> e\<lparr>te_heap_index := i\<rparr>)\<rparr>)
   }"

definition swap_nodes :: "nat \<Rightarrow> nat \<Rightarrow> 'w deadline_heap \<Rightarrow> 'w deadline_heap option" where
  "swap_nodes left right h = do {
     a \<leftarrow> vec_get (dh_heap h) left;
     b \<leftarrow> vec_get (dh_heap h) right;
     let h1 = h\<lparr>dh_heap := (dh_heap h)[left := b, right := a]\<rparr>;
     h2 \<leftarrow> set_heap_index (dh_heap h1 ! left) left h1;
     set_heap_index (dh_heap h2 ! right) right h2
   }"

definition parent :: "nat \<Rightarrow> nat" where
  "parent i = (i - 1) div 4"

lemma parent_less: "0 < i \<Longrightarrow> parent i < i"
  by (simp add: parent_def)

function sift_up :: "nat \<Rightarrow> 'w deadline_heap \<Rightarrow> 'w deadline_heap option" where
  "sift_up i h =
     (if i = 0 then Some h
      else case dh_less h i (parent i) of
        None \<Rightarrow> None
      | Some False \<Rightarrow> Some h
      | Some True \<Rightarrow>
          (case swap_nodes i (parent i) h of None \<Rightarrow> None | Some h' \<Rightarrow> sift_up (parent i) h'))"
  by pat_completeness auto
termination
  by (relation "measure fst") (auto simp: parent_less)

declare sift_up.simps [simp del]

fun smallest_child :: "'w deadline_heap \<Rightarrow> nat \<Rightarrow> nat list \<Rightarrow> nat option" where
  "smallest_child h smallest [] = Some smallest"
| "smallest_child h smallest (child # cs) =
     (case dh_less h child smallest of
        None \<Rightarrow> None
      | Some b \<Rightarrow> smallest_child h (if b then child else smallest) cs)"

abbreviation other_children :: "'w deadline_heap \<Rightarrow> nat \<Rightarrow> nat list" where
  "other_children h i \<equiv> [i * 4 + 2 ..< min (i * 4 + 5) (length (dh_heap h))]"

lemma smallest_child_in:
  "smallest_child h m cs = Some r \<Longrightarrow> r = m \<or> r \<in> set cs"
  by (induction cs arbitrary: m) (auto split: option.splits if_splits)

lemma set_heap_index_frame [simp]:
  assumes "set_heap_index s i h = Some h'"
  shows "dh_heap h' = dh_heap h" "dh_next_generation h' = dh_next_generation h"
  using assms by (auto simp: set_heap_index_def split: bind_splits)

lemma swap_nodes_length:
  "swap_nodes l r h = Some h' \<Longrightarrow> length (dh_heap h') = length (dh_heap h)"
  by (auto simp: swap_nodes_def Let_def split: bind_splits)

function sift_down :: "nat \<Rightarrow> 'w deadline_heap \<Rightarrow> 'w deadline_heap option" where
  "sift_down i h =
     (if i * 4 + 1 \<ge> length (dh_heap h) then Some h
      else case smallest_child h (i * 4 + 1) (other_children h i) of
        None \<Rightarrow> None
      | Some m \<Rightarrow>
          (case dh_less h m i of
             None \<Rightarrow> None
           | Some False \<Rightarrow> Some h
           | Some True \<Rightarrow>
               (case swap_nodes i m h of None \<Rightarrow> None | Some h' \<Rightarrow> sift_down m h')))"
  by pat_completeness auto
termination
proof (relation "measure (\<lambda>(i, h). length (dh_heap h) - i)", goal_cases)
  case 1
  then show ?case by simp
next
  case (2 i h m b h')
  from 2(2) have "m = i * 4 + 1 \<or> m \<in> set (other_children h i)"
    by (rule smallest_child_in)
  with 2(1) have "i < m" "m < length (dh_heap h)" by auto
  with swap_nodes_length [OF 2(5)] show ?case by simp
qed

declare sift_down.simps [simp del]

definition next_gen :: "u64 \<Rightarrow> u64" where
  "next_gen g = (if g + 1 = 0 then 1 else g + 1)"

definition dh_insert ::
    "nat \<Rightarrow> instant \<Rightarrow> 'w \<Rightarrow> 'w deadline_heap \<Rightarrow> (timer_handle \<times> 'w deadline_heap) option" where
  "dh_insert slot deadline waker h = do {
     let generation = next_gen (dh_next_generation h);
     let heap_index = length (dh_heap h);
     let h1 = h\<lparr>dh_next_generation := generation,
                dh_entries := (dh_entries h)(slot \<mapsto>
                  \<lparr>te_deadline = deadline, te_waker = waker, te_generation = generation,
                   te_heap_index = heap_index\<rparr>),
                dh_heap := dh_heap h @ [slot]\<rparr>;
     h2 \<leftarrow> sift_up heap_index h1;
     Some (\<lparr>th_slab_index = slot, th_generation = generation\<rparr>, h2)
   }"

definition dh_deadline :: "'w deadline_heap \<Rightarrow> instant option option" where
  "dh_deadline h =
     (case dh_heap h of
        [] \<Rightarrow> Some None
      | s # _ \<Rightarrow> do { e \<leftarrow> dh_entries h s; Some (Some (te_deadline e)) })"

definition vec_pop :: "'a list \<Rightarrow> ('a \<times> 'a list) option" where
  "vec_pop xs = (if xs = [] then None else Some (last xs, butlast xs))"

definition slab_remove ::
    "nat \<Rightarrow> 'w deadline_heap \<Rightarrow> ('w timer_entry \<times> 'w deadline_heap) option" where
  "slab_remove s h = do {
     e \<leftarrow> dh_entries h s;
     Some (e, h\<lparr>dh_entries := (dh_entries h)(s := None)\<rparr>)
   }"

definition dh_remove ::
    "timer_handle \<Rightarrow> 'w deadline_heap \<Rightarrow> ('w option \<times> 'w deadline_heap) option" where
  "dh_remove handle h =
     (case dh_entries h (th_slab_index handle) of
        None \<Rightarrow> Some (None, h)
      | Some entry \<Rightarrow>
          if te_generation entry \<noteq> th_generation handle then Some (None, h)
          else do {
            let heap_index = te_heap_index entry;
            let last = length (dh_heap h) - 1;
            h1 \<leftarrow> (if heap_index \<noteq> last then swap_nodes heap_index last h else Some h);
            let h2 = h1\<lparr>dh_heap := butlast (dh_heap h1)\<rparr>;
            (removed, h3) \<leftarrow> slab_remove (th_slab_index handle) h2;
            h4 \<leftarrow> (if heap_index < length (dh_heap h3)
                  then do {
                    up \<leftarrow> (if heap_index = 0 then Some False
                          else dh_less h3 heap_index (parent heap_index));
                    (if up then sift_up heap_index h3 else sift_down heap_index h3)
                  }
                  else Some h3);
            Some (Some (te_waker removed), h4)
          })"

definition pop_root :: "'w deadline_heap \<Rightarrow> ('w \<times> 'w deadline_heap) option" where
  "pop_root h = do {
     let last = length (dh_heap h) - 1;
     h1 \<leftarrow> (if last \<noteq> 0 then swap_nodes 0 last h else Some h);
     (slab_index, rest) \<leftarrow> vec_pop (dh_heap h1);
     (entry, h2) \<leftarrow> slab_remove slab_index (h1\<lparr>dh_heap := rest\<rparr>);
     h3 \<leftarrow> (if dh_heap h2 \<noteq> [] then sift_down 0 h2 else Some h2);
     Some (te_waker entry, h3)
   }"

lemma sift_down_length:
  "sift_down i h = Some h' \<Longrightarrow> length (dh_heap h') = length (dh_heap h)"
proof (induction i h rule: sift_down.induct)
  case (1 i h)
  note eq = 1(2) [unfolded sift_down.simps [of i h]]
  show ?case
  proof (cases "h' = h")
    case False
    with eq obtain m h1 where
      "\<not> length (dh_heap h) \<le> i * 4 + 1"
      "smallest_child h (i * 4 + 1) (other_children h i) = Some m"
      "dh_less h m i = Some True" "swap_nodes i m h = Some h1" "sift_down m h1 = Some h'"
      by (auto split: if_splits option.splits bool.splits)
    with 1(1) show ?thesis by (metis swap_nodes_length)
  qed simp
qed

lemma pop_root_length:
  "pop_root h = Some (w, h') \<Longrightarrow> length (dh_heap h') < length (dh_heap h)"
  by (auto simp: pop_root_def Let_def vec_pop_def slab_remove_def
      split: bind_splits if_splits dest!: sift_down_length swap_nodes_length intro!: diff_less)

function pop_expired ::
    "instant \<Rightarrow> 'w list \<Rightarrow> 'w deadline_heap \<Rightarrow> ('w list \<times> 'w deadline_heap) option" where
  "pop_expired now output h =
     (case dh_deadline h of
        None \<Rightarrow> None
      | Some None \<Rightarrow> Some (output, h)
      | Some (Some deadline) \<Rightarrow>
          if deadline \<le> now
          then (case pop_root h of
                  None \<Rightarrow> None
                | Some (w, h') \<Rightarrow> pop_expired now (output @ [w]) h')
          else Some (output, h))"
  by pat_completeness auto
termination
  by (relation "measure (\<lambda>(now, output, h). length (dh_heap h))") (auto dest: pop_root_length)

declare pop_expired.simps [simp del]


subsection \<open>Order of a four-ary heap, as a property of its key function\<close>

definition heap_ord :: "nat \<Rightarrow> (nat \<Rightarrow> 'k::linorder) \<Rightarrow> bool" where
  "heap_ord n K \<longleftrightarrow> (\<forall>j. 0 < j \<and> j < n \<longrightarrow> K (parent j) \<le> K j)"

definition ord_up :: "nat \<Rightarrow> (nat \<Rightarrow> 'k::linorder) \<Rightarrow> nat \<Rightarrow> bool" where
  "ord_up n K i \<longleftrightarrow> (\<forall>j. 0 < j \<and> j < n \<and> j \<noteq> i \<longrightarrow> K (parent j) \<le> K j)
     \<and> (\<forall>j. 0 < i \<and> 0 < j \<and> j < n \<and> parent j = i \<longrightarrow> K (parent i) \<le> K j)"

definition ord_down :: "nat \<Rightarrow> (nat \<Rightarrow> 'k::linorder) \<Rightarrow> nat \<Rightarrow> bool" where
  "ord_down n K i \<longleftrightarrow> (\<forall>j. 0 < j \<and> j < n \<and> parent j \<noteq> i \<longrightarrow> K (parent j) \<le> K j)
     \<and> (\<forall>j. 0 < i \<and> 0 < j \<and> j < n \<and> parent j = i \<longrightarrow> K (parent i) \<le> K j)"

lemma ord_up_stop: "ord_up n K i \<Longrightarrow> 0 < i \<longrightarrow> K (parent i) \<le> K i \<Longrightarrow> heap_ord n K"
  unfolding ord_up_def heap_ord_def by metis

lemma ord_down_stop:
  "ord_down n K i \<Longrightarrow> \<forall>j. 0 < j \<and> j < n \<and> parent j = i \<longrightarrow> K i \<le> K j \<Longrightarrow> heap_ord n K"
  unfolding ord_down_def heap_ord_def by metis

lemma ord_up_step:
  assumes ord: "ord_up n K i" and i: "0 < i" "i < n" and less: "K i < K (parent i)"
  shows "ord_up n (K(i := K (parent i), parent i := K i)) (parent i)" (is "ord_up n ?K _")
proof -
  have up: "K (parent j) \<le> K j" if "0 < j" "j < n" "j \<noteq> i" for j
    using ord that by (simp add: ord_up_def)
  have gp: "K (parent i) \<le> K j" if "0 < j" "j < n" "parent j = i" for j
    using ord that i by (simp add: ord_up_def)
  have pi: "parent i < i" using i parent_less by simp
  have "?K (parent j) \<le> ?K j" if j: "0 < j" "j < n" "j \<noteq> parent i" for j
    using up [of j] gp [of j] less j by auto
  moreover have "?K (parent (parent i)) \<le> ?K j"
    if j: "0 < parent i" "0 < j" "j < n" "parent j = parent i" for j
    using up [of j] up [of "parent i"] parent_less [of "parent i"] pi j i by auto
  ultimately show ?thesis by (simp add: ord_up_def del: fun_upd_apply)
qed

lemma ord_down_step:
  assumes "ord_down n K i" "0 < m" "m < n" "parent m = i" "K m < K i"
    and "\<forall>j. 0 < j \<and> j < n \<and> parent j = i \<longrightarrow> K m \<le> K j"
  shows "ord_down n (K(i := K m, m := K i)) m"
  using assms parent_less [of m] unfolding ord_down_def by auto

lemma heap_ord_root: "heap_ord n K \<Longrightarrow> j < n \<Longrightarrow> K 0 \<le> K j"
proof (induction j rule: less_induct)
  case (less j)
  show ?case
  proof (cases "j = 0")
    case False
    with less parent_less [of j] have "K 0 \<le> K (parent j)" by simp
    also from False less have "K (parent j) \<le> K j" by (simp add: heap_ord_def)
    finally show ?thesis .
  qed simp
qed

lemma heap_ord_replace_up:
  assumes ord: "heap_ord (Suc n) K" and p: "p < n" "0 < p" and less: "K n < K (parent p)"
  shows "ord_up n (K(p := K n)) p"
proof -
  have up: "K (parent j) \<le> K j" if "0 < j" "j \<le> n" for j
    using ord that by (simp add: heap_ord_def)
  have "K n \<le> K j" if "0 < j" "j < n" "parent j = p" for j
    using up [of j] up [of p] that p less by auto
  moreover have "K (parent p) \<le> K j" if "0 < j" "j < n" "parent j = p" for j
    using up [of j] up [of p] that p by auto
  ultimately show ?thesis
    using up p parent_less [of p] by (auto simp: ord_up_def)
qed

lemma heap_ord_replace_down:
  assumes ord: "heap_ord (Suc n) K" and p: "p < n" and "0 < p \<longrightarrow> K (parent p) \<le> K n"
  shows "ord_down n (K(p := K n)) p"
proof -
  have up: "K (parent j) \<le> K j" if "0 < j" "j \<le> n" for j
    using ord that by (simp add: heap_ord_def)
  have "K (parent p) \<le> K j" if "0 < p" "0 < j" "j < n" "parent j = p" for j
    using up [of j] up [of p] that p by auto
  moreover have "(K(p := K n)) (parent j) \<le> (K(p := K n)) j"
    if "0 < j" "j < n" "parent j \<noteq> p" for j
    using up [of j] assms(3) that by auto
  ultimately show ?thesis
    using parent_less [of p] by (auto simp: ord_down_def simp del: fun_upd_apply) auto
qed

subsection \<open>The representation invariant and the registrations it stands for\<close>

definition dh_wf :: "'w deadline_heap \<Rightarrow> bool" where
  "dh_wf h \<longleftrightarrow> dom (dh_entries h) \<subseteq> set (dh_heap h)
     \<and> (\<forall>i < length (dh_heap h). \<exists>e. dh_entries h (dh_heap h ! i) = Some e \<and> te_heap_index e = i)"

definition dh_key :: "'w deadline_heap \<Rightarrow> nat \<Rightarrow> instant \<times> u64" where
  "dh_key h i = (case entry_at h i of Some e \<Rightarrow> te_key e | None \<Rightarrow> (0, 0))"

definition dh_inv :: "'w deadline_heap \<Rightarrow> bool" where
  "dh_inv h \<longleftrightarrow> dh_wf h \<and> heap_ord (length (dh_heap h)) (dh_key h)"

text \<open>The registrations of a heap, by slab index: deadline, generation and waker.\<close>

definition dh_abs :: "'w deadline_heap \<Rightarrow> nat \<rightharpoonup> instant \<times> u64 \<times> 'w" where
  "dh_abs h = (\<lambda>s. map_option (\<lambda>e. (te_deadline e, te_generation e, te_waker e)) (dh_entries h s))"

lemma dh_wfD:
  assumes "dh_wf h" "i < length (dh_heap h)"
  obtains e where "dh_entries h (dh_heap h ! i) = Some e" "te_heap_index e = i"
  using assms by (auto simp: dh_wf_def)

lemma dh_wf_distinct: "dh_wf h \<Longrightarrow> distinct (dh_heap h)"
  by (metis dh_wfD distinct_conv_nth option.inject)

lemma dh_wf_dom: "dh_wf h \<Longrightarrow> dom (dh_entries h) = set (dh_heap h)"
  by (force simp: dh_wf_def in_set_conv_nth)

lemma dh_wf_index:
  assumes "dh_wf h" "dh_entries h s = Some e"
  shows "te_heap_index e < length (dh_heap h)" "dh_heap h ! te_heap_index e = s"
proof -
  from assms have "s \<in> set (dh_heap h)" using dh_wf_dom by blast
  then obtain i where "i < length (dh_heap h)" "dh_heap h ! i = s"
    by (auto simp: in_set_conv_nth)
  with assms show "te_heap_index e < length (dh_heap h)" "dh_heap h ! te_heap_index e = s"
    by (auto elim!: dh_wfD [of h i])
qed

lemma dom_dh_abs [simp]: "dom (dh_abs h) = dom (dh_entries h)"
  by (auto simp: dh_abs_def)

lemma entry_at_wf: "dh_wf h \<Longrightarrow> i < length (dh_heap h) \<Longrightarrow> \<exists>e. entry_at h i = Some e"
  by (auto simp: entry_at_def elim: dh_wfD)

lemma dh_less_wf:
  "dh_wf h \<Longrightarrow> l < length (dh_heap h) \<Longrightarrow> r < length (dh_heap h)
    \<Longrightarrow> dh_less h l r = Some (dh_key h l < dh_key h r)"
  using entry_at_wf [of h l] entry_at_wf [of h r] by (auto simp: dh_less_def dh_key_def)

text \<open>What the restructuring steps keep, and what they do to the keys.\<close>

definition same_regs :: "'w deadline_heap \<Rightarrow> 'w deadline_heap \<Rightarrow> bool" where
  "same_regs h h' \<longleftrightarrow> dh_wf h' \<and> dh_abs h' = dh_abs h
     \<and> length (dh_heap h') = length (dh_heap h) \<and> dh_next_generation h' = dh_next_generation h"

lemma same_regs_refl: "dh_wf h \<Longrightarrow> same_regs h h"
  by (simp add: same_regs_def)

lemma same_regs_trans: "same_regs h h' \<Longrightarrow> same_regs h' h'' \<Longrightarrow> same_regs h h''"
  by (simp add: same_regs_def)

lemma swap_nodes_wf:
  assumes wf: "dh_wf h" and l: "l < length (dh_heap h)" and r: "r < length (dh_heap h)"
    and neq: "l \<noteq> r"
  obtains h' where "swap_nodes l r h = Some h'" "same_regs h h'"
    "dh_key h' = (dh_key h)(l := dh_key h r, r := dh_key h l)"
    "dh_heap h' = (dh_heap h)[l := dh_heap h ! r, r := dh_heap h ! l]"
proof -
  obtain a where a: "dh_entries h (dh_heap h ! l) = Some a" "te_heap_index a = l"
    using wf l by (rule dh_wfD)
  obtain b where b: "dh_entries h (dh_heap h ! r) = Some b" "te_heap_index b = r"
    using wf r by (rule dh_wfD)
  have dist: "dh_heap h ! i = dh_heap h ! j \<longleftrightarrow> i = j"
    if "i < length (dh_heap h)" "j < length (dh_heap h)" for i j
    using dh_wf_distinct [OF wf] that by (simp add: nth_eq_iff_index_eq)
  let ?h = "h\<lparr>dh_heap := (dh_heap h)[l := dh_heap h ! r, r := dh_heap h ! l],
    dh_entries := (dh_entries h)(dh_heap h ! r \<mapsto> b\<lparr>te_heap_index := l\<rparr>,
                                 dh_heap h ! l \<mapsto> a\<lparr>te_heap_index := r\<rparr>)\<rparr>"
  have run: "swap_nodes l r h = Some ?h"
    using a b l r neq dist by (simp add: swap_nodes_def set_heap_index_def)
  have "dh_wf ?h"
    using wf l r neq dist a b
    by (auto simp: dh_wf_def nth_list_update dh_wf_dom)
  moreover have "dh_abs ?h = dh_abs h"
    using a b by (auto simp: dh_abs_def fun_eq_iff)
  ultimately have same: "same_regs h ?h" by (simp add: same_regs_def)
  have keys: "dh_key ?h i = ((dh_key h)(l := dh_key h r, r := dh_key h l)) i" for i
    using a b l r neq dist
    by (cases "i < length (dh_heap h)")
       (auto simp: dh_key_def entry_at_def nth_list_update te_key_def)
  show ?thesis by (rule that [OF run same]) (simp_all add: keys fun_eq_iff del: fun_upd_apply)
qed

lemma sift_up_wf:
  assumes "dh_wf h" "i < length (dh_heap h)" "ord_up (length (dh_heap h)) (dh_key h) i"
  shows "\<exists>h'. sift_up i h = Some h' \<and> same_regs h h' \<and> dh_inv h'"
  using assms
proof (induction i h rule: sift_up.induct)
  case (1 i h)
  note eq = sift_up.simps [of i h]
  show ?case
  proof (cases "i = 0 \<or> \<not> dh_key h i < dh_key h (parent i)")
    case True
    then have "sift_up i h = Some h"
      using 1(2,3) parent_less [of i] by (auto simp: eq dh_less_wf)
    moreover have "heap_ord (length (dh_heap h)) (dh_key h)"
      using True by (intro ord_up_stop [OF 1(4)]) auto
    ultimately show ?thesis using 1(2) by (auto simp: same_regs_refl dh_inv_def)
  next
    case False
    with 1(3) parent_less [of i] have p: "0 < i" "parent i < length (dh_heap h)" "i \<noteq> parent i"
      by auto
    obtain h1 where h1: "swap_nodes i (parent i) h = Some h1" "same_regs h h1"
      "dh_key h1 = (dh_key h)(i := dh_key h (parent i), parent i := dh_key h i)"
      using swap_nodes_wf [OF 1(2,3) p(2,3)] by blast
    have less: "dh_less h i (parent i) = Some True"
      using False 1(2,3) p by (simp add: dh_less_wf)
    have "ord_up (length (dh_heap h1)) (dh_key h1) (parent i)"
      using ord_up_step [OF 1(4) p(1) 1(3)] False h1 by (simp add: same_regs_def)
    then have "\<exists>h'. sift_up (parent i) h1 = Some h' \<and> same_regs h1 h' \<and> dh_inv h'"
      using 1(1) [OF _ less _ h1(1)] p h1(2) by (auto simp: same_regs_def)
    moreover have "sift_up i h = sift_up (parent i) h1"
      using p less h1(1) by (simp add: eq)
    ultimately show ?thesis using h1(2) same_regs_trans by metis
  qed
qed

lemma smallest_child_wf:
  assumes "dh_wf h" "m < length (dh_heap h)" "set cs \<subseteq> {..<length (dh_heap h)}"
  shows "\<exists>r. smallest_child h m cs = Some r \<and> r \<in> insert m (set cs)
     \<and> (\<forall>j \<in> insert m (set cs). dh_key h r \<le> dh_key h j)"
  using assms(2,3)
proof (induction cs arbitrary: m)
  case (Cons c cs)
  let ?m = "if dh_key h c < dh_key h m then c else m"
  have "\<exists>r. smallest_child h ?m cs = Some r \<and> r \<in> insert ?m (set cs)
     \<and> (\<forall>j \<in> insert ?m (set cs). dh_key h r \<le> dh_key h j)"
    using Cons by auto
  then obtain r where r: "smallest_child h ?m cs = Some r" "r \<in> insert ?m (set cs)"
    "\<forall>j \<in> insert ?m (set cs). dh_key h r \<le> dh_key h j" by blast
  then have "\<forall>j \<in> insert m (set (c # cs)). dh_key h r \<le> dh_key h j"
    by (auto split: if_splits)
  with r Cons(2,3) assms(1) show ?case by (auto simp: dh_less_wf split: if_splits)
qed auto

lemma children_iff:
  "0 < j \<and> j < n \<and> parent j = i \<longleftrightarrow> j < n \<and> (j = i * 4 + 1 \<or> j \<in> set [i * 4 + 2 ..< min (i * 4 + 5) n])"
  by (auto simp: parent_def)

lemma sift_down_wf:
  assumes "dh_wf h" "i < length (dh_heap h)" "ord_down (length (dh_heap h)) (dh_key h) i"
  shows "\<exists>h'. sift_down i h = Some h' \<and> same_regs h h' \<and> dh_inv h'"
  using assms
proof (induction i h rule: sift_down.induct)
  case (1 i h)
  note eq = sift_down.simps [of i h]
  let ?n = "length (dh_heap h)"
  show ?case
  proof (cases "?n \<le> i * 4 + 1")
    case True
    then have "\<forall>j. \<not> (0 < j \<and> j < ?n \<and> parent j = i)" by (auto simp: parent_def)
    then show ?thesis
      using True 1(2) ord_down_stop [OF 1(4)] by (auto simp: eq same_regs_refl dh_inv_def)
  next
    case False
    have "i * 4 + 1 < ?n" "set (other_children h i) \<subseteq> {..<?n}" using False by auto
    from smallest_child_wf [OF 1(2) this] obtain m where
      m: "smallest_child h (i * 4 + 1) (other_children h i) = Some m"
        "m = i * 4 + 1 \<or> m \<in> set (other_children h i)"
        "\<forall>j. j = i * 4 + 1 \<or> j \<in> set (other_children h i) \<longrightarrow> dh_key h m \<le> dh_key h j"
      by (elim exE conjE) (simp only: insert_iff Ball_def)
    have child: "0 < m" "m < ?n" "parent m = i" "i \<noteq> m"
      using m(2) False children_iff [of m ?n i] parent_less [of m] by (simp_all, linarith+)
    have min: "\<forall>j. 0 < j \<and> j < ?n \<and> parent j = i \<longrightarrow> dh_key h m \<le> dh_key h j"
      using m(3) by (simp only: children_iff) blast
    show ?thesis
    proof (cases "dh_key h m < dh_key h i")
      case True
      obtain h1 where h1: "swap_nodes i m h = Some h1" "same_regs h h1"
        "dh_key h1 = (dh_key h)(i := dh_key h m, m := dh_key h i)"
        using swap_nodes_wf [OF 1(2,3) child(2,4)] by blast
      have less: "dh_less h m i = Some True" using True 1(2,3) child by (simp add: dh_less_wf)
      have "ord_down (length (dh_heap h1)) (dh_key h1) m"
        using ord_down_step [OF 1(4) child(1-3) True min] h1 by (simp add: same_regs_def)
      then have "\<exists>h'. sift_down m h1 = Some h' \<and> same_regs h1 h' \<and> dh_inv h'"
        using 1(1) [OF False m(1) less _ h1(1)] child h1(2) by (auto simp: same_regs_def)
      moreover have "sift_down i h = sift_down m h1"
        using False m(1) less h1(1) by (simp add: eq)
      ultimately show ?thesis using h1(2) same_regs_trans by metis
    next
      case ge: False
      then have "dh_less h m i = Some False" using 1(2,3) child by (simp add: dh_less_wf)
      then have "sift_down i h = Some h" using False m(1) by (simp add: eq)
      moreover have "heap_ord ?n (dh_key h)"
      proof (intro ord_down_stop [OF 1(4)] allI impI)
        fix j assume "0 < j \<and> j < ?n \<and> parent j = i"
        with min have "dh_key h m \<le> dh_key h j" by simp
        with ge show "dh_key h i \<le> dh_key h j" by simp
      qed
      ultimately show ?thesis using 1(2) by (auto simp: same_regs_refl dh_inv_def)
    qed
  qed
qed

end
