(* ===== verification/Due_Queue.thy ===== *)
theory Due_Queue
  imports Prelude
begin

section \<open>Queues that are drained up to a point in time\<close>

text \<open>
  Both timer implementations of the program (the four-ary heap of \<open>vibeio/timer.rs\<close> and the
  two-lane queue of \<open>engine/timer_entry.rs\<close>) are drained by the same kind of loop: while the
  front entry passes a test, remove it. The locale \<open>due_queue\<close> states what such a loop relies on,
  a queue whose front has a least key; its lemmas say what the loop as a whole returns and what
  it leaves. In \<open>timed_queue\<close> the test is also monotone in the key, so that the loop takes exactly
  the entries that pass it.
\<close>

locale due_queue =
  fixes inv :: "'s \<Rightarrow> bool"
    and pend :: "'s \<Rightarrow> 'x multiset"
    and key :: "'x \<Rightarrow> 'k::linorder"
    and due :: "'t \<Rightarrow> 'x \<Rightarrow> bool"
    and pop_due :: "'t \<Rightarrow> 's \<Rightarrow> ('x \<times> 's) option"
  assumes pop_None: "inv s \<Longrightarrow> pop_due t s = None
      \<Longrightarrow> pend s = {#} \<or> (\<exists>x \<in># pend s. \<not> due t x \<and> (\<forall>y \<in># pend s. key x \<le> key y))"
    and pop_Some: "inv s \<Longrightarrow> pop_due t s = Some (x, s')
      \<Longrightarrow> inv s' \<and> due t x \<and> pend s = add_mset x (pend s') \<and> (\<forall>y \<in># pend s'. key x \<le> key y)"
begin

inductive drains :: "'t \<Rightarrow> 's \<Rightarrow> 'x list \<Rightarrow> 's \<Rightarrow> bool" for t where
  stop: "pop_due t s = None \<Longrightarrow> drains t s [] s"
| pop: "pop_due t s = Some (x, s') \<Longrightarrow> drains t s' xs s'' \<Longrightarrow> drains t s (x # xs) s''"

lemma drains_total: "inv s \<Longrightarrow> \<exists>xs s'. drains t s xs s'"
proof (induction "size (pend s)" arbitrary: s rule: less_induct)
  case less
  show ?case
  proof (cases "pop_due t s")
    case None
    then show ?thesis by (blast intro: stop)
  next
    case (Some p)
    then obtain x s' where p: "pop_due t s = Some (x, s')" by (cases p) auto
    with less(2) pop_Some have "inv s'" "size (pend s') < size (pend s)"
      by (fastforce)+
    with less(1) p show ?thesis by (blast intro: pop)
  qed
qed

lemma drains_split:
  "drains t s xs s' \<Longrightarrow> inv s \<Longrightarrow>
    inv s' \<and> pend s = mset xs + pend s' \<and> (\<forall>x \<in> set xs. due t x)
    \<and> (pend s' = {#} \<or> (\<exists>x \<in># pend s'. \<not> due t x \<and> (\<forall>y \<in># pend s'. key x \<le> key y)))"
proof (induction rule: drains.induct)
  case (stop s)
  then show ?case using pop_None by simp
next
  case (pop s x s' xs s'')
  then show ?case using pop_Some [OF pop(4,1)] by auto
qed

lemma drains_sorted:
  "drains t s xs s' \<Longrightarrow> inv s \<Longrightarrow> sorted (map key xs) \<and> (\<forall>x \<in> set xs. \<forall>y \<in># pend s'. key x \<le> key y)"
proof (induction rule: drains.induct)
  case (pop s x s' xs s'')
  have "pend s' = mset xs + pend s''"
    using drains_split [OF pop(2)] pop_Some [OF pop(4,1)] by simp
  then show ?case using pop pop_Some [OF pop(4,1)] by auto
qed simp

end

locale timed_queue = due_queue +
  assumes due_mono: "due t y \<Longrightarrow> key x \<le> key y \<Longrightarrow> due t x"
begin

lemma drains_pend:
  assumes "drains t s xs s'" "inv s"
  shows "inv s' \<and> mset xs = filter_mset (due t) (pend s) \<and> pend s' = filter_mset (\<lambda>x. \<not> due t x) (pend s)"
proof -
  note d = drains_split [OF assms]
  have rest: "\<not> due t y" if "y \<in># pend s'" for y using d that due_mono by auto
  have "filter_mset (due t) (mset xs) = mset xs" "filter_mset (\<lambda>x. \<not> due t x) (mset xs) = {#}"
    "filter_mset (due t) (pend s') = {#}" "filter_mset (\<lambda>x. \<not> due t x) (pend s') = pend s'"
    using d rest by (simp_all add: filter_mset_eq_conv)
  then show ?thesis using d by simp
qed

end

end
