(* ===== verification/Vibeio_Timer.thy ===== *)
theory Vibeio_Timer
  imports Deadline_Heap Due_Queue
begin

section \<open>The runtime timer (vibeio/timer.rs)\<close>

text \<open>
  The public operations of \<open>Timer\<close> over the deadline heap, and the correctness of the heap
  operations: what each does to the registrations \<open>dh_abs\<close>, that none of them panics, and that
  \<open>pop_expired\<close> returns exactly the due wakers, in the order of \<open>(deadline, generation)\<close>.

  A waker is code outside this component: waking, cloning or dropping one may run arbitrary
  code that re-enters the timer. The operations take these three effects as functions on a
  pair of the rest of the program's state \<open>'s\<close> and the timer. Clock readings are arguments.
\<close>

record 'w timer =
  tm_deadlines :: "'w deadline_heap"
  tm_expired :: "'w list"

definition timer_new :: "'w timer" where
  "timer_new = \<lparr>tm_deadlines = dh_new, tm_expired = []\<rparr>"

definition submit ::
    "('w \<Rightarrow> 's \<times> 'w timer \<Rightarrow> 's \<times> 'w timer) \<Rightarrow> instant \<Rightarrow> nat \<Rightarrow> instant \<Rightarrow> 'w \<Rightarrow> 's \<times> 'w timer
      \<Rightarrow> (timer_handle option \<times> 's \<times> 'w timer) option" where
  "submit wake now slot deadline waker st =
     (if deadline \<le> now then Some (None, wake waker st)
      else do {
        (handle, h) \<leftarrow> dh_insert slot deadline waker (tm_deadlines (snd st));
        Some (Some handle, (fst st, (snd st)\<lparr>tm_deadlines := h\<rparr>))
      })"

definition cancel ::
    "('w \<Rightarrow> 's \<times> 'w timer \<Rightarrow> 's \<times> 'w timer) \<Rightarrow> timer_handle \<Rightarrow> 's \<times> 'w timer
      \<Rightarrow> ('s \<times> 'w timer) option" where
  "cancel drop_waker handle st = do {
     (waker, h) \<leftarrow> dh_remove handle (tm_deadlines (snd st));
     let st1 = (fst st, (snd st)\<lparr>tm_deadlines := h\<rparr>);
     Some (case waker of None \<Rightarrow> st1 | Some w \<Rightarrow> drop_waker w st1)
   }"

definition live_entry :: "timer_handle \<Rightarrow> 'w deadline_heap \<Rightarrow> 'w timer_entry option" where
  "live_entry handle h =
     (case dh_entries h (th_slab_index handle) of
        None \<Rightarrow> None
      | Some e \<Rightarrow> if te_generation e = th_generation handle then Some e else None)"

definition set_waker :: "nat \<Rightarrow> 'w \<Rightarrow> 'w deadline_heap \<Rightarrow> 'w deadline_heap" where
  "set_waker s w h =
     h\<lparr>dh_entries := (dh_entries h)(s := map_option (te_waker_update (\<lambda>_. w)) (dh_entries h s))\<rparr>"

definition update_waker ::
    "('w \<Rightarrow> 'w \<Rightarrow> bool) \<Rightarrow> ('w \<Rightarrow> 's \<times> 'w timer \<Rightarrow> 'w \<times> 's \<times> 'w timer)
      \<Rightarrow> ('w \<Rightarrow> 's \<times> 'w timer \<Rightarrow> 's \<times> 'w timer) \<Rightarrow> timer_handle \<Rightarrow> 'w \<Rightarrow> 's \<times> 'w timer
      \<Rightarrow> bool \<times> 's \<times> 'w timer" where
  "update_waker will_wake clone_waker drop_waker handle waker st =
     (case live_entry handle (tm_deadlines (snd st)) of
        None \<Rightarrow> (False, st)
      | Some entry \<Rightarrow>
          if will_wake (te_waker entry) waker then (True, st)
          else
            let (incoming, st1) = clone_waker waker st in
            case live_entry handle (tm_deadlines (snd st1)) of
              Some entry1 \<Rightarrow>
                (True, drop_waker (te_waker entry1)
                   (fst st1, (snd st1)\<lparr>tm_deadlines :=
                      set_waker (th_slab_index handle) incoming (tm_deadlines (snd st1))\<rparr>))
            | None \<Rightarrow> (False, drop_waker incoming st1))"

text \<open>
  \<open>keep\<close> is the outcome of the comparison of the two vectors' capacities, which decides which
  of the two (empty) buffers is cached for the next call.
\<close>

definition spin_and_get_deadline ::
    "('w \<Rightarrow> 's \<times> 'w timer \<Rightarrow> 's \<times> 'w timer) \<Rightarrow> instant \<Rightarrow> instant \<Rightarrow> bool \<Rightarrow> 's \<times> 'w timer
      \<Rightarrow> ((nat option \<times> bool) \<times> 's \<times> 'w timer) option" where
  "spin_and_get_deadline wake now now2 keep st = do {
     let t = snd st;
     (expired, h) \<leftarrow> pop_expired now (tm_expired t) (tm_deadlines t);
     let woken_up = (expired \<noteq> []);
     let st1 = fold wake expired (fst st, t\<lparr>tm_expired := [], tm_deadlines := h\<rparr>);
     let st2 = (fst st1, (snd st1)\<lparr>tm_expired := if keep then [] else tm_expired (snd st1)\<rparr>);
     deadline \<leftarrow> dh_deadline (tm_deadlines (snd st2));
     Some ((map_option (\<lambda>d. d - now2) deadline, woken_up), st2)
   }"

subsection \<open>Inserting and removing registrations\<close>

lemma heap_ord_cong:
  assumes "\<And>i. i < n \<Longrightarrow> K' i = K i" "heap_ord n K"
  shows "heap_ord n K'"
  using assms parent_less unfolding heap_ord_def by (metis order_less_trans)

lemma ord_cong:
  assumes K: "\<And>i. i < n \<Longrightarrow> K' i = K i" and i: "i < n"
  shows "ord_up n K i \<Longrightarrow> ord_up n K' i" "ord_down n K i \<Longrightarrow> ord_down n K' i"
proof -
  have "K' (parent j) = K (parent j)" if "0 < j" "j < n" for j
    using K parent_less [OF that(1)] that(2) by simp
  with K i show "ord_up n K i \<Longrightarrow> ord_up n K' i" "ord_down n K i \<Longrightarrow> ord_down n K' i"
    by (simp_all add: ord_up_def ord_down_def)
qed

lemma dh_insert_inv:
  assumes inv: "dh_inv h" and slot: "slot \<notin> dom (dh_entries h)"
  shows "\<exists>h'. dh_insert slot d w h
         = Some (\<lparr>th_slab_index = slot, th_generation = next_gen (dh_next_generation h)\<rparr>, h')
       \<and> dh_inv h' \<and> dh_abs h' = (dh_abs h)(slot \<mapsto> (d, next_gen (dh_next_generation h), w))
       \<and> dh_next_generation h' = next_gen (dh_next_generation h)"
proof -
  let ?n = "length (dh_heap h)" and ?g = "next_gen (dh_next_generation h)"
  let ?e = "\<lparr>te_deadline = d, te_waker = w, te_generation = ?g, te_heap_index = ?n\<rparr>"
  let ?h = "h\<lparr>dh_next_generation := ?g, dh_entries := (dh_entries h)(slot \<mapsto> ?e),
             dh_heap := dh_heap h @ [slot]\<rparr>"
  have wf: "dh_wf h" and ord: "heap_ord ?n (dh_key h)" using inv by (auto simp: dh_inv_def)
  have old: "dh_heap h ! i \<noteq> slot" if "i < ?n" for i
    using dh_wf_dom [OF wf] slot nth_mem [OF that] by auto
  have "dh_wf ?h"
    using wf old by (auto simp: dh_wf_def nth_append less_Suc_eq)
  moreover have "ord_up (length (dh_heap ?h)) (dh_key ?h) ?n"
    unfolding ord_up_def
  proof (intro conjI allI impI)
    have key: "dh_key ?h i = dh_key h i" if "i < ?n" for i
      using old that by (simp add: dh_key_def entry_at_def nth_append)
    fix j assume "0 < j \<and> j < length (dh_heap ?h) \<and> j \<noteq> ?n"
    then have "0 < j" "j < ?n" by auto
    with parent_less [of j] ord show "dh_key ?h (parent j) \<le> dh_key ?h j"
      by (simp add: key heap_ord_def)
  next
    fix j assume "0 < ?n \<and> 0 < j \<and> j < length (dh_heap ?h) \<and> parent j = ?n"
    with parent_less [of j] show "dh_key ?h (parent ?n) \<le> dh_key ?h j" by simp
  qed
  ultimately obtain h' where h': "sift_up ?n ?h = Some h'" "same_regs ?h h'" "dh_inv h'"
    using sift_up_wf [of ?h ?n] by auto
  have "dh_abs ?h = (dh_abs h)(slot \<mapsto> (d, ?g, w))" by (auto simp: dh_abs_def)
  with h' show ?thesis by (simp add: dh_insert_def same_regs_def Let_def)
qed

text \<open>Taking a node out: move it to the end of the vector, pop it, free its slab entry.\<close>

lemma drop_node:
  assumes inv: "dh_inv h" and p: "p < length (dh_heap h)"
  defines "n \<equiv> length (dh_heap h) - 1"
  obtains h1 e where
    "(if p \<noteq> n then swap_nodes p n h else Some h) = Some h1"
    "dh_heap h1 \<noteq> []" "last (dh_heap h1) = dh_heap h ! p" "dh_entries h1 (dh_heap h ! p) = Some e"
    "dh_abs h (dh_heap h ! p) = Some (te_deadline e, te_generation e, te_waker e)"
    "te_key e = dh_key h p" "length (dh_heap h1) = Suc n"
    "dh_next_generation h1 = dh_next_generation h"
    "dh_wf (h1\<lparr>dh_heap := butlast (dh_heap h1), dh_entries := (dh_entries h1)(dh_heap h ! p := None)\<rparr>)"
    "dh_abs (h1\<lparr>dh_heap := butlast (dh_heap h1), dh_entries := (dh_entries h1)(dh_heap h ! p := None)\<rparr>)
       = (dh_abs h)(dh_heap h ! p := None)"
    "\<forall>i < n.
       dh_key (h1\<lparr>dh_heap := butlast (dh_heap h1), dh_entries := (dh_entries h1)(dh_heap h ! p := None)\<rparr>) i
       = ((dh_key h)(p := dh_key h n)) i"
proof -
  have wf: "dh_wf h" using inv by (simp add: dh_inv_def)
  have n: "length (dh_heap h) = Suc n" using p by (simp add: n_def)
  obtain h1 where h1: "(if p \<noteq> n then swap_nodes p n h else Some h) = Some h1" "same_regs h h1"
    "dh_key h1 = (dh_key h)(p := dh_key h n, n := dh_key h p)" "dh_heap h1 ! n = dh_heap h ! p"
  proof (cases "p = n")
    case False
    have "n < length (dh_heap h)" using n by simp
    from swap_nodes_wf [OF wf p this False] obtain h1 where h1: "swap_nodes p n h = Some h1"
      "same_regs h h1" "dh_key h1 = (dh_key h)(p := dh_key h n, n := dh_key h p)"
      "dh_heap h1 = (dh_heap h)[p := dh_heap h ! n, n := dh_heap h ! p]" by metis
    show ?thesis using False h1(1,4) n by (intro that [OF _ h1(2,3)]) simp_all
  next
    case True
    then show ?thesis using that [of h] wf by (simp add: same_regs_refl)
  qed
  let ?s = "dh_heap h ! p"
  let ?h = "h1\<lparr>dh_heap := butlast (dh_heap h1), dh_entries := (dh_entries h1)(?s := None)\<rparr>"
  have wf1: "dh_wf h1" and len: "length (dh_heap h1) = Suc n" and abs: "dh_abs h1 = dh_abs h"
    using h1(2) n by (auto simp: same_regs_def)
  obtain e where e: "dh_entries h1 ?s = Some e" using dh_wfD [OF wf1, of n] len h1(4) by auto
  have dist: "dh_heap h1 ! i \<noteq> ?s" if "i < n" for i
    using dh_wf_distinct [OF wf1] that len nth_eq_iff_index_eq [of "dh_heap h1" i n] h1(4) by simp
  show ?thesis
  proof (rule that [OF h1(1) _ _ e])
    show "dh_heap h1 \<noteq> []" using len by auto
    then show "last (dh_heap h1) = ?s" using len h1(4) by (simp add: last_conv_nth)
    have "dh_abs h ?s = dh_abs h1 ?s" by (simp add: abs)
    then show "dh_abs h ?s = Some (te_deadline e, te_generation e, te_waker e)"
      using e by (simp add: dh_abs_def)
    have "te_key e = dh_key h1 n" using e len h1(4) by (simp add: dh_key_def entry_at_def)
    then show "te_key e = dh_key h p" using h1(3) by simp
    show "length (dh_heap h1) = Suc n" by (rule len)
    show "dh_next_generation h1 = dh_next_generation h" using h1(2) by (simp add: same_regs_def)
    have "set (dh_heap h1) \<subseteq> insert ?s (set (butlast (dh_heap h1)))"
      using len h1(4) by (cases "dh_heap h1" rule: rev_cases) (auto simp: nth_append)
    then show "dh_wf ?h" using wf1 dist len by (auto simp: dh_wf_def nth_butlast)
    have "dh_abs ?h = (dh_abs h1)(?s := None)" by (auto simp: dh_abs_def)
    then show "dh_abs ?h = (dh_abs h)(?s := None)" by (simp add: abs)
    have "dh_key ?h i = dh_key h1 i" if "i < n" for i
      using that dist len by (simp add: dh_key_def entry_at_def nth_butlast)
    then show "\<forall>i < n. dh_key ?h i = ((dh_key h)(p := dh_key h n)) i" using h1(3) by simp
  qed
qed

lemma dh_remove_live:
  assumes inv: "dh_inv h" and live: "dh_abs h (th_slab_index k) = Some (d, th_generation k, w)"
  shows "\<exists>h'. dh_remove k h = Some (Some w, h') \<and> dh_inv h'
    \<and> dh_abs h' = (dh_abs h)(th_slab_index k := None)
    \<and> dh_next_generation h' = dh_next_generation h"
proof -
  let ?s = "th_slab_index k"
  define n where "n = length (dh_heap h) - 1"
  have wf: "dh_wf h" and ord: "heap_ord (length (dh_heap h)) (dh_key h)"
    using inv by (auto simp: dh_inv_def)
  from live obtain e0 where e0: "dh_entries h ?s = Some e0" "te_generation e0 = th_generation k"
    by (auto simp: dh_abs_def)
  define p where "p = te_heap_index e0"
  have p: "p < length (dh_heap h)" "dh_heap h ! p = ?s"
    using dh_wf_index [OF wf e0(1)] by (auto simp: p_def)
  obtain h1 e where h1: "(if p \<noteq> n then swap_nodes p n h else Some h) = Some h1"
    "dh_entries h1 ?s = Some e" "dh_abs h ?s = Some (te_deadline e, te_generation e, te_waker e)"
    "length (dh_heap h1) = Suc n" "dh_next_generation h1 = dh_next_generation h"
    and h3: "dh_wf (h1\<lparr>dh_heap := butlast (dh_heap h1), dh_entries := (dh_entries h1)(?s := None)\<rparr>)"
    "dh_abs (h1\<lparr>dh_heap := butlast (dh_heap h1), dh_entries := (dh_entries h1)(?s := None)\<rparr>)
       = (dh_abs h)(?s := None)"
    "\<forall>i < n.
      dh_key (h1\<lparr>dh_heap := butlast (dh_heap h1), dh_entries := (dh_entries h1)(?s := None)\<rparr>) i
       = ((dh_key h)(p := dh_key h n)) i"
    by (rule drop_node [OF inv p(1), unfolded p(2), folded n_def]) (rule that)
  let ?h3 = "h1\<lparr>dh_heap := butlast (dh_heap h1), dh_entries := (dh_entries h1)(?s := None)\<rparr>"
  have w: "te_waker e = w" using h1(3) live by simp
  have len: "length (dh_heap ?h3) = n" "length (dh_heap h) = Suc n"
    using h1(4) p(1) by (auto simp: n_def)
  define up where "up \<longleftrightarrow> 0 < p \<and> dh_key ?h3 p < dh_key ?h3 (parent p)"
  have "\<exists>h'. (if p < n then if up then sift_up p ?h3 else sift_down p ?h3 else Some ?h3) = Some h'
      \<and> same_regs ?h3 h' \<and> dh_inv h'"
  proof (cases "p < n")
    case True
    have up_iff: "up \<longleftrightarrow> 0 < p \<and> dh_key h n < dh_key h (parent p)"
      using h3(3) True parent_less [of p] by (auto simp: up_def)
    have ord': "heap_ord (Suc n) (dh_key h)" using ord len by simp
    have "ord_up n (dh_key ?h3) p" if up
      using that up_iff
      by (intro ord_cong(1) [OF h3(3) [rule_format] True heap_ord_replace_up [OF ord' True]]) simp_all
    moreover have "ord_down n (dh_key ?h3) p" if "\<not> up"
      using that up_iff
      by (intro ord_cong(2) [OF h3(3) [rule_format] True heap_ord_replace_down [OF ord' True]]) auto
    ultimately show ?thesis
      using True sift_up_wf [OF h3(1), of p] sift_down_wf [OF h3(1), of p] len by (cases up) auto
  next
    case False
    then have "p = n" using p len by simp
    moreover have "heap_ord n (dh_key h)" using ord len by (simp add: heap_ord_def)
    ultimately have "heap_ord n (dh_key ?h3)" using h3(3)
      by (intro heap_ord_cong [of n "dh_key ?h3" "dh_key h"]) simp_all
    then show ?thesis using False h3(1) len by (simp add: dh_inv_def same_regs_refl)
  qed
  then obtain h' where h': "(if p < n then if up then sift_up p ?h3 else sift_down p ?h3 else Some ?h3) = Some h'"
    "same_regs ?h3 h'" "dh_inv h'"
    by (elim exE conjE) (rule that)
  have "dh_less ?h3 p (parent p) = Some up" if "p < n" "0 < p"
    using dh_less_wf [OF h3(1), of p "parent p"] that parent_less [of p] len by (simp add: up_def)
  moreover have "te_heap_index e0 = p" by (simp add: p_def)
  moreover have "up \<Longrightarrow> 0 < p" by (simp add: up_def)
  moreover have "p \<noteq> n \<longleftrightarrow> p < n" using p(1) len(2) by linarith
  moreover have "butlast (dh_heap h1) = [] \<longleftrightarrow> n = 0"
    using len(1) by (simp add: length_0_conv [symmetric] del: length_0_conv)
  ultimately have "dh_remove k h = Some (Some w, h')"
    unfolding dh_remove_def Let_def n_def [symmetric]
    using e0 h1(1,2) h'(1) w len
    by (cases "p < n"; cases "p = 0"; cases up) (simp_all add: slab_remove_def)
  then show ?thesis using h'(2,3) h3(2) h1(5) by (simp add: same_regs_def)
qed

lemma pop_root_inv:
  assumes inv: "dh_inv h" and ne: "dh_heap h \<noteq> []"
  shows "\<exists>e h'. pop_root h = Some (te_waker e, h') \<and> dh_inv h'
    \<and> dh_abs h (hd (dh_heap h)) = Some (te_deadline e, te_generation e, te_waker e)
    \<and> dh_abs h' = (dh_abs h)(hd (dh_heap h) := None)
    \<and> te_key e = dh_key h 0 \<and> dh_next_generation h' = dh_next_generation h"
proof -
  let ?s = "hd (dh_heap h)"
  define n where "n = length (dh_heap h) - 1"
  have p: "0 < length (dh_heap h)" "dh_heap h ! 0 = ?s" using ne by (auto simp: hd_conv_nth)
  obtain h1 e where h1: "(if 0 \<noteq> n then swap_nodes 0 n h else Some h) = Some h1"
    "dh_heap h1 \<noteq> []" "last (dh_heap h1) = ?s" "dh_entries h1 ?s = Some e"
    "dh_abs h ?s = Some (te_deadline e, te_generation e, te_waker e)"
    "te_key e = dh_key h 0" "length (dh_heap h1) = Suc n"
    "dh_next_generation h1 = dh_next_generation h"
    and h3: "dh_wf (h1\<lparr>dh_heap := butlast (dh_heap h1), dh_entries := (dh_entries h1)(?s := None)\<rparr>)"
    "dh_abs (h1\<lparr>dh_heap := butlast (dh_heap h1), dh_entries := (dh_entries h1)(?s := None)\<rparr>)
       = (dh_abs h)(?s := None)"
    "\<forall>i < n.
      dh_key (h1\<lparr>dh_heap := butlast (dh_heap h1), dh_entries := (dh_entries h1)(?s := None)\<rparr>) i
       = ((dh_key h)(0 := dh_key h n)) i"
    by (rule drop_node [OF inv p(1), unfolded p(2), folded n_def]) (rule that)
  let ?h3 = "h1\<lparr>dh_heap := butlast (dh_heap h1), dh_entries := (dh_entries h1)(?s := None)\<rparr>"
  have ord: "heap_ord (Suc n) (dh_key h)" using inv ne by (simp add: dh_inv_def n_def)
  have len: "length (dh_heap ?h3) = n" using h1(7) by simp
  have "\<exists>h'. (if n \<noteq> 0 then sift_down 0 ?h3 else Some ?h3) = Some h' \<and> same_regs ?h3 h' \<and> dh_inv h'"
  proof (cases "n = 0")
    case True
    then show ?thesis using h3(1) len by (simp add: dh_inv_def same_regs_refl heap_ord_def)
  next
    case False
    then have "ord_down n (dh_key ?h3) 0"
      by (intro ord_cong(2) [OF h3(3) [rule_format] _ heap_ord_replace_down [OF ord]]) simp_all
    then show ?thesis using sift_down_wf [OF h3(1), of 0] len False by simp
  qed
  then obtain h' where h': "(if n \<noteq> 0 then sift_down 0 ?h3 else Some ?h3) = Some h'"
    "same_regs ?h3 h'" "dh_inv h'"
    by (elim exE conjE) (rule that)
  have "butlast (dh_heap h1) \<noteq> [] \<longleftrightarrow> n \<noteq> 0"
    using len by (simp add: length_0_conv [symmetric] del: length_0_conv)
  then have "pop_root h = Some (te_waker e, h')"
    unfolding pop_root_def Let_def n_def [symmetric]
    using h1(1-4) h'(1) by (cases "n = 0") (simp_all add: slab_remove_def vec_pop_def)
  then show ?thesis
    using h'(2,3) h3(2) h1(5,6,8) by (intro exI [of _ e] exI [of _ h']) (simp add: same_regs_def)
qed

lemma dh_deadline_inv:
  assumes "dh_inv h"
  shows "dh_deadline h = Some (if dh_heap h = [] then None else Some (fst (dh_key h 0)))"
  using assms entry_at_wf [of h 0]
  by (cases "dh_heap h") (auto simp: dh_deadline_def dh_inv_def dh_key_def entry_at_def te_key_def)

subsection \<open>Draining the expired registrations\<close>

type_synonym 'w reg = "nat \<times> instant \<times> u64 \<times> 'w"

definition reg_key :: "'w reg \<Rightarrow> instant \<times> u64" where
  "reg_key = (\<lambda>(s, d, g, w). (d, g))"

definition reg_due :: "instant \<Rightarrow> 'w reg \<Rightarrow> bool" where
  "reg_due now = (\<lambda>(s, d, g, w). d \<le> now)"

definition reg_waker :: "'w reg \<Rightarrow> 'w" where
  "reg_waker = (\<lambda>(s, d, g, w). w)"

definition dh_pend :: "'w deadline_heap \<Rightarrow> 'w reg multiset" where
  "dh_pend h = image_mset (\<lambda>s. (s, the (dh_abs h s))) (mset_set (dom (dh_abs h)))"

definition earliest :: "(nat \<rightharpoonup> instant \<times> u64 \<times> 'w) \<Rightarrow> instant option" where
  "earliest m = (if dom m = {} then None else Some (Min (fst ` ran m)))"

definition heap_pop_due :: "instant \<Rightarrow> 'w deadline_heap \<Rightarrow> ('w reg \<times> 'w deadline_heap) option" where
  "heap_pop_due now h =
     (case dh_deadline h of
        Some (Some d) \<Rightarrow>
          if d \<le> now
          then map_option (\<lambda>(w, h'). ((hd (dh_heap h), the (dh_abs h (hd (dh_heap h)))), h')) (pop_root h)
          else None
      | _ \<Rightarrow> None)"

lemma dh_inv_dom:
  assumes "dh_inv h"
  shows "dom (dh_abs h) = set (dh_heap h)" "finite (dom (dh_abs h))"
  using assms dh_wf_dom [of h] by (simp_all add: dh_inv_def)

lemma set_dh_pend:
  "dh_inv h \<Longrightarrow> x \<in># dh_pend h \<longleftrightarrow> dh_abs h (fst x) = Some (snd x)"
  using dh_inv_dom(2) [of h] by (cases x) (auto simp: dh_pend_def image_iff dom_def)

lemma root_least:
  assumes inv: "dh_inv h" and r: "dh_abs h s = Some (d, g, w)"
  shows "dh_key h 0 \<le> (d, g)"
proof -
  obtain e where e: "dh_entries h s = Some e" "te_key e = (d, g)"
    using r by (auto simp: dh_abs_def te_key_def)
  have wf: "dh_wf h" using inv by (simp add: dh_inv_def)
  note ix = dh_wf_index [OF wf e(1)]
  have "dh_key h (te_heap_index e) = (d, g)" using ix e by (simp add: dh_key_def entry_at_def)
  then show ?thesis
    using heap_ord_root [of "length (dh_heap h)" "dh_key h" "te_heap_index e"] inv ix
    by (simp add: dh_inv_def)
qed

lemma root_reg:
  assumes inv: "dh_inv h" and ne: "dh_heap h \<noteq> []"
  obtains d g w where "dh_abs h (hd (dh_heap h)) = Some (d, g, w)" "dh_key h 0 = (d, g)"
proof -
  have "dh_wf h" "0 < length (dh_heap h)" using inv ne by (simp_all add: dh_inv_def)
  then obtain e where "dh_entries h (dh_heap h ! 0) = Some e" by (rule dh_wfD)
  then show ?thesis using ne
    by (intro that [of "te_deadline e" "te_generation e" "te_waker e"])
       (simp_all add: dh_abs_def dh_key_def entry_at_def hd_conv_nth te_key_def)
qed

lemma dh_deadline_earliest:
  assumes inv: "dh_inv h"
  shows "dh_deadline h = Some (earliest (dh_abs h))"
proof (cases "dh_heap h = []")
  case True
  then show ?thesis using inv dh_inv_dom [OF inv] by (simp add: dh_deadline_inv earliest_def)
next
  case False
  obtain d g w where r: "dh_abs h (hd (dh_heap h)) = Some (d, g, w)" "dh_key h 0 = (d, g)"
    using root_reg [OF inv False] .
  have "Min (fst ` ran (dh_abs h)) = d"
  proof (rule Min_eqI)
    show "finite (fst ` ran (dh_abs h))" using dh_inv_dom(2) [OF inv] by (simp add: finite_ran)
    show "d \<le> d'" if "d' \<in> fst ` ran (dh_abs h)" for d'
      using that root_least [OF inv] r(2) by (fastforce simp: ran_def less_eq_prod_def)
    show "d \<in> fst ` ran (dh_abs h)" using r(1) by (force simp: ran_def)
  qed
  moreover have "dom (dh_abs h) \<noteq> {}" using False dh_inv_dom(1) [OF inv] by simp
  ultimately show ?thesis using False r(2) inv by (simp add: dh_deadline_inv earliest_def)
qed

lemma dh_pend_remove:
  assumes "finite (dom (dh_abs h))" "dh_abs h' = (dh_abs h)(s := None)" "dh_abs h s = Some r"
  shows "dh_pend h = add_mset (s, r) (dh_pend h')"
proof -
  have dom: "dom (dh_abs h) = insert s (dom (dh_abs h'))" "s \<notin> dom (dh_abs h')"
    using assms(2,3) by (auto simp del: dom_dh_abs)
  have "image_mset (\<lambda>s. (s, the (dh_abs h s))) (mset_set (dom (dh_abs h'))) = dh_pend h'"
    unfolding dh_pend_def using assms(1,2) by (intro image_mset_cong) auto
  then show ?thesis
    unfolding dh_pend_def [of h] dom(1) using assms(1,3) dom by (simp del: dom_dh_abs)
qed

interpretation heap_due: timed_queue dh_inv dh_pend reg_key reg_due heap_pop_due
proof
  show "reg_due t x" if "reg_due t y" "reg_key x \<le> reg_key y" for t and x y :: "'w reg"
    using that by (auto simp: reg_due_def reg_key_def less_eq_prod_def split: prod.splits)
next
  fix s :: "'w deadline_heap" and t
  assume inv: "dh_inv s" and none: "heap_pop_due t s = None"
  show "dh_pend s = {#}
    \<or> (\<exists>x \<in># dh_pend s. \<not> reg_due t x \<and> (\<forall>y \<in># dh_pend s. reg_key x \<le> reg_key y))"
  proof (cases "dh_heap s = []")
    case True
    then show ?thesis using dh_inv_dom(1) [OF inv] by (simp add: dh_pend_def)
  next
    case ne: False
    obtain d g w where r: "dh_abs s (hd (dh_heap s)) = Some (d, g, w)" "dh_key s 0 = (d, g)"
      using root_reg [OF inv ne] .
    obtain w' h' where "pop_root s = Some (w', h')" using pop_root_inv [OF inv ne] by blast
    then have "\<not> d \<le> t"
      using none ne r(2) by (simp add: heap_pop_due_def dh_deadline_inv [OF inv] split: if_splits)
    moreover have "reg_key (hd (dh_heap s), d, g, w) \<le> reg_key y" if "y \<in># dh_pend s" for y
    proof -
      obtain i d' g' w' where y: "y = (i, d', g', w')" by (cases y) auto
      then show ?thesis
        using that set_dh_pend [OF inv] root_least [OF inv, of i d' g' w'] r(2) by (simp add: reg_key_def)
    qed
    ultimately show ?thesis
      using r(1) set_dh_pend [OF inv, of "(hd (dh_heap s), d, g, w)"]
      by (intro disjI2 bexI [of _ "(hd (dh_heap s), d, g, w)"]) (simp_all add: reg_due_def)
  qed
next
  fix s s' :: "'w deadline_heap" and t x
  assume inv: "dh_inv s" and some: "heap_pop_due t s = Some (x, s')"
  then have ne: "dh_heap s \<noteq> []" by (auto simp: heap_pop_due_def dh_deadline_inv split: if_splits)
  obtain e h' where p: "pop_root s = Some (te_waker e, h')" "dh_inv h'"
    "dh_abs s (hd (dh_heap s)) = Some (te_deadline e, te_generation e, te_waker e)"
    "dh_abs h' = (dh_abs s)(hd (dh_heap s) := None)" "te_key e = dh_key s 0"
    using pop_root_inv [OF inv ne] by blast
  have x: "x = (hd (dh_heap s), te_deadline e, te_generation e, te_waker e)" "s' = h'"
    and due: "fst (dh_key s 0) \<le> t"
    using some p ne by (auto simp: heap_pop_due_def dh_deadline_inv [OF inv] split: if_splits)
  have pend: "dh_pend s = add_mset x (dh_pend s')"
    unfolding x by (rule dh_pend_remove [OF dh_inv_dom(2) [OF inv] p(4,3)])
  have "reg_due t x" using due p(5) by (simp add: x reg_due_def te_key_def flip: p(5))
  moreover have "reg_key x \<le> reg_key y" if "y \<in># dh_pend s'" for y
  proof -
    obtain i d g w where y: "y = (i, d, g, w)" by (cases y) auto
    have "y \<in># dh_pend s" using that pend by simp
    then have "dh_abs s i = Some (d, g, w)" using set_dh_pend [OF inv] by (simp add: y)
    from root_least [OF inv this] show ?thesis by (simp add: x y reg_key_def te_key_def flip: p(5))
  qed
  ultimately show "dh_inv s' \<and> reg_due t x \<and> dh_pend s = add_mset x (dh_pend s')
      \<and> (\<forall>y \<in># dh_pend s'. reg_key x \<le> reg_key y)"
    using p(2) pend by (simp add: x(2))
qed

lemma pop_expired_drains:
  "heap_due.drains now h xs h' \<Longrightarrow> dh_inv h
    \<Longrightarrow> pop_expired now out h = Some (out @ map reg_waker xs, h')"
proof (induction arbitrary: out rule: heap_due.drains.induct)
  case (stop h)
  have "dh_heap h = [] \<or> \<not> fst (dh_key h 0) \<le> now"
    using stop pop_root_inv [of h]
    by (fastforce simp: heap_pop_due_def dh_deadline_inv split: if_splits)
  then show ?case using stop(2) by (subst pop_expired.simps) (auto simp: dh_deadline_inv)
next
  case (pop h x h' xs h'')
  have ne: "dh_heap h \<noteq> []"
    using pop(1,4) by (auto simp: heap_pop_due_def dh_deadline_inv split: if_splits)
  obtain e :: "'a timer_entry" and h1 where p: "pop_root h = Some (te_waker e, h1)"
    "dh_abs h (hd (dh_heap h)) = Some (te_deadline e, te_generation e, te_waker e)"
    using pop_root_inv [OF pop(4) ne] by blast
  have x: "reg_waker x = te_waker e" "h' = h1" and due: "fst (dh_key h 0) \<le> now"
    using pop(1,4) p ne by (auto simp: heap_pop_due_def dh_deadline_inv reg_waker_def split: if_splits)
  have "dh_inv h'" using heap_due.pop_Some [OF pop(4,1)] by simp
  then have "pop_expired now (out @ [te_waker e]) h' = Some ((out @ [te_waker e]) @ map reg_waker xs, h'')"
    by (rule pop(3))
  then show ?case using p(1) x due ne pop(4) by (subst pop_expired.simps) (simp add: dh_deadline_inv)
qed

lemma pop_expired_inv:
  assumes inv: "dh_inv h"
  obtains xs h' where "pop_expired now out h = Some (out @ map reg_waker xs, h')" "dh_inv h'"
    "sorted (map reg_key xs)" "mset xs = filter_mset (reg_due now) (dh_pend h)"
    "dh_pend h' = filter_mset (\<lambda>r. \<not> reg_due now r) (dh_pend h)"
proof -
  obtain xs h' where d: "heap_due.drains now h xs h'" using heap_due.drains_total [OF inv] by blast
  show ?thesis
    using that [OF pop_expired_drains [OF d inv]] heap_due.drains_pend [OF d inv]
      heap_due.drains_sorted [OF d inv] by blast
qed

subsection \<open>Generations\<close>

lemma u64_lt: "unat (g :: u64) < 2 ^ 64"
  using unsigned_less [of g, where 'a = nat] by simp

lemma unat_next_gen: "unat (next_gen g) = unat g mod (2 ^ 64 - 1) + 1"
proof -
  have sum: "unat (g + 1) = (unat g + 1) mod 2 ^ 64" by (simp add: unat_word_ariths)
  show ?thesis
  proof (cases "g + 1 = 0")
    case True
    with sum have "(unat g + 1) mod 2 ^ 64 = 0" by simp
    with u64_lt [of g] have "unat g = 2 ^ 64 - 1" by (cases "unat g + 1 = 2 ^ 64") auto
    with True show ?thesis by (simp add: next_gen_def)
  next
    case False
    then have "unat (g + 1) \<noteq> 0" by (simp add: unat_eq_0)
    with sum u64_lt [of g] have "unat g + 1 < 2 ^ 64" by (cases "unat g + 1 = 2 ^ 64") auto
    with False sum show ?thesis by (simp add: next_gen_def)
  qed
qed

lemma unat_next_gen_iterate:
  assumes "0 < unat g"
  shows "unat ((next_gen ^^ k) g) = (unat g - 1 + k) mod (2 ^ 64 - 1) + 1"
proof (induction k)
  case 0
  have "unat g - 1 < 2 ^ 64 - 1" using assms u64_lt [of g] by simp
  then show ?case using assms by simp
next
  case (Suc k)
  then show ?case by (simp add: unat_next_gen mod_simps)
qed

lemma next_gen_no_repeat:
  assumes g: "g \<noteq> 0" and k: "0 < k" "k < 2 ^ 64 - 1"
  shows "(next_gen ^^ k) g \<noteq> g"
proof
  let ?a = "unat g - 1" and ?m = "2 ^ 64 - 1 :: nat"
  assume "(next_gen ^^ k) g = g"
  moreover have "0 < unat g" using g by (simp add: unat_gt_0)
  ultimately have "(?a + k) mod ?m = ?a" using unat_next_gen_iterate [of g k] by simp
  moreover have "?a < ?m" using u64_lt [of g] by simp
  ultimately have "(?a + k) mod ?m = (?a + 0) mod ?m" by simp
  then have "?m dvd ?a + k - (?a + 0)" by (subst (asm) mod_eq_iff_dvd_symdiff_nat) simp
  then have "?m dvd k" by simp
  then show False using k by (auto dest: dvd_imp_le)
qed

lemma next_gen_nonzero: "next_gen g \<noteq> 0"
  by (simp add: next_gen_def)

text \<open>Any sequence of operations on a heap, with the number of insertions in it.\<close>

inductive heap_run :: "nat \<Rightarrow> 'w deadline_heap \<Rightarrow> 'w deadline_heap \<Rightarrow> bool" where
  refl: "heap_run 0 h h"
| insert: "heap_run n h h1 \<Longrightarrow> slot \<notin> dom (dh_entries h1) \<Longrightarrow> dh_insert slot d w h1 = Some (k, h2)
    \<Longrightarrow> heap_run (Suc n) h h2"
| remove: "heap_run n h h1 \<Longrightarrow> dh_remove k h1 = Some (r, h2) \<Longrightarrow> heap_run n h h2"
| pop: "heap_run n h h1 \<Longrightarrow> pop_expired now out h1 = Some (out', h2) \<Longrightarrow> heap_run n h h2"
| waker: "heap_run n h h1 \<Longrightarrow> heap_run n h (set_waker s w h1)"

lemma set_waker_inv:
  assumes "dh_inv h"
  shows "dh_inv (set_waker s w h)"
proof -
  let ?h = "set_waker s w h"
  have "dh_wf ?h" using assms by (auto simp: dh_inv_def dh_wf_def set_waker_def)
  moreover have "entry_at ?h i = map_option (\<lambda>e. if dh_heap h ! i = s then e\<lparr>te_waker := w\<rparr> else e) (entry_at h i)" for i
    by (cases "i < length (dh_heap h)")
       (auto simp: entry_at_def set_waker_def option.map_ident map_option_case split: option.splits)
  then have "dh_key ?h i = dh_key h i" for i
    by (simp add: dh_key_def te_key_def option.case_eq_if option.map_sel)
  then have "dh_key ?h = dh_key h" by (rule ext)
  ultimately show ?thesis using assms by (simp add: dh_inv_def set_waker_def)
qed

lemma dh_abs_set_waker:
  "dh_abs (set_waker s w h) = (dh_abs h)(s := map_option (\<lambda>(d, g, _). (d, g, w)) (dh_abs h s))"
  by (auto simp: dh_abs_def set_waker_def option.map_comp comp_def)

lemma dh_remove_cases:
  assumes inv: "dh_inv h" and r: "dh_remove k h = Some (r, h')"
  shows "dh_inv h'" "dh_next_generation h' = dh_next_generation h" "dh_abs h' \<subseteq>\<^sub>m dh_abs h"
    "\<And>d w. dh_abs h' (th_slab_index k) \<noteq> Some (d, th_generation k, w)"
proof -
  have "dh_inv h' \<and> dh_next_generation h' = dh_next_generation h \<and> dh_abs h' \<subseteq>\<^sub>m dh_abs h
    \<and> (\<forall>d w. dh_abs h' (th_slab_index k) \<noteq> Some (d, th_generation k, w))"
  proof (cases "\<exists>d w. dh_abs h (th_slab_index k) = Some (d, th_generation k, w)")
    case True
    then obtain d w where "dh_abs h (th_slab_index k) = Some (d, th_generation k, w)" by blast
    from dh_remove_live [OF inv this] r show ?thesis by (auto simp: map_le_def)
  next
    case False
    then have "dh_remove k h = Some (None, h)"
      by (auto simp: dh_remove_def dh_abs_def split: option.splits)
    with r inv False show ?thesis by auto
  qed
  then show "dh_inv h'" "dh_next_generation h' = dh_next_generation h" "dh_abs h' \<subseteq>\<^sub>m dh_abs h"
    "\<And>d w. dh_abs h' (th_slab_index k) \<noteq> Some (d, th_generation k, w)" by blast+
qed

lemma drains_gen:
  "heap_due.drains now h xs h' \<Longrightarrow> dh_inv h \<Longrightarrow> dh_next_generation h' = dh_next_generation h"
proof (induction rule: heap_due.drains.induct)
  case (pop h x h' xs h'')
  have ne: "dh_heap h \<noteq> []"
    using pop(1,4) by (auto simp: heap_pop_due_def dh_deadline_inv split: if_splits)
  have "dh_next_generation h' = dh_next_generation h"
    using pop_root_inv [OF pop(4) ne] pop(1,4) ne
    by (auto simp: heap_pop_due_def dh_deadline_inv split: if_splits)
  then show ?case using pop(3) heap_due.pop_Some [OF pop(4,1)] by simp
qed simp

lemma pop_expired_cases:
  assumes inv: "dh_inv h" and r: "pop_expired now out h = Some (out', h')"
  shows "dh_inv h'" "dh_next_generation h' = dh_next_generation h" "dh_abs h' \<subseteq>\<^sub>m dh_abs h"
proof -
  obtain xs h1 where d: "heap_due.drains now h xs h1" using heap_due.drains_total [OF inv] by blast
  have h1: "h1 = h'" using pop_expired_drains [OF d inv, of out] r by simp
  note p = heap_due.drains_pend [OF d inv, unfolded h1]
  show "dh_inv h'" using p by simp
  show "dh_next_generation h' = dh_next_generation h" using drains_gen [OF d inv] h1 by simp
  have "dh_abs h s = Some v" if "dh_abs h' s = Some v" for s v
    using that p set_dh_pend [OF inv, of "(s, v)"] set_dh_pend [of h' "(s, v)"] by auto
  then show "dh_abs h' \<subseteq>\<^sub>m dh_abs h" by (auto simp: map_le_def dom_def simp del: dom_dh_abs)
qed

lemma heap_run_gen:
  "heap_run n h h' \<Longrightarrow> dh_inv h
    \<Longrightarrow> dh_inv h' \<and> dh_next_generation h' = (next_gen ^^ n) (dh_next_generation h)"
proof (induction rule: heap_run.induct)
  case (insert n h h1 slot d w k h2)
  then show ?case using dh_insert_inv [of h1 slot d w] by auto
next
  case (remove n h h1 k r h2)
  then show ?case using dh_remove_cases [of h1 k r h2] by simp
next
  case (pop n h h1 now out out' h2)
  then show ?case using pop_expired_cases [of h1 now out out' h2] by simp
next
  case (waker n h h1 s w)
  then show ?case using set_waker_inv [of h1 s w] by (simp add: set_waker_def)
qed simp

lemma heap_run_stale:
  assumes "heap_run n h h'" "dh_inv h" "dh_next_generation h = (next_gen ^^ m) g" "g \<noteq> 0"
    and "\<And>d w. dh_abs h s \<noteq> Some (d, g, w)" "m + n < 2 ^ 64 - 1"
  shows "dh_inv h' \<and> dh_next_generation h' = (next_gen ^^ (m + n)) g
    \<and> (\<forall>d w. dh_abs h' s \<noteq> Some (d, g, w))"
  using assms
proof (induction rule: heap_run.induct)
  case (insert n h h1 slot d w k h2)
  then have h1: "dh_inv h1" "dh_next_generation h1 = (next_gen ^^ (m + n)) g"
    "\<And>d w. dh_abs h1 s \<noteq> Some (d, g, w)" by auto
  have h2: "dh_inv h2" "dh_abs h2 = (dh_abs h1)(slot \<mapsto> (d, next_gen (dh_next_generation h1), w))"
    "dh_next_generation h2 = next_gen (dh_next_generation h1)"
    using dh_insert_inv [OF h1(1) insert(2), of d w] insert(3) by auto
  have "next_gen (dh_next_generation h1) = (next_gen ^^ (m + Suc n)) g" using h1(2) by simp
  moreover have "(next_gen ^^ (m + Suc n)) g \<noteq> g"
    by (rule next_gen_no_repeat) (use insert.prems in auto)
  ultimately show ?case using h1 h2 by auto
next
  case (remove n h h1 k r h2)
  then have "dh_inv h1" "\<forall>d w. dh_abs h1 s \<noteq> Some (d, g, w)" by auto
  with dh_remove_cases [OF _ remove(2)] remove show ?case
    by (metis domI map_le_def)
next
  case (pop n h h1 now out out' h2)
  then have "dh_inv h1" "\<forall>d w. dh_abs h1 s \<noteq> Some (d, g, w)" by auto
  with pop_expired_cases [OF _ pop(2)] pop show ?case by (metis domI map_le_def)
next
  case (waker n h h1 t w)
  then show ?case using set_waker_inv [of h1 t w]
    by (auto simp: dh_abs_set_waker) (auto simp: set_waker_def)
qed simp

subsection \<open>Properties of the deadline heap\<close>

text \<open>
  Inserting a timer into a well-formed heap never indexes out of range; it returns a handle
  for the slab slot with a fresh non-zero generation, keeps the heap well formed, and adds exactly
  that registration.\<close>

lemma dh_insert_correct:
  assumes "dh_inv h" "slot \<notin> dom (dh_entries h)"
  shows "\<exists>g h'. dh_insert slot d w h = Some (\<lparr>th_slab_index = slot, th_generation = g\<rparr>, h')
    \<and> g \<noteq> 0 \<and> dh_inv h' \<and> dh_abs h' = (dh_abs h)(slot \<mapsto> (d, g, w))"
  using dh_insert_inv [OF assms, of d w] next_gen_nonzero by blast

lemma dh_inv_new: "dh_inv dh_new" "dh_abs dh_new = Map.empty" "dh_entries dh_new = Map.empty"
  "dh_next_generation dh_new = 0"
  by (simp_all add: dh_inv_def dh_wf_def heap_ord_def dh_new_def dh_abs_def)

text \<open>C12. Removing by handle: a handle whose slot holds an entry of the same generation removes
  exactly that registration and returns its waker, whatever its position in the heap; any other
  handle (expired, cancelled or reused slot) leaves the heap untouched and returns nothing.\<close>

theorem dh_remove_correct:
  assumes "dh_inv h"
  shows "case dh_abs h (th_slab_index k) of
      Some (d, g, w) \<Rightarrow>
        if g = th_generation k
        then \<exists>h'. dh_remove k h = Some (Some w, h') \<and> dh_inv h' \<and> dh_abs h' = (dh_abs h)(th_slab_index k := None)
        else dh_remove k h = Some (None, h)
    | None \<Rightarrow> dh_remove k h = Some (None, h)"
proof (cases "dh_abs h (th_slab_index k)")
  case None
  then show ?thesis by (simp add: dh_remove_def dh_abs_def)
next
  case (Some r)
  obtain d g w where r: "r = (d, g, w)" by (cases r) auto
  show ?thesis
  proof (cases "g = th_generation k")
    case True
    then show ?thesis using dh_remove_live [OF assms, of k d w] Some r by auto
  next
    case False
    then show ?thesis using Some r by (auto simp: dh_remove_def dh_abs_def)
  qed
qed

lemma demo_heap:
  obtains h :: "string deadline_heap" where "dh_inv h"
    "dh_abs h = [0 \<mapsto> (30, 1, ''a''), 1 \<mapsto> (10, 2, ''b''), 2 \<mapsto> (20, 3, ''c'')]"
proof -
  obtain h1 where h1: "dh_inv h1" "dh_abs h1 = [0 \<mapsto> (30, 1, ''a'')]" "dh_next_generation h1 = 1"
    using dh_insert_inv [OF dh_inv_new(1), of 0 30 "''a''"]
    by (auto simp: dh_inv_new next_gen_def)
  obtain h2 where h2: "dh_inv h2" "dh_abs h2 = [0 \<mapsto> (30, 1, ''a''), 1 \<mapsto> (10, 2, ''b'')]"
    "dh_next_generation h2 = 2"
    using dh_insert_inv [OF h1(1), of 1 10 "''b''"] h1(2,3)
    by (auto simp: next_gen_def simp flip: dom_dh_abs)
  obtain h3 where "dh_inv h3"
    "dh_abs h3 = [0 \<mapsto> (30, 1, ''a''), 1 \<mapsto> (10, 2, ''b''), 2 \<mapsto> (20, 3, ''c'')]"
    using dh_insert_inv [OF h2(1), of 2 20 "''c''"] h2(2,3)
    by (auto simp: next_gen_def simp flip: dom_dh_abs)
  then show ?thesis by (rule that)
qed

theorem dh_remove_correct_witness:
  "\<exists>h h'. dh_abs h = [0 \<mapsto> (30, 1, ''a''), 1 \<mapsto> (10, 2, ''b''), 2 \<mapsto> (20, 3, ''c'')]
    \<and> dh_remove \<lparr>th_slab_index = 1, th_generation = 2\<rparr> h = Some (Some ''b'', h')
    \<and> dh_abs h' = [0 \<mapsto> (30, 1, ''a''), 2 \<mapsto> (20, 3, ''c'')]"
proof -
  obtain h :: "string deadline_heap" where h: "dh_inv h"
    "dh_abs h = [0 \<mapsto> (30, 1, ''a''), 1 \<mapsto> (10, 2, ''b''), 2 \<mapsto> (20, 3, ''c'')]"
    by (rule demo_heap)
  from dh_remove_correct [OF h(1), of "\<lparr>th_slab_index = 1, th_generation = 2\<rparr>"] h(2)
  obtain h' where "dh_remove \<lparr>th_slab_index = 1, th_generation = 2\<rparr> h = Some (Some ''b'', h')"
    "dh_abs h' = (dh_abs h)(1 := None)" by auto
  with h(2) show ?thesis by (intro exI [of _ h] exI [of _ h']) (auto simp: fun_eq_iff)
qed

text \<open>C11. \<open>pop_expired\<close> appends to its output exactly the wakers of the registrations whose deadline
  has passed, each once, ordered by deadline and then by generation; the others stay registered and
  the heap stays well formed. It does not panic and ends for every heap.\<close>

theorem pop_expired_correct:
  assumes "dh_inv h"
  shows "\<exists>xs h'. pop_expired now out h = Some (out @ map reg_waker xs, h') \<and> dh_inv h'
    \<and> sorted (map reg_key xs) \<and> mset xs = filter_mset (reg_due now) (dh_pend h)
    \<and> dh_pend h' = filter_mset (\<lambda>r. \<not> reg_due now r) (dh_pend h)"
  using pop_expired_inv [OF assms, of now out] by metis

theorem pop_expired_correct_witness:
  "\<exists>h xs h'. dh_pend h = {#(0, 30, 1, ''a''), (1, 10, 2, ''b''), (2, 20, 3, ''c'')#}
    \<and> pop_expired 20 [] h = Some (map reg_waker xs, h')
    \<and> mset xs = {#(1, 10, 2, ''b''), (2, 20, 3, ''c'')#} \<and> sorted (map reg_key xs)
    \<and> dh_pend h' = {#(0, 30, 1, ''a'')#}"
proof -
  obtain h :: "string deadline_heap" where h: "dh_inv h"
    "dh_abs h = [0 \<mapsto> (30, 1, ''a''), 1 \<mapsto> (10, 2, ''b''), 2 \<mapsto> (20, 3, ''c'')]"
    by (rule demo_heap)
  have "dom (dh_abs h) = {0, 1, 2}" using h(2) by (auto simp del: dom_dh_abs)
  then have p: "dh_pend h = {#(0, 30, 1, ''a''), (1, 10, 2, ''b''), (2, 20, 3, ''c'')#}"
    by (simp add: dh_pend_def h(2) add_mset_commute del: dom_dh_abs)
  from pop_expired_correct [OF h(1), of 20 "[]"] show ?thesis
    by (intro exI [of _ h]) (auto simp: p reg_due_def)
qed

text \<open>C20. A handle stays stale: once its registration has been removed, a later cancellation through
  the same handle is a no-op, whatever is inserted, removed, expired or re-armed in between, even
  when the slab slot has been reused, as long as fewer than \<open>2 ^ 64 - 1\<close> timers are inserted in
  total (the generation counter wraps, skipping 0).\<close>

theorem stale_handle_is_noop:
  assumes "dh_inv h0" "slot \<notin> dom (dh_entries h0)" "dh_insert slot d w h0 = Some (k, h1)"
    and "heap_run m h1 h2" "dh_remove k h2 = Some (r, h3)"
    and "heap_run n h3 h4" "m + n < 2 ^ 64 - 1"
  shows "dh_remove k h4 = Some (None, h4)"
proof -
  obtain g where g: "k = \<lparr>th_slab_index = slot, th_generation = g\<rparr>" "g \<noteq> 0" "dh_inv h1"
    "dh_next_generation h1 = g"
    using dh_insert_inv [OF assms(1,2), of d w] assms(3) next_gen_nonzero by auto
  have h2: "dh_inv h2 \<and> dh_next_generation h2 = (next_gen ^^ m) g"
    using heap_run_gen [OF assms(4) g(3)] g(4) by simp
  then have h3: "dh_inv h3" "dh_next_generation h3 = (next_gen ^^ m) g"
    "\<And>d w. dh_abs h3 slot \<noteq> Some (d, g, w)"
    using dh_remove_cases [OF _ assms(5)] g(1) by auto
  have "\<forall>d w. dh_abs h4 slot \<noteq> Some (d, g, w)"
    using heap_run_stale [OF assms(6) h3(1,2) g(2) h3(3) assms(7)] by simp
  then show ?thesis using g(1) by (auto simp: dh_remove_def dh_abs_def split: option.splits)
qed

theorem stale_handle_is_noop_witness:
  "\<exists>k h1 h3 k' h4. dh_insert 0 30 ''a'' dh_new = Some (k, h1) \<and> dh_remove k h1 = Some (Some ''a'', h3)
    \<and> dh_insert 0 40 ''b'' h3 = Some (k', h4) \<and> th_slab_index k' = th_slab_index k
    \<and> dh_remove k h4 = Some (None, h4)"
proof -
  let ?k = "\<lparr>th_slab_index = 0, th_generation = 1 :: u64\<rparr>"
  obtain h1 where h1: "dh_insert 0 30 ''a'' dh_new = Some (?k, h1)" "dh_inv h1"
    "dh_abs h1 = [0 \<mapsto> (30, 1, ''a'')]"
    using dh_insert_inv [OF dh_inv_new(1), of 0 30 "''a''"] by (auto simp: dh_inv_new next_gen_def)
  obtain h3 where h3: "dh_remove ?k h1 = Some (Some ''a'', h3)" "dh_inv h3" "dh_abs h3 = Map.empty"
    using dh_remove_live [OF h1(2), of ?k 30 "''a''"] h1(3) by auto
  have slot: "0 \<notin> dom (dh_entries h3)" using h3(3) by (simp flip: dom_dh_abs)
  obtain k' h4 where h4: "dh_insert 0 40 ''b'' h3 = Some (k', h4)" "th_slab_index k' = 0"
    using dh_insert_inv [OF h3(2) slot, of 40 "''b''"] by auto
  have run: "heap_run (Suc 0) h3 h4" by (rule heap_run.insert [OF heap_run.refl slot h4(1)])
  have "dh_remove ?k h4 = Some (None, h4)"
    by (rule stale_handle_is_noop [OF dh_inv_new(1) _ h1(1) heap_run.refl h3(1) run])
       (simp_all add: dh_inv_new)
  with h1 h3 h4 show ?thesis by auto
qed

subsection \<open>Properties of the timer\<close>

definition timer_inv :: "'w timer \<Rightarrow> bool" where
  "timer_inv t \<longleftrightarrow> dh_inv (tm_deadlines t) \<and> tm_expired t = []"

lemma fold_wake_inv:
  "(\<And>w st. timer_inv (snd st) \<Longrightarrow> timer_inv (snd (wake w st))) \<Longrightarrow> timer_inv (snd st)
    \<Longrightarrow> timer_inv (snd (fold wake ws st))"
  by (induction ws arbitrary: st) auto

lemma spin_spec:
  assumes wake: "\<And>w st. timer_inv (snd st) \<Longrightarrow> timer_inv (snd (wake w st))"
    and inv: "timer_inv t"
  shows "\<exists>xs h st'. spin_and_get_deadline wake now now2 keep (s, t)
      = Some ((map_option (\<lambda>d. d - now2) (earliest (dh_abs (tm_deadlines (snd st')))), xs \<noteq> []), st')
    \<and> sorted (map reg_key xs) \<and> mset xs = filter_mset (reg_due now) (dh_pend (tm_deadlines t))
    \<and> dh_pend h = filter_mset (\<lambda>r. \<not> reg_due now r) (dh_pend (tm_deadlines t))
    \<and> st' = fold wake (map reg_waker xs) (s, t\<lparr>tm_deadlines := h\<rparr>) \<and> timer_inv (snd st')"
proof -
  have t: "dh_inv (tm_deadlines t)" "tm_expired t = []" using inv by (auto simp: timer_inv_def)
  obtain xs h where x: "pop_expired now [] (tm_deadlines t) = Some (map reg_waker xs, h)" "dh_inv h"
    "sorted (map reg_key xs)" "mset xs = filter_mset (reg_due now) (dh_pend (tm_deadlines t))"
    "dh_pend h = filter_mset (\<lambda>r. \<not> reg_due now r) (dh_pend (tm_deadlines t))"
    using pop_expired_inv [OF t(1), of now "[]"] by (metis append_Nil)
  define st where "st = fold wake (map reg_waker xs) (s, t\<lparr>tm_expired := [], tm_deadlines := h\<rparr>)"
  have st: "timer_inv (snd st)"
    unfolding st_def using wake by (rule fold_wake_inv) (simp_all add: timer_inv_def x(2))
  then have keep: "(fst st, (snd st)\<lparr>tm_expired := if keep then [] else tm_expired (snd st)\<rparr>) = st"
    by (cases st) (auto simp: timer_inv_def)
  have "t\<lparr>tm_expired := [], tm_deadlines := h\<rparr> = t\<lparr>tm_deadlines := h\<rparr>"
    using t(2) by (cases t) simp
  then have st': "st = fold wake (map reg_waker xs) (s, t\<lparr>tm_deadlines := h\<rparr>)"
    by (simp add: st_def)
  have "dh_deadline (tm_deadlines (snd st)) = Some (earliest (dh_abs (tm_deadlines (snd st))))"
    using st by (simp add: timer_inv_def dh_deadline_earliest)
  then have "spin_and_get_deadline wake now now2 keep (s, t)
      = Some ((map_option (\<lambda>d. d - now2) (earliest (dh_abs (tm_deadlines (snd st)))), xs \<noteq> []), st)"
    unfolding spin_and_get_deadline_def Let_def snd_conv fst_conv t(2) x(1) bind.bind_lunit
      prod.case st_def [symmetric] keep by simp
  then show ?thesis using x(3-5) st st' by blast
qed

text \<open>C13. One spin of the timer: it wakes exactly the registrations due at the first clock reading,
  in deadline order, each once, even though a wake may re-enter the timer; it reports whether any
  was woken, and the time left (saturating at zero, by the second clock reading) until the earliest
  registration there is \<^emph>\<open>after\<close> the wakers ran.\<close>

theorem spin_wakes_due:
  assumes wake: "\<And>w st. timer_inv (snd st) \<Longrightarrow> timer_inv (snd (wake w st))"
    and inv: "timer_inv t"
  shows "\<exists>xs h st'. spin_and_get_deadline wake now now2 keep (s, t)
      = Some ((map_option (\<lambda>d. d - now2) (earliest (dh_abs (tm_deadlines (snd st')))), xs \<noteq> []), st')
    \<and> sorted (map reg_key xs) \<and> mset xs = filter_mset (reg_due now) (dh_pend (tm_deadlines t))
    \<and> dh_pend h = filter_mset (\<lambda>r. \<not> reg_due now r) (dh_pend (tm_deadlines t))
    \<and> st' = fold wake (map reg_waker xs) (s, t\<lparr>tm_deadlines := h\<rparr>) \<and> timer_inv (snd st')"
  by (rule spin_spec [OF wake inv])

lemma fold_log: "fst (fold (\<lambda>w (log, t). (log @ [w], t)) ws (l, t)) = l @ ws"
  by (induction ws arbitrary: l) auto

theorem spin_wakes_due_witness:
  "\<exists>t xs st'. spin_and_get_deadline (\<lambda>w (log, t). (log @ [w], t)) 20 25 True ([], t)
      = Some ((map_option (\<lambda>d. d - 25) (earliest (dh_abs (tm_deadlines (snd st')))), True), st')
    \<and> mset xs = {#(1, 10, 2, ''b''), (2, 20, 3, ''c'')#} \<and> sorted (map reg_key xs)
    \<and> fst st' = map reg_waker xs \<and> timer_inv (snd st')"
proof -
  obtain h :: "string deadline_heap" where h: "dh_inv h"
    "dh_abs h = [0 \<mapsto> (30, 1, ''a''), 1 \<mapsto> (10, 2, ''b''), 2 \<mapsto> (20, 3, ''c'')]"
    by (rule demo_heap)
  have "dom (dh_abs h) = {0, 1, 2}" using h(2) by (auto simp del: dom_dh_abs)
  then have p: "dh_pend h = {#(0, 30, 1, ''a''), (1, 10, 2, ''b''), (2, 20, 3, ''c'')#}"
    by (simp add: dh_pend_def h(2) add_mset_commute del: dom_dh_abs)
  let ?t = "\<lparr>tm_deadlines = h, tm_expired = []\<rparr>"
  let ?wake = "\<lambda>w (log, t). (log @ [w :: string], t :: string timer)"
  have inv: "timer_inv ?t" using h(1) by (simp add: timer_inv_def)
  have "timer_inv (snd (?wake w st))" if "timer_inv (snd st)" for w st using that by (cases st) simp
  from spin_wakes_due [of ?wake ?t 20 25 True "[]", OF this inv] obtain xs h' st' where
    x: "spin_and_get_deadline ?wake 20 25 True ([], ?t)
      = Some ((map_option (\<lambda>d. d - 25) (earliest (dh_abs (tm_deadlines (snd st')))), xs \<noteq> []), st')"
    "sorted (map reg_key xs)" "mset xs = filter_mset (reg_due 20) (dh_pend (tm_deadlines ?t))"
    "st' = fold ?wake (map reg_waker xs) ([], ?t\<lparr>tm_deadlines := h'\<rparr>)" "timer_inv (snd st')"
    by blast
  have "fst st' = map reg_waker xs" unfolding x(4) by (simp add: fold_log)
  moreover from x(3) have "mset xs = {#(1, 10, 2, ''b''), (2, 20, 3, ''c'')#}"
    by (simp add: p reg_due_def)
  ultimately show ?thesis using x(1,2,5)
    by (intro exI [of _ ?t] exI [of _ xs] exI [of _ st']) auto
qed

end
