(* ===== verification/Callbacks.thy ===== *)
theory Callbacks
  imports Prelude
begin

section \<open>Callback values and their invocation (engine/callbacks.rs)\<close>

text \<open>
  \<open>ReadyCallback\<close>, its compact encoding of the scheduling source and of the arguments, and its
  invocation inside a captured context. Python objects are a type \<open>'p\<close>; what the interpreter does
  (calling an object, entering and leaving a context, building and reading a tuple) is passed in as
  functions on the interpreter's state \<open>'s\<close>. A Python exception is a value of type \<open>'e\<close>.
\<close>

datatype callback_kind = Soon | Threadsafe | Timer | Signal int | Reader int | Writer int

datatype callback_source = SSoon | SThreadsafe | STimer | SSignal | SReader | SWriter

datatype 'p callback_args = ANone | AOne 'p | AMany "'p list"

record 'p ready_callback =
  rc_id :: u64
  rc_source :: callback_source
  rc_source_value :: "int list"
  rc_callback :: 'p
  rc_args :: "'p option"
  rc_args_are_tuple :: bool
  rc_context :: 'p
  rc_context_needs_run :: bool
  rc_cancelled :: bool

definition encode_kind :: "callback_kind \<Rightarrow> callback_source \<times> int" where
  "encode_kind k =
     (case k of
        Soon \<Rightarrow> (SSoon, 0)
      | Threadsafe \<Rightarrow> (SThreadsafe, 0)
      | Timer \<Rightarrow> (STimer, 0)
      | Signal signal \<Rightarrow> (SSignal, signal)
      | Reader fd \<Rightarrow> (SReader, fd)
      | Writer fd \<Rightarrow> (SWriter, fd))"

definition from_args ::
    "('p list \<Rightarrow> 'p) \<Rightarrow> u64 \<Rightarrow> callback_kind \<Rightarrow> 'p \<Rightarrow> 'p callback_args \<Rightarrow> 'p \<Rightarrow> bool
      \<Rightarrow> 'p ready_callback" where
  "from_args tuple cid kind callback cargs context needs_run =
     (let (source, source_value) = encode_kind kind;
          (args, is_tuple) =
            (case cargs of
               ANone \<Rightarrow> (None, False)
             | AOne arg \<Rightarrow> (Some arg, False)
             | AMany xs \<Rightarrow> (Some (tuple xs), True))
      in \<lparr>rc_id = cid, rc_source = source, rc_source_value = [source_value],
          rc_callback = callback, rc_args = args, rc_args_are_tuple = is_tuple,
          rc_context = context, rc_context_needs_run = needs_run, rc_cancelled = False\<rparr>)"

definition ready_new ::
    "('p list \<Rightarrow> 'p) \<Rightarrow> u64 \<Rightarrow> callback_kind \<Rightarrow> 'p \<Rightarrow> 'p list \<Rightarrow> 'p \<Rightarrow> bool
      \<Rightarrow> 'p ready_callback" where
  "ready_new tuple cid kind callback args_tuple context needs_run =
     (let args = (case args_tuple of [] \<Rightarrow> ANone | [x] \<Rightarrow> AOne x | xs \<Rightarrow> AMany xs)
      in from_args tuple cid kind callback args context needs_run)"

text \<open>\<open>source_value[0]\<close> panics for a \<open>ReadyCallback<0>\<close>; \<open>None\<close> is that panic.\<close>

definition kind :: "'p ready_callback \<Rightarrow> callback_kind option" where
  "kind rc =
     (case rc_source rc of
        SSoon \<Rightarrow> Some Soon
      | SThreadsafe \<Rightarrow> Some Threadsafe
      | STimer \<Rightarrow> Some Timer
      | SSignal \<Rightarrow> map_option Signal (vec_get (rc_source_value rc) 0)
      | SReader \<Rightarrow> map_option Reader (vec_get (rc_source_value rc) 0)
      | SWriter \<Rightarrow> map_option Writer (vec_get (rc_source_value rc) 0))"

definition ready_cancel :: "'p ready_callback \<Rightarrow> 'p ready_callback" where
  "ready_cancel rc = rc\<lparr>rc_cancelled := True\<rparr>"

definition pyhandle_new :: "'p ready_callback \<Rightarrow> 'p ready_callback option" where
  "pyhandle_new rc =
     (if rc_source rc \<in> {SSoon, SThreadsafe} then Some (rc\<lparr>rc_source_value := []\<rparr>) else None)"

definition invoke_direct ::
    "('p \<Rightarrow> 'p list \<Rightarrow> 's \<Rightarrow> ('e + 'p) \<times> 's) \<Rightarrow> ('p \<Rightarrow> 'p list) \<Rightarrow> 'p ready_callback \<Rightarrow> 's
      \<Rightarrow> ('e + 'p) \<times> 's" where
  "invoke_direct call items rc st =
     (case rc_args rc of
        None \<Rightarrow> call (rc_callback rc) [] st
      | Some arg \<Rightarrow>
          if \<not> rc_args_are_tuple rc then call (rc_callback rc) [arg] st
          else call (rc_callback rc) (items arg) st)"

text \<open>The context operations of the interpreter, and the thread's slot for a reusable empty context.\<close>

record ('p, 'e, 's) context_api =
  api_new :: "'s \<Rightarrow> ('e + 'p) \<times> 's"
  api_enter :: "'p \<Rightarrow> 's \<Rightarrow> 'e option \<times> 's"
  api_exit :: "'p \<Rightarrow> 's \<Rightarrow> 'e option \<times> 's"
  api_is_nested :: "'e \<Rightarrow> bool"
  api_is_none :: "'p \<Rightarrow> bool"
  api_reusable :: "'p \<Rightarrow> 's \<Rightarrow> bool"

record ('p, 's) thread_state =
  th_py :: 's
  th_empty_context :: "'p option"

definition empty_callback_context ::
    "('p, 'e, 's) context_api \<Rightarrow> ('p, 's) thread_state \<Rightarrow> ('e + 'p) \<times> ('p, 's) thread_state" where
  "empty_callback_context api st =
     (case th_empty_context st of
        Some context \<Rightarrow> (Inr context, st\<lparr>th_empty_context := None\<rparr>)
      | None \<Rightarrow> (let (r, s) = api_new api (th_py st) in (r, st\<lparr>th_py := s\<rparr>)))"

definition recycle_callback_context ::
    "('p, 'e, 's) context_api \<Rightarrow> 'p \<Rightarrow> ('p, 's) thread_state \<Rightarrow> ('p, 's) thread_state" where
  "recycle_callback_context api context st =
     (if api_reusable api context (th_py st) then st\<lparr>th_empty_context := Some context\<rparr> else st)"

definition invoke_in ::
    "('p, 'e, 's) context_api
      \<Rightarrow> ('p ready_callback \<Rightarrow> ('p, 's) thread_state \<Rightarrow> ('e + 'r) \<times> ('p, 's) thread_state)
      \<Rightarrow> 'p ready_callback \<Rightarrow> 'p option \<Rightarrow> ('p, 's) thread_state
      \<Rightarrow> ('e + 'r) \<times> ('p, 's) thread_state" where
  "invoke_in api call rc empty_context st =
     (let context = (case empty_context of Some c \<Rightarrow> c | None \<Rightarrow> rc_context rc);
          (entered, s2) = api_enter api context (th_py st);
          st2 = st\<lparr>th_py := s2\<rparr>
      in case entered of
           Some err \<Rightarrow> if api_is_nested api err then call rc st2 else (Inl err, st2)
         | None \<Rightarrow>
             let (callback_result, st3) = call rc st2;
                 (exited, s4) = api_exit api context (th_py st3);
                 st4 = st3\<lparr>th_py := s4\<rparr>;
                 st5 = (case (exited, empty_context) of
                          (None, Some c) \<Rightarrow> recycle_callback_context api c st4
                        | _ \<Rightarrow> st4)
             in (case (callback_result, exited) of
                   (Inr result, None) \<Rightarrow> Inr result
                 | (Inl err, _) \<Rightarrow> Inl err
                 | (Inr _, Some err) \<Rightarrow> Inl err,
                 st5))"

definition invoke_with ::
    "('p, 'e, 's) context_api
      \<Rightarrow> ('p ready_callback \<Rightarrow> ('p, 's) thread_state \<Rightarrow> ('e + 'r) \<times> ('p, 's) thread_state)
      \<Rightarrow> 'p ready_callback \<Rightarrow> ('p, 's) thread_state \<Rightarrow> ('e + 'r) \<times> ('p, 's) thread_state" where
  "invoke_with api call rc st =
     (if \<not> rc_context_needs_run rc then call rc st
      else if api_is_none api (rc_context rc) then
        (case empty_callback_context api st of
           (Inl e, st1) \<Rightarrow> (Inl e, st1)
         | (Inr c, st1) \<Rightarrow> invoke_in api call rc (Some c) st1)
      else invoke_in api call rc None st)"

definition invoke ::
    "('p, 'e, 's) context_api \<Rightarrow> ('p \<Rightarrow> 'p list \<Rightarrow> ('p, 's) thread_state \<Rightarrow> ('e + 'p) \<times> ('p, 's) thread_state)
      \<Rightarrow> ('p \<Rightarrow> 'p list) \<Rightarrow> 'p ready_callback \<Rightarrow> ('p, 's) thread_state
      \<Rightarrow> ('e + 'p) \<times> ('p, 's) thread_state" where
  "invoke api call items = invoke_with api (invoke_direct call items)"

subsection \<open>Properties\<close>

lemma kind_from_args [simp]: "kind (from_args tuple cid k cb as ctx n) = Some k"
  by (cases k) (simp_all add: from_args_def encode_kind_def kind_def split: callback_args.split)

text \<open>C23. The compact encoding of a callback loses nothing: the kind read back from a callback is the
  one it was built with, and invoking it calls the stored callable with exactly the positional
  arguments of the tuple it was built from, whichever of the three argument encodings was chosen
  (given that reading a Python tuple yields the items it was made of).\<close>

theorem ready_new_faithful:
  assumes "\<And>xs. items (tuple xs) = xs"
  shows "kind (ready_new tuple cid k cb args ctx needs) = Some k
    \<and> invoke_direct call items (ready_new tuple cid k cb args ctx needs) st = call cb args st
    \<and> \<not> rc_cancelled (ready_new tuple cid k cb args ctx needs)"
proof -
  have "invoke_direct call items (from_args tuple cid k cb as ctx needs) st
      = call cb (case as of ANone \<Rightarrow> [] | AOne x \<Rightarrow> [x] | AMany xs \<Rightarrow> xs) st" for as
    using assms by (simp add: from_args_def invoke_direct_def split: callback_args.split prod.split)
  then have "invoke_direct call items (ready_new tuple cid k cb args ctx needs) st = call cb args st"
    by (simp add: ready_new_def Let_def split: list.split)
  moreover have "\<not> rc_cancelled (ready_new tuple cid k cb args ctx needs)"
    by (simp add: ready_new_def from_args_def Let_def split: prod.split)
  ultimately show ?thesis by (simp add: ready_new_def)
qed

text \<open>For the witness, Python objects are integers and tuples of them.\<close>

datatype demo_obj = DInt int | DTup "demo_obj list"

fun demo_items :: "demo_obj \<Rightarrow> demo_obj list" where
  "demo_items (DTup xs) = xs"
| "demo_items (DInt i) = []"

theorem ready_new_faithful_witness:
  "invoke_direct (\<lambda>f xs st. (Inr f :: unit + demo_obj, st @ xs)) demo_items
      (ready_new DTup 4 (Signal 2) (DInt 0) [DInt 7, DTup [], DInt 9] (DInt 1) False) []
    = (Inr (DInt 0), [DInt 7, DTup [], DInt 9])
   \<and> kind (ready_new DTup 4 (Signal 2) (DInt 0) [DInt 7, DTup [], DInt 9] (DInt 1) False) = Some (Signal 2)"
  using ready_new_faithful [of demo_items DTup 4 "Signal 2" "DInt 0" "[DInt 7, DTup [], DInt 9]" "DInt 1" False
      "\<lambda>f xs st. (Inr f :: unit + demo_obj, st @ xs)" "[]"]
  by simp

text \<open>
  The context stack of the thread, as far as the interpreter documents it: entering a context that is
  not active pushes it, entering an active one fails with the nested-context error and changes nothing,
  and leaving the context on top of the stack succeeds and pops it.
\<close>

definition context_laws ::
    "('p, 'e, 's) context_api \<Rightarrow> ('s \<Rightarrow> 'p list) \<Rightarrow> bool" where
  "context_laws api stack \<longleftrightarrow>
     (\<forall>c s. case api_enter api c s of
         (None, s') \<Rightarrow> stack s' = c # stack s
       | (Some e, s') \<Rightarrow> stack s' = stack s)
   \<and> (\<forall>c s. c \<in> set (stack s) \<longrightarrow> (\<exists>e s'. api_enter api c s = (Some e, s') \<and> api_is_nested api e))
   \<and> (\<forall>c s rest. stack s = c # rest \<longrightarrow> (\<exists>s'. api_exit api c s = (None, s') \<and> stack s' = rest))
   \<and> (\<forall>s. stack (snd (api_new api s)) = stack s)"

lemma empty_callback_context_stack:
  "context_laws api stack \<Longrightarrow> empty_callback_context api st = (r, st') \<Longrightarrow> stack (th_py st') = stack (th_py st)"
  by (auto simp: empty_callback_context_def context_laws_def split: option.splits prod.splits
      dest!: spec [of _ "th_py st"])

lemma invoke_in_balanced:
  assumes laws: "context_laws api stack"
    and call: "\<And>st. stack (th_py (snd (call rc st))) = stack (th_py st)"
  shows "stack (th_py (snd (invoke_in api call rc ec st))) = stack (th_py st)"
proof -
  define c where "c = (case ec of Some c \<Rightarrow> c | None \<Rightarrow> rc_context rc)"
  obtain x s2 where e: "api_enter api c (th_py st) = (x, s2)" by fastforce
  have stk: "stack s2 = (if x = None then c # stack (th_py st) else stack (th_py st))"
    using laws e unfolding context_laws_def by (cases x) (auto dest!: spec [of _ c] spec [of _ "th_py st"])
  obtain r st3 where r: "call rc (st\<lparr>th_py := s2\<rparr>) = (r, st3)" by fastforce
  have st3: "stack (th_py st3) = stack s2" using call [of "st\<lparr>th_py := s2\<rparr>"] r by simp
  show ?thesis
  proof (cases x)
    case (Some err)
    then show ?thesis using e r st3 stk by (simp add: invoke_in_def Let_def c_def [symmetric])
  next
    case None
    then have "stack (th_py st3) = c # stack (th_py st)" using st3 stk by simp
    then obtain s4 where "api_exit api c (th_py st3) = (None, s4)" "stack s4 = stack (th_py st)"
      using laws unfolding context_laws_def by blast
    then show ?thesis using None e r
      by (simp add: invoke_in_def Let_def c_def [symmetric] recycle_callback_context_def split: option.split)
  qed
qed

text \<open>C24. Invoking a callback leaves the thread's context stack as it found it, whether the callback
  returns or raises and whether its context could be entered or was already active; so a callback
  cannot leak its context into the next one.\<close>

theorem invoke_with_balanced:
  assumes laws: "context_laws api stack"
    and call: "\<And>st. stack (th_py (snd (call rc st))) = stack (th_py st)"
  shows "stack (th_py (snd (invoke_with api call rc st))) = stack (th_py st)"
  using invoke_in_balanced [where call = call and rc = rc, OF laws call] empty_callback_context_stack [OF laws] call
  by (simp add: invoke_with_def split: prod.split sum.split)

text \<open>For the witness, the interpreter's state is the stack itself.\<close>

definition demo_api :: "(nat, string, nat list) context_api" where
  "demo_api = \<lparr>api_new = (\<lambda>s. (Inr 9, s)),
     api_enter = (\<lambda>c s. if c \<in> set s then (Some ''nested'', s) else (None, c # s)),
     api_exit = (\<lambda>c s. case s of d # rest \<Rightarrow> if d = c then (None, rest) else (Some ''order'', s)
                       | [] \<Rightarrow> (Some ''order'', s)),
     api_is_nested = (\<lambda>e. e = ''nested''), api_is_none = (\<lambda>c. c = 0), api_reusable = (\<lambda>c s. True)\<rparr>"

theorem invoke_with_balanced_witness:
  "th_py (snd (invoke_with demo_api (\<lambda>rc st. (Inl ''boom'' :: string + nat, st))
      (ready_new sum_list 1 Soon 5 [] 3 True) \<lparr>th_py = [4], th_empty_context = None\<rparr>)) = [4]
   \<and> context_laws demo_api id"
proof -
  have laws: "context_laws demo_api id" by (simp add: context_laws_def demo_api_def)
  from invoke_with_balanced [OF laws, where call = "\<lambda>rc st. (Inl ''boom'' :: string + nat, st)"
      and rc = "ready_new sum_list 1 Soon 5 [] 3 True" and st = "\<lparr>th_py = [4], th_empty_context = None\<rparr>"]
  show ?thesis using laws by simp
qed

end
