(* ===== verification/Timer_Callback.thy ===== *)
theory Timer_Callback
  imports Callbacks
begin

section \<open>Cancellable timer callbacks (engine/callbacks.rs)\<close>

text \<open>
  A \<open>TimerCallback\<close> is shared (\<open>Arc\<close>) between the timer queue, the Python handle and the ready
  drain, which may run on different threads. The model is a store of the allocations: \<open>st_timers\<close>
  for \<open>Arc<TimerCallback>\<close>, \<open>st_ready\<close> for the \<open>Arc<ReadyCallback>\<close> a legacy timer shares with its
  creator, and the \<open>cancelled_timers\<close> counter, an atomic \<open>usize\<close> whose decrement wraps.
  Each critical section under a timer's mutex is one function on the store; \<open>timer_step\<close> interleaves
  them freely. A weak reference whose target is gone finds no entry.
\<close>

record 'p timer_state =
  ts_ready :: "'p ready_callback option"
  ts_queued :: bool

record 'p timer_callback =
  tc_id :: u64
  tc_state :: "'p timer_state"
  tc_cancelled :: bool
  tc_legacy :: "nat option"

record 'p timer_store =
  st_timers :: "nat \<rightharpoonup> 'p timer_callback"
  st_ready :: "nat \<rightharpoonup> 'p ready_callback"
  st_cancelled_timers :: u64

definition timer_callback_new :: "'p ready_callback \<Rightarrow> 'p timer_callback" where
  "timer_callback_new ready =
     \<lparr>tc_id = rc_id ready, tc_state = \<lparr>ts_ready = Some ready, ts_queued = True\<rparr>,
      tc_cancelled = False, tc_legacy = None\<rparr>"

definition timer_from_shared :: "nat \<Rightarrow> 'p ready_callback \<Rightarrow> 'p timer_callback" where
  "timer_from_shared a ready =
     \<lparr>tc_id = rc_id ready, tc_state = \<lparr>ts_ready = None, ts_queued = True\<rparr>,
      tc_cancelled = False, tc_legacy = Some a\<rparr>"

definition ready_flag :: "'p timer_store \<Rightarrow> nat \<Rightarrow> bool" where
  "ready_flag s a = (case st_ready s a of Some r \<Rightarrow> rc_cancelled r | None \<Rightarrow> False)"

definition timer_cancelled :: "'p timer_store \<Rightarrow> nat \<Rightarrow> bool" where
  "timer_cancelled s a =
     (case st_timers s a of
        None \<Rightarrow> False
      | Some t \<Rightarrow> tc_cancelled t \<or> (case tc_legacy t of Some r \<Rightarrow> ready_flag s r | None \<Rightarrow> False))"

definition set_timer :: "nat \<Rightarrow> 'p timer_callback \<Rightarrow> 'p timer_store \<Rightarrow> 'p timer_store" where
  "set_timer a t s = s\<lparr>st_timers := (st_timers s)(a \<mapsto> t)\<rparr>"

text \<open>The critical section of \<open>cancel\<close>: \<open>None\<close> when the timer was cancelled before.\<close>

definition cancel_locked ::
    "nat \<Rightarrow> 'p timer_store \<Rightarrow> 'p ready_callback option option \<times> 'p timer_store" where
  "cancel_locked a s =
     (case st_timers s a of
        None \<Rightarrow> (None, s)
      | Some t \<Rightarrow>
          if tc_cancelled t then (None, s)
          else
            let s1 = (if ts_queued (tc_state t)
                      then s\<lparr>st_cancelled_timers := st_cancelled_timers s + 1\<rparr> else s)
            in (Some (ts_ready (tc_state t)),
                set_timer a (t\<lparr>tc_cancelled := True, tc_state := (tc_state t)\<lparr>ts_ready := None\<rparr>\<rparr>) s1))"

definition shared_cancel :: "nat \<Rightarrow> 'p timer_store \<Rightarrow> 'p timer_store" where
  "shared_cancel r s = s\<lparr>st_ready := (st_ready s)(r := map_option ready_cancel (st_ready s r))\<rparr>"

definition cancel_legacy :: "nat \<Rightarrow> 'p timer_store \<Rightarrow> 'p timer_store" where
  "cancel_legacy a s =
     (case st_timers s a of
        Some t \<Rightarrow> (case tc_legacy t of Some r \<Rightarrow> shared_cancel r s | None \<Rightarrow> s)
      | None \<Rightarrow> s)"

definition timer_cancel ::
    "('p ready_callback \<Rightarrow> 'p timer_store \<Rightarrow> 'p timer_store) \<Rightarrow> nat \<Rightarrow> 'p timer_store \<Rightarrow> 'p timer_store" where
  "timer_cancel drop_ready a s =
     (case cancel_locked a s of
        (None, s1) \<Rightarrow> s1
      | (Some ready, s1) \<Rightarrow>
          cancel_legacy a (case ready of Some r \<Rightarrow> drop_ready r s1 | None \<Rightarrow> s1))"

definition timer_dequeue :: "nat \<Rightarrow> 'p timer_store \<Rightarrow> 'p timer_store" where
  "timer_dequeue a s =
     (case st_timers s a of
        None \<Rightarrow> s
      | Some t \<Rightarrow>
          let s1 = (if ts_queued (tc_state t) \<and> tc_cancelled t
                    then s\<lparr>st_cancelled_timers := st_cancelled_timers s - 1\<rparr> else s)
          in set_timer a (t\<lparr>tc_state := (tc_state t)\<lparr>ts_queued := False\<rparr>\<rparr>) s1)"

definition timer_take_ready :: "nat \<Rightarrow> 'p timer_store \<Rightarrow> 'p ready_callback option \<times> 'p timer_store" where
  "timer_take_ready a s =
     (case st_timers s a of
        None \<Rightarrow> (None, s)
      | Some t \<Rightarrow>
          (ts_ready (tc_state t), set_timer a (t\<lparr>tc_state := (tc_state t)\<lparr>ts_ready := None\<rparr>\<rparr>) s))"

text \<open>\<open>Drop for TimerCallback\<close>, when the last owner goes away.\<close>

definition timer_drop :: "nat \<Rightarrow> 'p timer_store \<Rightarrow> 'p timer_store" where
  "timer_drop a s =
     (case st_timers s a of
        None \<Rightarrow> s
      | Some t \<Rightarrow>
          let s1 = (if ts_queued (tc_state t) \<and> tc_cancelled t
                    then s\<lparr>st_cancelled_timers := st_cancelled_timers s - 1\<rparr> else s)
          in s1\<lparr>st_timers := (st_timers s1)(a := None)\<rparr>)"

datatype timer_handle_callback = Owned nat | Shared nat

record py_timer_handle =
  pth_callback_id :: u64
  pth_callback :: timer_handle_callback
  pth_cancelled :: bool

definition py_timer_cancel ::
    "('p ready_callback \<Rightarrow> 'p timer_store \<Rightarrow> 'p timer_store) \<Rightarrow> py_timer_handle \<Rightarrow> 'p timer_store
      \<Rightarrow> py_timer_handle \<times> 'p timer_store" where
  "py_timer_cancel drop_ready h s =
     (h\<lparr>pth_cancelled := True\<rparr>,
      case pth_callback h of
        Owned a \<Rightarrow> timer_cancel drop_ready a s
      | Shared r \<Rightarrow> shared_cancel r s)"

inductive timer_step :: "'p timer_store \<Rightarrow> 'p timer_store \<Rightarrow> bool" where
  alloc: "st_timers s a = None \<Longrightarrow> timer_step s (set_timer a (timer_callback_new ready) s)"
| alloc_shared: "st_timers s a = None \<Longrightarrow> st_ready s r = Some ready
    \<Longrightarrow> timer_step s (set_timer a (timer_from_shared r ready) s)"
| alloc_ready: "st_ready s r = None \<Longrightarrow> timer_step s (s\<lparr>st_ready := (st_ready s)(r \<mapsto> ready)\<rparr>)"
| cancel: "timer_step s (snd (cancel_locked a s))"
| cancel_shared: "timer_step s (shared_cancel r s)"
| dequeue: "timer_step s (timer_dequeue a s)"
| take: "timer_step s (snd (timer_take_ready a s))"
| drop: "timer_step s (timer_drop a s)"

subsection \<open>The counter counts the tombstones\<close>

definition tombstones :: "'p timer_store \<Rightarrow> nat set" where
  "tombstones s = {a. \<exists>t. st_timers s a = Some t \<and> ts_queued (tc_state t) \<and> tc_cancelled t}"

definition store_empty :: "'p timer_store \<Rightarrow> bool" where
  "store_empty s \<longleftrightarrow> st_timers s = Map.empty \<and> st_cancelled_timers s = 0"

definition timer_store_inv :: "'p timer_store \<Rightarrow> bool" where
  "timer_store_inv s \<longleftrightarrow> finite (dom (st_timers s))
     \<and> st_cancelled_timers s = of_nat (card (tombstones s))
     \<and> (\<forall>a t. st_timers s a = Some t \<and> tc_cancelled t \<longrightarrow> ts_ready (tc_state t) = None)"

lemma tombstones_set:
  "tombstones (set_timer a t s) =
     (if ts_queued (tc_state t) \<and> tc_cancelled t then insert a (tombstones s) else tombstones s - {a})"
  by (auto simp: tombstones_def set_timer_def)

lemma tombstones_frame [simp]:
  "tombstones (s\<lparr>st_cancelled_timers := c\<rparr>) = tombstones s"
  "tombstones (s\<lparr>st_ready := r\<rparr>) = tombstones s"
  by (simp_all add: tombstones_def)

lemma tombstones_del: "tombstones (s\<lparr>st_timers := (st_timers s)(a := None)\<rparr>) = tombstones s - {a}"
  by (auto simp: tombstones_def)

lemma finite_tombstones: "timer_store_inv s \<Longrightarrow> finite (tombstones s)"
  unfolding timer_store_inv_def
  by (rule finite_subset [of _ "dom (st_timers s)"]) (auto simp: tombstones_def)

lemma card_tombstone_remove:
  assumes "timer_store_inv s" "a \<in> tombstones s"
  shows "st_cancelled_timers s - 1 = of_nat (card (tombstones s - {a}))"
proof -
  have "card (tombstones s) = Suc (card (tombstones s - {a}))"
    using card.remove [OF finite_tombstones [OF assms(1)] assms(2)] .
  then show ?thesis using assms(1) by (simp add: timer_store_inv_def)
qed

lemma in_tombstones:
  "st_timers s a = Some t \<Longrightarrow> a \<in> tombstones s \<longleftrightarrow> ts_queued (tc_state t) \<and> tc_cancelled t"
  by (simp add: tombstones_def)

lemma set_timer_inv:
  assumes "timer_store_inv s" "tc_cancelled t \<longrightarrow> ts_ready (tc_state t) = None"
    and "c = of_nat (card (if ts_queued (tc_state t) \<and> tc_cancelled t
                            then insert a (tombstones s) else tombstones s - {a}))"
  shows "timer_store_inv (set_timer a t (s\<lparr>st_cancelled_timers := c\<rparr>))"
  using assms unfolding timer_store_inv_def tombstones_set
  by (auto simp: set_timer_def split: if_splits)

lemma set_timer_same_inv:
  assumes "timer_store_inv s" "tc_cancelled t \<longrightarrow> ts_ready (tc_state t) = None"
    and "a \<in> tombstones s \<longleftrightarrow> ts_queued (tc_state t) \<and> tc_cancelled t"
  shows "timer_store_inv (set_timer a t s)"
proof -
  have "(if ts_queued (tc_state t) \<and> tc_cancelled t then insert a (tombstones s) else tombstones s - {a})
      = tombstones s"
    using assms(3) by (simp add: insert_absorb)
  then have "timer_store_inv (set_timer a t (s\<lparr>st_cancelled_timers := st_cancelled_timers s\<rparr>))"
    using assms(1) by (intro set_timer_inv [OF assms(1,2)]) (simp only: timer_store_inv_def)
  then show ?thesis by simp
qed

lemma timer_dequeue_inv [inv_intros]:
  assumes inv: "timer_store_inv s"
  shows "timer_store_inv (timer_dequeue a s)"
proof (cases "st_timers s a")
  case None
  then show ?thesis using inv by (simp add: timer_dequeue_def)
next
  case (Some t)
  have ready: "tc_cancelled t \<longrightarrow> ts_ready (tc_state t) = None"
    using inv Some by (simp add: timer_store_inv_def)
  show ?thesis
  proof (cases "a \<in> tombstones s")
    case True
    then show ?thesis
      using Some in_tombstones [OF Some] card_tombstone_remove [OF inv True] ready
      by (auto simp: timer_dequeue_def Let_def intro!: set_timer_inv [OF inv])
  next
    case False
    then show ?thesis
      using Some in_tombstones [OF Some] ready
      by (auto simp: timer_dequeue_def Let_def intro!: set_timer_same_inv [OF inv])
  qed
qed

lemma cancel_locked_inv [inv_intros]:
  assumes inv: "timer_store_inv s"
  shows "timer_store_inv (snd (cancel_locked a s))"
proof (cases "\<exists>t. st_timers s a = Some t \<and> \<not> tc_cancelled t")
  case False
  then show ?thesis using inv by (auto simp: cancel_locked_def split: option.split)
next
  case True
  then obtain t where t: "st_timers s a = Some t" "\<not> tc_cancelled t" by blast
  then have a: "a \<notin> tombstones s" by (simp add: tombstones_def)
  have c: "st_cancelled_timers s = of_nat (card (tombstones s))"
    using inv by (simp add: timer_store_inv_def)
  show ?thesis
  proof (cases "ts_queued (tc_state t)")
    case True
    then show ?thesis using t a c finite_tombstones [OF inv]
      by (auto simp: cancel_locked_def Let_def intro!: set_timer_inv [OF inv])
  next
    case False
    then show ?thesis using t a
      by (auto simp: cancel_locked_def Let_def intro!: set_timer_same_inv [OF inv])
  qed
qed

lemma timer_take_ready_inv [inv_intros]:
  assumes inv: "timer_store_inv s"
  shows "timer_store_inv (snd (timer_take_ready a s))"
  by (cases "st_timers s a")
     (auto simp: timer_take_ready_def inv in_tombstones intro!: set_timer_same_inv [OF inv])

lemma timer_drop_inv [inv_intros]:
  assumes inv: "timer_store_inv s"
  shows "timer_store_inv (timer_drop a s)"
proof (cases "st_timers s a")
  case None
  then show ?thesis using inv by (simp add: timer_drop_def)
next
  case (Some t)
  have "timer_drop a s = (timer_dequeue a s)\<lparr>st_timers := (st_timers (timer_dequeue a s))(a := None)\<rparr>"
    using Some by (auto simp: timer_drop_def timer_dequeue_def set_timer_def Let_def)
  moreover have "a \<notin> tombstones (timer_dequeue a s)"
    using Some by (simp add: timer_dequeue_def Let_def tombstones_set)
  ultimately show ?thesis
    using timer_dequeue_inv [OF inv, of a] by (auto simp: timer_store_inv_def tombstones_del)
qed

lemma shared_cancel_inv [inv_intros]: "timer_store_inv s \<Longrightarrow> timer_store_inv (shared_cancel r s)"
  by (auto simp: timer_store_inv_def shared_cancel_def)

lemma timer_step_inv: "timer_step s t \<Longrightarrow> timer_store_inv s \<Longrightarrow> timer_store_inv t"
proof (induction rule: timer_step.induct)
  case (alloc s a ready)
  then show ?case
    by (intro set_timer_same_inv) (auto simp: timer_callback_new_def tombstones_def)
next
  case (alloc_shared s a r ready)
  then show ?case
    by (intro set_timer_same_inv) (auto simp: timer_from_shared_def tombstones_def)
next
  case (alloc_ready s r ready)
  then show ?case by (auto simp: timer_store_inv_def)
qed (rule inv_intros, assumption)+

lemma store_empty_inv: "store_empty s \<Longrightarrow> timer_store_inv s"
  by (simp add: store_empty_def timer_store_inv_def tombstones_def)

interpretation timers: transition_system store_empty timer_step timer_store_inv
  by unfold_locales (rule store_empty_inv, assumption, rule timer_step_inv)

subsection \<open>Properties\<close>

text \<open>C16. However allocations, cancellations, removals from the queue, invocations and drops of
  timers interleave over the threads, the shared \<open>cancelled_timers\<close> counter equals the number of
  cancelled timers still in a queue: each tombstone is counted once, the wrapping decrement never
  underflows, and a cancelled timer no longer holds its Python payload.\<close>

theorem cancelled_timers_exact:
  assumes "store_empty s" "timer_step\<^sup>*\<^sup>* s t" "card (tombstones t) < 2 ^ 64"
  shows "unat (st_cancelled_timers t) = card (tombstones t)
    \<and> (\<forall>a c. st_timers t a = Some c \<and> tc_cancelled c \<longrightarrow> ts_ready (tc_state c) = None)"
proof -
  have "timer_store_inv t" using assms(1,2) by (rule timers.inv_reachable)
  with assms(3) show ?thesis by (auto simp: timer_store_inv_def unat_of_nat)
qed

theorem cancelled_timers_exact_witness:
  "\<exists>t :: nat timer_store. unat (st_cancelled_timers t) = card (tombstones t) \<and> tombstones t = {1}"
proof -
  let ?s0 = "\<lparr>st_timers = Map.empty, st_ready = Map.empty, st_cancelled_timers = 0\<rparr> :: nat timer_store"
  let ?rc = "ready_new sum_list 1 Timer 5 [] 3 True :: nat ready_callback"
  let ?s1 = "set_timer 1 (timer_callback_new ?rc) ?s0"
  let ?s2 = "set_timer 2 (timer_callback_new ?rc) ?s1"
  let ?s3 = "snd (cancel_locked 1 ?s2)"
  let ?s4 = "snd (cancel_locked 2 ?s3)"
  let ?s5 = "timer_dequeue 2 ?s4"
  have "timer_step ?s0 ?s1" by (rule timer_step.alloc) simp
  then have "timer_step\<^sup>*\<^sup>* ?s0 ?s1" by (rule r_into_rtranclp)
  moreover have "timer_step ?s1 ?s2" by (rule timer_step.alloc) (simp add: set_timer_def)
  ultimately have "timer_step\<^sup>*\<^sup>* ?s0 ?s2" by (rule rtranclp.rtrancl_into_rtrancl)
  then have "timer_step\<^sup>*\<^sup>* ?s0 ?s3" by (rule rtranclp.rtrancl_into_rtrancl) (rule timer_step.cancel)
  then have "timer_step\<^sup>*\<^sup>* ?s0 ?s4" by (rule rtranclp.rtrancl_into_rtrancl) (rule timer_step.cancel)
  then have run: "timer_step\<^sup>*\<^sup>* ?s0 ?s5"
    by (rule rtranclp.rtrancl_into_rtrancl) (rule timer_step.dequeue)
  have "tombstones ?s2 = {}"
    by (auto simp: tombstones_def set_timer_def timer_callback_new_def split: if_splits)
  then have t: "tombstones ?s5 = {1}"
    by (simp add: timer_dequeue_def cancel_locked_def timer_callback_new_def Let_def tombstones_set)
       (simp add: set_timer_def tombstones_def)
  then show ?thesis
    using cancelled_timers_exact [OF _ run] by (intro exI [of _ ?s5]) (simp add: store_empty_def)
qed

text \<open>C22. Cancellation and invocation of a timer are linearised by its mutex: after a cancellation no
  invocation can claim the callback, a cancellation after an invocation has claimed it finds nothing
  to release, and a second cancellation changes nothing.\<close>

theorem cancel_excludes_invocation:
  assumes "timer_store_inv s" "st_timers s a = Some t"
  shows "fst (timer_take_ready a (snd (cancel_locked a s))) = None
    \<and> timer_cancelled (snd (cancel_locked a s)) a
    \<and> cancel_locked a (snd (cancel_locked a s)) = (None, snd (cancel_locked a s))
    \<and> fst (timer_take_ready a s) = ts_ready (tc_state t)
    \<and> fst (cancel_locked a (snd (timer_take_ready a s))) \<in> {None, Some None}"
  using assms
  by (auto simp: timer_store_inv_def timer_take_ready_def cancel_locked_def set_timer_def timer_cancelled_def
      Let_def)

theorem cancel_excludes_invocation_witness:
  "fst (timer_take_ready 1 (snd (cancel_locked 1
      (set_timer 1 (timer_callback_new (ready_new sum_list 1 Timer 5 [] 3 True :: nat ready_callback))
        \<lparr>st_timers = Map.empty, st_ready = Map.empty, st_cancelled_timers = 0\<rparr>)))) = None"
proof -
  let ?t = "timer_callback_new (ready_new sum_list 1 Timer 5 [] 3 True :: nat ready_callback)"
  let ?s = "set_timer 1 ?t \<lparr>st_timers = Map.empty, st_ready = Map.empty, st_cancelled_timers = 0\<rparr>"
  have "timer_store_inv ?s"
    by (rule set_timer_same_inv)
       (simp_all add: timer_store_inv_def tombstones_def timer_callback_new_def)
  from cancel_excludes_invocation [OF this, of 1 ?t] show ?thesis by (simp add: set_timer_def)
qed

end
