(* ===== verification/Ready_Queue.thy ===== *)
theory Ready_Queue
  imports Prelude
begin

section \<open>Ready items and the order they run in (engine/commands.rs, engine/loop_core.rs)\<close>

text \<open>
  The work items of the loop thread, the queue of off-thread items \<open>PendingReady\<close> with its marks,
  and the merge of both into the next generation. Shared objects (callbacks, futures, transports)
  are addresses, descriptors are integers.
\<close>

datatype reader_target = ReaderTcp nat | ReaderUnix nat | ReaderFile nat

datatype ready_item =
    RCallback nat
  | RTimerCallback nat
  | RHandleCallback nat
  | RFutureSetResult nat nat
  | RFutureSetException nat nat
  | RStreamTransportRead nat
  | RStreamTransportWrite nat
  | RStartSocketReader int nat reader_target
  | RProcessTransport nat
  | RServerAccepted nat nat
  | RStartServerAccept int nat nat nat
  | RStopServerAccept int
  | RConnectCompleted nat int int
  | RLoopWork nat
  | RStop

record 'a pending_ready =
  pr_items :: "'a list"
  pr_marks :: "(nat \<times> nat) list"

definition pr_default :: "'a pending_ready" where
  "pr_default = \<lparr>pr_items = [], pr_marks = []\<rparr>"

definition pr_mark :: "nat \<Rightarrow> 'a pending_ready \<Rightarrow> 'a pending_ready" where
  "pr_mark local_mark p =
     (if pr_marks p = [] \<or> snd (last (pr_marks p)) \<noteq> local_mark
      then p\<lparr>pr_marks := pr_marks p @ [(length (pr_items p), local_mark)]\<rparr> else p)"

definition pr_push :: "'a \<Rightarrow> nat \<Rightarrow> 'a pending_ready \<Rightarrow> 'a pending_ready" where
  "pr_push item local_mark p =
     (let p1 = pr_mark local_mark p in p1\<lparr>pr_items := pr_items p1 @ [item]\<rparr>)"

definition pr_extend :: "'a list \<Rightarrow> nat \<Rightarrow> 'a pending_ready \<Rightarrow> 'a pending_ready" where
  "pr_extend items local_mark p =
     (let len = length (pr_items p);
          marks = length (pr_marks p);
          p1 = pr_mark local_mark p;
          p2 = p1\<lparr>pr_items := pr_items p1 @ items\<rparr>
      in if length (pr_items p2) = len then p2\<lparr>pr_marks := take marks (pr_marks p2)\<rparr> else p2)"

definition pr_take_items :: "'a pending_ready \<Rightarrow> 'a list \<times> 'a pending_ready" where
  "pr_take_items p = (pr_items p, p\<lparr>pr_marks := [], pr_items := []\<rparr>)"

text \<open>
  The segment loop of \<open>merge_ready_generation\<close>. Draining more items than there are, or a segment
  that ends before it starts, would panic (\<open>None\<close>). Enqueue counts are natural numbers: the \<open>u64\<close>
  counter is incremented once per queued item.
\<close>

fun merge_segments ::
    "(nat \<times> nat) list \<Rightarrow> 'a list \<Rightarrow> 'a list \<Rightarrow> nat \<Rightarrow> 'a list \<Rightarrow> ('a list \<times> 'a list \<times> nat \<times> 'a list) option" where
  "merge_segments [] batch locals taken items = Some (batch, locals, taken, items)"
| "merge_segments ((start, mark) # rest) batch locals taken items =
     (let len = (case rest of [] \<Rightarrow> length items | (nxt, _) # _ \<Rightarrow> nxt - start);
          due = min (mark - taken) (length locals)
      in if len > length items \<or> (case rest of [] \<Rightarrow> False | (nxt, _) # _ \<Rightarrow> nxt < start) then None
         else merge_segments rest ((batch @ take due locals) @ take len items) (drop due locals) (taken + due)
                (drop len items))"

definition merge_ready_generation ::
    "'a list \<Rightarrow> nat \<Rightarrow> 'a pending_ready \<Rightarrow> ('a list \<times> 'a list \<times> nat \<times> 'a pending_ready) option" where
  "merge_ready_generation locals taken p =
     (if pr_items p = [] then Some (locals, [], taken + length locals, p\<lparr>pr_marks := []\<rparr>)
      else if locals = [] then Some (pr_items p, [], taken, p\<lparr>pr_items := [], pr_marks := []\<rparr>)
      else do {
        (batch, locals1, taken1, items1) \<leftarrow> merge_segments (pr_marks p) [] locals taken (pr_items p);
        Some (batch @ locals1, [], taken1 + length locals1, \<lparr>pr_items = items1, pr_marks = []\<rparr>)
      })"

text \<open>
  The scheduling state of a loop: the queue local to the loop thread, the off-thread queue, the number
  of loop-thread enqueues and how many of them have been taken into a generation, the wake flag, and
  whether off-thread producers may use the queue of the active run (\<open>active_ready_dispatch\<close>).
\<close>

record 'a sched =
  sc_local :: "'a list"
  sc_pending :: "'a pending_ready"
  sc_enqueues :: nat
  sc_taken :: nat
  sc_wake :: bool
  sc_drain_active :: bool
  sc_dispatch :: "bool option"

definition local_enqueue_mark :: "'a sched \<Rightarrow> nat" where
  "local_enqueue_mark sc = sc_enqueues sc"

definition note_local_enqueues :: "nat \<Rightarrow> 'a sched \<Rightarrow> 'a sched" where
  "note_local_enqueues n sc = sc\<lparr>sc_enqueues := sc_enqueues sc + n\<rparr>"

text \<open>\<open>on_loop\<close>: the caller is the thread running this loop, with a local queue installed.\<close>

definition try_enqueue_local_ready :: "bool \<Rightarrow> 'a \<Rightarrow> 'a sched \<Rightarrow> ('a + unit) \<times> 'a sched" where
  "try_enqueue_local_ready on_loop item sc =
     (if \<not> on_loop then (Inl item, sc)
      else
        let sc1 = note_local_enqueues 1 (sc\<lparr>sc_local := sc_local sc @ [item]\<rparr>)
        in (Inr (), if \<not> sc_drain_active sc1 then sc1\<lparr>sc_wake := True\<rparr> else sc1))"

definition try_enqueue_active_ready :: "'a \<Rightarrow> 'a sched \<Rightarrow> ('a + unit) \<times> 'a sched" where
  "try_enqueue_active_ready item sc =
     (case sc_dispatch sc of
        None \<Rightarrow> (Inl item, sc)
      | Some accepting_ready \<Rightarrow>
          if \<not> accepting_ready then (Inl item, sc)
          else (Inr (), sc\<lparr>sc_pending := pr_push item (local_enqueue_mark sc) (sc_pending sc), sc_wake := True\<rparr>))"

definition activate_ready_dispatch :: "bool \<Rightarrow> 'a sched \<Rightarrow> 'a sched" where
  "activate_ready_dispatch same_queue sc =
     (case sc_dispatch sc of
        Some accepting \<Rightarrow> if same_queue then sc\<lparr>sc_dispatch := Some True\<rparr> else sc
      | None \<Rightarrow> sc)"

text \<open>How a turn of \<open>run_forever\<close> fills an empty batch.\<close>

definition next_generation :: "'a sched \<Rightarrow> ('a list \<times> 'a sched) option" where
  "next_generation sc =
     (if sc_wake sc then do {
        (batch, locals, taken, pending) \<leftarrow> merge_ready_generation (sc_local sc) (sc_taken sc) (sc_pending sc);
        Some (batch, sc\<lparr>sc_local := locals, sc_taken := taken, sc_pending := pending, sc_wake := False\<rparr>)
      }
      else if sc_local sc \<noteq> []
      then Some (sc_local sc, sc\<lparr>sc_taken := sc_taken sc + length (sc_local sc), sc_local := []\<rparr>)
      else Some ([], sc))"

subsection \<open>Scheduling order of two queues\<close>

text \<open>
  The reference: local items are numbered from \<open>taken\<close>, and an off-thread item with mark \<open>m\<close> goes
  behind the local items numbered below \<open>m\<close>.
\<close>

fun merge_ref :: "nat \<Rightarrow> 'a list \<Rightarrow> ('a \<times> nat) list \<Rightarrow> 'a list" where
  "merge_ref t ls [] = ls"
| "merge_ref t [] (p # ps) = map fst (p # ps)"
| "merge_ref t (l # ls) ((x, m) # ps) =
     (if t < m then l # merge_ref (Suc t) ls ((x, m) # ps) else x # merge_ref t (l # ls) ps)"

text \<open>The off-thread items with the mark each was queued under.\<close>

fun seg_view :: "(nat \<times> nat) list \<Rightarrow> 'a list \<Rightarrow> ('a \<times> nat) list" where
  "seg_view [] items = []"
| "seg_view ((start, mark) # rest) items =
     (let len = (case rest of [] \<Rightarrow> length items | (nxt, _) # _ \<Rightarrow> nxt - start)
      in map (\<lambda>x. (x, mark)) (take len items) @ seg_view rest (drop len items))"

definition pr_view :: "'a pending_ready \<Rightarrow> ('a \<times> nat) list" where
  "pr_view p = seg_view (pr_marks p) (pr_items p)"

fun seg_ok :: "(nat \<times> nat) list \<Rightarrow> nat \<Rightarrow> bool" where
  "seg_ok [] n \<longleftrightarrow> n = 0"
| "seg_ok [e] n \<longleftrightarrow> 0 < n"
| "seg_ok ((s, m) # (s', m') # rest) n \<longleftrightarrow> s < s' \<and> s' - s < n \<and> seg_ok ((s', m') # rest) (n - (s' - s))"

definition pr_wf :: "'a pending_ready \<Rightarrow> bool" where
  "pr_wf p \<longleftrightarrow> seg_ok (pr_marks p) (length (pr_items p)) \<and> (pr_marks p \<noteq> [] \<longrightarrow> fst (hd (pr_marks p)) = 0)"

lemma merge_ref_nil [simp]: "merge_ref t [] ps = map fst ps"
  by (cases ps) auto

lemma merge_ref_segment:
  "xs \<noteq> [] \<Longrightarrow> merge_ref t ls (map (\<lambda>x. (x, m)) xs @ ps)
    = take (m - t) ls @ xs @ merge_ref (t + min (m - t) (length ls)) (drop (m - t) ls) ps"
proof (induction "m - t" arbitrary: t ls)
  case 0
  then have mt: "m \<le> t" by simp
  have "merge_ref t ls (map (\<lambda>x. (x, m)) ys @ ps) = ys @ merge_ref t ls ps" for ys
    using mt by (induction ys) (cases ls; simp)+
  then show ?case using mt by simp
next
  case (Suc n)
  show ?case
  proof (cases ls)
    case Nil
    then show ?thesis by (simp add: comp_def)
  next
    case (Cons l ls')
    have n: "n = m - Suc t" using Suc(2) by simp
    from Suc(3) obtain x xs' where xs: "xs = x # xs'" by (cases xs) auto
    have "t < m" using Suc(2) by simp
    then show ?thesis
      using Suc(1) [OF n Suc(3), of ls'] Suc(2) Cons xs
      by (cases "m - t") (auto simp: n [symmetric])
  qed
qed

lemma merge_ref_snoc_local:
  "\<forall>p \<in> set ps. snd p \<le> t + length ls \<Longrightarrow> merge_ref t (ls @ [x]) ps = merge_ref t ls ps @ [x]"
proof (induction t ls ps rule: merge_ref.induct)
  case (2 t p ps)
  then show ?case by (induction ps arbitrary: p) (auto split: prod.splits)
qed auto

lemma merge_ref_snoc_remote:
  "\<forall>p \<in> set ps. snd p \<le> t + length ls \<Longrightarrow> merge_ref t ls (ps @ [(y, t + length ls)]) = merge_ref t ls ps @ [y]"
proof (induction t ls ps rule: merge_ref.induct)
  case (1 t ls)
  show ?case by (induction ls arbitrary: t) (auto simp: add_Suc [symmetric] simp del: add_Suc)
qed auto

lemma seg_ok_consD:
  assumes "seg_ok ((s, m) # (s', m') # rest) n"
  obtains d where "s' = s + d" "0 < d" "d < n" "seg_ok ((s', m') # rest) (n - d)"
  using assms by (intro that [of "s' - s"]) auto

lemma seg_ok_snoc:
  "seg_ok ms n \<Longrightarrow> ms = [] \<or> fst (hd ms) + n = k \<Longrightarrow> ms = [] \<longrightarrow> k = 0
    \<Longrightarrow> seg_ok (ms @ [(k, m)]) (n + Suc j)"
proof (induction ms n rule: seg_ok.induct)
  case (3 s m1 s' m' rest n)
  obtain d where d: "s' = s + d" "0 < d" "d < n" "seg_ok ((s', m') # rest) (n - d)"
    using 3(2) by (rule seg_ok_consD)
  have "seg_ok (((s', m') # rest) @ [(k, m)]) ((n - (s' - s)) + Suc j)"
    using d 3(3) by (intro 3(1)) auto
  moreover have "(n - (s' - s)) + Suc j = n + Suc j - d" using d by simp
  ultimately show ?case using d by simp
qed auto

lemma seg_view_snoc:
  "seg_ok ms (length items) \<Longrightarrow> ms = [] \<or> fst (hd ms) + length items = k
    \<Longrightarrow> seg_view (ms @ [(k, m)]) (items @ xs) = seg_view ms items @ map (\<lambda>x. (x, m)) xs"
proof (induction ms "length items" arbitrary: items rule: seg_ok.induct)
  case (2 e)
  then show ?case by (cases e) auto
next
  case (3 s m1 s' m' rest)
  obtain d where d: "s' = s + d" "0 < d" "d < length items" "seg_ok ((s', m') # rest) (length items - d)"
    using 3(2) by (rule seg_ok_consD)
  have "seg_view (((s', m') # rest) @ [(k, m)]) (drop d items @ xs)
      = seg_view ((s', m') # rest) (drop d items) @ map (\<lambda>x. (x, m)) xs"
    using d 3(3) by (intro 3(1)) auto
  then show ?case using d by (simp del: seg_view.simps add: seg_view.simps(2) [of s m1])
qed simp

lemma seg_ok_extend: "seg_ok ms n \<Longrightarrow> ms \<noteq> [] \<Longrightarrow> seg_ok ms (n + j)"
proof (induction ms n rule: seg_ok.induct)
  case (3 s m1 s' m' rest n)
  obtain d where d: "s' = s + d" "0 < d" "d < n" "seg_ok ((s', m') # rest) (n - d)"
    using 3(2) by (rule seg_ok_consD)
  have "seg_ok ((s', m') # rest) ((n - (s' - s)) + j)" using d by (intro 3(1)) auto
  moreover have "(n - (s' - s)) + j = n + j - d" using d by simp
  ultimately show ?case using d by simp
qed auto

lemma seg_view_extend:
  "seg_ok ms (length items) \<Longrightarrow> ms \<noteq> []
    \<Longrightarrow> seg_view ms (items @ xs) = seg_view ms items @ map (\<lambda>x. (x, snd (last ms))) xs"
proof (induction ms "length items" arbitrary: items rule: seg_ok.induct)
  case (2 e)
  then show ?case by (cases e) auto
next
  case (3 s m1 s' m' rest)
  obtain d where d: "s' = s + d" "0 < d" "d < length items" "seg_ok ((s', m') # rest) (length items - d)"
    using 3(2) by (rule seg_ok_consD)
  have "seg_view ((s', m') # rest) (drop d items @ xs)
      = seg_view ((s', m') # rest) (drop d items) @ map (\<lambda>x. (x, snd (last ((s', m') # rest)))) xs"
    using d by (intro 3(1)) auto
  then show ?case using d by (simp del: seg_view.simps add: seg_view.simps(2) [of s m1])
qed simp

lemma pr_extend_view:
  assumes "pr_wf p"
  shows "pr_wf (pr_extend xs m p)" "pr_view (pr_extend xs m p) = pr_view p @ map (\<lambda>x. (x, m)) xs"
proof -
  let ?ms = "pr_marks p" and ?items = "pr_items p"
  have ok: "seg_ok ?ms (length ?items)" and hd0: "?ms \<noteq> [] \<longrightarrow> fst (hd ?ms) = 0"
    using assms by (auto simp: pr_wf_def)
  have items0: "?items = []" if "?ms = []" using ok that by simp
  have "pr_wf (pr_extend xs m p) \<and> pr_view (pr_extend xs m p) = pr_view p @ map (\<lambda>x. (x, m)) xs"
  proof (cases xs)
    case Nil
    then show ?thesis
      using assms by (auto simp: pr_extend_def pr_mark_def pr_wf_def pr_view_def Let_def)
  next
    case (Cons x xs')
    show ?thesis
    proof (cases "?ms = [] \<or> snd (last ?ms) \<noteq> m")
      case True
      have "seg_ok (?ms @ [(length ?items, m)]) (length ?items + Suc (length xs'))"
        using ok hd0 items0 by (intro seg_ok_snoc) auto
      moreover have "seg_view (?ms @ [(length ?items, m)]) (?items @ xs) = seg_view ?ms ?items @ map (\<lambda>x. (x, m)) xs"
        using ok hd0 by (intro seg_view_snoc) auto
      ultimately show ?thesis
        using True Cons hd0 items0
        by (cases "?ms = []") (auto simp: pr_extend_def pr_mark_def pr_wf_def pr_view_def Let_def)
    next
      case False
      then show ?thesis
        using Cons ok hd0 seg_ok_extend [OF ok, of "Suc (length xs')"] seg_view_extend [OF ok, of xs]
        by (auto simp: pr_extend_def pr_mark_def pr_wf_def pr_view_def Let_def)
    qed
  qed
  then show "pr_wf (pr_extend xs m p)" "pr_view (pr_extend xs m p) = pr_view p @ map (\<lambda>x. (x, m)) xs"
    by auto
qed

lemma pr_push_extend: "pr_push x m p = pr_extend [x] m p"
  by (simp add: pr_push_def pr_extend_def pr_mark_def Let_def)

lemma merge_segments_spec:
  "seg_ok ms (length items) \<Longrightarrow> ms \<noteq> [] \<Longrightarrow>
    \<exists>b ls' t'. merge_segments ms batch ls t items = Some (batch @ b, ls', t', [])
      \<and> b @ ls' = merge_ref t ls (seg_view ms items) \<and> t' + length ls' = t + length ls"
proof (induction ms "length items" arbitrary: items batch ls t rule: seg_ok.induct)
  case (2 e)
  obtain s m where e: "e = (s, m)" by (cases e) auto
  have "items \<noteq> []" using 2 by simp
  then show ?case using merge_ref_segment [of items t ls m "[]"]
    by (auto simp: e Let_def min_def not_le)
next
  case (3 s m s' m' rest)
  let ?len = "s' - s" and ?due = "min (m - t) (length ls)"
  have len: "s < s'" "?len < length items" and ok: "seg_ok ((s', m') # rest) (length (drop ?len items))"
    using 3(2) by auto
  have ne: "take ?len items \<noteq> []" using len by auto
  obtain b ls' t' where *:
    "merge_segments ((s', m') # rest) ((batch @ take ?due ls) @ take ?len items) (drop ?due ls) (t + ?due) (drop ?len items)
       = Some (((batch @ take ?due ls) @ take ?len items) @ b, ls', t', [])"
    "b @ ls' = merge_ref (t + ?due) (drop ?due ls) (seg_view ((s', m') # rest) (drop ?len items))"
    "t' + length ls' = t + ?due + length (drop ?due ls)"
    using 3(1) [of "drop ?len items" "(batch @ take ?due ls) @ take ?len items" "drop ?due ls" "t + ?due"] ok
    by auto
  have tk: "take (m - t) ls = take ?due ls" "drop (m - t) ls = drop ?due ls" by (auto simp: min_def)
  have "merge_ref t ls (seg_view ((s, m) # (s', m') # rest) items)
      = take ?due ls @ take ?len items @ merge_ref (t + ?due) (drop ?due ls) (seg_view ((s', m') # rest) (drop ?len items))"
    using merge_ref_segment [OF ne, of t ls m "seg_view ((s', m') # rest) (drop ?len items)"] tk
    by (simp only: seg_view.simps(2) [of s m] Let_def list.case prod.case)
  moreover have "merge_segments ((s, m) # (s', m') # rest) batch ls t items
      = merge_segments ((s', m') # rest) ((batch @ take ?due ls) @ take ?len items) (drop ?due ls) (t + ?due) (drop ?len items)"
    using len by (simp del: merge_segments.simps add: merge_segments.simps(2) [of s m] Let_def)
  ultimately show ?case
    using * by (intro exI [of _ "take ?due ls @ take ?len items @ b"] exI [of _ ls'] exI [of _ t']) auto
qed simp

lemma map_fst_seg_view: "seg_ok ms (length items) \<Longrightarrow> map fst (seg_view ms items) = items"
proof (induction ms "length items" arbitrary: items rule: seg_ok.induct)
  case (2 e)
  then show ?case by (cases e) (simp add: comp_def)
next
  case (3 s m s' m' rest)
  have "map fst (seg_view ((s', m') # rest) (drop (s' - s) items)) = drop (s' - s) items"
    using 3(2) by (intro 3(1)) auto
  then show ?case by (simp add: comp_def Let_def)
qed simp

lemma merge_ready_generation_ref:
  assumes "pr_wf p"
  shows "merge_ready_generation ls t p = Some (merge_ref t ls (pr_view p), [], t + length ls, pr_default)"
proof -
  have ok: "seg_ok (pr_marks p) (length (pr_items p))" using assms by (simp add: pr_wf_def)
  show ?thesis
  proof (cases "pr_items p = [] \<or> ls = []")
    case True
    moreover have "pr_marks p = []" if "pr_items p = []"
      using ok that by (cases "pr_marks p" rule: remdups_adj.cases) auto
    ultimately show ?thesis
      using map_fst_seg_view [OF ok]
      by (cases p) (auto simp: merge_ready_generation_def pr_view_def pr_default_def)
  next
    case False
    then have "pr_marks p \<noteq> []" using ok by (cases "pr_marks p") auto
    from merge_segments_spec [OF ok this, of "[]" ls t] False show ?thesis
      by (auto simp: merge_ready_generation_def pr_view_def pr_default_def)
  qed
qed

subsection \<open>A generation holds everything scheduled so far, in scheduling order\<close>

lemma merge_ref_early: "\<forall>p \<in> set ps. snd p \<le> t \<Longrightarrow> merge_ref t ls ps = map fst ps @ ls"
  by (induction t ls ps rule: merge_ref.induct) auto

definition sched_order :: "'a sched \<Rightarrow> 'a list" where
  "sched_order sc = merge_ref (sc_taken sc) (sc_local sc) (pr_view (sc_pending sc))"

definition sched_inv :: "'a sched \<Rightarrow> bool" where
  "sched_inv sc \<longleftrightarrow> pr_wf (sc_pending sc) \<and> sc_enqueues sc = sc_taken sc + length (sc_local sc)
     \<and> (\<forall>e \<in> set (pr_view (sc_pending sc)). snd e \<le> sc_enqueues sc)
     \<and> (pr_items (sc_pending sc) \<noteq> [] \<longrightarrow> sc_wake sc)"

lemma sched_flags [simp]:
  "sched_inv (sc\<lparr>sc_drain_active := b\<rparr>) = sched_inv sc" "sched_order (sc\<lparr>sc_drain_active := b\<rparr>) = sched_order sc"
  "sched_inv (sc\<lparr>sc_dispatch := d\<rparr>) = sched_inv sc" "sched_order (sc\<lparr>sc_dispatch := d\<rparr>) = sched_order sc"
  by (simp_all add: sched_inv_def sched_order_def)

lemma sched_inv_marks:
  "sched_inv sc \<Longrightarrow> \<forall>p \<in> set (pr_view (sc_pending sc)). snd p \<le> sc_taken sc + length (sc_local sc)"
  by (auto simp: sched_inv_def)

lemma enqueue_local_order:
  assumes "sched_inv sc" "try_enqueue_local_ready True x sc = (r, sc')"
  shows "sched_inv sc'" "sched_order sc' = sched_order sc @ [x]"
proof -
  have sc': "sc_local sc' = sc_local sc @ [x]" "sc_pending sc' = sc_pending sc" "sc_taken sc' = sc_taken sc"
    "sc_enqueues sc' = Suc (sc_enqueues sc)" "sc_wake sc \<longrightarrow> sc_wake sc'"
    using assms(2)
    by (auto simp: try_enqueue_local_ready_def note_local_enqueues_def Let_def split: if_splits)
  show "sched_inv sc'" using assms(1) sc' by (auto simp: sched_inv_def)
  show "sched_order sc' = sched_order sc @ [x]"
    unfolding sched_order_def sc'(1-3) by (rule merge_ref_snoc_local [OF sched_inv_marks [OF assms(1)]])
qed

lemma merge_ref_append_remote:
  "\<forall>p \<in> set ps. snd p \<le> t + length ls
    \<Longrightarrow> merge_ref t ls (ps @ map (\<lambda>x. (x, t + length ls)) xs) = merge_ref t ls ps @ xs"
proof (induction xs arbitrary: ps)
  case (Cons x xs)
  from Cons(1) [of "ps @ [(x, t + length ls)]"] Cons(2) show ?case
    by (simp add: merge_ref_snoc_remote)
qed simp

lemma extend_pending_order:
  assumes "sched_inv sc"
    and "sc' = sc\<lparr>sc_pending := pr_extend xs (sc_enqueues sc) (sc_pending sc), sc_wake := True\<rparr>"
  shows "sched_inv sc'" "sched_order sc' = sched_order sc @ xs"
proof -
  have wf: "pr_wf (sc_pending sc)" using assms(1) by (simp add: sched_inv_def)
  note v = pr_extend_view [OF wf, of xs "sc_enqueues sc"]
  show "sched_inv sc'" using assms v by (auto simp: sched_inv_def)
  show "sched_order sc' = sched_order sc @ xs"
    using assms(1) v(2) merge_ref_append_remote [OF sched_inv_marks [OF assms(1)]]
    unfolding sched_order_def assms(2) by (simp add: sched_inv_def)
qed

lemma carry_pending_order:
  assumes "sched_inv sc" "pr_items (sc_pending sc) = []" "m \<le> sc_taken sc"
    and "sc' = sc\<lparr>sc_pending := pr_extend xs m (sc_pending sc), sc_wake := True\<rparr>"
  shows "sched_inv sc'" "sched_order sc' = xs @ sched_order sc"
proof -
  have wf: "pr_wf (sc_pending sc)" using assms(1) by (simp add: sched_inv_def)
  note v = pr_extend_view [OF wf, of xs m]
  have empty: "pr_view (sc_pending sc) = []"
    using map_fst_seg_view [of "pr_marks (sc_pending sc)" "pr_items (sc_pending sc)"] wf assms(2)
    by (simp add: pr_wf_def pr_view_def)
  show "sched_inv sc'" using assms v empty by (auto simp: sched_inv_def)
  show "sched_order sc' = xs @ sched_order sc"
    using assms v(2) empty unfolding sched_order_def by (simp add: merge_ref_early comp_def)
qed

lemma next_generation_order:
  assumes inv: "sched_inv sc"
  obtains sc' where "next_generation sc = Some (sched_order sc, sc')" "sched_inv sc'" "sched_order sc' = []"
proof -
  have wf: "pr_wf (sc_pending sc)" using inv by (simp add: sched_inv_def)
  have ok: "seg_ok (pr_marks (sc_pending sc)) (length (pr_items (sc_pending sc)))"
    using wf by (simp add: pr_wf_def)
  show ?thesis
  proof (cases "sc_wake sc")
    case True
    then have "next_generation sc = Some (sched_order sc,
        sc\<lparr>sc_local := [], sc_taken := sc_taken sc + length (sc_local sc), sc_pending := pr_default, sc_wake := False\<rparr>)"
      using merge_ready_generation_ref [OF wf] by (simp add: next_generation_def sched_order_def)
    from that [OF this] inv show ?thesis
      by (simp add: sched_inv_def sched_order_def pr_default_def pr_view_def pr_wf_def)
  next
    case False
    then have "pr_items (sc_pending sc) = []" using inv by (auto simp: sched_inv_def)
    then have view: "pr_view (sc_pending sc) = []"
      using map_fst_seg_view [OF ok] by (simp add: pr_view_def)
    let ?sc = "sc\<lparr>sc_taken := sc_taken sc + length (sc_local sc), sc_local := []\<rparr>"
    have "next_generation sc = Some (sched_order sc, ?sc)"
      using False view by (cases sc) (auto simp: next_generation_def sched_order_def)
    from that [OF this] inv view show ?thesis by (simp add: sched_inv_def sched_order_def)
  qed
qed

text \<open>Merging does not reorder the off-thread items among themselves.\<close>

lemma filter_merge_ref:
  "\<forall>x \<in> set ls. \<not> P x \<Longrightarrow> filter P (merge_ref t ls ps) = filter P (map fst ps)"
  by (induction t ls ps rule: merge_ref.induct) auto

lemma filter_sched_order:
  assumes "sched_inv sc" "\<forall>x \<in> set (sc_local sc). \<not> P x"
  shows "filter P (sched_order sc) = filter P (pr_items (sc_pending sc))"
proof -
  have "map fst (pr_view (sc_pending sc)) = pr_items (sc_pending sc)"
    using assms(1) by (simp add: sched_inv_def pr_wf_def pr_view_def map_fst_seg_view)
  then show ?thesis using filter_merge_ref [OF assms(2)] by (simp add: sched_order_def)
qed

text \<open>
  A run of the scheduler, with the items in the order they were scheduled and the generations taken.
  \<open>carry\<close> is the dispatcher handing over the work left from before the run, which it marks with the
  enqueue count at the start of the run; \<open>forward\<close> is the dispatcher moving commands into the queue.
\<close>

inductive sched_run :: "'a sched \<Rightarrow> 'a list \<Rightarrow> 'a list list \<Rightarrow> 'a sched \<Rightarrow> bool" for sc0 where
  init: "sched_run sc0 [] [] sc0"
| call_soon: "sched_run sc0 xs gs sc \<Longrightarrow> try_enqueue_local_ready True x sc = (Inr (), sc')
    \<Longrightarrow> sched_run sc0 (xs @ [x]) gs sc'"
| threadsafe: "sched_run sc0 xs gs sc \<Longrightarrow> try_enqueue_active_ready x sc = (Inr (), sc')
    \<Longrightarrow> sched_run sc0 (xs @ [x]) gs sc'"
| forward: "sched_run sc0 xs gs sc
    \<Longrightarrow> sched_run sc0 (xs @ ys) gs
          (sc\<lparr>sc_pending := pr_extend ys (local_enqueue_mark sc) (sc_pending sc), sc_wake := True\<rparr>)"
| drain_flag: "sched_run sc0 xs gs sc \<Longrightarrow> sched_run sc0 xs gs (sc\<lparr>sc_drain_active := b\<rparr>)"
| dispatch_flag: "sched_run sc0 xs gs sc \<Longrightarrow> sched_run sc0 xs gs (sc\<lparr>sc_dispatch := d\<rparr>)"
| generation: "sched_run sc0 xs gs sc \<Longrightarrow> next_generation sc = Some (g, sc')
    \<Longrightarrow> sched_run sc0 xs (gs @ [g]) sc'"

lemma sched_run_order:
  "sched_run sc0 xs gs sc \<Longrightarrow> sched_inv sc0
    \<Longrightarrow> sched_inv sc \<and> sched_order sc0 @ xs = concat gs @ sched_order sc"
proof (induction rule: sched_run.induct)
  case (call_soon xs gs sc x sc')
  then show ?case using enqueue_local_order [of sc x "Inr ()" sc'] by simp
next
  case (threadsafe xs gs sc x sc')
  then have "sc' = sc\<lparr>sc_pending := pr_extend [x] (sc_enqueues sc) (sc_pending sc), sc_wake := True\<rparr>"
    by (auto simp: try_enqueue_active_ready_def local_enqueue_mark_def pr_push_extend
        split: option.splits if_splits)
  with threadsafe extend_pending_order [of sc sc' "[x]"] show ?case by simp
next
  case (forward xs gs sc ys)
  then show ?case using extend_pending_order [of sc _ ys] by (simp add: local_enqueue_mark_def)
next
  case (generation xs gs sc g sc')
  then have inv: "sched_inv sc" by simp
  obtain sc'' where "next_generation sc = Some (sched_order sc, sc'')" "sched_inv sc''" "sched_order sc'' = []"
    using next_generation_order [OF inv] .
  with generation show ?case by simp
qed simp_all

subsection \<open>Properties\<close>

text \<open>C17. \<open>merge_ready_generation\<close> computes the reference merge: whatever the marks (as long as they
  describe the queue), the new generation is the loop thread's items and the off-thread items in
  scheduling order, an off-thread item stamped \<open>m\<close> going behind exactly the loop-thread items numbered
  below \<open>m\<close>; both queues are emptied, the count advances by the local items, and no slice panics.\<close>

theorem merge_ready_generation_correct:
  assumes "pr_wf p"
  shows "merge_ready_generation ls t p = Some (merge_ref t ls (pr_view p), [], t + length ls, pr_default)
    \<and> map fst (pr_view p) = pr_items p"
  using merge_ready_generation_ref [OF assms] map_fst_seg_view assms by (auto simp: pr_wf_def pr_view_def)

theorem merge_ready_generation_correct_witness:
  "merge_ready_generation [''l0'', ''l1'', ''l2''] 4
      (pr_push ''c'' 6 (pr_push ''b'' 5 (pr_push ''a'' 5 pr_default)))
    = Some ([''l0'', ''a'', ''b'', ''l1'', ''c'', ''l2''], [], 7, pr_default)"
proof -
  let ?p = "pr_push ''c'' 6 (pr_push ''b'' 5 (pr_push ''a'' 5 pr_default))"
  have "pr_wf ?p" by (simp add: pr_push_def pr_mark_def pr_default_def pr_wf_def Let_def)
  from merge_ready_generation_correct [OF this, of "[''l0'', ''l1'', ''l2'']" 4] show ?thesis
    by (simp add: pr_push_def pr_mark_def pr_default_def pr_view_def Let_def)
qed

text \<open>C9. Callbacks run in the order they were scheduled, across threads: over any interleaving of
  \<open>call_soon\<close> on the loop thread, \<open>call_soon_threadsafe\<close> from others, dispatcher hand-overs and turns,
  the concatenated generations are exactly a prefix of the schedule, nothing is lost, duplicated or
  overtaken, and what is not yet in a generation is exactly the next one.\<close>

theorem schedule_order_preserved:
  assumes "sched_inv sc0" "sched_order sc0 = []" "sched_run sc0 xs gs sc"
  shows "\<exists>g sc'. next_generation sc = Some (g, sc') \<and> xs = concat gs @ g \<and> sched_inv sc'"
  using sched_run_order [OF assms(3,1)] assms(2) next_generation_order [of sc]
  by (metis append_Nil)

definition demo_sched :: "string sched" where
  "demo_sched = \<lparr>sc_local = [], sc_pending = pr_default, sc_enqueues = 3, sc_taken = 3, sc_wake = False,
     sc_drain_active = True, sc_dispatch = Some True\<rparr>"

theorem schedule_order_preserved_witness:
  "\<exists>sc sc'. sched_run demo_sched [''a'', ''b'', ''c''] [] sc
    \<and> next_generation sc = Some ([''a'', ''b'', ''c''], sc')"
proof -
  let ?s1 = "snd (try_enqueue_local_ready True ''a'' demo_sched)"
  let ?s2 = "snd (try_enqueue_active_ready ''b'' ?s1)"
  let ?s3 = "snd (try_enqueue_local_ready True ''c'' ?s2)"
  have inv: "sched_inv demo_sched" "sched_order demo_sched = []"
    by (simp_all add: demo_sched_def sched_inv_def sched_order_def pr_default_def pr_wf_def pr_view_def)
  have "sched_run demo_sched ([] @ [''a'']) [] ?s1"
    by (rule sched_run.call_soon [OF sched_run.init])
       (simp add: try_enqueue_local_ready_def Let_def)
  then have "sched_run demo_sched (([] @ [''a'']) @ [''b'']) [] ?s2"
    by (rule sched_run.threadsafe)
       (simp add: try_enqueue_active_ready_def try_enqueue_local_ready_def note_local_enqueues_def
         demo_sched_def Let_def)
  then have "sched_run demo_sched ((([] @ [''a'']) @ [''b'']) @ [''c'']) [] ?s3"
    by (rule sched_run.call_soon) (simp add: try_enqueue_local_ready_def Let_def)
  then have run: "sched_run demo_sched [''a'', ''b'', ''c''] [] ?s3" by simp
  from schedule_order_preserved [OF inv run] run show ?thesis by auto
qed

text \<open>
  Work left over from before a run goes first: when the dispatcher hands it over, stamped with
  the enqueue count the run started with, it precedes everything the run has queued since, even if
  the loop thread has been scheduling in the meantime.\<close>

lemma carried_work_first:
  assumes "sched_inv sc" "pr_items (sc_pending sc) = []" "m \<le> sc_taken sc"
  shows "\<exists>sc'. next_generation (sc\<lparr>sc_pending := pr_extend xs m (sc_pending sc), sc_wake := True\<rparr>)
    = Some (xs @ sc_local sc, sc')"
proof -
  let ?sc = "sc\<lparr>sc_pending := pr_extend xs m (sc_pending sc), sc_wake := True\<rparr>"
  note c = carry_pending_order [OF assms refl, of xs]
  have "pr_view (sc_pending sc) = []"
    using map_fst_seg_view [of "pr_marks (sc_pending sc)" "pr_items (sc_pending sc)"] assms(1,2)
    by (simp add: sched_inv_def pr_wf_def pr_view_def)
  then have "sched_order sc = sc_local sc" by (simp add: sched_order_def)
  with c(2) next_generation_order [OF c(1)] show ?thesis by metis
qed

end
