(* ===== verification/Timer_Queue.thy ===== *)
theory Timer_Queue
  imports Timer_Callback Due_Queue Ready_Queue "HOL-Library.Product_Lexorder"
begin

section \<open>The loop's timer queue (engine/timer_entry.rs, LocalTimers in engine/loop_core.rs)\<close>

text \<open>
  Timers wait in two lanes: a FIFO of timers that were due when scheduled and arrived in deadline
  order, and a binary heap of all others. \<open>std::collections::BinaryHeap\<close> is a list of its elements;
  \<open>bh_peek\<close> is a greatest element for the source's reversed order. While a run is active the queue
  belongs to the loop thread (\<open>tcore_local\<close>); timers scheduled elsewhere wait in \<open>pending_timers\<close>,
  and the end of a run returns its timers there. A \<open>Duration\<close> is a number of nanoseconds.
\<close>

record tq_entry =
  tq_when :: instant
  tq_seq :: u64
  tq_callback :: nat

datatype ordering = Less | Equal | Greater

definition cmp :: "'a::linorder \<Rightarrow> 'a \<Rightarrow> ordering" where
  "cmp a b = (if a < b then Less else if a = b then Equal else Greater)"

definition then_with :: "ordering \<Rightarrow> ordering \<Rightarrow> ordering" where
  "then_with a b = (if a = Equal then b else a)"

definition compare_timer_parts :: "'t::linorder \<Rightarrow> u64 \<Rightarrow> 't \<Rightarrow> u64 \<Rightarrow> ordering" where
  "compare_timer_parts left_when left_seq right_when right_seq =
     then_with (cmp right_when left_when) (cmp right_seq left_seq)"

definition entry_cmp :: "tq_entry \<Rightarrow> tq_entry \<Rightarrow> ordering" where
  "entry_cmp a b = compare_timer_parts (tq_when a) (tq_seq a) (tq_when b) (tq_seq b)"

fun bh_peek :: "tq_entry list \<Rightarrow> tq_entry option" where
  "bh_peek [] = None"
| "bh_peek (x # xs) =
     (case bh_peek xs of
        None \<Rightarrow> Some x
      | Some y \<Rightarrow> if entry_cmp y x = Greater then Some y else Some x)"

definition bh_pop :: "tq_entry list \<Rightarrow> tq_entry option \<times> tq_entry list" where
  "bh_pop xs = (case bh_peek xs of None \<Rightarrow> (None, xs) | Some e \<Rightarrow> (Some e, remove1 e xs))"

record timer_queue =
  tq_ordered :: "tq_entry list"
  tq_unordered :: "tq_entry list"

definition tq_new :: timer_queue where
  "tq_new = \<lparr>tq_ordered = [], tq_unordered = []\<rparr>"

definition tq_is_empty :: "timer_queue \<Rightarrow> bool" where
  "tq_is_empty q \<longleftrightarrow> tq_ordered q = [] \<and> tq_unordered q = []"

definition tq_len :: "timer_queue \<Rightarrow> nat" where
  "tq_len q = length (tq_ordered q) + length (tq_unordered q)"

definition tq_push :: "tq_entry \<Rightarrow> bool \<Rightarrow> timer_queue \<Rightarrow> timer_queue" where
  "tq_push entry immediate q =
     (if immediate \<and> (tq_ordered q = [] \<or> entry_cmp entry (last (tq_ordered q)) \<noteq> Greater)
      then q\<lparr>tq_ordered := tq_ordered q @ [entry]\<rparr>
      else q\<lparr>tq_unordered := tq_unordered q @ [entry]\<rparr>)"

definition tq_peek :: "timer_queue \<Rightarrow> tq_entry option" where
  "tq_peek q =
     (case (tq_ordered q, bh_peek (tq_unordered q)) of
        (front # _, Some heap_top) \<Rightarrow> if entry_cmp heap_top front = Greater then Some heap_top else Some front
      | (front # _, None) \<Rightarrow> Some front
      | ([], heap_top) \<Rightarrow> heap_top)"

definition pop_ordered :: "timer_queue \<Rightarrow> tq_entry option \<times> timer_queue" where
  "pop_ordered q = (case tq_ordered q of [] \<Rightarrow> (None, q) | e # es \<Rightarrow> (Some e, q\<lparr>tq_ordered := es\<rparr>))"

definition pop_unordered :: "timer_queue \<Rightarrow> tq_entry option \<times> timer_queue" where
  "pop_unordered q = (let (e, es) = bh_pop (tq_unordered q) in (e, q\<lparr>tq_unordered := es\<rparr>))"

definition tq_pop :: "timer_queue \<Rightarrow> tq_entry option \<times> timer_queue" where
  "tq_pop q =
     (case (tq_ordered q, bh_peek (tq_unordered q)) of
        (front # _, Some heap_top) \<Rightarrow> if entry_cmp heap_top front = Greater then pop_unordered q else pop_ordered q
      | (front # _, None) \<Rightarrow> pop_ordered q
      | ([], _) \<Rightarrow> pop_unordered q)"

definition tq_append_heap :: "tq_entry list \<Rightarrow> timer_queue \<Rightarrow> timer_queue" where
  "tq_append_heap other q = q\<lparr>tq_unordered := tq_unordered q @ other\<rparr>"

definition tq_drain_into :: "timer_queue \<Rightarrow> tq_entry list \<Rightarrow> tq_entry list" where
  "tq_drain_into q other = (other @ tq_unordered q) @ tq_ordered q"

fun compact_lane ::
    "tq_entry list \<Rightarrow> 'p timer_store \<Rightarrow> ready_item list
      \<Rightarrow> tq_entry list \<times> 'p timer_store \<times> ready_item list" where
  "compact_lane [] s ready = ([], s, ready)"
| "compact_lane (e # es) s ready =
     (if \<not> timer_cancelled s (tq_callback e)
      then (let (kept, s', ready') = compact_lane es s ready in (e # kept, s', ready'))
      else compact_lane es (timer_dequeue (tq_callback e) s) (ready @ [RTimerCallback (tq_callback e)]))"

definition compact_cancelled ::
    "timer_queue \<Rightarrow> 'p timer_store \<Rightarrow> ready_item list \<Rightarrow> timer_queue \<times> 'p timer_store \<times> ready_item list" where
  "compact_cancelled q s ready =
     (let (ordered, s1, ready1) = compact_lane (tq_ordered q) s ready;
          (unordered, s2, ready2) = compact_lane (tq_unordered q) s1 ready1
      in (\<lparr>tq_ordered = ordered, tq_unordered = unordered\<rparr>, s2, ready2))"

lemma bh_peek_in: "bh_peek xs = Some e \<Longrightarrow> e \<in> set xs"
  by (induction xs arbitrary: e) (auto split: option.splits if_splits)

lemma bh_peek_None [simp]: "bh_peek xs = None \<longleftrightarrow> xs = []"
  by (cases xs) (auto split: option.splits)

lemma bh_pop_len: "bh_pop xs = (Some e, ys) \<Longrightarrow> length ys < length xs"
  using bh_peek_in [of xs e] length_pos_if_in_set [of e xs]
  by (auto simp: bh_pop_def length_remove1 split: option.splits)

lemma tq_pop_len: "tq_pop q = (Some e, q') \<Longrightarrow> tq_len q' < tq_len q"
  by (auto simp: tq_pop_def pop_ordered_def pop_unordered_def tq_len_def
      dest: bh_pop_len split: list.splits option.splits if_splits prod.splits)

function collect_due ::
    "instant \<Rightarrow> timer_queue \<Rightarrow> 'p timer_store \<Rightarrow> ready_item list
      \<Rightarrow> (timer_queue \<times> 'p timer_store \<times> ready_item list) option" where
  "collect_due now q s ready =
     (case tq_peek q of
        None \<Rightarrow> Some (q, s, ready)
      | Some entry \<Rightarrow>
          if tq_when entry \<le> now \<or> timer_cancelled s (tq_callback entry)
          then (case tq_pop q of
                  (None, q') \<Rightarrow> None
                | (Some e, q') \<Rightarrow>
                    collect_due now q' (timer_dequeue (tq_callback e) s)
                      (ready @ [RTimerCallback (tq_callback e)]))
          else Some (q, s, ready))"
  by pat_completeness auto
termination
  by (relation "measure (\<lambda>(now, q, s, ready). tq_len q)") (auto dest: tq_pop_len [OF sym])

declare collect_due.simps [simp del]

record 'p timer_core =
  tcore_closed :: bool
  tcore_pending :: "tq_entry list"
  tcore_dirty :: bool
  tcore_wake :: bool
  tcore_store :: "'p timer_store"
  tcore_local :: "timer_queue option"

definition local_timers_new :: "'p timer_core \<Rightarrow> 'p timer_core" where
  "local_timers_new c = c\<lparr>tcore_local := Some tq_new\<rparr>"

definition merge_pending :: "'p timer_core \<Rightarrow> timer_queue \<Rightarrow> timer_queue \<times> 'p timer_core" where
  "merge_pending c q =
     (if tcore_dirty c
      then (tq_append_heap (tcore_pending c) q, c\<lparr>tcore_dirty := False, tcore_pending := []\<rparr>)
      else (q, c))"

definition collect ::
    "instant \<Rightarrow> 'p timer_core \<Rightarrow> timer_queue \<Rightarrow> ready_item list
      \<Rightarrow> (timer_queue \<times> 'p timer_core \<times> ready_item list) option" where
  "collect now c q ready = do {
     let (q1, c1) = merge_pending c q;
     let cancelled = unat (st_cancelled_timers (tcore_store c1));
     let (q2, s2, ready2) =
       (if cancelled > 100 \<and> cancelled > tq_len q1 div 2
        then compact_cancelled q1 (tcore_store c1) ready
        else (q1, tcore_store c1, ready));
     (if tq_is_empty q2 then Some (q2, c1\<lparr>tcore_store := s2\<rparr>, ready2)
      else do {
        (q3, s3, ready3) \<leftarrow> collect_due now q2 s2 ready2;
        Some (q3, c1\<lparr>tcore_store := s3\<rparr>, ready3)
      })
   }"

abbreviation signal_poll_interval :: nat where
  "signal_poll_interval \<equiv> 50000000"

definition local_deadline :: "instant \<Rightarrow> timer_queue \<Rightarrow> instant" where
  "local_deadline now q =
     (let signal_deadline = now + signal_poll_interval
      in case tq_peek q of None \<Rightarrow> signal_deadline | Some entry \<Rightarrow> min (tq_when entry) signal_deadline)"

definition local_timers_drop :: "timer_queue \<Rightarrow> 'p timer_core \<Rightarrow> 'p timer_core" where
  "local_timers_drop q c =
     (let c1 = c\<lparr>tcore_local := None\<rparr>
      in if \<not> tq_is_empty q
         then c1\<lparr>tcore_pending := tq_drain_into q (tcore_pending c1), tcore_dirty := True\<rparr>
         else c1)"

text \<open>\<open>Inl ()\<close> is the error \<open>event loop is closed\<close>; \<open>on_loop\<close>: the caller is the thread running this loop.\<close>

definition enqueue_timer ::
    "bool \<Rightarrow> instant \<Rightarrow> nat \<Rightarrow> u64 \<Rightarrow> nat \<Rightarrow> 'p timer_core \<Rightarrow> (unit + instant) \<times> 'p timer_core" where
  "enqueue_timer on_loop now delay cid ready c =
     (let deadline = now + delay;
          entry = \<lparr>tq_when = deadline, tq_seq = cid, tq_callback = ready\<rparr>
      in case (if on_loop then tcore_local c else None) of
           Some q \<Rightarrow> (Inr deadline, c\<lparr>tcore_local := Some (tq_push entry (delay = 0) q)\<rparr>)
         | None \<Rightarrow>
             if tcore_closed c then (Inl (), c)
             else (Inr deadline,
                   c\<lparr>tcore_pending := tcore_pending c @ [entry], tcore_dirty := True, tcore_wake := True\<rparr>))"

subsection \<open>The queue as a multiset with a least element\<close>

definition tq_key :: "tq_entry \<Rightarrow> instant \<times> u64" where
  "tq_key e = (tq_when e, tq_seq e)"

definition tq_inv :: "timer_queue \<Rightarrow> bool" where
  "tq_inv q \<longleftrightarrow> sorted (map tq_key (tq_ordered q))"

definition tq_pend :: "timer_queue \<Rightarrow> tq_entry multiset" where
  "tq_pend q = mset (tq_ordered q) + mset (tq_unordered q)"

lemma entry_cmp_Greater: "entry_cmp a b = Greater \<longleftrightarrow> tq_key a < tq_key b"
  by (auto simp: entry_cmp_def compare_timer_parts_def then_with_def cmp_def tq_key_def less_prod_def'
      split: if_splits)

lemma bh_peek_least: "bh_peek xs = Some e \<Longrightarrow> x \<in> set xs \<Longrightarrow> tq_key e \<le> tq_key x"
  by (induction xs arbitrary: e x)
     (fastforce simp: entry_cmp_Greater split: option.splits if_splits)+

lemma tq_is_empty_pend [simp]: "tq_is_empty q \<longleftrightarrow> tq_pend q = {#}"
  by (simp add: tq_is_empty_def tq_pend_def)

lemma tq_pop_peek: "fst (tq_pop q) = tq_peek q"
  by (auto simp: tq_pop_def tq_peek_def pop_ordered_def pop_unordered_def bh_pop_def
      split: list.splits option.splits prod.splits)

lemma tq_peek_None: "tq_peek q = None \<longleftrightarrow> tq_pend q = {#}"
  by (auto simp: tq_peek_def tq_pend_def split: list.splits option.splits)

lemma tq_peek_least:
  assumes "tq_inv q" "tq_peek q = Some e"
  shows "e \<in># tq_pend q" "\<And>y. y \<in># tq_pend q \<Longrightarrow> tq_key e \<le> tq_key y"
  using assms bh_peek_least [of "tq_unordered q"] bh_peek_in [of "tq_unordered q"]
  by (fastforce simp: tq_inv_def tq_pend_def tq_peek_def entry_cmp_Greater
      split: list.splits option.splits if_splits)+

lemma tq_pop_Some:
  assumes "tq_inv q" "tq_peek q = Some e"
  obtains q' where "tq_pop q = (Some e, q')" "tq_inv q'" "tq_pend q = add_mset e (tq_pend q')"
  using assms bh_peek_in [of "tq_unordered q"] that
  by (fastforce simp: tq_inv_def tq_pend_def tq_peek_def tq_pop_def pop_ordered_def pop_unordered_def
      bh_pop_def split: list.splits option.splits if_splits)

lemma tq_push_inv:
  assumes "tq_inv q"
  shows "tq_inv (tq_push e imm q)" "tq_pend (tq_push e imm q) = add_mset e (tq_pend q)"
proof -
  have "tq_key x \<le> tq_key e"
    if "x \<in> set (tq_ordered q)" "entry_cmp e (last (tq_ordered q)) \<noteq> Greater" for x
  proof -
    have "tq_key x \<le> tq_key (last (tq_ordered q))"
      using that(1) assms by (cases "tq_ordered q" rule: rev_cases) (auto simp: tq_inv_def sorted_append)
    then show ?thesis using that(2) by (simp add: entry_cmp_Greater)
  qed
  then show "tq_inv (tq_push e imm q)"
    using assms by (auto simp: tq_inv_def tq_push_def sorted_append)
  show "tq_pend (tq_push e imm q) = add_mset e (tq_pend q)"
    by (simp add: tq_push_def tq_pend_def)
qed

lemma tq_append_inv:
  "tq_inv q \<Longrightarrow> tq_inv (tq_append_heap other q)"
  "tq_pend (tq_append_heap other q) = tq_pend q + mset other"
  by (simp_all add: tq_inv_def tq_append_heap_def tq_pend_def)

lemma mset_tq_drain: "mset (tq_drain_into q other) = mset other + tq_pend q"
  by (simp add: tq_drain_into_def tq_pend_def)

text \<open>The drain loop of \<open>collect\<close>, as an instance of the generic one.\<close>

definition tq_due :: "instant \<times> (nat \<Rightarrow> bool) \<Rightarrow> tq_entry \<Rightarrow> bool" where
  "tq_due = (\<lambda>(now, cancelled) e. tq_when e \<le> now \<or> cancelled (tq_callback e))"

definition tq_pop_due :: "instant \<times> (nat \<Rightarrow> bool) \<Rightarrow> timer_queue \<Rightarrow> (tq_entry \<times> timer_queue) option" where
  "tq_pop_due t q =
     (case tq_peek q of
        None \<Rightarrow> None
      | Some e \<Rightarrow> if tq_due t e then Some (e, snd (tq_pop q)) else None)"

interpretation tq: due_queue tq_inv tq_pend tq_key tq_due tq_pop_due
proof
  fix q t assume inv: "tq_inv q" and none: "tq_pop_due t q = None"
  show "tq_pend q = {#}
    \<or> (\<exists>x \<in># tq_pend q. \<not> tq_due t x \<and> (\<forall>y \<in># tq_pend q. tq_key x \<le> tq_key y))"
  proof (cases "tq_peek q")
    case None
    then show ?thesis by (simp add: tq_peek_None)
  next
    case (Some e)
    then have "\<not> tq_due t e" using none by (simp add: tq_pop_due_def split: if_splits)
    then show ?thesis using tq_peek_least [OF inv Some] by blast
  qed
next
  fix q t x q' assume inv: "tq_inv q" and some: "tq_pop_due t q = Some (x, q')"
  then have x: "tq_peek q = Some x" "tq_due t x" "q' = snd (tq_pop q)"
    by (auto simp: tq_pop_due_def split: option.splits if_splits)
  obtain q'' where "tq_pop q = (Some x, q'')" "tq_inv q''" "tq_pend q = add_mset x (tq_pend q'')"
    using tq_pop_Some [OF inv x(1)] .
  with x(3) have "tq_inv q'" "tq_pend q = add_mset x (tq_pend q')" by simp_all
  then show "tq_inv q' \<and> tq_due t x \<and> tq_pend q = add_mset x (tq_pend q')
      \<and> (\<forall>y \<in># tq_pend q'. tq_key x \<le> tq_key y)"
    using x(2) tq_peek_least(2) [OF inv x(1)] by auto
qed

lemma timer_cancelled_dequeue [simp]:
  "timer_cancelled (timer_dequeue a s) b = timer_cancelled s b"
  by (auto simp: timer_cancelled_def timer_dequeue_def set_timer_def ready_flag_def Let_def
      split: option.splits)

definition dequeue_all :: "tq_entry list \<Rightarrow> 'p timer_store \<Rightarrow> 'p timer_store" where
  "dequeue_all es s = fold (\<lambda>e. timer_dequeue (tq_callback e)) es s"

lemma dequeue_all_simps [simp]:
  "dequeue_all [] s = s" "dequeue_all (e # es) s = dequeue_all es (timer_dequeue (tq_callback e) s)"
  "dequeue_all (es @ fs) s = dequeue_all fs (dequeue_all es s)"
  by (simp_all add: dequeue_all_def)

lemma timer_cancelled_dequeue_all [simp]:
  "timer_cancelled (dequeue_all es s) b = timer_cancelled s b"
  by (induction es arbitrary: s) auto

abbreviation timer_items :: "tq_entry list \<Rightarrow> ready_item list" where
  "timer_items es \<equiv> map (\<lambda>e. RTimerCallback (tq_callback e)) es"

lemma collect_due_drains:
  assumes "tq.drains (now, timer_cancelled s) q es q'" "tq_inv q"
  shows "collect_due now q s ready = Some (q', dequeue_all es s, ready @ timer_items es)"
proof -
  have "tq.drains t q es q' \<Longrightarrow> tq_inv q \<Longrightarrow> t = (now, timer_cancelled s) \<Longrightarrow>
      collect_due now q s ready = Some (q', dequeue_all es s, ready @ timer_items es)" for t
  proof (induction arbitrary: s ready rule: tq.drains.induct)
    case (stop q)
    then show ?case
      by (subst collect_due.simps) (auto simp: tq_pop_due_def tq_due_def split: option.splits if_splits)
  next
    case (pop q x q1 es q')
    then have x: "tq_peek q = Some x" "tq_due t x" "q1 = snd (tq_pop q)"
      by (auto simp: tq_pop_due_def split: option.splits if_splits)
    have pop': "tq_pop q = (Some x, q1)" using tq_pop_peek [of q] x by (cases "tq_pop q") auto
    have "timer_cancelled (timer_dequeue (tq_callback x) s) = timer_cancelled s" by (rule ext) simp
    then have t: "t = (now, timer_cancelled (timer_dequeue (tq_callback x) s))" using pop(5) by simp
    have "tq_inv q1" using tq.pop_Some [OF pop(4,1)] by simp
    note step = pop(3) [OF this t, of "ready @ timer_items [x]"]
    show ?case using x pop' pop(5) step by (subst collect_due.simps) (simp add: tq_due_def)
  qed
  then show ?thesis using assms by blast
qed

lemma compact_lane_spec:
  "compact_lane es s ready =
     (filter (\<lambda>e. \<not> timer_cancelled s (tq_callback e)) es,
      dequeue_all (filter (\<lambda>e. timer_cancelled s (tq_callback e)) es) s,
      ready @ timer_items (filter (\<lambda>e. timer_cancelled s (tq_callback e)) es))"
  by (induction es arbitrary: s ready) simp_all

lemma compact_cancelled_spec:
  assumes "compact_cancelled q s ready = (q', s', ready')" "tq_inv q"
  obtains cs where "s' = dequeue_all cs s" "ready' = ready @ timer_items cs" "tq_inv q'"
    "tq_pend q = mset cs + tq_pend q'" "\<forall>e \<in> set cs. timer_cancelled s (tq_callback e)"
proof -
  let ?c = "\<lambda>e. timer_cancelled s (tq_callback e)"
  let ?cs = "filter ?c (tq_ordered q) @ filter ?c (tq_unordered q)"
  have q': "q' = \<lparr>tq_ordered = filter (\<lambda>e. \<not> ?c e) (tq_ordered q),
      tq_unordered = filter (\<lambda>e. \<not> ?c e) (tq_unordered q)\<rparr>"
    and "s' = dequeue_all ?cs s" "ready' = ready @ timer_items ?cs"
    using assms(1) by (auto simp: compact_cancelled_def compact_lane_spec Let_def)
  moreover have "tq_inv q'" using assms(2) unfolding q' by (simp add: tq_inv_def sorted_filter)
  moreover have "tq_pend q = mset ?cs + tq_pend q'"
    unfolding q' tq_pend_def
    by (simp add: ac_simps)
  ultimately show ?thesis by (intro that [of ?cs]) auto
qed

lemma collect_spec:
  assumes inv: "tq_inv q"
  obtains c1 q1 q' s' es cs ds where "merge_pending c q = (q1, c1)"
    "collect now c q ready = Some (q', c1\<lparr>tcore_store := s'\<rparr>, ready @ timer_items es)"
    "s' = dequeue_all es (tcore_store c)" "es = cs @ ds" "tq_inv q'" "tq_pend q1 = mset es + tq_pend q'"
    "\<forall>e \<in> set cs. timer_cancelled (tcore_store c) (tq_callback e)"
    "\<forall>e \<in> set ds. tq_when e \<le> now \<or> timer_cancelled (tcore_store c) (tq_callback e)"
    "sorted (map tq_key ds)" "\<forall>e \<in># tq_pend q'. now < tq_when e"
    "\<forall>x \<in> set ds. \<forall>y \<in># tq_pend q'. tq_key x \<le> tq_key y"
proof -
  let ?s = "tcore_store c"
  obtain q1 c1 where m: "merge_pending c q = (q1, c1)" by fastforce
  have c1: "tcore_store c1 = ?s" and q1: "tq_inv q1"
    using m inv tq_append_inv(1) by (auto simp: merge_pending_def split: if_splits)
  let ?n = "unat (st_cancelled_timers ?s)"
  let ?comp = "?n > 100 \<and> ?n > tq_len q1 div 2"
  obtain q2 s2 r2 where q2: "(if ?comp then compact_cancelled q1 ?s ready else (q1, ?s, ready)) = (q2, s2, r2)"
    by (metis prod_cases3)
  obtain cs where cs: "s2 = dequeue_all cs ?s" "r2 = ready @ timer_items cs" "tq_inv q2"
    "tq_pend q1 = mset cs + tq_pend q2" "\<forall>e \<in> set cs. timer_cancelled ?s (tq_callback e)"
  proof (cases ?comp)
    case True
    then have "compact_cancelled q1 ?s ready = (q2, s2, r2)" using q2 by simp
    from compact_cancelled_spec [OF this q1] that show ?thesis by blast
  next
    case False
    then have "q2 = q1" "s2 = ?s" "r2 = ready" using q2 by (auto split: if_splits)
    then show ?thesis using that [of "[]"] q1 by simp
  qed
  have same: "timer_cancelled s2 = timer_cancelled ?s" unfolding cs(1) by (rule ext) simp
  obtain ds q' where d: "tq.drains (now, timer_cancelled s2) q2 ds q'"
    using tq.drains_total [OF cs(3)] by blast
  note due = collect_due_drains [OF d cs(3), of r2]
  note sp = tq.drains_split [OF d cs(3)] and so = tq.drains_sorted [OF d cs(3)]
  have "ds = [] \<and> q' = q2" if "tq_pend q2 = {#}"
    using d that tq_peek_None [of q2] by (cases rule: tq.drains.cases) (auto simp: tq_pop_due_def)
  then have "collect now c q ready = Some (q', c1\<lparr>tcore_store := dequeue_all (cs @ ds) ?s\<rparr>, ready @ timer_items (cs @ ds))"
    using m c1 q2 due by (auto simp: collect_def Let_def cs(1,2))
  moreover have "now < tq_when e" if e: "e \<in># tq_pend q'" for e
  proof -
    obtain x where "x \<in># tq_pend q'" "\<not> tq_due (now, timer_cancelled s2) x" "tq_key x \<le> tq_key e"
      using sp e by (cases "tq_pend q' = {#}") auto
    then show ?thesis by (auto simp: tq_due_def tq_key_def less_eq_prod_def)
  qed
  ultimately show ?thesis
    using m cs sp so
    by (intro that [of q1 c1 q' _ "cs @ ds" cs ds]) (auto simp: tq_due_def same)
qed

subsection \<open>Timers over the life of a loop\<close>

text \<open>
  The steps that touch timers, with the callbacks they schedule and the items they deliver: scheduling
  from the loop thread or another one, the start and end of a run, one \<open>collect\<close> of a turn, and any
  step of another owner of a timer (a cancellation, say).
\<close>

inductive core_run :: "'p timer_core \<Rightarrow> nat list \<Rightarrow> ready_item list \<Rightarrow> 'p timer_core \<Rightarrow> bool" for c0 where
  start: "core_run c0 [] [] c0"
| enqueue: "core_run c0 ins outs c \<Longrightarrow> enqueue_timer on_loop now delay cid a c = (Inr when, c')
    \<Longrightarrow> core_run c0 (ins @ [a]) outs c'"
| begin_run: "core_run c0 ins outs c \<Longrightarrow> tcore_local c = None \<Longrightarrow> core_run c0 ins outs (local_timers_new c)"
| turn: "core_run c0 ins outs c \<Longrightarrow> tcore_local c = Some q \<Longrightarrow> collect now c q [] = Some (q', c', items)
    \<Longrightarrow> core_run c0 ins (outs @ items) (c'\<lparr>tcore_local := Some q'\<rparr>)"
| end_run: "core_run c0 ins outs c \<Longrightarrow> tcore_local c = Some q \<Longrightarrow> core_run c0 ins outs (local_timers_drop q c)"
| other: "core_run c0 ins outs c \<Longrightarrow> timer_step (tcore_store c) s'
    \<Longrightarrow> core_run c0 ins outs (c\<lparr>tcore_store := s'\<rparr>)"

definition waiting :: "'p timer_core \<Rightarrow> tq_entry multiset" where
  "waiting c = mset (tcore_pending c) + (case tcore_local c of None \<Rightarrow> {#} | Some q \<Rightarrow> tq_pend q)"

definition core_inv :: "'p timer_core \<Rightarrow> bool" where
  "core_inv c \<longleftrightarrow> (\<forall>q. tcore_local c = Some q \<longrightarrow> tq_inv q) \<and> (tcore_pending c \<noteq> [] \<longrightarrow> tcore_dirty c)"

abbreviation item_of :: "tq_entry \<Rightarrow> ready_item" where
  "item_of e \<equiv> RTimerCallback (tq_callback e)"

lemma enqueue_timer_waiting:
  assumes "core_inv c" "enqueue_timer on_loop now delay cid a c = (Inr when, c')"
  shows "core_inv c'" "waiting c' = add_mset \<lparr>tq_when = now + delay, tq_seq = cid, tq_callback = a\<rparr> (waiting c)"
  using assms
  by (auto simp: enqueue_timer_def core_inv_def waiting_def tq_push_inv Let_def split: option.splits if_splits)

lemma local_timers_new_waiting:
  "core_inv c \<Longrightarrow> tcore_local c = None \<Longrightarrow> core_inv (local_timers_new c) \<and> waiting (local_timers_new c) = waiting c"
  by (simp add: core_inv_def waiting_def local_timers_new_def tq_inv_def tq_new_def tq_pend_def)

lemma local_timers_drop_waiting:
  "core_inv c \<Longrightarrow> tcore_local c = Some q
    \<Longrightarrow> core_inv (local_timers_drop q c) \<and> waiting (local_timers_drop q c) = waiting c"
  by (auto simp: core_inv_def waiting_def local_timers_drop_def mset_tq_drain Let_def)

lemma collect_waiting:
  assumes inv: "core_inv c" and q: "tcore_local c = Some q" and r: "collect now c q [] = Some (q', c', items)"
  shows "core_inv (c'\<lparr>tcore_local := Some q'\<rparr>)"
    "image_mset item_of (waiting c) = mset items + image_mset item_of (waiting (c'\<lparr>tcore_local := Some q'\<rparr>))"
    "\<forall>e \<in># waiting (c'\<lparr>tcore_local := Some q'\<rparr>). now < tq_when e"
proof -
  have "tq_inv q" using inv q by (simp add: core_inv_def)
  then obtain c1 q1 qq s' es cs ds where m: "merge_pending c q = (q1, c1)"
    and *: "collect now c q [] = Some (qq, c1\<lparr>tcore_store := s'\<rparr>, [] @ timer_items es)"
    "tq_inv qq" "tq_pend q1 = mset es + tq_pend qq" "\<forall>e \<in># tq_pend qq. now < tq_when e"
    by (rule collect_spec [of q c now "[]"]) (rule that)
  from * r have eq: "qq = q'" "c' = c1\<lparr>tcore_store := s'\<rparr>" "items = timer_items es" by auto
  have c1: "tcore_pending c1 = []" "tq_pend q1 = waiting c"
    using m inv q tq_append_inv(2)
    by (auto simp: merge_pending_def core_inv_def waiting_def split: if_splits)
  show "core_inv (c'\<lparr>tcore_local := Some q'\<rparr>)" using c1 * eq by (simp add: core_inv_def)
  show "image_mset item_of (waiting c) = mset items + image_mset item_of (waiting (c'\<lparr>tcore_local := Some q'\<rparr>))"
    unfolding c1(2) [symmetric] *(3) using c1(1) eq by (simp add: waiting_def)
  show "\<forall>e \<in># waiting (c'\<lparr>tcore_local := Some q'\<rparr>). now < tq_when e"
    using c1(1) *(4) eq by (simp add: waiting_def)
qed

lemma core_run_waiting:
  "core_run c0 ins outs c \<Longrightarrow> core_inv c0 \<Longrightarrow> core_inv c
    \<and> mset (map RTimerCallback ins) + image_mset item_of (waiting c0) = mset outs + image_mset item_of (waiting c)"
proof (induction rule: core_run.induct)
  case (enqueue ins outs c on_loop now delay cid a w c')
  then show ?case using enqueue_timer_waiting [of c on_loop now delay cid a w c'] by simp
next
  case (begin_run ins outs c)
  then show ?case using local_timers_new_waiting [of c] by simp
next
  case (turn ins outs c q now q' c' items)
  then show ?case using collect_waiting(1,2) [of c q now q' c' items] by simp
next
  case (end_run ins outs c q)
  then show ?case using local_timers_drop_waiting [of c q] by simp
next
  case (other ins outs c s')
  have "waiting (c\<lparr>tcore_store := s'\<rparr>) = waiting c" "core_inv (c\<lparr>tcore_store := s'\<rparr>) = core_inv c"
    by (simp_all add: core_inv_def waiting_def)
  with other show ?case by simp
qed simp

subsection \<open>Properties\<close>

text \<open>
  The two-lane timer queue is a priority queue: popping returns an entry that no other precedes
  by (deadline, sequence number), in whichever lane it lies, agrees with \<open>peek\<close>, and removes exactly
  that entry; it returns nothing only when both lanes are empty.\<close>

lemma tq_pop_is_minimum:
  assumes "tq_inv q"
  shows "case tq_pop q of
      (None, q') \<Rightarrow> tq_peek q = None \<and> tq_pend q = {#} \<and> tq_pend q' = {#}
    | (Some e, q') \<Rightarrow> tq_peek q = Some e \<and> tq_inv q' \<and> tq_pend q = add_mset e (tq_pend q')
        \<and> (\<forall>y \<in># tq_pend q'. tq_key e \<le> tq_key y)"
proof (cases "tq_peek q")
  case None
  then have "tq_pop q = (None, q)"
    by (auto simp: tq_pop_def tq_peek_def pop_unordered_def bh_pop_def split: list.splits option.splits if_splits)
  then show ?thesis using None by (simp add: tq_peek_None)
next
  case (Some e)
  obtain q' where "tq_pop q = (Some e, q')" "tq_inv q'" "tq_pend q = add_mset e (tq_pend q')"
    using tq_pop_Some [OF assms Some] .
  then show ?thesis using Some tq_peek_least(2) [OF assms Some] by simp
qed

text \<open>C21. One \<open>collect\<close> of the loop turn: after merging the timers scheduled off-thread, every timer
  whose deadline has passed is moved to the ready queue and none of them stays behind; only timers that
  are due or cancelled are moved, each exactly once; the live ones run in the order of their deadlines
  and, for equal deadlines, of scheduling; every moved timer is marked as dequeued. The call cannot
  panic.\<close>

theorem collect_moves_due:
  assumes "tq_inv q"
  shows "\<exists>q1 c1 q' es. merge_pending c q = (q1, c1)
    \<and> collect now c q ready
      = Some (q', c1\<lparr>tcore_store := dequeue_all es (tcore_store c)\<rparr>, ready @ timer_items es)
    \<and> tq_inv q' \<and> tq_pend q1 = mset es + tq_pend q' \<and> (\<forall>e \<in># tq_pend q'. now < tq_when e)
    \<and> (\<forall>e \<in> set es. tq_when e \<le> now \<or> timer_cancelled (tcore_store c) (tq_callback e))
    \<and> sorted (map tq_key (filter (\<lambda>e. \<not> timer_cancelled (tcore_store c) (tq_callback e)) es))"
proof -
  obtain c1 q1 q' s' es cs ds where "merge_pending c q = (q1, c1)"
    "collect now c q ready = Some (q', c1\<lparr>tcore_store := s'\<rparr>, ready @ timer_items es)"
    "s' = dequeue_all es (tcore_store c)" "es = cs @ ds" "tq_inv q'" "tq_pend q1 = mset es + tq_pend q'"
    "\<forall>e \<in> set cs. timer_cancelled (tcore_store c) (tq_callback e)"
    "\<forall>e \<in> set ds. tq_when e \<le> now \<or> timer_cancelled (tcore_store c) (tq_callback e)"
    "sorted (map tq_key ds)" "\<forall>e \<in># tq_pend q'. now < tq_when e"
    by (rule collect_spec [OF assms, of c now ready])
  moreover from this have "filter (\<lambda>e. \<not> timer_cancelled (tcore_store c) (tq_callback e)) cs = []"
    by (simp add: filter_empty_conv)
  ultimately show ?thesis
    by (intro exI [of _ q1] exI [of _ c1] exI [of _ q'] exI [of _ es]) (auto simp: sorted_filter)
qed

definition demo_store :: "nat timer_store" where
  "demo_store = \<lparr>st_timers = Map.empty, st_ready = Map.empty, st_cancelled_timers = 0\<rparr>"

definition demo_core :: "nat timer_core" where
  "demo_core = \<lparr>tcore_closed = False, tcore_pending = [\<lparr>tq_when = 4, tq_seq = 1, tq_callback = 1\<rparr>],
     tcore_dirty = True, tcore_wake = False, tcore_store = demo_store, tcore_local = None\<rparr>"

theorem collect_moves_due_witness:
  "\<exists>q' c' es. collect 5 demo_core (tq_push \<lparr>tq_when = 3, tq_seq = 2, tq_callback = 2\<rparr> True tq_new) []
      = Some (q', c', timer_items es)
    \<and> tq_pend q' + mset es = {#\<lparr>tq_when = 3, tq_seq = 2, tq_callback = 2\<rparr>, \<lparr>tq_when = 4, tq_seq = 1, tq_callback = 1\<rparr>#}
    \<and> (\<forall>e \<in># tq_pend q'. 5 < tq_when e)"
proof -
  let ?q = "tq_push \<lparr>tq_when = 3, tq_seq = 2, tq_callback = 2\<rparr> True tq_new"
  have "tq_inv ?q" by (intro tq_push_inv) (simp add: tq_inv_def tq_new_def)
  from collect_moves_due [OF this, of demo_core 5 "[]"] obtain q1 c1 q' es where
    *: "merge_pending demo_core ?q = (q1, c1)"
    "collect 5 demo_core ?q [] = Some (q', c1\<lparr>tcore_store := dequeue_all es (tcore_store demo_core)\<rparr>, [] @ timer_items es)"
    "tq_pend q1 = mset es + tq_pend q'" "\<forall>e \<in># tq_pend q'. 5 < tq_when e" by blast
  have "tq_pend q1 = {#\<lparr>tq_when = 3, tq_seq = 2, tq_callback = 2\<rparr>, \<lparr>tq_when = 4, tq_seq = 1, tq_callback = 1\<rparr>#}"
    using *(1) by (auto simp: merge_pending_def demo_core_def tq_append_heap_def tq_push_def tq_new_def tq_pend_def)
  with * show ?thesis
    by (intro exI [of _ q'] exI [of _ "c1\<lparr>tcore_store := dequeue_all es (tcore_store demo_core)\<rparr>"] exI [of _ es])
       (simp add: add.commute)
qed

text \<open>C10. No timer is lost or run twice: over any interleaving of scheduling (from the loop thread or
  from others), starts and ends of runs, turns and cancellations, the timers scheduled so far are
  exactly the ones handed to the ready queue, each once, plus the ones still waiting; and right after
  a turn at time \<open>now\<close> nothing that is waiting anywhere is due.\<close>

theorem timers_conserved:
  assumes "core_inv c0" "waiting c0 = {#}" "core_run c0 ins outs c"
  shows "mset (map RTimerCallback ins) = mset outs + image_mset item_of (waiting c)
    \<and> (\<forall>q now q' c' items. tcore_local c = Some q \<and> collect now c q [] = Some (q', c', items)
         \<longrightarrow> (\<forall>e \<in># waiting (c'\<lparr>tcore_local := Some q'\<rparr>). now < tq_when e))"
  using core_run_waiting [OF assms(3,1)] assms(2) collect_waiting(3) [of c] by auto

theorem timers_conserved_witness:
  "\<exists>c. core_run (demo_core\<lparr>tcore_pending := []\<rparr>) [7] [] c
    \<and> mset (map RTimerCallback [7]) = image_mset item_of (waiting c)"
proof -
  let ?init = "demo_core\<lparr>tcore_pending := []\<rparr>"
  let ?c = "snd (enqueue_timer False 3 10 1 7 ?init)"
  have inv: "core_inv ?init" "waiting ?init = {#}" by (simp_all add: core_inv_def waiting_def demo_core_def)
  have "enqueue_timer False 3 10 1 7 ?init = (Inr 13, ?c)" by (simp add: enqueue_timer_def demo_core_def Let_def)
  from core_run.enqueue [OF core_run.start this] have run: "core_run ?init [7] [] ?c" by simp
  from timers_conserved [OF inv run] run show ?thesis by auto
qed

end
