(* ===== verification/State_Snapshot.thy ===== *)
theory State_Snapshot
  imports Prelude
begin

unbundle bit_operations_syntax

section \<open>State behind a mutex with a lock-free copy of its flags (state_snapshot.rs)\<close>

text \<open>
  \<open>SnapshotMutex\<close> holds a value and an atomic byte computed from it (\<open>snapshot_flags\<close>, a parameter
  here). A guard remembers whether it was mutably borrowed and publishes the byte before it unlocks
  or waits. The lock is held while a guard exists, so one thread's critical section is a function on
  the mutex; \<open>others\<close> stands for what the other threads do while a guard waits.
\<close>

record 'a snapshot_mutex =
  sm_inner :: 'a
  sm_flags :: "8 word"

record 'a snapshot_guard =
  sg_value :: 'a
  sg_dirty :: bool

definition sm_new :: "('a \<Rightarrow> 8 word) \<Rightarrow> 'a \<Rightarrow> 'a snapshot_mutex" where
  "sm_new snapshot_flags value = \<lparr>sm_inner = value, sm_flags = snapshot_flags value\<rparr>"

definition sm_lock :: "'a snapshot_mutex \<Rightarrow> 'a snapshot_guard" where
  "sm_lock m = \<lparr>sg_value = sm_inner m, sg_dirty = False\<rparr>"

definition sg_deref_mut :: "('a \<Rightarrow> 'a) \<Rightarrow> 'a snapshot_guard \<Rightarrow> 'a snapshot_guard" where
  "sg_deref_mut f g = g\<lparr>sg_dirty := True, sg_value := f (sg_value g)\<rparr>"

definition sg_publish ::
    "('a \<Rightarrow> 8 word) \<Rightarrow> 'a snapshot_guard \<Rightarrow> 'a snapshot_mutex \<Rightarrow> 'a snapshot_guard \<times> 'a snapshot_mutex" where
  "sg_publish snapshot_flags g m =
     (if sg_dirty g then
        let flags = snapshot_flags (sg_value g)
        in (g\<lparr>sg_dirty := False\<rparr>, if sm_flags m \<noteq> flags then m\<lparr>sm_flags := flags\<rparr> else m)
      else (g, m))"

definition sg_drop :: "('a \<Rightarrow> 8 word) \<Rightarrow> 'a snapshot_guard \<Rightarrow> 'a snapshot_mutex \<Rightarrow> 'a snapshot_mutex" where
  "sg_drop snapshot_flags g m =
     (let (g1, m1) = sg_publish snapshot_flags g m in m1\<lparr>sm_inner := sg_value g1\<rparr>)"

definition sm_wait_timeout ::
    "('a \<Rightarrow> 8 word) \<Rightarrow> ('a snapshot_mutex \<Rightarrow> 'a snapshot_mutex) \<Rightarrow> 'a snapshot_guard \<Rightarrow> 'a snapshot_mutex
      \<Rightarrow> 'a snapshot_guard \<times> 'a snapshot_mutex" where
  "sm_wait_timeout snapshot_flags others g m =
     (let (g1, m1) = sg_publish snapshot_flags g m;
          m2 = others (m1\<lparr>sm_inner := sg_value g1\<rparr>)
      in (sm_lock m2, m2))"

text \<open>\<open>lock\<close>, mutate, unlock: how every critical section of the callers is built.\<close>

definition sm_update :: "('a \<Rightarrow> 8 word) \<Rightarrow> ('a \<Rightarrow> 'a) \<Rightarrow> 'a snapshot_mutex \<Rightarrow> 'a snapshot_mutex" where
  "sm_update snapshot_flags f m = sg_drop snapshot_flags (sg_deref_mut f (sm_lock m)) m"

text \<open>What one thread may do between locking and unlocking.\<close>

datatype 'a guard_op = Mutate "'a \<Rightarrow> 'a" | Wait "('a \<Rightarrow> 'a) list"

fun run_guard ::
    "('a \<Rightarrow> 8 word) \<Rightarrow> 'a guard_op list \<Rightarrow> 'a snapshot_guard \<Rightarrow> 'a snapshot_mutex \<Rightarrow> 'a snapshot_mutex" where
  "run_guard fl [] g m = sg_drop fl g m"
| "run_guard fl (Mutate f # ops) g m = run_guard fl ops (sg_deref_mut f g) m"
| "run_guard fl (Wait fs # ops) g m =
     (let (g1, m1) = sm_wait_timeout fl (fold (sm_update fl) fs) g m in run_guard fl ops g1 m1)"

definition sm_coherent :: "('a \<Rightarrow> 8 word) \<Rightarrow> 'a snapshot_mutex \<Rightarrow> bool" where
  "sm_coherent fl m \<longleftrightarrow> sm_flags m = fl (sm_inner m)"

text \<open>While a guard is live the byte may lag behind, but only if the guard is dirty.\<close>

definition guard_ok :: "('a \<Rightarrow> 8 word) \<Rightarrow> 'a snapshot_guard \<Rightarrow> 'a snapshot_mutex \<Rightarrow> bool" where
  "guard_ok fl g m \<longleftrightarrow> sg_dirty g \<or> sm_flags m = fl (sg_value g)"

lemma sm_new_coherent [simp]: "sm_coherent fl (sm_new fl v)"
  by (simp add: sm_coherent_def sm_new_def)

lemma sm_update_inner [simp]: "sm_inner (sm_update fl f m) = f (sm_inner m)"
  by (simp add: sm_update_def sg_drop_def sg_publish_def sg_deref_mut_def sm_lock_def Let_def)

lemma sm_update_flags [simp]: "sm_flags (sm_update fl f m) = fl (f (sm_inner m))"
  by (simp add: sm_update_def sg_drop_def sg_publish_def sg_deref_mut_def sm_lock_def Let_def)

lemma sm_update_coherent [simp]: "sm_coherent fl (sm_update fl f m)"
  by (simp add: sm_coherent_def)

lemma fold_sm_update_coherent: "sm_coherent fl m \<Longrightarrow> sm_coherent fl (fold (sm_update fl) fs m)"
  by (induction fs arbitrary: m) auto

lemma lock_ok: "sm_coherent fl m \<Longrightarrow> guard_ok fl (sm_lock m) m"
  by (simp add: guard_ok_def sm_coherent_def sm_lock_def)

lemma publish_coherent:
  assumes "guard_ok fl g m" "sg_publish fl g m = (g1, m1)"
  shows "sm_coherent fl (m1\<lparr>sm_inner := sg_value g1\<rparr>)" "sg_value g1 = sg_value g"
  using assms by (auto simp: guard_ok_def sg_publish_def sm_coherent_def Let_def split: if_splits)

lemma run_guard_coherent: "guard_ok fl g m \<Longrightarrow> sm_coherent fl (run_guard fl ops g m)"
proof (induction fl ops g m rule: run_guard.induct)
  case (1 fl g m)
  obtain g1 m1 where p: "sg_publish fl g m = (g1, m1)" by force
  show ?case using publish_coherent(1) [OF 1 p] by (simp add: sg_drop_def p)
next
  case (2 fl f ops g m)
  then show ?case by (simp add: guard_ok_def sg_deref_mut_def)
next
  case (3 fl fs ops g m)
  obtain g1 m1 where p: "sg_publish fl g m = (g1, m1)" by force
  let ?m2 = "fold (sm_update fl) fs (m1\<lparr>sm_inner := sg_value g1\<rparr>)"
  have w: "sm_wait_timeout fl (fold (sm_update fl) fs) g m = (sm_lock ?m2, ?m2)"
    using p by (simp add: sm_wait_timeout_def Let_def)
  have "sm_coherent fl ?m2" by (rule fold_sm_update_coherent [OF publish_coherent(1) [OF 3(2) p]])
  then show ?case using 3(1) [OF w [symmetric] refl] w by (simp add: lock_ok)
qed

text \<open>C29. The lock-free flags never disagree with the state they summarise once the lock is free: after
  any critical section, however it mutates the state and however often it waits on a condition
  variable while other threads run critical sections of their own, the published byte is the byte of
  the current value.\<close>

theorem snapshot_flags_coherent:
  assumes "sm_coherent fl m"
  shows "sm_coherent fl (run_guard fl ops (sm_lock m) m)"
  using run_guard_coherent [OF lock_ok [OF assms]] .

theorem snapshot_flags_coherent_witness:
  "sm_coherent (\<lambda>n. of_nat n) (sm_new (\<lambda>n. of_nat n) 3)
    \<and> sm_coherent (\<lambda>n. of_nat n)
        (run_guard (\<lambda>n. of_nat n) [Mutate (\<lambda>n. n + 1), Wait [\<lambda>n. n * 2], Mutate (\<lambda>n. n + 5)]
          (sm_lock (sm_new (\<lambda>n. of_nat n) 3)) (sm_new (\<lambda>n. of_nat n) 3))"
  using snapshot_flags_coherent [of "\<lambda>n. of_nat n" "sm_new (\<lambda>n. of_nat n) 3"
      "[Mutate (\<lambda>n. n + 1), Wait [\<lambda>n. n * 2], Mutate (\<lambda>n. n + 5)]"]
  by simp

end
