(* ===== verification/Loop_Core.thy ===== *)
theory Loop_Core
  imports Timer_Queue State_Snapshot
begin

section \<open>Loop core: commands, scheduling and lifecycle (engine/commands.rs, engine/loop_core.rs)\<close>

text \<open>
  The shared state of an event loop and the operations that producers, the loop thread and the Python
  bindings call on it. Python objects and \<open>Arc\<close> allocations are addresses, descriptors are integers.
  The command channel is unbounded and is a list; \<open>lc_channel_open\<close> says whether its receiver (the
  dispatcher) still exists. A call takes the flag \<open>thr\<close>: whether it is made on the thread that runs
  the loop, the only thread whose thread-local cells can refer to it.
\<close>

datatype loop_run_command = EnterRun nat nat | FinishRun nat

datatype loop_signal_command = StartWatcher int | StopWatcher int | Fired int

datatype loop_io_command =
    StartReader int nat
  | StopReader int
  | StartWriter int nat
  | StopWriter int
  | StartSocketReader int nat reader_target
  | StopSocketReader int nat
  | StartServerAccept int nat nat nat
  | StopServerAccept int
  | WatchConnect int nat

datatype loop_future_command = SetResult nat nat | SetException nat nat

datatype loop_transport_command =
    StreamRead nat
  | StreamWrite nat
  | Process nat
  | ServerAccepted nat nat

datatype loop_command =
    ScheduleReady nat
  | ScheduleReadyHandle nat
  | CRun loop_run_command
  | CSignal loop_signal_command
  | CIo loop_io_command
  | CFuture loop_future_command
  | CTransport loop_transport_command
  | ConnectCompleted nat int int
  | LoopWork nat
  | RequestStop
  | Close

datatype loop_core_error = LClosed | LRunning | LNotRunning | LChannelClosed | LThreadJoin

definition loop_error_display :: "loop_core_error \<Rightarrow> string" where
  "loop_error_display e =
     (case e of
        LClosed \<Rightarrow> ''event loop is closed''
      | LRunning \<Rightarrow> ''event loop is already running''
      | LNotRunning \<Rightarrow> ''event loop is not running''
      | LChannelClosed \<Rightarrow> ''event loop runtime channel is closed''
      | LThreadJoin \<Rightarrow> ''failed to join loop runtime thread'')"

record signal_handler_template =
  sh_callback :: nat
  sh_args :: "nat list"
  sh_context :: nat
  sh_context_needs_run :: bool

record fd_watch =
  fw_fileobj :: nat
  fw_ready :: nat

text \<open>The fields of \<open>LoopState\<close> the engine itself reads; the rest is configuration of the Python layer.\<close>

record loop_state =
  ls_closed :: bool
  ls_running :: bool
  ls_stopping :: bool
  ls_signal_handlers :: "int \<rightharpoonup> signal_handler_template"
  ls_reader_keepalive :: "(int \<times> fd_watch) list"
  ls_writer_keepalive :: "(int \<times> fd_watch) list"
  ls_exception_handler :: "nat option"

unbundle bit_operations_syntax

definition snapshot_flags :: "loop_state \<Rightarrow> 8 word" where
  "snapshot_flags s =
     of_bool (ls_running s) OR push_bit 1 (of_bool (ls_stopping s)) OR push_bit 2 (of_bool (ls_closed s))"

definition loop_state_new :: loop_state where
  "loop_state_new = \<lparr>ls_closed = False, ls_running = False, ls_stopping = False,
     ls_signal_handlers = Map.empty, ls_reader_keepalive = [], ls_writer_keepalive = [],
     ls_exception_handler = None\<rparr>"

text \<open>Futures the loop hands to a reactor, in the order they were spawned.\<close>

datatype io_task =
    TcpReaderTask nat nat
  | UnixReaderTask nat nat
  | FileReaderThread nat nat
  | AcceptTask nat nat nat
  | FdWait int bool nat
  | ConnectWatch int nat
  | SignalThread int

text \<open>
  \<open>LoopCore\<close> with the thread-local cells of its loop thread: \<open>lc_tls_core\<close> and \<open>lc_tls_ready\<close> say that
  \<open>ACTIVE_LOOP_TLS\<close> points to this core and to a local ready queue, \<open>lc_box\<close> that the queue's
  allocation is still alive. Queues of earlier runs that a late command may still name are in
  \<open>lc_retired\<close>; the queue of the latest run is part of \<open>lc_sched\<close>.
\<close>

record loop_core =
  lc_state :: "loop_state snapshot_mutex"
  lc_sched :: "ready_item sched"
  lc_queue :: nat
  lc_retired :: "nat \<Rightarrow> ready_item pending_ready"
  lc_channel :: "loop_command list"
  lc_channel_open :: bool
  lc_runtime_waker :: bool
  lc_wakes :: nat
  lc_channel_handles :: nat
  lc_stop_requested :: bool
  lc_next_callback_id :: u64
  lc_turn_number :: u64
  lc_callbacks :: "nat \<rightharpoonup> nat ready_callback"
  lc_timers :: "nat timer_core"
  lc_has_runtime :: bool
  lc_io_tasks :: "int \<rightharpoonup> nat"
  lc_fd_tasks :: "int \<times> bool \<rightharpoonup> nat"
  lc_spawned :: "io_task list"
  lc_cancelled :: "nat list"
  lc_tls_core :: bool
  lc_tls_ready :: bool
  lc_box :: bool
  lc_runtime_thread :: bool

abbreviation lc_ls :: "loop_core \<Rightarrow> loop_state" where
  "lc_ls lc \<equiv> sm_inner (lc_state lc)"

definition with_state :: "(loop_state \<Rightarrow> loop_state) \<Rightarrow> loop_core \<Rightarrow> loop_core" where
  "with_state f lc = lc\<lparr>lc_state := sm_update snapshot_flags f (lc_state lc)\<rparr>"

definition lc_new :: loop_core where
  "lc_new = \<lparr>lc_state = sm_new snapshot_flags loop_state_new,
     lc_sched = \<lparr>sc_local = [], sc_pending = pr_default, sc_enqueues = 0, sc_taken = 0, sc_wake = False,
       sc_drain_active = False, sc_dispatch = None\<rparr>,
     lc_queue = 0, lc_retired = (\<lambda>_. pr_default), lc_channel = [], lc_channel_open = True,
     lc_runtime_waker = False, lc_wakes = 0, lc_channel_handles = 0, lc_stop_requested = False,
     lc_next_callback_id = 1, lc_turn_number = 0, lc_callbacks = Map.empty,
     lc_timers = \<lparr>tcore_closed = False, tcore_pending = [], tcore_dirty = False, tcore_wake = False,
       tcore_store = \<lparr>st_timers = Map.empty, st_ready = Map.empty, st_cancelled_timers = 0\<rparr>,
       tcore_local = None\<rparr>,
     lc_has_runtime = False, lc_io_tasks = Map.empty, lc_fd_tasks = Map.empty, lc_spawned = [],
     lc_cancelled = [], lc_tls_core = False, lc_tls_ready = False, lc_box = False,
     lc_runtime_thread = True\<rparr>"

subsection \<open>Flags and counters\<close>

definition is_running :: "loop_core \<Rightarrow> bool" where
  "is_running lc \<longleftrightarrow> sm_flags (lc_state lc) AND 1 \<noteq> 0"

definition is_stopping :: "loop_core \<Rightarrow> bool" where
  "is_stopping lc \<longleftrightarrow> sm_flags (lc_state lc) AND 2 \<noteq> 0"

definition is_closed :: "loop_core \<Rightarrow> bool" where
  "is_closed lc \<longleftrightarrow> sm_flags (lc_state lc) AND 4 \<noteq> 0"

definition next_callback_id :: "loop_core \<Rightarrow> u64 \<times> loop_core" where
  "next_callback_id lc =
     (lc_next_callback_id lc, lc\<lparr>lc_next_callback_id := lc_next_callback_id lc + 1\<rparr>)"

definition on_runtime_thread :: "bool \<Rightarrow> loop_core \<Rightarrow> bool" where
  "on_runtime_thread thr lc \<longleftrightarrow> thr \<and> lc_tls_core lc"

definition mark_runtime_thread :: "loop_core \<Rightarrow> loop_core" where
  "mark_runtime_thread lc = lc\<lparr>lc_tls_core := True\<rparr>"

definition install_local_ready_queue :: "loop_core \<Rightarrow> loop_core" where
  "install_local_ready_queue lc = lc\<lparr>lc_tls_ready := True\<rparr>"

definition set_ready_drain_active :: "bool \<Rightarrow> loop_core \<Rightarrow> loop_core" where
  "set_ready_drain_active active lc = lc\<lparr>lc_sched := (lc_sched lc)\<lparr>sc_drain_active := active\<rparr>\<rparr>"

definition clear_runtime_thread :: "loop_core \<Rightarrow> loop_core" where
  "clear_runtime_thread lc =
     set_ready_drain_active False (lc\<lparr>lc_tls_core := False, lc_tls_ready := False\<rparr>)"

definition signal_ready :: "loop_core \<Rightarrow> loop_core" where
  "signal_ready lc = lc\<lparr>lc_sched := (lc_sched lc)\<lparr>sc_wake := True\<rparr>\<rparr>"

definition set_runtime_waker :: "bool \<Rightarrow> loop_core \<Rightarrow> loop_core" where
  "set_runtime_waker w lc = lc\<lparr>lc_runtime_waker := w\<rparr>"

subsection \<open>Commands\<close>

definition send_remote_command :: "loop_command \<Rightarrow> loop_core \<Rightarrow> (loop_core_error + unit) \<times> loop_core" where
  "send_remote_command command lc =
     (if \<not> lc_channel_open lc then (Inl LChannelClosed, lc)
      else
        let lc1 = lc\<lparr>lc_channel := lc_channel lc @ [command]\<rparr>
        in (Inr (), if lc_runtime_waker lc1 then lc1\<lparr>lc_wakes := lc_wakes lc1 + 1\<rparr> else lc1))"

text \<open>\<open>try_enqueue_local_ready(item).or_else(|item| try_enqueue_active_ready(item))\<close>\<close>

definition enqueue_local_or_active :: "bool \<Rightarrow> ready_item \<Rightarrow> loop_core \<Rightarrow> (ready_item + unit) \<times> loop_core" where
  "enqueue_local_or_active thr item lc =
     (case try_enqueue_local_ready (on_runtime_thread thr lc \<and> lc_tls_ready lc) item (lc_sched lc) of
        (Inr _, sc) \<Rightarrow> (Inr (), lc\<lparr>lc_sched := sc\<rparr>)
      | (Inl item1, sc) \<Rightarrow>
          (case try_enqueue_active_ready item1 sc of (r, sc1) \<Rightarrow> (r, lc\<lparr>lc_sched := sc1\<rparr>)))"

text \<open>\<open>map_err\<close> with a conversion that may reach \<open>unreachable!\<close> (\<open>None\<close>).\<close>

definition map_err_command ::
    "(ready_item \<Rightarrow> loop_command option) \<Rightarrow> (ready_item + unit) \<times> loop_core
      \<Rightarrow> ((loop_command + unit) \<times> loop_core) option" where
  "map_err_command back r =
     (case r of
        (Inr _, lc) \<Rightarrow> Some (Inr (), lc)
      | (Inl item, lc) \<Rightarrow> (case back item of None \<Rightarrow> None | Some command \<Rightarrow> Some (Inl command, lc)))"

definition command_of_item :: "ready_item \<Rightarrow> loop_command option" where
  "command_of_item item =
     (case item of
        RTimerCallback _ \<Rightarrow> None
      | RCallback callback \<Rightarrow> Some (ScheduleReady callback)
      | RHandleCallback handle \<Rightarrow> Some (ScheduleReadyHandle handle)
      | RStop \<Rightarrow> Some RequestStop
      | RLoopWork work \<Rightarrow> Some (LoopWork work)
      | RFutureSetResult future v \<Rightarrow> Some (CFuture (SetResult future v))
      | RFutureSetException future v \<Rightarrow> Some (CFuture (SetException future v))
      | RStreamTransportRead core \<Rightarrow> Some (CTransport (StreamRead core))
      | RStreamTransportWrite core \<Rightarrow> Some (CTransport (StreamWrite core))
      | RStartSocketReader fd core reader \<Rightarrow> Some (CIo (StartSocketReader fd core reader))
      | RProcessTransport core \<Rightarrow> Some (CTransport (Process core))
      | RStartServerAccept fd server listener guard \<Rightarrow> Some (CIo (StartServerAccept fd server listener guard))
      | RStopServerAccept fd \<Rightarrow> Some (CIo (StopServerAccept fd))
      | RServerAccepted server stream \<Rightarrow> Some (CTransport (ServerAccepted server stream))
      | RConnectCompleted future fd wait_errno \<Rightarrow> Some (ConnectCompleted future fd wait_errno))"

definition try_handle_local_command ::
    "bool \<Rightarrow> loop_command \<Rightarrow> loop_core \<Rightarrow> ((loop_command + unit) \<times> loop_core) option" where
  "try_handle_local_command thr command lc =
     (case command of
        CIo (StartServerAccept fd server listener task_guard) \<Rightarrow>
          map_err_command
            (\<lambda>item. case item of
               RStartServerAccept fd server listener task_guard \<Rightarrow>
                 Some (CIo (StartServerAccept fd server listener task_guard))
             | _ \<Rightarrow> None)
            (enqueue_local_or_active thr (RStartServerAccept fd server listener task_guard) lc)
      | CIo (StopServerAccept fd) \<Rightarrow>
          map_err_command
            (\<lambda>item. case item of RStopServerAccept fd \<Rightarrow> Some (CIo (StopServerAccept fd)) | _ \<Rightarrow> None)
            (enqueue_local_or_active thr (RStopServerAccept fd) lc)
      | CIo (StartSocketReader fd core reader) \<Rightarrow>
          (case reader of
             ReaderFile _ \<Rightarrow> Some (Inl command, lc)
           | _ \<Rightarrow>
               map_err_command
                 (\<lambda>item. case item of
                    RStartSocketReader fd core reader \<Rightarrow> Some (CIo (StartSocketReader fd core reader))
                  | _ \<Rightarrow> None)
                 (enqueue_local_or_active thr (RStartSocketReader fd core reader) lc))
      | ScheduleReady callback \<Rightarrow>
          map_err_command command_of_item (enqueue_local_or_active thr (RCallback callback) lc)
      | ScheduleReadyHandle handle \<Rightarrow>
          map_err_command
            (\<lambda>item. case item of RHandleCallback handle \<Rightarrow> Some (ScheduleReadyHandle handle) | _ \<Rightarrow> None)
            (enqueue_local_or_active thr (RHandleCallback handle) lc)
      | CFuture (SetResult future v) \<Rightarrow>
          map_err_command
            (\<lambda>item. case item of RFutureSetResult future v \<Rightarrow> Some (CFuture (SetResult future v)) | _ \<Rightarrow> None)
            (enqueue_local_or_active thr (RFutureSetResult future v) lc)
      | CFuture (SetException future v) \<Rightarrow>
          map_err_command
            (\<lambda>item. case item of RFutureSetException future v \<Rightarrow> Some (CFuture (SetException future v)) | _ \<Rightarrow> None)
            (enqueue_local_or_active thr (RFutureSetException future v) lc)
      | CTransport (StreamRead core) \<Rightarrow>
          map_err_command
            (\<lambda>item. case item of RStreamTransportRead core \<Rightarrow> Some (CTransport (StreamRead core)) | _ \<Rightarrow> None)
            (enqueue_local_or_active thr (RStreamTransportRead core) lc)
      | CTransport (StreamWrite core) \<Rightarrow>
          map_err_command
            (\<lambda>item. case item of RStreamTransportWrite core \<Rightarrow> Some (CTransport (StreamWrite core)) | _ \<Rightarrow> None)
            (enqueue_local_or_active thr (RStreamTransportWrite core) lc)
      | CTransport (Process core) \<Rightarrow>
          map_err_command
            (\<lambda>item. case item of RProcessTransport core \<Rightarrow> Some (CTransport (Process core)) | _ \<Rightarrow> None)
            (enqueue_local_or_active thr (RProcessTransport core) lc)
      | CTransport (ServerAccepted server stream) \<Rightarrow>
          map_err_command
            (\<lambda>item. case item of
               RServerAccepted server stream \<Rightarrow> Some (CTransport (ServerAccepted server stream))
             | _ \<Rightarrow> None)
            (enqueue_local_or_active thr (RServerAccepted server stream) lc)
      | ConnectCompleted future fd wait_errno \<Rightarrow>
          map_err_command
            (\<lambda>item. case item of
               RConnectCompleted future fd wait_errno \<Rightarrow> Some (ConnectCompleted future fd wait_errno)
             | _ \<Rightarrow> None)
            (enqueue_local_or_active thr (RConnectCompleted future fd wait_errno) lc)
      | LoopWork work \<Rightarrow>
          map_err_command
            (\<lambda>item. case item of RLoopWork work \<Rightarrow> Some (LoopWork work) | _ \<Rightarrow> None)
            (enqueue_local_or_active thr (RLoopWork work) lc)
      | RequestStop \<Rightarrow>
          map_err_command (\<lambda>_. Some RequestStop) (enqueue_local_or_active thr RStop lc)
      | _ \<Rightarrow> Some (Inl command, lc))"

definition send_command ::
    "bool \<Rightarrow> loop_command \<Rightarrow> loop_core \<Rightarrow> ((loop_core_error + unit) \<times> loop_core) option" where
  "send_command thr command lc =
     (case try_handle_local_command thr command lc of
        None \<Rightarrow> None
      | Some (Inr _, lc1) \<Rightarrow> Some (Inr (), lc1)
      | Some (Inl command1, lc1) \<Rightarrow> Some (send_remote_command command1 lc1))"

definition schedule_ready_handle ::
    "bool \<Rightarrow> nat \<Rightarrow> loop_core \<Rightarrow> ((loop_core_error + unit) \<times> loop_core) option" where
  "schedule_ready_handle thr handle lc =
     (case try_enqueue_local_ready (on_runtime_thread thr lc \<and> lc_tls_ready lc) (RHandleCallback handle) (lc_sched lc) of
        (Inr _, sc) \<Rightarrow> Some (Inr (), lc\<lparr>lc_sched := sc\<rparr>)
      | (Inl item, sc) \<Rightarrow>
          let tried = (if lc_channel_handles lc = 0 then try_enqueue_active_ready item sc else (Inl item, sc))
          in case tried of
               (Inr _, sc1) \<Rightarrow> Some (Inr (), lc\<lparr>lc_sched := sc1\<rparr>)
             | (Inl (RHandleCallback handle1), sc1) \<Rightarrow>
                 let lc1 = lc\<lparr>lc_sched := sc1, lc_channel_handles := lc_channel_handles lc + 1\<rparr>
                 in (case send_remote_command (ScheduleReadyHandle handle1) lc1 of
                       (Inr _, lc2) \<Rightarrow> Some (Inr (), lc2)
                     | (Inl e, lc2) \<Rightarrow>
                         Some (Inl e, lc2\<lparr>lc_channel_handles := lc_channel_handles lc2 - 1\<rparr>))
             | (Inl _, sc1) \<Rightarrow> None)"

definition channel_handles_forwarded :: "nat \<Rightarrow> loop_core \<Rightarrow> loop_core" where
  "channel_handles_forwarded n lc =
     (if n \<noteq> 0 then lc\<lparr>lc_channel_handles := lc_channel_handles lc - n\<rparr> else lc)"

subsection \<open>Scheduling callbacks and timers\<close>

text \<open>
  \<open>copy\<close> is what copying the current context gives, \<open>len\<close> the length of a context, \<open>none\<close> the object
  \<open>None\<close>, \<open>tuple\<close> the tuple constructor of the interpreter, \<open>addr\<close> the address of the new handle. A
  result \<open>Inl (Inl e)\<close> is the Python error \<open>e\<close>, \<open>Inl (Inr e)\<close> an error of the loop; \<open>None\<close> a panic.
\<close>

definition capture_context :: "'e + 'p \<Rightarrow> 'p option \<Rightarrow> 'e + 'p \<times> bool" where
  "capture_context copy explicit =
     (case explicit of
        Some context \<Rightarrow> Inr (context, True)
      | None \<Rightarrow> (case copy of Inl e \<Rightarrow> Inl e | Inr context \<Rightarrow> Inr (context, True)))"

definition capture_callback_context :: "'e + 'p \<Rightarrow> ('p \<Rightarrow> 'e + nat) \<Rightarrow> 'p \<Rightarrow> 'p option \<Rightarrow> 'e + 'p \<times> bool" where
  "capture_callback_context copy len none explicit =
     (case capture_context copy explicit of
        Inl e \<Rightarrow> Inl e
      | Inr (context, needs_run) \<Rightarrow>
          if explicit = None then
            (case len context of
               Inl e \<Rightarrow> Inl e
             | Inr n \<Rightarrow> Inr (if n = 0 then none else context, needs_run))
          else Inr (context, needs_run))"

definition schedule_callback_args ::
    "bool \<Rightarrow> (nat list \<Rightarrow> nat) \<Rightarrow> 'e + nat \<Rightarrow> (nat \<Rightarrow> 'e + nat) \<Rightarrow> nat \<Rightarrow> callback_kind \<Rightarrow> nat
      \<Rightarrow> nat callback_args \<Rightarrow> nat option \<Rightarrow> nat \<Rightarrow> loop_core \<Rightarrow> ((('e + loop_core_error) + nat) \<times> loop_core) option" where
  "schedule_callback_args thr tuple copy len none ckind callback args context addr lc =
     (case capture_callback_context copy len none context of
        Inl e \<Rightarrow> Some (Inl (Inl e), lc)
      | Inr (captured, needs_run) \<Rightarrow>
          let (cid, lc1) = next_callback_id lc;
              ready = from_args tuple cid ckind callback args captured needs_run
          in do {
               handle \<leftarrow> pyhandle_new ready;
               (r, lc2) \<leftarrow> schedule_ready_handle thr addr (lc1\<lparr>lc_callbacks := (lc_callbacks lc1)(addr \<mapsto> handle)\<rparr>);
               Some (case r of Inl e \<Rightarrow> Inl (Inr e) | Inr _ \<Rightarrow> Inr addr, lc2)
             })"

definition schedule_callback ::
    "bool \<Rightarrow> (nat list \<Rightarrow> nat) \<Rightarrow> 'e + nat \<Rightarrow> (nat \<Rightarrow> 'e + nat) \<Rightarrow> nat \<Rightarrow> callback_kind \<Rightarrow> nat
      \<Rightarrow> nat list \<Rightarrow> nat option \<Rightarrow> nat \<Rightarrow> loop_core \<Rightarrow> ((('e + loop_core_error) + nat) \<times> loop_core) option" where
  "schedule_callback thr tuple copy len none ckind callback args context addr lc =
     (case capture_callback_context copy len none context of
        Inl e \<Rightarrow> Some (Inl (Inl e), lc)
      | Inr (captured, needs_run) \<Rightarrow>
          let (cid, lc1) = next_callback_id lc;
              ready = ready_new tuple cid ckind callback args captured needs_run
          in do {
               handle \<leftarrow> pyhandle_new ready;
               (r, lc2) \<leftarrow> schedule_ready_handle thr addr (lc1\<lparr>lc_callbacks := (lc_callbacks lc1)(addr \<mapsto> handle)\<rparr>);
               Some (case r of Inl e \<Rightarrow> Inl (Inr e) | Inr _ \<Rightarrow> Inr addr, lc2)
             })"

definition lc_enqueue_timer ::
    "bool \<Rightarrow> instant \<Rightarrow> nat \<Rightarrow> u64 \<Rightarrow> nat \<Rightarrow> loop_core \<Rightarrow> (loop_core_error + instant) \<times> loop_core" where
  "lc_enqueue_timer thr now delay cid ready lc =
     (let c = (lc_timers lc)\<lparr>tcore_closed := ls_closed (lc_ls lc), tcore_wake := sc_wake (lc_sched lc)\<rparr>;
          (r, c1) = enqueue_timer (on_runtime_thread thr lc) now delay cid ready c
      in (case r of Inl _ \<Rightarrow> Inl LClosed | Inr deadline \<Rightarrow> Inr deadline,
          lc\<lparr>lc_timers := c1, lc_sched := (lc_sched lc)\<lparr>sc_wake := tcore_wake c1\<rparr>\<rparr>))"

definition schedule_cancellable_timer ::
    "bool \<Rightarrow> (nat list \<Rightarrow> nat) \<Rightarrow> 'e + nat \<Rightarrow> instant \<Rightarrow> nat \<Rightarrow> nat \<Rightarrow> nat list \<Rightarrow> nat option \<Rightarrow> nat \<Rightarrow> loop_core
      \<Rightarrow> (('e + loop_core_error) + nat \<times> instant) \<times> loop_core" where
  "schedule_cancellable_timer thr tuple copy now delay callback args context addr lc =
     (case capture_context copy context of
        Inl e \<Rightarrow> (Inl (Inl e), lc)
      | Inr (captured, needs_run) \<Rightarrow>
          let (cid, lc1) = next_callback_id lc;
              timer = timer_callback_new (ready_new tuple cid Timer callback args captured needs_run);
              c = lc_timers lc1;
              lc2 = lc1\<lparr>lc_timers := c\<lparr>tcore_store := set_timer addr timer (tcore_store c)\<rparr>\<rparr>;
              (r, lc3) = lc_enqueue_timer thr now delay cid addr lc2
          in (case r of Inl e \<Rightarrow> Inl (Inr e) | Inr when' \<Rightarrow> Inr (addr, when'), lc3))"

definition schedule_timer ::
    "bool \<Rightarrow> (nat list \<Rightarrow> nat) \<Rightarrow> 'e + nat \<Rightarrow> instant \<Rightarrow> nat \<Rightarrow> nat \<Rightarrow> nat list \<Rightarrow> nat option \<Rightarrow> nat \<Rightarrow> nat \<Rightarrow> loop_core
      \<Rightarrow> (('e + loop_core_error) + nat \<times> instant) \<times> loop_core" where
  "schedule_timer thr tuple copy now delay callback args context raddr addr lc =
     (case capture_context copy context of
        Inl e \<Rightarrow> (Inl (Inl e), lc)
      | Inr (captured, needs_run) \<Rightarrow>
          let (cid, lc1) = next_callback_id lc;
              ready = ready_new tuple cid Timer callback args captured needs_run;
              c = lc_timers lc1;
              s1 = (tcore_store c)\<lparr>st_ready := (st_ready (tcore_store c))(raddr \<mapsto> ready)\<rparr>;
              lc2 = lc1\<lparr>lc_timers := c\<lparr>tcore_store := set_timer addr (timer_from_shared raddr ready) s1\<rparr>\<rparr>;
              (r, lc3) = lc_enqueue_timer thr now delay cid addr lc2
          in (case r of Inl e \<Rightarrow> Inl (Inr e) | Inr when' \<Rightarrow> Inr (raddr, when'), lc3))"

subsection \<open>Reactor tasks\<close>

definition spawn_task :: "io_task \<Rightarrow> loop_core \<Rightarrow> nat \<times> loop_core" where
  "spawn_task t lc = (length (lc_spawned lc), lc\<lparr>lc_spawned := lc_spawned lc @ [t]\<rparr>)"

definition cancel_task :: "nat \<Rightarrow> loop_core \<Rightarrow> loop_core" where
  "cancel_task h lc = lc\<lparr>lc_cancelled := lc_cancelled lc @ [h]\<rparr>"

definition cancel_opt :: "nat option \<Rightarrow> loop_core \<Rightarrow> loop_core" where
  "cancel_opt h lc = (case h of None \<Rightarrow> lc | Some t \<Rightarrow> cancel_task t lc)"

definition spawn_io :: "io_task \<Rightarrow> loop_core \<Rightarrow> bool \<times> loop_core" where
  "spawn_io future lc = (if lc_has_runtime lc then (True, snd (spawn_task future lc)) else (False, lc))"

definition spawn_io_tracked :: "int \<Rightarrow> io_task \<Rightarrow> loop_core \<Rightarrow> bool \<times> loop_core" where
  "spawn_io_tracked fd future lc =
     (if lc_has_runtime lc then
        let (handle, lc1) = spawn_task future lc;
            old = lc_io_tasks lc1 fd
        in (True, cancel_opt old (lc1\<lparr>lc_io_tasks := (lc_io_tasks lc1)(fd \<mapsto> handle)\<rparr>))
      else (False, lc))"

definition stop_io_task :: "int \<Rightarrow> loop_core \<Rightarrow> bool \<times> loop_core" where
  "stop_io_task fd lc =
     (case lc_io_tasks lc fd of
        Some handle \<Rightarrow> (True, cancel_task handle (lc\<lparr>lc_io_tasks := (lc_io_tasks lc)(fd := None)\<rparr>))
      | None \<Rightarrow> (False, lc))"

subsection \<open>Lifecycle\<close>

definition schedule_stop :: "bool \<Rightarrow> loop_core \<Rightarrow> ((loop_core_error + unit) \<times> loop_core) option" where
  "schedule_stop thr lc = send_command thr RequestStop (lc\<lparr>lc_stop_requested := True\<rparr>)"

definition reset_run_state_after_finish_error :: "loop_core \<Rightarrow> loop_core" where
  "reset_run_state_after_finish_error lc = with_state (\<lambda>s. s\<lparr>ls_running := False, ls_stopping := False\<rparr>) lc"

text \<open>
  \<open>close\<close>: \<open>io_order\<close> and \<open>fd_order\<close> are the orders in which the hash maps of tracked tasks are
  iterated, \<open>joined\<close> whether the dispatcher thread exited without a panic.
\<close>

definition loop_close ::
    "bool \<Rightarrow> int list \<Rightarrow> (int \<times> bool) list \<Rightarrow> bool \<Rightarrow> loop_core
      \<Rightarrow> ((loop_core_error + unit) \<times> loop_core) option" where
  "loop_close thr io_order fd_order joined lc =
     (if ls_running (lc_ls lc) then Some (Inl LRunning, lc)
      else if ls_closed (lc_ls lc) then Some (Inr (), lc)
      else
        let lc1 = with_state (\<lambda>s. s\<lparr>ls_closed := True\<rparr>) lc;
            lc2 = lc1\<lparr>lc_timers := (lc_timers lc1)\<lparr>tcore_pending := [], tcore_dirty := False\<rparr>\<rparr>;
            lc3 = fold (\<lambda>fd. cancel_opt (lc_io_tasks lc2 fd)) io_order (lc2\<lparr>lc_io_tasks := Map.empty\<rparr>);
            lc4 = fold (\<lambda>k. cancel_opt (lc_fd_tasks lc3 k)) fd_order (lc3\<lparr>lc_fd_tasks := Map.empty\<rparr>);
            lc5 = lc4\<lparr>lc_has_runtime := False\<rparr>
        in case send_command thr Close lc5 of
             None \<Rightarrow> None
           | Some (Inl e, lc6) \<Rightarrow> Some (Inl e, lc6)
           | Some (Inr _, lc6) \<Rightarrow>
               if lc_runtime_thread lc6 then
                 Some (if joined then Inr () else Inl LThreadJoin, lc6\<lparr>lc_runtime_thread := False\<rparr>)
               else Some (Inr (), lc6))"

text \<open>
  The part of \<open>run_forever\<close> before its loop. \<open>ensure_ok\<close>: \<open>ensure_running_loop\<close> did not raise.
\<close>

definition run_forever_begin :: "bool \<Rightarrow> loop_core \<Rightarrow> ((loop_core_error option + unit) \<times> loop_core) option" where
  "run_forever_begin ensure_ok lc =
     (if ls_closed (lc_ls lc) then Some (Inl (Some LClosed), lc)
      else if ls_running (lc_ls lc) then Some (Inl (Some LRunning), lc)
      else
        let lc1 = with_state (\<lambda>s. s\<lparr>ls_running := True, ls_stopping := False\<rparr>) lc;
            q = Suc (lc_queue lc1);
            lc2 = lc1\<lparr>lc_retired := (lc_retired lc1)(lc_queue lc1 := sc_pending (lc_sched lc1)), lc_queue := q,
                      lc_sched := (lc_sched lc1)\<lparr>sc_pending := pr_default, sc_wake := False, sc_dispatch := Some False\<rparr>\<rparr>
        in case send_command True (CRun (EnterRun q (local_enqueue_mark (lc_sched lc2)))) lc2 of
             None \<Rightarrow> None
           | Some (Inl e, lc3) \<Rightarrow> Some (Inl (Some e), lc3)
           | Some (Inr _, lc3) \<Rightarrow>
               let lc4 = lc3\<lparr>lc_has_runtime := True\<rparr>
               in if \<not> ensure_ok then Some (Inl None, lc4)
                  else
                    let lc5 = mark_runtime_thread lc4;
                        lc6 = lc5\<lparr>lc_timers := local_timers_new (lc_timers lc5)\<rparr>;
                        lc7 = install_local_ready_queue
                                (lc6\<lparr>lc_box := True, lc_sched := (lc_sched lc6)\<lparr>sc_local := []\<rparr>\<rparr>)
                    in Some (Inr (), lc7\<lparr>lc_sched := (lc_sched lc7)\<lparr>sc_taken := sc_enqueues (lc_sched lc7)\<rparr>\<rparr>))"

text \<open>What is left of the run goes back to the queue the dispatcher will collect.\<close>

definition preserve_leftover :: "ready_item list \<Rightarrow> loop_core \<Rightarrow> loop_core option" where
  "preserve_leftover batch lc =
     (if batch \<noteq> [] \<or> sc_local (lc_sched lc) \<noteq> [] then do {
        (queued, locals, taken, pending) \<leftarrow>
          merge_ready_generation (sc_local (lc_sched lc)) (sc_taken (lc_sched lc)) (sc_pending (lc_sched lc));
        Some (lc\<lparr>lc_sched := (lc_sched lc)\<lparr>sc_local := locals, sc_taken := taken,
                   sc_pending := pending\<lparr>pr_items := batch @ queued\<rparr>\<rparr>\<rparr>)
      } else Some lc)"

datatype finish_ack = AckOk | AckTimeout | AckDisconnected

text \<open>
  The part of \<open>run_forever\<close> after its loop. \<open>clear_ok\<close>: \<open>clear_running_loop\<close> did not raise;
  \<open>ack\<close>: what waiting for the acknowledgement of \<open>FinishRun\<close> gave. \<open>Inl None\<close> is a Python error.
  The box of the local queue is freed when the call returns.
\<close>

definition leave_run :: "loop_core \<Rightarrow> loop_core" where
  "leave_run lc =
     (let lc1 = set_ready_drain_active False lc;
          lc2 = (case tcore_local (lc_timers lc1) of
                   Some q \<Rightarrow> lc1\<lparr>lc_timers := local_timers_drop q (lc_timers lc1)\<rparr>
                 | None \<Rightarrow> lc1)
      in clear_runtime_thread lc2)"

definition retire_dispatch :: "loop_core \<Rightarrow> loop_core" where
  "retire_dispatch lc = lc\<lparr>lc_sched := (lc_sched lc)\<lparr>sc_dispatch := None\<rparr>\<rparr>"

definition run_forever_end ::
    "bool \<Rightarrow> finish_ack \<Rightarrow> nat \<Rightarrow> ready_item list \<Rightarrow> loop_core
      \<Rightarrow> ((loop_core_error option + unit) \<times> loop_core) option" where
  "run_forever_end clear_ok ack done_tx batch lc =
     (let lc1 = leave_run lc
      in if \<not> clear_ok then Some (Inl None, lc1\<lparr>lc_box := False\<rparr>)
         else do {
           lc2 \<leftarrow> preserve_leftover batch lc1;
           (r, lc3) \<leftarrow> send_command True (CRun (FinishRun done_tx)) (retire_dispatch lc2);
           let lc4 = lc3\<lparr>lc_box := False\<rparr>;
           (case r of
              Inl e \<Rightarrow> Some (Inl (Some e), reset_run_state_after_finish_error lc4)
            | Inr _ \<Rightarrow>
                (case ack of
                   AckOk \<Rightarrow> Some (Inr (), lc4)
                 | _ \<Rightarrow> Some (Inl None, reset_run_state_after_finish_error lc4)))
         })"

subsection \<open>Flags\<close>

lemma snapshot_flags_bits:
  "snapshot_flags s AND 1 \<noteq> 0 \<longleftrightarrow> ls_running s"
  "snapshot_flags s AND 2 \<noteq> 0 \<longleftrightarrow> ls_stopping s"
  "snapshot_flags s AND 4 \<noteq> 0 \<longleftrightarrow> ls_closed s"
  by (cases "ls_running s"; cases "ls_stopping s"; cases "ls_closed s"; simp add: snapshot_flags_def)+

lemma flags_read:
  assumes "sm_coherent snapshot_flags (lc_state lc)"
  shows "is_running lc \<longleftrightarrow> ls_running (lc_ls lc)" "is_stopping lc \<longleftrightarrow> ls_stopping (lc_ls lc)"
    "is_closed lc \<longleftrightarrow> ls_closed (lc_ls lc)"
  using assms
  by (simp_all add: is_running_def is_stopping_def is_closed_def sm_coherent_def snapshot_flags_bits)

lemma with_state_simps [simp]:
  "lc_ls (with_state f lc) = f (lc_ls lc)"
  "sm_coherent snapshot_flags (lc_state (with_state f lc))"
  "lc_sched (with_state f lc) = lc_sched lc"
  "lc_channel (with_state f lc) = lc_channel lc"
  "lc_channel_open (with_state f lc) = lc_channel_open lc"
  "lc_timers (with_state f lc) = lc_timers lc"
  "lc_io_tasks (with_state f lc) = lc_io_tasks lc"
  "lc_fd_tasks (with_state f lc) = lc_fd_tasks lc"
  "lc_cancelled (with_state f lc) = lc_cancelled lc"
  "lc_spawned (with_state f lc) = lc_spawned lc"
  "lc_queue (with_state f lc) = lc_queue lc"
  "lc_retired (with_state f lc) = lc_retired lc"
  "lc_channel_handles (with_state f lc) = lc_channel_handles lc"
  "lc_tls_core (with_state f lc) = lc_tls_core lc"
  "lc_tls_ready (with_state f lc) = lc_tls_ready lc"
  "lc_box (with_state f lc) = lc_box lc"
  "lc_runtime_waker (with_state f lc) = lc_runtime_waker lc"
  "lc_runtime_thread (with_state f lc) = lc_runtime_thread lc"
  by (simp_all add: with_state_def)

subsection \<open>Routing a command\<close>

text \<open>The specification: which ready item a command stands for, and which commands skip the dispatcher.\<close>

definition item_of_command :: "loop_command \<Rightarrow> ready_item option" where
  "item_of_command c =
     (case c of
        ScheduleReady callback \<Rightarrow> Some (RCallback callback)
      | ScheduleReadyHandle handle \<Rightarrow> Some (RHandleCallback handle)
      | CFuture (SetResult future v) \<Rightarrow> Some (RFutureSetResult future v)
      | CFuture (SetException future v) \<Rightarrow> Some (RFutureSetException future v)
      | CTransport (StreamRead core) \<Rightarrow> Some (RStreamTransportRead core)
      | CTransport (StreamWrite core) \<Rightarrow> Some (RStreamTransportWrite core)
      | CTransport (Process core) \<Rightarrow> Some (RProcessTransport core)
      | CTransport (ServerAccepted server stream) \<Rightarrow> Some (RServerAccepted server stream)
      | ConnectCompleted future fd e \<Rightarrow> Some (RConnectCompleted future fd e)
      | LoopWork work \<Rightarrow> Some (RLoopWork work)
      | RequestStop \<Rightarrow> Some RStop
      | _ \<Rightarrow> None)"

definition local_item :: "loop_command \<Rightarrow> ready_item option" where
  "local_item c =
     (case c of
        CIo (StartServerAccept fd server listener guard) \<Rightarrow> Some (RStartServerAccept fd server listener guard)
      | CIo (StopServerAccept fd) \<Rightarrow> Some (RStopServerAccept fd)
      | CIo (StartSocketReader fd core reader) \<Rightarrow>
          (case reader of ReaderFile _ \<Rightarrow> None | _ \<Rightarrow> Some (RStartSocketReader fd core reader))
      | _ \<Rightarrow> item_of_command c)"

definition local_installed :: "bool \<Rightarrow> loop_core \<Rightarrow> bool" where
  "local_installed thr lc \<longleftrightarrow> on_runtime_thread thr lc \<and> lc_tls_ready lc"

lemma enqueue_local_or_active_eq:
  "enqueue_local_or_active thr item lc =
     (if local_installed thr lc
      then (Inr (), lc\<lparr>lc_sched := snd (try_enqueue_local_ready True item (lc_sched lc))\<rparr>)
      else if sc_dispatch (lc_sched lc) = Some True
      then (Inr (), lc\<lparr>lc_sched := snd (try_enqueue_active_ready item (lc_sched lc))\<rparr>)
      else (Inl item, lc))"
  by (cases "sc_dispatch (lc_sched lc)")
     (simp_all add: enqueue_local_or_active_def local_installed_def try_enqueue_local_ready_def
       try_enqueue_active_ready_def Let_def)

lemma try_handle_local_command_eq:
  "try_handle_local_command thr c lc =
     (case local_item c of
        None \<Rightarrow> Some (Inl c, lc)
      | Some item \<Rightarrow>
          (case enqueue_local_or_active thr item lc of
             (Inr _, lc1) \<Rightarrow> Some (Inr (), lc1)
           | (Inl _, lc1) \<Rightarrow> Some (Inl c, lc1)))"
  by (simp add: try_handle_local_command_def local_item_def item_of_command_def enqueue_local_or_active_eq
      map_err_command_def command_of_item_def
      split: loop_command.split loop_io_command.split loop_future_command.split loop_transport_command.split
        reader_target.split)

lemma try_enqueue_active_extend:
  "sc_dispatch sc = Some True \<Longrightarrow> snd (try_enqueue_active_ready item sc)
     = sc\<lparr>sc_pending := pr_extend [item] (sc_enqueues sc) (sc_pending sc), sc_wake := True\<rparr>"
  by (simp add: try_enqueue_active_ready_def local_enqueue_mark_def pr_push_extend)

lemma enqueue_order:
  assumes "sched_inv (lc_sched lc)" "enqueue_local_or_active thr item lc = (Inr (), lc')"
  shows "sched_inv (lc_sched lc')" "sched_order (lc_sched lc') = sched_order (lc_sched lc) @ [item]"
    "lc' = lc\<lparr>lc_sched := lc_sched lc'\<rparr>"
proof -
  consider (l) "lc' = lc\<lparr>lc_sched := snd (try_enqueue_local_ready True item (lc_sched lc))\<rparr>"
    | (a) "sc_dispatch (lc_sched lc) = Some True"
        "lc' = lc\<lparr>lc_sched := snd (try_enqueue_active_ready item (lc_sched lc))\<rparr>"
    using assms(2) unfolding enqueue_local_or_active_eq by (auto split: if_splits)
  then show "sched_inv (lc_sched lc')" "sched_order (lc_sched lc') = sched_order (lc_sched lc) @ [item]"
    "lc' = lc\<lparr>lc_sched := lc_sched lc'\<rparr>"
  proof (atomize(full), cases)
    case l
    then show "sched_inv (lc_sched lc') \<and> sched_order (lc_sched lc') = sched_order (lc_sched lc) @ [item]
        \<and> lc' = lc\<lparr>lc_sched := lc_sched lc'\<rparr>"
      using enqueue_local_order [OF assms(1), of item] by (metis loop_core.select_convs(2) loop_core.surjective loop_core.update_convs(2) prod.collapse)
  next
    case a
    then show "sched_inv (lc_sched lc') \<and> sched_order (lc_sched lc') = sched_order (lc_sched lc) @ [item]
        \<and> lc' = lc\<lparr>lc_sched := lc_sched lc'\<rparr>"
      using extend_pending_order [OF assms(1) HOL.refl, of "[item]"] by (simp add: try_enqueue_active_extend)
  qed
qed

text \<open>
  Routing a command to the loop thread is lossless: no branch of \<open>try_handle_local_command\<close> reaches
  its \<open>unreachable!\<close>, a command that is not taken comes back unchanged with the state untouched, and a
  command that is taken becomes exactly its ready item, last in scheduling order; it is taken exactly
  if it has an item and the caller is on the loop thread or the active run accepts off-thread work.\<close>

lemma local_command_roundtrip:
  assumes "sched_inv (lc_sched lc)"
  shows "\<exists>r lc'. try_handle_local_command thr c lc = Some (r, lc')
    \<and> (r = Inr () \<longleftrightarrow> local_item c \<noteq> None \<and> (local_installed thr lc \<or> sc_dispatch (lc_sched lc) = Some True))
    \<and> (r \<noteq> Inr () \<longrightarrow> r = Inl c \<and> lc' = lc)
    \<and> (r = Inr () \<longrightarrow> sched_order (lc_sched lc') = sched_order (lc_sched lc) @ [the (local_item c)]
         \<and> sched_inv (lc_sched lc') \<and> lc' = lc\<lparr>lc_sched := lc_sched lc'\<rparr>)"
proof (cases "local_item c")
  case None
  then show ?thesis by (simp add: try_handle_local_command_eq)
next
  case (Some item)
  show ?thesis
  proof (cases "local_installed thr lc \<or> sc_dispatch (lc_sched lc) = Some True")
    case True
    then obtain lc' where e: "enqueue_local_or_active thr item lc = (Inr (), lc')"
      unfolding enqueue_local_or_active_eq by (cases "local_installed thr lc") simp_all
    note o = enqueue_order [OF assms e]
    show ?thesis using Some True e o by (simp add: try_handle_local_command_eq)
  next
    case False
    then have "enqueue_local_or_active thr item lc = (Inl item, lc)" by (simp add: enqueue_local_or_active_eq)
    then show ?thesis using Some False by (simp add: try_handle_local_command_eq)
  qed
qed

subsection \<open>Closing\<close>

lemma fold_cancel:
  "fold (\<lambda>k. cancel_opt (m k)) ks lc = lc\<lparr>lc_cancelled := lc_cancelled lc @ List.map_filter m ks\<rparr>"
proof (induction ks arbitrary: lc)
  case (Cons k ks)
  then show ?case by (cases "m k") (simp_all add: cancel_opt_def cancel_task_def map_filter_simps)
qed (simp add: map_filter_simps)

lemma set_map_filter_dom: "set ks = dom m \<Longrightarrow> set (List.map_filter m ks) = ran m"
  unfolding List.map_filter_def by (force simp: ran_def dom_def image_iff)

lemma send_unrouted [simp]:
  "local_item c = None \<Longrightarrow> send_command thr c lc = Some (send_remote_command c lc)"
  by (simp add: send_command_def try_handle_local_command_eq)

lemma local_item_control [simp]:
  "local_item Close = None" "local_item (CRun r) = None" "local_item (CSignal g) = None"
  by (simp_all add: local_item_def item_of_command_def)

lemma send_remote_effect:
  assumes "send_remote_command c lc = (r, lc')"
  shows "lc_sched lc' = lc_sched lc" "lc_queue lc' = lc_queue lc" "lc_channel_handles lc' = lc_channel_handles lc"
    "lc_channel lc' = (if lc_channel_open lc then lc_channel lc @ [c] else lc_channel lc)"
    "lc_state lc' = lc_state lc" "lc_tls_core lc' = lc_tls_core lc" "lc_tls_ready lc' = lc_tls_ready lc"
    "r = (if lc_channel_open lc then Inr () else Inl LChannelClosed)"
  using assms by (auto simp: send_remote_command_def Let_def split: if_splits)

lemma run_forever_begin_effect:
  assumes "run_forever_begin True lc = Some (Inr (), lc')"
  shows "lc_sched lc' = (lc_sched lc)\<lparr>sc_local := [], sc_pending := pr_default, sc_taken := sc_enqueues (lc_sched lc),
      sc_wake := False, sc_dispatch := Some False\<rparr>"
    "lc_queue lc' = Suc (lc_queue lc)" "lc_channel_handles lc' = lc_channel_handles lc"
    "lc_channel lc' = lc_channel lc @ [CRun (EnterRun (Suc (lc_queue lc)) (sc_enqueues (lc_sched lc)))]"
    "\<not> ls_closed (lc_ls lc)" "ls_closed (lc_ls lc') = ls_closed (lc_ls lc)" "lc_tls_core lc'" "lc_tls_ready lc'"
proof -
  let ?lc2 = "(with_state (\<lambda>s. s\<lparr>ls_running := True, ls_stopping := False\<rparr>) lc)
      \<lparr>lc_retired := (lc_retired lc)(lc_queue lc := sc_pending (lc_sched lc)), lc_queue := Suc (lc_queue lc),
       lc_sched := (lc_sched lc)\<lparr>sc_pending := pr_default, sc_wake := False, sc_dispatch := Some False\<rparr>\<rparr>"
  obtain r lc3 where snd: "send_remote_command (CRun (EnterRun (Suc (lc_queue lc)) (sc_enqueues (lc_sched lc)))) ?lc2 = (r, lc3)"
    by force
  have nc: "\<not> ls_closed (lc_ls lc)" "\<not> ls_running (lc_ls lc)"
    using assms by (auto simp: run_forever_begin_def split: if_splits)
  let ?fin = "let lc5 = mark_runtime_thread (lc3\<lparr>lc_has_runtime := True\<rparr>);
        lc6 = lc5\<lparr>lc_timers := local_timers_new (lc_timers lc5)\<rparr>;
        lc7 = install_local_ready_queue (lc6\<lparr>lc_box := True, lc_sched := (lc_sched lc6)\<lparr>sc_local := []\<rparr>\<rparr>)
      in lc7\<lparr>lc_sched := (lc_sched lc7)\<lparr>sc_taken := sc_enqueues (lc_sched lc7)\<rparr>\<rparr>"
  have "run_forever_begin True lc = (case r of Inl err \<Rightarrow> Some (Inl (Some err), lc3) | Inr _ \<Rightarrow> Some (Inr (), ?fin))"
    using nc snd by (cases r) (simp_all add: run_forever_begin_def Let_def local_enqueue_mark_def)
  then have r: "r = Inr ()" and lc': "lc' = ?fin" using assms by (cases r; simp)+
  note e = send_remote_effect [OF snd]
  have op: "lc_channel_open ?lc2" using e(8) r by (auto split: if_splits)
  note d = mark_runtime_thread_def install_local_ready_queue_def Let_def
  show "\<not> ls_closed (lc_ls lc)" by (rule nc)
  show "lc_sched lc' = (lc_sched lc)\<lparr>sc_local := [], sc_pending := pr_default, sc_taken := sc_enqueues (lc_sched lc),
      sc_wake := False, sc_dispatch := Some False\<rparr>"
    "lc_queue lc' = Suc (lc_queue lc)" "lc_channel_handles lc' = lc_channel_handles lc"
    "lc_tls_core lc'" "lc_tls_ready lc'" "ls_closed (lc_ls lc') = ls_closed (lc_ls lc)"
    unfolding lc' using e by (simp_all add: d)
  show "lc_channel lc' = lc_channel lc @ [CRun (EnterRun (Suc (lc_queue lc)) (sc_enqueues (lc_sched lc)))]"
    unfolding lc' using e(4) op by (simp add: d)
qed

lemma leave_run_effect:
  "lc_sched (leave_run lc) = (lc_sched lc)\<lparr>sc_drain_active := False\<rparr>" "lc_queue (leave_run lc) = lc_queue lc"
  "lc_channel (leave_run lc) = lc_channel lc" "lc_channel_handles (leave_run lc) = lc_channel_handles lc"
  "lc_state (leave_run lc) = lc_state lc"
  by (simp_all add: leave_run_def clear_runtime_thread_def set_ready_drain_active_def Let_def split: option.split)

lemma preserve_leftover_effect:
  assumes inv: "sched_inv (lc_sched lc)" and p: "preserve_leftover batch lc = Some lc'"
  shows "pr_items (sc_pending (lc_sched lc')) = batch @ sched_order (lc_sched lc)"
    "sc_dispatch (lc_sched lc') = sc_dispatch (lc_sched lc)" "sc_enqueues (lc_sched lc') = sc_enqueues (lc_sched lc)"
    "lc_queue lc' = lc_queue lc" "lc_channel lc' = lc_channel lc" "lc_channel_handles lc' = lc_channel_handles lc"
    "lc_state lc' = lc_state lc"
proof -
  let ?sc = "lc_sched lc"
  have wf: "pr_wf (sc_pending ?sc)" using inv by (simp add: sched_inv_def)
  have "pr_items (sc_pending (lc_sched lc')) = batch @ sched_order ?sc
      \<and> sc_dispatch (lc_sched lc') = sc_dispatch ?sc \<and> sc_enqueues (lc_sched lc') = sc_enqueues ?sc
      \<and> lc_queue lc' = lc_queue lc \<and> lc_channel lc' = lc_channel lc
      \<and> lc_channel_handles lc' = lc_channel_handles lc \<and> lc_state lc' = lc_state lc"
  proof (cases "batch \<noteq> [] \<or> sc_local ?sc \<noteq> []")
    case True
    then show ?thesis
      using p merge_ready_generation_ref [OF wf] by (auto simp: preserve_leftover_def sched_order_def)
  next
    case False
    then have "sched_order ?sc = pr_items (sc_pending ?sc)"
      using filter_sched_order [OF inv, of "\<lambda>_. True"] by simp
    then show ?thesis using p False by (simp add: preserve_leftover_def)
  qed
  then show "pr_items (sc_pending (lc_sched lc')) = batch @ sched_order (lc_sched lc)"
    "sc_dispatch (lc_sched lc') = sc_dispatch (lc_sched lc)" "sc_enqueues (lc_sched lc') = sc_enqueues (lc_sched lc)"
    "lc_queue lc' = lc_queue lc" "lc_channel lc' = lc_channel lc" "lc_channel_handles lc' = lc_channel_handles lc"
    "lc_state lc' = lc_state lc" by simp_all
qed

lemma loop_close_effect:
  assumes "loop_close True io fd joined lc = Some (r, lc')"
  shows "lc_sched lc' = lc_sched lc" "lc_queue lc' = lc_queue lc" "lc_channel_handles lc' = lc_channel_handles lc"
    "lc' = lc \<or> ls_closed (lc_ls lc') \<and> (lc_channel lc' = lc_channel lc \<or> lc_channel lc' = lc_channel lc @ [Close])"
  using assms
  by (auto simp: loop_close_def Let_def fold_cancel send_remote_command_def split: if_splits)


definition demo_lc :: loop_core where
  "demo_lc = lc_new\<lparr>lc_has_runtime := True, lc_io_tasks := [7 \<mapsto> 0], lc_fd_tasks := [(3, True) \<mapsto> 1]\<rparr>"


end
