(* ===== verification/Dispatcher.thy ===== *)
theory Dispatcher
  imports Loop_Core
begin

section \<open>The command dispatcher (engine/dispatcher.rs)\<close>

text \<open>
  \<open>RuntimeDispatcher\<close> receives the commands that could not be handled on the loop thread, keeps the
  watcher tasks of the coordination thread and forwards ready items to the queue of the active run.
  A watcher is named by its position in \<open>lc_spawned\<close>; stopping it appends that position to
  \<open>lc_cancelled\<close>, and a joined thread also to \<open>dp_joined\<close>; acknowledgements sent to a waiting
  caller are in \<open>dp_done\<close> (readers) and \<open>dp_finished\<close> (runs). \<open>signals_new\<close> says whether the operating
  system accepts a watcher for a signal, \<open>alloc\<close> chooses the address of a new callback.
\<close>

datatype watch_task = WThread nat | WVibeio nat

record dispatcher =
  dp_ready_batch :: "ready_item list"
  dp_channel_handles :: nat
  dp_active_run :: "nat option"
  dp_signal_tasks :: "int \<rightharpoonup> nat"
  dp_reader_tasks :: "int \<rightharpoonup> watch_task"
  dp_writer_tasks :: "int \<rightharpoonup> watch_task"
  dp_accept_tasks :: "int \<rightharpoonup> watch_task"
  dp_shutting_down :: bool
  dp_joined :: "nat list"
  dp_done :: "nat list"
  dp_finished :: "nat list"

definition dp_new :: dispatcher where
  "dp_new = \<lparr>dp_ready_batch = [], dp_channel_handles = 0, dp_active_run = None, dp_signal_tasks = Map.empty,
     dp_reader_tasks = Map.empty, dp_writer_tasks = Map.empty, dp_accept_tasks = Map.empty,
     dp_shutting_down = False, dp_joined = [], dp_done = [], dp_finished = []\<rparr>"

record dispatcher_env =
  env_signals_new :: "int \<Rightarrow> bool"
  env_alloc :: "loop_core \<Rightarrow> nat"
  env_tuple :: "nat list \<Rightarrow> nat"
  env_order :: "int list \<Rightarrow> int list"

definition cancel_watch_task :: "watch_task \<Rightarrow> loop_core \<Rightarrow> loop_core" where
  "cancel_watch_task task lc = (case task of WThread t \<Rightarrow> cancel_task t lc | WVibeio t \<Rightarrow> cancel_task t lc)"

definition abort_watch_task :: "watch_task \<Rightarrow> dispatcher \<times> loop_core \<Rightarrow> dispatcher \<times> loop_core" where
  "abort_watch_task task s =
     (case s of (dp, lc) \<Rightarrow>
       (case task of
          WThread t \<Rightarrow> (dp\<lparr>dp_joined := dp_joined dp @ [t]\<rparr>, cancel_task t lc)
        | WVibeio t \<Rightarrow> (dp, cancel_task t lc)))"

definition close_signal_watcher :: "nat \<Rightarrow> dispatcher \<times> loop_core \<Rightarrow> dispatcher \<times> loop_core" where
  "close_signal_watcher w s =
     (case s of (dp, lc) \<Rightarrow> (dp\<lparr>dp_joined := dp_joined dp @ [w]\<rparr>, cancel_task w lc))"

definition has_ready :: "dispatcher \<Rightarrow> bool" where
  "has_ready dp \<longleftrightarrow> dp_ready_batch dp \<noteq> []"

subsection \<open>The queues of runs\<close>

definition run_queue :: "nat \<Rightarrow> loop_core \<Rightarrow> ready_item pending_ready" where
  "run_queue q lc = (if q = lc_queue lc then sc_pending (lc_sched lc) else lc_retired lc q)"

definition set_run_queue :: "nat \<Rightarrow> ready_item pending_ready \<Rightarrow> loop_core \<Rightarrow> loop_core" where
  "set_run_queue q p lc =
     (if q = lc_queue lc then lc\<lparr>lc_sched := (lc_sched lc)\<lparr>sc_pending := p\<rparr>\<rparr>
      else lc\<lparr>lc_retired := (lc_retired lc)(q := p)\<rparr>)"

definition forward_ready_batch :: "nat \<Rightarrow> dispatcher \<times> loop_core \<Rightarrow> dispatcher \<times> loop_core" where
  "forward_ready_batch local_mark s =
     (case s of (dp, lc) \<Rightarrow>
       (case dp_active_run dp of
          None \<Rightarrow> (dp, lc)
        | Some q \<Rightarrow>
            if dp_ready_batch dp = [] then (dp, lc)
            else
              let lc1 = set_run_queue q (pr_extend (dp_ready_batch dp) local_mark (run_queue q lc)) lc;
                  lc2 = channel_handles_forwarded (dp_channel_handles dp) lc1
              in (dp\<lparr>dp_ready_batch := [], dp_channel_handles := 0\<rparr>, signal_ready lc2)))"

definition dispatch_ready_batch :: "dispatcher \<times> loop_core \<Rightarrow> dispatcher \<times> loop_core" where
  "dispatch_ready_batch s = forward_ready_batch (local_enqueue_mark (lc_sched (snd s))) s"

definition finish_run :: "dispatcher \<times> loop_core \<Rightarrow> dispatcher \<times> loop_core" where
  "finish_run s =
     (case s of (dp, lc) \<Rightarrow>
       (case dp_active_run dp of
          None \<Rightarrow> (dp, lc)
        | Some q \<Rightarrow>
            let (queued, p) = pr_take_items (run_queue q lc)
            in (dp\<lparr>dp_active_run := None, dp_ready_batch := queued @ dp_ready_batch dp\<rparr>,
                with_state (\<lambda>st. st\<lparr>ls_running := False, ls_stopping := False\<rparr>) (set_run_queue q p lc))))"

definition lc_activate_ready_dispatch :: "nat \<Rightarrow> loop_core \<Rightarrow> loop_core" where
  "lc_activate_ready_dispatch q lc =
     lc\<lparr>lc_sched := activate_ready_dispatch (q = lc_queue lc) (lc_sched lc)\<rparr>"

definition cleanup_watchers :: "dispatcher_env \<Rightarrow> int list \<Rightarrow> dispatcher \<times> loop_core \<Rightarrow> dispatcher \<times> loop_core" where
  "cleanup_watchers env keys s =
     (case s of (dp, lc) \<Rightarrow>
       let abort_all = (\<lambda>m. fold (\<lambda>k s. case m k of Some task \<Rightarrow> abort_watch_task task s | None \<Rightarrow> s) (env_order env keys));
           s1 = fold (\<lambda>k s. case dp_signal_tasks dp k of Some w \<Rightarrow> close_signal_watcher w s | None \<Rightarrow> s)
                  (env_order env keys) (dp\<lparr>dp_signal_tasks := Map.empty\<rparr>, lc);
           s2 = abort_all (dp_reader_tasks dp) ((fst s1)\<lparr>dp_reader_tasks := Map.empty\<rparr>, snd s1);
           s3 = abort_all (dp_writer_tasks dp) ((fst s2)\<lparr>dp_writer_tasks := Map.empty\<rparr>, snd s2)
       in abort_all (dp_accept_tasks dp) ((fst s3)\<lparr>dp_accept_tasks := Map.empty\<rparr>, snd s3))"

subsection \<open>Handling one command\<close>

definition push_item :: "ready_item \<Rightarrow> dispatcher \<times> loop_core \<Rightarrow> dispatcher \<times> loop_core" where
  "push_item item s = (case s of (dp, lc) \<Rightarrow> (dp\<lparr>dp_ready_batch := dp_ready_batch dp @ [item]\<rparr>, lc))"

definition cancel_removed :: "watch_task option \<Rightarrow> loop_core \<Rightarrow> loop_core" where
  "cancel_removed task lc = (case task of None \<Rightarrow> lc | Some t \<Rightarrow> cancel_watch_task t lc)"

definition replace_reader :: "int \<Rightarrow> io_task \<Rightarrow> (nat \<Rightarrow> watch_task) \<Rightarrow> dispatcher \<times> loop_core \<Rightarrow> dispatcher \<times> loop_core" where
  "replace_reader fd task wrap s =
     (case s of (dp, lc) \<Rightarrow>
       let lc1 = cancel_removed (dp_reader_tasks dp fd) lc;
           (h, lc2) = spawn_task task lc1
       in (dp\<lparr>dp_reader_tasks := (dp_reader_tasks dp)(fd \<mapsto> wrap h)\<rparr>, lc2))"

definition stop_reader :: "int \<Rightarrow> dispatcher \<times> loop_core \<Rightarrow> dispatcher \<times> loop_core" where
  "stop_reader fd s =
     (case s of (dp, lc) \<Rightarrow>
       (dp\<lparr>dp_reader_tasks := (dp_reader_tasks dp)(fd := None)\<rparr>, cancel_removed (dp_reader_tasks dp fd) lc))"

definition handle_signal :: "dispatcher_env \<Rightarrow> loop_signal_command \<Rightarrow> dispatcher \<times> loop_core \<Rightarrow> dispatcher \<times> loop_core" where
  "handle_signal env command s =
     (case s of (dp, lc) \<Rightarrow>
       (case command of
          StartWatcher sig \<Rightarrow>
            let (dp1, lc1) =
                  (case dp_signal_tasks dp sig of
                     Some w \<Rightarrow> close_signal_watcher w (dp\<lparr>dp_signal_tasks := (dp_signal_tasks dp)(sig := None)\<rparr>, lc)
                   | None \<Rightarrow> (dp, lc))
            in if \<not> env_signals_new env sig then (dp1, lc1)
               else
                 let (w, lc2) = spawn_task (SignalThread sig) lc1
                 in (dp1\<lparr>dp_signal_tasks := (dp_signal_tasks dp1)(sig \<mapsto> w)\<rparr>, lc2)
        | StopWatcher sig \<Rightarrow>
            (case dp_signal_tasks dp sig of
               Some w \<Rightarrow> close_signal_watcher w (dp\<lparr>dp_signal_tasks := (dp_signal_tasks dp)(sig := None)\<rparr>, lc)
             | None \<Rightarrow> (dp, lc))
        | Fired sig \<Rightarrow>
            (case ls_signal_handlers (lc_ls lc) sig of
               None \<Rightarrow> (dp, lc)
             | Some handler \<Rightarrow>
                 let (cid, lc1) = next_callback_id lc;
                     ready = ready_new (env_tuple env) cid (Signal sig) (sh_callback handler) (sh_args handler)
                               (sh_context handler) (sh_context_needs_run handler);
                     a = env_alloc env lc1
                 in push_item (RCallback a) (dp, lc1\<lparr>lc_callbacks := (lc_callbacks lc1)(a \<mapsto> ready)\<rparr>))))"

definition handle_io :: "loop_io_command \<Rightarrow> dispatcher \<times> loop_core \<Rightarrow> dispatcher \<times> loop_core" where
  "handle_io command s =
     (case s of (dp, lc) \<Rightarrow>
       (case command of
          StartReader fd callback \<Rightarrow> replace_reader fd (FdWait fd False callback) WVibeio s
        | StopReader fd \<Rightarrow> stop_reader fd s
        | StartWriter fd callback \<Rightarrow>
            let lc1 = cancel_removed (dp_writer_tasks dp fd) lc;
                (h, lc2) = spawn_task (FdWait fd True callback) lc1
            in (dp\<lparr>dp_writer_tasks := (dp_writer_tasks dp)(fd \<mapsto> WVibeio h)\<rparr>, lc2)
        | StopWriter fd \<Rightarrow>
            (dp\<lparr>dp_writer_tasks := (dp_writer_tasks dp)(fd := None)\<rparr>, cancel_removed (dp_writer_tasks dp fd) lc)
        | StartSocketReader fd core reader \<Rightarrow>
            (case reader of
               ReaderTcp stream \<Rightarrow> replace_reader fd (TcpReaderTask core stream) WVibeio s
             | ReaderUnix stream \<Rightarrow> replace_reader fd (UnixReaderTask core stream) WVibeio s
             | ReaderFile file \<Rightarrow> replace_reader fd (FileReaderThread core file) WThread s)
        | StopSocketReader fd done_tx \<Rightarrow>
            (case stop_reader fd s of (dp1, lc1) \<Rightarrow> (dp1\<lparr>dp_done := dp_done dp1 @ [done_tx]\<rparr>, lc1))
        | StartServerAccept fd server listener task_guard \<Rightarrow>
            let lc1 = cancel_removed (dp_accept_tasks dp fd) lc;
                (h, lc2) = spawn_task (AcceptTask server listener task_guard) lc1
            in (dp\<lparr>dp_accept_tasks := (dp_accept_tasks dp)(fd \<mapsto> WVibeio h)\<rparr>, lc2)
        | StopServerAccept fd \<Rightarrow>
            (dp\<lparr>dp_accept_tasks := (dp_accept_tasks dp)(fd := None)\<rparr>, cancel_removed (dp_accept_tasks dp fd) lc)
        | WatchConnect fd future \<Rightarrow> (dp, snd (spawn_task (ConnectWatch fd future) lc))))"

text \<open>\<open>keys\<close> lists the keys of the watcher maps when \<open>Close\<close> drains them.\<close>

definition handle_command ::
    "dispatcher_env \<Rightarrow> int list \<Rightarrow> loop_command \<Rightarrow> dispatcher \<times> loop_core \<Rightarrow> bool \<times> dispatcher \<times> loop_core" where
  "handle_command env keys command s =
     (case command of
        ScheduleReady callback \<Rightarrow> (False, push_item (RCallback callback) s)
      | ScheduleReadyHandle handle \<Rightarrow>
          (case s of (dp, lc) \<Rightarrow>
            (False, push_item (RHandleCallback handle) (dp\<lparr>dp_channel_handles := dp_channel_handles dp + 1\<rparr>, lc)))
      | CFuture (SetResult future v) \<Rightarrow> (False, push_item (RFutureSetResult future v) s)
      | CFuture (SetException future v) \<Rightarrow> (False, push_item (RFutureSetException future v) s)
      | CTransport (StreamRead core) \<Rightarrow> (False, push_item (RStreamTransportRead core) s)
      | CTransport (StreamWrite core) \<Rightarrow> (False, push_item (RStreamTransportWrite core) s)
      | CTransport (Process core) \<Rightarrow> (False, push_item (RProcessTransport core) s)
      | CTransport (ServerAccepted server stream) \<Rightarrow> (False, push_item (RServerAccepted server stream) s)
      | CRun (EnterRun q local_mark) \<Rightarrow>
          (case s of (dp, lc) \<Rightarrow>
            (case forward_ready_batch local_mark (dp\<lparr>dp_active_run := Some q\<rparr>, lc) of (dp1, lc1) \<Rightarrow>
              (False, dp1, lc_activate_ready_dispatch q lc1)))
      | CRun (FinishRun done_tx) \<Rightarrow>
          (case finish_run s of (dp1, lc1) \<Rightarrow> (False, dp1\<lparr>dp_finished := dp_finished dp1 @ [done_tx]\<rparr>, lc1))
      | CSignal signal \<Rightarrow> (False, handle_signal env signal s)
      | CIo io \<Rightarrow> (False, handle_io io s)
      | ConnectCompleted future fd wait_errno \<Rightarrow> (False, push_item (RConnectCompleted future fd wait_errno) s)
      | LoopWork work \<Rightarrow> (False, push_item (RLoopWork work) s)
      | RequestStop \<Rightarrow> (False, push_item RStop s)
      | Close \<Rightarrow>
          (case cleanup_watchers env keys (finish_run s) of (dp1, lc1) \<Rightarrow>
            (True, dp1\<lparr>dp_shutting_down := True\<rparr>, lc1)))"

fun drain_commands ::
    "dispatcher_env \<Rightarrow> int list \<Rightarrow> loop_command list \<Rightarrow> dispatcher \<times> loop_core \<Rightarrow> bool \<times> dispatcher \<times> loop_core" where
  "drain_commands env keys [] s = (False, s)"
| "drain_commands env keys (command # rest) s =
     (case s of (dp, lc) \<Rightarrow>
       (case handle_command env keys command (dp, lc\<lparr>lc_channel := rest\<rparr>) of
          (True, s1) \<Rightarrow> (True, s1)
        | (False, s1) \<Rightarrow> drain_commands env keys rest s1))"

subsection \<open>Polling\<close>

text \<open>What the operations of the dispatcher leave alone.\<close>

definition dp_view :: "dispatcher \<Rightarrow> ready_item list \<times> nat \<times> nat option \<times> nat list \<times> bool" where
  "dp_view dp = (dp_ready_batch dp, dp_channel_handles dp, dp_active_run dp, dp_finished dp, dp_shutting_down dp)"

definition lc_view ::
    "loop_core \<Rightarrow> ready_item sched \<times> nat \<times> (nat \<Rightarrow> ready_item pending_ready) \<times> loop_command list \<times> bool \<times> nat
      \<times> bool \<times> bool \<times> bool" where
  "lc_view lc = (lc_sched lc, lc_queue lc, lc_retired lc, lc_channel lc, lc_channel_open lc, lc_channel_handles lc,
     ls_closed (lc_ls lc), lc_tls_core lc, lc_tls_ready lc)"

lemma cancel_view [simp]:
  "lc_view (cancel_task t lc) = lc_view lc" "lc_view (cancel_watch_task w lc) = lc_view lc"
  "lc_view (cancel_removed o' lc) = lc_view lc" "lc_view (snd (spawn_task tk lc)) = lc_view lc"
  by (auto simp: lc_view_def cancel_task_def cancel_watch_task_def cancel_removed_def spawn_task_def
      split: watch_task.split option.split)

definition same_view :: "dispatcher \<times> loop_core \<Rightarrow> dispatcher \<times> loop_core \<Rightarrow> bool" where
  "same_view s t \<longleftrightarrow> dp_view (fst s) = dp_view (fst t) \<and> lc_view (snd s) = lc_view (snd t)"

lemma same_view_refl [simp]: "same_view s s"
  by (simp add: same_view_def)

lemma same_view_trans: "same_view s t \<Longrightarrow> same_view t u \<Longrightarrow> same_view s u"
  by (simp add: same_view_def)

lemma same_view_abort: "same_view (abort_watch_task w s) s" "same_view (close_signal_watcher n s) s"
  by (auto simp: same_view_def abort_watch_task_def close_signal_watcher_def dp_view_def
      split: prod.split watch_task.split)

lemma same_view_fold:
  assumes "\<And>k s. same_view (f k s) s"
  shows "same_view (fold f ks s) s"
proof (induction ks arbitrary: s)
  case (Cons k ks)
  show ?case using same_view_trans [OF Cons assms] by simp
qed simp

lemma same_view_opt: "same_view (case m of Some w \<Rightarrow> abort_watch_task w s | None \<Rightarrow> s) s"
  "same_view (case m' of Some w \<Rightarrow> close_signal_watcher w s | None \<Rightarrow> s) s"
  by (auto simp: same_view_abort split: option.split)

lemma same_view_maps [simp]:
  "same_view (dp\<lparr>dp_signal_tasks := a\<rparr>, lc) t = same_view (dp, lc) t"
  "same_view (dp\<lparr>dp_reader_tasks := b\<rparr>, lc) t = same_view (dp, lc) t"
  "same_view (dp\<lparr>dp_writer_tasks := b\<rparr>, lc) t = same_view (dp, lc) t"
  "same_view (dp\<lparr>dp_accept_tasks := b\<rparr>, lc) t = same_view (dp, lc) t"
  "same_view (dp\<lparr>dp_done := d\<rparr>, lc) t = same_view (dp, lc) t"
  "same_view (dp, cancel_removed o' lc) t = same_view (dp, lc) t"
  "same_view (dp, snd (spawn_task tk lc)) t = same_view (dp, lc) t"
  by (simp_all add: same_view_def dp_view_def)

lemma cleanup_watchers_view: "same_view (cleanup_watchers env keys s) s"
proof -
  obtain dp lc where s: "s = (dp, lc)" by force
  let ?ks = "env_order env keys"
  let ?s1 = "fold (\<lambda>k s. case dp_signal_tasks dp k of Some w \<Rightarrow> close_signal_watcher w s | None \<Rightarrow> s) ?ks
      (dp\<lparr>dp_signal_tasks := Map.empty\<rparr>, lc)"
  let ?ab = "\<lambda>m. fold (\<lambda>k s. case m k of Some task \<Rightarrow> abort_watch_task task s | None \<Rightarrow> s) ?ks"
  let ?s2 = "?ab (dp_reader_tasks dp) ((fst ?s1)\<lparr>dp_reader_tasks := Map.empty\<rparr>, snd ?s1)"
  let ?s3 = "?ab (dp_writer_tasks dp) ((fst ?s2)\<lparr>dp_writer_tasks := Map.empty\<rparr>, snd ?s2)"
  have 1: "same_view ?s1 s"
    by (rule same_view_trans [OF same_view_fold [OF same_view_opt(2)]]) (simp add: s)
  have ab: "same_view (?ab m t) t" for m t by (rule same_view_fold [OF same_view_opt(1)])
  have 2: "same_view ?s2 s" by (rule same_view_trans [OF ab]) (simp add: 1)
  have 3: "same_view ?s3 s" by (rule same_view_trans [OF ab]) (simp add: 2)
  have "same_view (?ab (dp_accept_tasks dp) ((fst ?s3)\<lparr>dp_accept_tasks := Map.empty\<rparr>, snd ?s3)) s"
    by (rule same_view_trans [OF ab]) (simp add: 3)
  then show ?thesis by (simp add: s cleanup_watchers_def Let_def)
qed

lemma handle_io_view: "same_view (handle_io c s) s"
proof -
  have r: "same_view (replace_reader fd t w s) s" for fd t w
    by (simp add: replace_reader_def case_prod_beta Let_def)
  have st: "same_view (stop_reader fd s) s" for fd
    by (simp add: stop_reader_def case_prod_beta)
  show ?thesis
    using r st by (cases c) (simp_all add: handle_io_def case_prod_beta Let_def split: reader_target.split)
qed

lemma push_item_view [simp]: "lc_view (snd (push_item i s)) = lc_view (snd s)"
  by (simp add: push_item_def case_prod_beta)

lemma push_item_simps [simp]:
  "dp_ready_batch (fst (push_item i s)) = dp_ready_batch (fst s) @ [i]"
  "dp_channel_handles (fst (push_item i s)) = dp_channel_handles (fst s)"
  "dp_active_run (fst (push_item i s)) = dp_active_run (fst s)"
  "dp_finished (fst (push_item i s)) = dp_finished (fst s)"
  "dp_shutting_down (fst (push_item i s)) = dp_shutting_down (fst s)"
  "snd (push_item i s) = snd s"
  by (simp_all add: push_item_def case_prod_beta)

lemma set_run_queue_channel [simp]: "lc_channel (set_run_queue q p lc) = lc_channel lc"
  by (simp add: set_run_queue_def)

lemma forward_channel [simp]: "lc_channel (snd (forward_ready_batch m s)) = lc_channel (snd s)"
  by (simp add: forward_ready_batch_def case_prod_beta Let_def signal_ready_def channel_handles_forwarded_def
      split: option.split)

lemma finish_run_channel [simp]: "lc_channel (snd (finish_run s)) = lc_channel (snd s)"
  by (simp add: finish_run_def case_prod_beta Let_def split: option.split)

lemma handle_signal_channel [simp]: "lc_channel (snd (handle_signal env c s)) = lc_channel (snd s)"
  by (cases c)
     (simp_all add: handle_signal_def close_signal_watcher_def cancel_task_def spawn_task_def next_callback_id_def
       case_prod_beta Let_def split: option.split)

lemma handle_command_channel [simp]: "lc_channel (snd (snd (handle_command env keys c s))) = lc_channel (snd s)"
proof -
  have io: "lc_channel (snd (handle_io i t)) = lc_channel (snd t)" for i t
    using handle_io_view [of i t] by (simp add: same_view_def lc_view_def)
  have cl: "lc_channel (snd (cleanup_watchers env keys t)) = lc_channel (snd t)" for t
    using cleanup_watchers_view [of env keys t] by (simp add: same_view_def lc_view_def)
  show ?thesis
    by (simp add: handle_command_def case_prod_beta io cl lc_activate_ready_dispatch_def
        split: loop_command.split loop_future_command.split loop_transport_command.split loop_run_command.split)
qed

lemma drain_commands_channel:
  "drain_commands env keys cs s = (False, t) \<Longrightarrow> cs = lc_channel (snd s) \<Longrightarrow> lc_channel (snd t) = []"
proof (induction env keys cs s rule: drain_commands.induct)
  case (2 env keys c rest s)
  obtain b s1 where h: "handle_command env keys c (fst s, (snd s)\<lparr>lc_channel := rest\<rparr>) = (b, s1)"
    by (meson surj_pair)
  have ch: "rest = lc_channel (snd s1)"
    using handle_command_channel [of env keys c "(fst s, (snd s)\<lparr>lc_channel := rest\<rparr>)"] h by simp
  have step: "drain_commands env keys (c # rest) s = (if b then (True, s1) else drain_commands env keys rest s1)"
    using h by (cases b) (simp_all add: case_prod_beta)
  have nb: "b = False" using 2(2) unfolding step by (cases b) simp_all
  have "drain_commands env keys rest s1 = (False, t)" using 2(2) unfolding step nb by simp
  from 2(1) [OF prod.collapse h [symmetric] nb this ch] show ?case .
qed simp

lemma dispatch_ready_batch_empties:
  "dp_active_run (fst s) \<noteq> None \<Longrightarrow> dp_ready_batch (fst (dispatch_ready_batch s)) = []"
  by (auto simp: dispatch_ready_batch_def forward_ready_batch_def case_prod_beta Let_def)

lemma dispatch_channel [simp]: "lc_channel (snd (dispatch_ready_batch s)) = lc_channel (snd s)"
  by (simp add: dispatch_ready_batch_def)

definition dispatch_if_ready :: "dispatcher \<times> loop_core \<Rightarrow> dispatcher \<times> loop_core" where
  "dispatch_if_ready s =
     (if dp_active_run (fst s) \<noteq> None \<and> has_ready (fst s) then dispatch_ready_batch s else s)"

text \<open>The loop of \<open>poll\<close>; the result is whether the future is ready.\<close>

function dispatcher_poll ::
    "dispatcher_env \<Rightarrow> int list \<Rightarrow> dispatcher \<times> loop_core \<Rightarrow> bool \<times> dispatcher \<times> loop_core" where
  "dispatcher_poll env keys s =
     (if dp_shutting_down (fst s) then (True, s)
      else
        let s1 = dispatch_if_ready s in
        case drain_commands env keys (lc_channel (snd s1)) s1 of
          (True, s2) \<Rightarrow> (True, s2)
        | (False, s2) \<Rightarrow>
            if dp_active_run (fst s2) \<noteq> None \<and> has_ready (fst s2)
            then dispatcher_poll env keys (dispatch_ready_batch s2)
            else (False, s2))"
  by pat_completeness auto
termination
proof (relation "measure (\<lambda>(env, keys, s). length (lc_channel (snd s)) + of_bool (has_ready (fst s)))",
    goal_cases)
  case 1
  show ?case by simp
next
  case (2 env keys s s1 b s2)
  have d: "drain_commands env keys (lc_channel (snd s1)) s1 = (False, s2)" using 2 by simp
  have c2: "lc_channel (snd s2) = []" by (rule drain_commands_channel [OF d HOL.refl])
  have b2: "\<not> has_ready (fst (dispatch_ready_batch s2))"
    using dispatch_ready_batch_empties [of s2] 2(5) by (simp add: has_ready_def)
  have "lc_channel (snd s) \<noteq> [] \<or> has_ready (fst s)"
  proof (rule ccontr)
    assume n: "\<not> ?thesis"
    then have "s1 = s" "lc_channel (snd s1) = []" using 2(2) by (simp_all add: dispatch_if_ready_def)
    then have "s2 = s" using d by simp
    then show False using 2(5) n by simp
  qed
  then show ?case using c2 b2 by auto
qed

declare dispatcher_poll.simps [simp del]

definition poll :: "dispatcher_env \<Rightarrow> int list \<Rightarrow> dispatcher \<times> loop_core \<Rightarrow> bool \<times> dispatcher \<times> loop_core" where
  "poll env keys s = dispatcher_poll env keys (fst s, set_runtime_waker True (snd s))"

subsection \<open>Properties\<close>

text \<open>Commands that only queue work or only start and stop watchers.\<close>

definition plain_command :: "loop_command \<Rightarrow> bool" where
  "plain_command c \<longleftrightarrow> item_of_command c \<noteq> None \<or> (\<exists>i. c = CIo i)"

definition is_handle_command :: "loop_command \<Rightarrow> bool" where
  "is_handle_command c \<longleftrightarrow> (case c of ScheduleReadyHandle _ \<Rightarrow> True | _ \<Rightarrow> False)"

definition items_of :: "loop_command list \<Rightarrow> ready_item list" where
  "items_of cs = List.map_filter item_of_command cs"

lemma items_of_Cons: "items_of (c # cs) = (case item_of_command c of None \<Rightarrow> [] | Some i \<Rightarrow> [i]) @ items_of cs"
  by (simp add: items_of_def map_filter_simps split: option.split)

lemma items_of_Nil [simp]: "items_of [] = []"
  by (simp add: items_of_def map_filter_simps)

lemma handle_plain:
  assumes "plain_command c"
  obtains t where "handle_command env keys c s = (False, t)"
    "dp_view (fst t) = (dp_ready_batch (fst s) @ items_of [c],
       dp_channel_handles (fst s) + of_bool (is_handle_command c), dp_active_run (fst s), dp_finished (fst s),
       dp_shutting_down (fst s))"
    "lc_view (snd t) = lc_view (snd s)"
proof -
  have io: "dp_view (fst (handle_io i s)) = dp_view (fst s)" "lc_view (snd (handle_io i s)) = lc_view (snd s)" for i
    using handle_io_view [of i s] by (simp_all add: same_view_def)
  let ?h = "handle_command env keys c s"
  have "\<not> fst ?h \<and> dp_view (fst (snd ?h)) = (dp_ready_batch (fst s) @ items_of [c],
       dp_channel_handles (fst s) + of_bool (is_handle_command c), dp_active_run (fst s), dp_finished (fst s),
       dp_shutting_down (fst s))
    \<and> lc_view (snd (snd ?h)) = lc_view (snd s)"
    using assms io
    by (simp add: handle_command_def plain_command_def item_of_command_def items_of_def map_filter_simps
        is_handle_command_def dp_view_def case_prod_beta
        split: loop_command.splits loop_future_command.splits loop_transport_command.splits loop_run_command.splits)
  then show ?thesis using that [of "snd ?h"] by (cases ?h) simp
qed

lemma drain_plain:
  assumes "\<forall>c \<in> set cs. plain_command c" "cs = lc_channel (snd s)"
  shows "\<exists>t. drain_commands env keys cs s = (False, t)
    \<and> dp_view (fst t) = (dp_ready_batch (fst s) @ items_of cs,
       dp_channel_handles (fst s) + length (filter is_handle_command cs), dp_active_run (fst s), dp_finished (fst s),
       dp_shutting_down (fst s))
    \<and> lc_view (snd t) = lc_view ((snd s)\<lparr>lc_channel := []\<rparr>)"
  using assms
proof (induction cs arbitrary: s)
  case Nil
  then show ?case by (simp add: items_of_def map_filter_simps dp_view_def lc_view_def)
next
  case (Cons c cs)
  let ?s = "(fst s, (snd s)\<lparr>lc_channel := cs\<rparr>)"
  have "plain_command c" using Cons(2) by simp
  then obtain t where t: "handle_command env keys c ?s = (False, t)"
    "dp_view (fst t) = (dp_ready_batch (fst s) @ items_of [c],
       dp_channel_handles (fst s) + of_bool (is_handle_command c), dp_active_run (fst s), dp_finished (fst s),
       dp_shutting_down (fst s))"
    "lc_view (snd t) = lc_view ((snd s)\<lparr>lc_channel := cs\<rparr>)"
    by (rule handle_plain [of c env keys ?s]) simp
  have ch: "cs = lc_channel (snd t)" using t(3) by (simp add: lc_view_def)
  have "drain_commands env keys (c # cs) s = drain_commands env keys cs t"
    using t(1) by (simp add: case_prod_beta)
  moreover have "lc_view ((snd t)\<lparr>lc_channel := []\<rparr>) = lc_view ((snd s)\<lparr>lc_channel := []\<rparr>)"
    using t(3) by (simp add: lc_view_def)
  moreover have "\<forall>c\<in>set cs. plain_command c" using Cons(2) by simp
  from Cons(1) [OF this ch] obtain u where "drain_commands env keys cs t = (False, u)"
    "dp_view (fst u) = (dp_ready_batch (fst t) @ items_of cs,
       dp_channel_handles (fst t) + length (filter is_handle_command cs), dp_active_run (fst t), dp_finished (fst t),
       dp_shutting_down (fst t))"
    "lc_view (snd u) = lc_view ((snd t)\<lparr>lc_channel := []\<rparr>)" by blast
  ultimately show ?case
    using t(2) by (intro exI [of _ u]) (simp add: dp_view_def items_of_Cons [of c])
qed

lemma dispatch_if_ready_effect:
  assumes "dp_active_run (fst s) = Some q" "dispatch_if_ready s = t"
  shows "dp_ready_batch (fst t) = []" "dp_active_run (fst t) = Some q"
    "dp_shutting_down (fst t) = dp_shutting_down (fst s)"
    "pr_items (run_queue q (snd t)) = pr_items (run_queue q (snd s)) @ dp_ready_batch (fst s)"
    "lc_channel (snd t) = lc_channel (snd s)" "lc_queue (snd t) = lc_queue (snd s)"
    "dp_ready_batch (fst s) \<noteq> [] \<Longrightarrow> dp_channel_handles (fst t) = 0
       \<and> lc_channel_handles (snd t) = lc_channel_handles (snd s) - dp_channel_handles (fst s)
       \<and> sc_wake (lc_sched (snd t))"
    "dp_ready_batch (fst s) = [] \<Longrightarrow> t = s"
proof -
  have ext: "pr_items (pr_extend xs m p) = pr_items p @ xs" for xs :: "ready_item list" and m p
    by (simp add: pr_extend_def pr_mark_def Let_def)
  show "dp_ready_batch (fst t) = []" "dp_active_run (fst t) = Some q"
    "dp_shutting_down (fst t) = dp_shutting_down (fst s)"
    "pr_items (run_queue q (snd t)) = pr_items (run_queue q (snd s)) @ dp_ready_batch (fst s)"
    "lc_channel (snd t) = lc_channel (snd s)" "lc_queue (snd t) = lc_queue (snd s)"
    "dp_ready_batch (fst s) \<noteq> [] \<Longrightarrow> dp_channel_handles (fst t) = 0
       \<and> lc_channel_handles (snd t) = lc_channel_handles (snd s) - dp_channel_handles (fst s)
       \<and> sc_wake (lc_sched (snd t))"
    "dp_ready_batch (fst s) = [] \<Longrightarrow> t = s"
    unfolding assms(2) [symmetric] using assms(1)
    by (simp_all add: dispatch_if_ready_def dispatch_ready_batch_def forward_ready_batch_def has_ready_def
        case_prod_beta Let_def set_run_queue_def run_queue_def signal_ready_def channel_handles_forwarded_def ext)
qed


definition demo_env :: dispatcher_env where
  "demo_env = \<lparr>env_signals_new = (\<lambda>_. True), env_alloc = (\<lambda>_. 0), env_tuple = (\<lambda>_. 0), env_order = (\<lambda>ks. ks)\<rparr>"


end
