(* ===== verification/Handle_Order.thy ===== *)
theory Handle_Order
  imports Dispatcher
begin

section \<open>Off-thread handles never overtake each other (engine/loop_core.rs, engine/dispatcher.rs)\<close>

text \<open>
  The loop thread, the dispatcher thread and any number of producer threads that call
  \<open>call_soon_threadsafe\<close> interleave. A producer's call is \<open>schedule_ready_handle\<close> cut at its accesses to
  shared state: it reads the counter \<open>channel_handles\<close> (\<open>PTry\<close> when it was zero), tries the active run's
  queue, else increments the counter (\<open>PCount\<close>, \<open>PSend\<close>) and sends the handle through the channel.
  The end of a run is cut the same way. \<open>owner\<close> gives the thread a handle belongs to, thread 0 being the
  loop thread; \<open>os_sched\<close> records what each thread has scheduled, \<open>os_ran\<close> what has been executed.
\<close>

datatype producer = PIdle | PTry nat | PCount nat | PSend nat

datatype run_phase = Stopped | Running | Leftover | Retired | Finishing nat

record order_state =
  os_lc :: loop_core
  os_dp :: dispatcher
  os_phase :: run_phase
  os_batch :: "ready_item list"
  os_ran :: "ready_item list"
  os_prod :: "nat \<Rightarrow> producer"
  os_sched :: "nat \<Rightarrow> nat list"

definition order_init :: "order_state \<Rightarrow> bool" where
  "order_init s \<longleftrightarrow> s = \<lparr>os_lc = lc_new, os_dp = dp_new, os_phase = Stopped, os_batch = [], os_ran = [],
     os_prod = (\<lambda>_. PIdle), os_sched = (\<lambda>_. [])\<rparr>"

definition set_prod :: "nat \<Rightarrow> producer \<Rightarrow> order_state \<Rightarrow> order_state" where
  "set_prod p pc s = s\<lparr>os_prod := (os_prod s)(p := pc)\<rparr>"

inductive order_step :: "(nat \<Rightarrow> nat) \<Rightarrow> order_state \<Rightarrow> order_state \<Rightarrow> bool" for owner where
  call: "os_prod s p = PIdle \<Longrightarrow> owner h = p
    \<Longrightarrow> order_step owner s
          (set_prod p (if lc_channel_handles (os_lc s) = 0 then PTry h else PCount h)
            (s\<lparr>os_sched := (os_sched s)(p := os_sched s p @ [h])\<rparr>))"
| try_active: "os_prod s p = PTry h \<Longrightarrow> try_enqueue_active_ready (RHandleCallback h) (lc_sched (os_lc s)) = (r, sc)
    \<Longrightarrow> order_step owner s
          (set_prod p (case r of Inr _ \<Rightarrow> PIdle | Inl _ \<Rightarrow> PCount h) (s\<lparr>os_lc := (os_lc s)\<lparr>lc_sched := sc\<rparr>\<rparr>))"
| count_handle: "os_prod s p = PCount h
    \<Longrightarrow> order_step owner s
          (set_prod p (PSend h) (s\<lparr>os_lc := (os_lc s)\<lparr>lc_channel_handles := lc_channel_handles (os_lc s) + 1\<rparr>\<rparr>))"
| send: "os_prod s p = PSend h \<Longrightarrow> send_remote_command (ScheduleReadyHandle h) (os_lc s) = (Inr (), lc)
    \<Longrightarrow> order_step owner s (set_prod p PIdle (s\<lparr>os_lc := lc\<rparr>))"
| send_fails: "os_prod s p = PSend h \<Longrightarrow> send_remote_command (ScheduleReadyHandle h) (os_lc s) = (Inl e, lc)
    \<Longrightarrow> order_step owner s
          (set_prod p PIdle
            (s\<lparr>os_lc := lc\<lparr>lc_channel_handles := lc_channel_handles lc - 1\<rparr>,
               os_sched := (os_sched s)(p := butlast (os_sched s p))\<rparr>))"
| call_soon: "os_phase s = Running \<Longrightarrow> owner h = 0 \<Longrightarrow> schedule_ready_handle True h (os_lc s) = Some (r, lc)
    \<Longrightarrow> order_step owner s (s\<lparr>os_lc := lc\<rparr>)"
| command: "plain_command c \<Longrightarrow> \<not> is_handle_command c \<Longrightarrow> send_command thr c (os_lc s) = Some (r, lc)
    \<Longrightarrow> order_step owner s (s\<lparr>os_lc := lc\<rparr>)"
| signal: "send_command thr (CSignal g) (os_lc s) = Some (r, lc) \<Longrightarrow> order_step owner s (s\<lparr>os_lc := lc\<rparr>)"
| timers_due: "os_phase s = Running
    \<Longrightarrow> order_step owner s
          (s\<lparr>os_lc := (os_lc s)\<lparr>lc_sched := note_local_enqueues (length ts)
               ((lc_sched (os_lc s))\<lparr>sc_local := sc_local (lc_sched (os_lc s)) @ map RTimerCallback ts\<rparr>)\<rparr>\<rparr>)"
| drain_flag: "order_step owner s (s\<lparr>os_lc := set_ready_drain_active b (os_lc s)\<rparr>)"
| recv: "lc_channel (os_lc s) = c # rest \<Longrightarrow> \<not> dp_shutting_down (os_dp s)
    \<Longrightarrow> handle_command env keys c (os_dp s, (os_lc s)\<lparr>lc_channel := rest\<rparr>) = (b, dp, lc)
    \<Longrightarrow> order_step owner s (s\<lparr>os_dp := dp, os_lc := lc\<rparr>)"
| dispatch: "dispatch_if_ready (os_dp s, os_lc s) = (dp, lc) \<Longrightarrow> order_step owner s (s\<lparr>os_dp := dp, os_lc := lc\<rparr>)"
| begin_run: "os_phase s = Stopped \<Longrightarrow> run_forever_begin True (os_lc s) = Some (Inr (), lc)
    \<Longrightarrow> order_step owner s (s\<lparr>os_lc := lc, os_phase := Running\<rparr>)"
| generation: "os_phase s = Running \<Longrightarrow> os_batch s = [] \<Longrightarrow> next_generation (lc_sched (os_lc s)) = Some (g, sc)
    \<Longrightarrow> order_step owner s (s\<lparr>os_lc := (os_lc s)\<lparr>lc_sched := sc\<rparr>, os_batch := g\<rparr>)"
| execute: "os_phase s = Running \<Longrightarrow> os_batch s = x # xs
    \<Longrightarrow> order_step owner s (s\<lparr>os_batch := xs, os_ran := os_ran s @ [x]\<rparr>)"
| leave: "os_phase s = Running \<Longrightarrow> preserve_leftover (os_batch s) (leave_run (os_lc s)) = Some lc
    \<Longrightarrow> order_step owner s (s\<lparr>os_lc := lc, os_batch := [], os_phase := Leftover\<rparr>)"
| retire: "os_phase s = Leftover
    \<Longrightarrow> order_step owner s (s\<lparr>os_lc := retire_dispatch (os_lc s), os_phase := Retired\<rparr>)"
| finish: "os_phase s = Retired \<Longrightarrow> d \<notin> set (dp_finished (os_dp s))
    \<Longrightarrow> send_command True (CRun (FinishRun d)) (os_lc s) = Some (Inr (), lc)
    \<Longrightarrow> order_step owner s (s\<lparr>os_lc := lc, os_phase := Finishing d\<rparr>)"
| acknowledged: "os_phase s = Finishing d \<Longrightarrow> d \<in> set (dp_finished (os_dp s))
    \<Longrightarrow> order_step owner s (s\<lparr>os_phase := Stopped\<rparr>)"
| close: "os_phase s = Stopped \<Longrightarrow> loop_close True io fd joined (os_lc s) = Some (r, lc)
    \<Longrightarrow> order_step owner s (s\<lparr>os_lc := lc\<rparr>)"

text \<open>Uninterrupted, the steps of a call are \<open>schedule_ready_handle\<close>.\<close>

lemma producer_steps_are_schedule_ready_handle:
  assumes "os_prod s p = PIdle" "owner h = p" "schedule_ready_handle False h (os_lc s) = Some (Inr (), lc)"
  shows "\<exists>t. (order_step owner)\<^sup>*\<^sup>* s t \<and> os_lc t = lc \<and> os_prod t = os_prod s
    \<and> os_sched t = (os_sched s)(p := os_sched s p @ [h]) \<and> os_ran t = os_ran s
    \<and> os_phase t = os_phase s \<and> os_batch t = os_batch s"
proof -
  let ?s0 = "s\<lparr>os_sched := (os_sched s)(p := os_sched s p @ [h])\<rparr>"
  let ?s1 = "set_prod p (if lc_channel_handles (os_lc s) = 0 then PTry h else PCount h) ?s0"
  have c: "order_step owner s ?s1" by (rule order_step.call [where owner = owner, OF assms(1,2)])
  have idle: "(os_prod s)(p := PIdle) = os_prod s" using assms(1) by auto
  have via_channel: "\<exists>t. (order_step owner)\<^sup>*\<^sup>* s t \<and> os_lc t = lc \<and> os_prod t = os_prod s
      \<and> os_sched t = (os_sched s)(p := os_sched s p @ [h]) \<and> os_ran t = os_ran s
    \<and> os_phase t = os_phase s \<and> os_batch t = os_batch s"
    if cnt: "(order_step owner)\<^sup>*\<^sup>* s (set_prod p (PCount h) ?s0)"
      and snd: "send_remote_command (ScheduleReadyHandle h)
        ((os_lc s)\<lparr>lc_channel_handles := lc_channel_handles (os_lc s) + 1\<rparr>) = (Inr (), lc)"
  proof -
    let ?s2 = "set_prod p (PSend h) (set_prod p (PCount h) ?s0
        \<lparr>os_lc := (os_lc s)\<lparr>lc_channel_handles := lc_channel_handles (os_lc s) + 1\<rparr>\<rparr>)"
    have 2: "order_step owner (set_prod p (PCount h) ?s0) ?s2"
      using order_step.count_handle [of "set_prod p (PCount h) ?s0" p h owner] by (simp add: set_prod_def)
    have 3: "order_step owner ?s2 (set_prod p PIdle (?s2\<lparr>os_lc := lc\<rparr>))"
      using snd by (intro order_step.send [where h = h]) (simp_all add: set_prod_def)
    from cnt 2 3 have "(order_step owner)\<^sup>*\<^sup>* s (set_prod p PIdle (?s2\<lparr>os_lc := lc\<rparr>))"
      by (meson rtranclp.rtrancl_into_rtrancl)
    then show ?thesis by (intro exI [of _ "set_prod p PIdle (?s2\<lparr>os_lc := lc\<rparr>)"]) (simp add: set_prod_def idle)
  qed
  have loc: "try_enqueue_local_ready (on_runtime_thread False (os_lc s) \<and> lc_tls_ready (os_lc s)) (RHandleCallback h)
      (lc_sched (os_lc s)) = (Inl (RHandleCallback h), lc_sched (os_lc s))"
    by (simp add: try_enqueue_local_ready_def on_runtime_thread_def)
  obtain r sc where act: "try_enqueue_active_ready (RHandleCallback h) (lc_sched (os_lc s)) = (r, sc)" by force
  have act_fail: "r = Inl x \<Longrightarrow> x = RHandleCallback h \<and> sc = lc_sched (os_lc s)" for x
    using act by (auto simp: try_enqueue_active_ready_def split: option.splits if_splits)
  show ?thesis
  proof (cases "lc_channel_handles (os_lc s) = 0")
    case True
    then have c1: "(order_step owner)\<^sup>*\<^sup>* s (set_prod p (PTry h) ?s0)" using c by auto
    have t: "order_step owner (set_prod p (PTry h) ?s0)
        (set_prod p (case r of Inr _ \<Rightarrow> PIdle | Inl _ \<Rightarrow> PCount h)
          (set_prod p (PTry h) ?s0\<lparr>os_lc := (os_lc s)\<lparr>lc_sched := sc\<rparr>\<rparr>))"
      using order_step.try_active [of "set_prod p (PTry h) ?s0" p h r sc owner] act by (simp add: set_prod_def)
    show ?thesis
    proof (cases r)
      case (Inr u)
      then have "lc = (os_lc s)\<lparr>lc_sched := sc\<rparr>"
        using assms(3) True loc act by (simp add: schedule_ready_handle_def Let_def)
      moreover have "(order_step owner)\<^sup>*\<^sup>* s
          (set_prod p PIdle (set_prod p (PTry h) ?s0\<lparr>os_lc := (os_lc s)\<lparr>lc_sched := sc\<rparr>\<rparr>))"
        using c1 t Inr by (auto intro: rtranclp.rtrancl_into_rtrancl)
      ultimately show ?thesis
        by (intro exI [of _ "set_prod p PIdle (set_prod p (PTry h) ?s0\<lparr>os_lc := (os_lc s)\<lparr>lc_sched := sc\<rparr>\<rparr>)"])
           (simp add: set_prod_def idle)
    next
      case (Inl x)
      have "set_prod p (PCount h) (set_prod p (PTry h) ?s0\<lparr>os_lc := (os_lc s)\<lparr>lc_sched := sc\<rparr>\<rparr>) = set_prod p (PCount h) ?s0"
        using act_fail [OF Inl] by (simp add: set_prod_def)
      then have "(order_step owner)\<^sup>*\<^sup>* s (set_prod p (PCount h) ?s0)"
        using c1 t Inl by (auto intro: rtranclp.rtrancl_into_rtrancl)
      then show ?thesis
        using via_channel assms(3) True loc act Inl act_fail [OF Inl]
        by (auto simp: schedule_ready_handle_def Let_def split: prod.splits sum.splits)
    qed
  next
    case False
    then have "(order_step owner)\<^sup>*\<^sup>* s (set_prod p (PCount h) ?s0)" using c by auto
    then show ?thesis
      using via_channel assms(3) False loc
      by (auto simp: schedule_ready_handle_def Let_def split: prod.splits sum.splits)
  qed
qed

subsection \<open>The invariant\<close>

definition own :: "(nat \<Rightarrow> nat) \<Rightarrow> nat \<Rightarrow> ready_item \<Rightarrow> bool" where
  "own owner p item = (case item of RHandleCallback h \<Rightarrow> owner h = p | _ \<Rightarrow> False)"

definition is_handle :: "ready_item \<Rightarrow> bool" where
  "is_handle item = (case item of RHandleCallback h \<Rightarrow> True | _ \<Rightarrow> False)"

definition chan_handles :: "loop_command list \<Rightarrow> ready_item list" where
  "chan_handles cs = items_of (filter is_handle_command cs)"

definition run_cmds :: "loop_command list \<Rightarrow> loop_run_command list" where
  "run_cmds cs = List.map_filter (\<lambda>c. case c of CRun r \<Rightarrow> Some r | _ \<Rightarrow> None) cs"

definition in_flight :: "producer \<Rightarrow> ready_item list" where
  "in_flight pc = (case pc of PIdle \<Rightarrow> [] | PTry h \<Rightarrow> [RHandleCallback h] | PCount h \<Rightarrow> [RHandleCallback h] | PSend h \<Rightarrow> [RHandleCallback h])"

definition sending :: "producer \<Rightarrow> bool" where
  "sending pc = (case pc of PSend _ \<Rightarrow> True | _ \<Rightarrow> False)"

definition senders :: "(nat \<Rightarrow> producer) \<Rightarrow> nat set" where
  "senders f = {p. sending (f p)}"

definition trying :: "producer \<Rightarrow> bool" where
  "trying pc = (case pc of PTry _ \<Rightarrow> True | _ \<Rightarrow> False)"

abbreviation os_sc :: "order_state \<Rightarrow> ready_item sched" where
  "os_sc s \<equiv> lc_sched (os_lc s)"

abbreviation os_pend :: "order_state \<Rightarrow> ready_item list" where
  "os_pend s \<equiv> pr_items (sc_pending (os_sc s))"

abbreviation os_chan :: "order_state \<Rightarrow> loop_command list" where
  "os_chan s \<equiv> lc_channel (os_lc s)"

abbreviation os_held :: "order_state \<Rightarrow> ready_item list" where
  "os_held s \<equiv> dp_ready_batch (os_dp s)"

abbreviation os_active :: "order_state \<Rightarrow> nat option" where
  "os_active s \<equiv> dp_active_run (os_dp s)"

definition pipeline :: "order_state \<Rightarrow> ready_item list" where
  "pipeline s = os_ran s @ os_batch s @ os_pend s @ os_held s @ chan_handles (os_chan s)"

definition entered :: "order_state \<Rightarrow> bool" where
  "entered s \<longleftrightarrow> os_active s = Some (lc_queue (os_lc s))"

definition pipe_ok :: "(nat \<Rightarrow> nat) \<Rightarrow> order_state \<Rightarrow> bool" where
  "pipe_ok owner s \<longleftrightarrow> (\<forall>p. p \<noteq> 0 \<longrightarrow>
     map RHandleCallback (os_sched s p) = filter (own owner p) (pipeline s) @ in_flight (os_prod s p))"

definition owner_ok :: "(nat \<Rightarrow> nat) \<Rightarrow> order_state \<Rightarrow> bool" where
  "owner_ok owner s \<longleftrightarrow> (\<forall>p. filter (own owner p) (in_flight (os_prod s p)) = in_flight (os_prod s p)
     \<and> (\<forall>p'. p' \<noteq> p \<longrightarrow> filter (own owner p') (in_flight (os_prod s p)) = []))"

definition count_ok :: "order_state \<Rightarrow> bool" where
  "count_ok s \<longleftrightarrow> finite (senders (os_prod s))
     \<and> lc_channel_handles (os_lc s)
         = length (chan_handles (os_chan s)) + dp_channel_handles (os_dp s) + card (senders (os_prod s))"

definition held_ok :: "order_state \<Rightarrow> bool" where
  "held_ok s \<longleftrightarrow> dp_channel_handles (os_dp s) \<le> length (filter is_handle (os_held s))
     \<and> (entered s \<longrightarrow> dp_channel_handles (os_dp s) = length (filter is_handle (os_held s)))"

definition try_ok :: "(nat \<Rightarrow> nat) \<Rightarrow> order_state \<Rightarrow> bool" where
  "try_ok owner s \<longleftrightarrow> (\<forall>p. trying (os_prod s p) \<longrightarrow> filter (own owner p) (chan_handles (os_chan s)) = []
     \<and> (entered s \<longrightarrow> filter (own owner p) (os_held s) = []))"

text \<open>Where the run's commands are while the run is being entered (\<open>False\<close>) or has been (\<open>True\<close>).\<close>

definition enter_pending :: "order_state \<Rightarrow> loop_run_command list \<Rightarrow> bool" where
  "enter_pending s rest \<longleftrightarrow> os_active s = None
     \<and> (\<exists>m \<le> sc_enqueues (os_sc s). run_cmds (os_chan s) = EnterRun (lc_queue (os_lc s)) m # rest)"

definition enter_done :: "order_state \<Rightarrow> loop_run_command list \<Rightarrow> bool" where
  "enter_done s rest \<longleftrightarrow> os_active s = Some (lc_queue (os_lc s)) \<and> run_cmds (os_chan s) = rest"

definition running_ok :: "(nat \<Rightarrow> nat) \<Rightarrow> order_state \<Rightarrow> bool" where
  "running_ok owner s \<longleftrightarrow> sched_inv (os_sc s) \<and> (\<forall>x \<in> set (sc_local (os_sc s)). \<forall>p. p \<noteq> 0 \<longrightarrow> \<not> own owner p x)
     \<and> lc_tls_core (os_lc s) \<and> lc_tls_ready (os_lc s)"

definition phase_ok :: "(nat \<Rightarrow> nat) \<Rightarrow> order_state \<Rightarrow> bool" where
  "phase_ok owner s \<longleftrightarrow>
     (case os_phase s of
        Stopped \<Rightarrow> os_active s = None \<and> run_cmds (os_chan s) = [] \<and> sc_dispatch (os_sc s) = None
          \<and> os_pend s = [] \<and> os_batch s = []
      | Running \<Rightarrow> running_ok owner s
          \<and> (enter_pending s [] \<and> sc_dispatch (os_sc s) = Some False
             \<or> enter_done s [] \<and> sc_dispatch (os_sc s) = Some True)
      | Leftover \<Rightarrow> os_batch s = []
          \<and> (enter_pending s [] \<and> sc_dispatch (os_sc s) = Some False
             \<or> enter_done s [] \<and> sc_dispatch (os_sc s) = Some True)
      | Retired \<Rightarrow> os_batch s = [] \<and> sc_dispatch (os_sc s) = None \<and> (enter_pending s [] \<or> enter_done s [])
      | Finishing d \<Rightarrow> os_batch s = [] \<and> sc_dispatch (os_sc s) = None
          \<and> ((enter_pending s [FinishRun d] \<or> enter_done s [FinishRun d]) \<and> d \<notin> set (dp_finished (os_dp s))
             \<or> os_active s = None \<and> run_cmds (os_chan s) = [] \<and> os_pend s = []))
     \<and> (Close \<in> set (os_chan s) \<longrightarrow> ls_closed (lc_ls (os_lc s)))
     \<and> (ls_closed (lc_ls (os_lc s)) \<longrightarrow> os_phase s = Stopped)"

definition order_inv :: "(nat \<Rightarrow> nat) \<Rightarrow> order_state \<Rightarrow> bool" where
  "order_inv owner s \<longleftrightarrow> pipe_ok owner s \<and> owner_ok owner s \<and> count_ok s \<and> held_ok s \<and> try_ok owner s
     \<and> phase_ok owner s"

lemmas order_inv_defs = order_inv_def pipe_ok_def owner_ok_def count_ok_def held_ok_def try_ok_def

lemma handles_simps [simp]:
  "chan_handles [] = []" "run_cmds [] = []"
  "chan_handles (a @ b) = chan_handles a @ chan_handles b" "run_cmds (a @ b) = run_cmds a @ run_cmds b"
  by (simp_all add: chan_handles_def run_cmds_def items_of_def List.map_filter_def)

lemma chan_handles_Cons: "chan_handles (c # cs) = (if is_handle_command c then items_of [c] else []) @ chan_handles cs"
  by (simp add: chan_handles_def items_of_Cons [of c])

lemma run_cmds_Cons: "run_cmds (c # cs) = (case c of CRun r \<Rightarrow> [r] | _ \<Rightarrow> []) @ run_cmds cs"
  by (simp add: run_cmds_def map_filter_simps split: loop_command.split)

lemma own_is_handle: "own owner p x \<Longrightarrow> is_handle x"
  by (simp add: own_def is_handle_def split: ready_item.splits)

lemma own_not_handle: "\<not> is_handle x \<Longrightarrow> \<not> own owner p x"
  using own_is_handle by blast

lemma entered_dispatch:
  "phase_ok owner s \<Longrightarrow> sc_dispatch (os_sc s) = Some True \<Longrightarrow> entered s"
  by (auto simp: phase_ok_def entered_def enter_done_def split: run_phase.splits)

lemma phase_ok_cong:
  "os_lc t = os_lc s \<Longrightarrow> os_dp t = os_dp s \<Longrightarrow> os_phase t = os_phase s \<Longrightarrow> os_batch t = os_batch s
    \<Longrightarrow> phase_ok owner t = phase_ok owner s"
  by (simp add: phase_ok_def running_ok_def enter_pending_def enter_done_def split: run_phase.split)

lemma phase_ok_mono:
  assumes "phase_ok owner s" "os_dp t = os_dp s" "os_phase t = os_phase s" "os_batch t = os_batch s \<or> os_phase s = Running"
    and "lc_queue (os_lc t) = lc_queue (os_lc s)" "run_cmds (os_chan t) = run_cmds (os_chan s)"
    and "Close \<in> set (os_chan t) \<Longrightarrow> Close \<in> set (os_chan s)" "lc_state (os_lc t) = lc_state (os_lc s)"
    and "sc_dispatch (os_sc t) = sc_dispatch (os_sc s)" "sc_enqueues (os_sc s) \<le> sc_enqueues (os_sc t)"
    and "os_phase s = Running \<Longrightarrow> running_ok owner t"
    and "sc_dispatch (os_sc s) = None \<Longrightarrow> os_pend t = os_pend s"
  shows "phase_ok owner t"
proof -
  have "enter_pending s rest \<Longrightarrow> enter_pending t rest" "enter_done s rest = enter_done t rest" for rest
    using assms(2,5,6,10) by (auto simp: enter_pending_def enter_done_def intro: order_trans)
  then show ?thesis
    using assms unfolding phase_ok_def by (cases "os_phase s") auto
qed

lemma phase_ok_running: "phase_ok owner s \<Longrightarrow> os_phase s = Running \<Longrightarrow> running_ok owner s"
  by (simp add: phase_ok_def)

text \<open>The same when the queues are untouched.\<close>

lemma phase_ok_queues:
  assumes "order_inv owner s" "os_dp t = os_dp s" "os_phase t = os_phase s" "os_batch t = os_batch s"
    and "lc_queue (os_lc t) = lc_queue (os_lc s)" "run_cmds (os_chan t) = run_cmds (os_chan s)"
    and "Close \<in> set (os_chan t) \<Longrightarrow> Close \<in> set (os_chan s)" "lc_state (os_lc t) = lc_state (os_lc s)"
    and "os_sc t = os_sc s" "lc_tls_core (os_lc t) = lc_tls_core (os_lc s)" "lc_tls_ready (os_lc t) = lc_tls_ready (os_lc s)"
  shows "phase_ok owner t"
proof (rule phase_ok_mono [of owner s])
  show ph: "phase_ok owner s" using assms(1) by (simp add: order_inv_def)
  show "running_ok owner t" if "os_phase s = Running"
    using phase_ok_running [OF ph that] assms by (simp add: running_ok_def)
qed (use assms in simp_all)

lemma senders_upd: "senders (f(p := x)) = (if sending x then insert p (senders f) else senders f - {p})"
  by (auto simp: senders_def)

lemma producer_simps [simp]:
  "sending (PSend h)" "\<not> sending (PTry h)" "\<not> sending (PCount h)" "\<not> sending PIdle"
  "trying (PTry h)" "\<not> trying (PSend h)" "\<not> trying (PCount h)" "\<not> trying PIdle"
  "in_flight PIdle = []" "in_flight (PTry h) = [RHandleCallback h]" "in_flight (PCount h) = [RHandleCallback h]"
  "in_flight (PSend h) = [RHandleCallback h]" "p \<in> senders f \<longleftrightarrow> sending (f p)"
  by (simp_all add: sending_def trying_def in_flight_def senders_def)

text \<open>Steps that touch neither producers nor what the loop and the dispatcher hold.\<close>

lemma inv_env:
  assumes inv: "order_inv owner s" and same: "os_prod t = os_prod s" "os_sched t = os_sched s"
      "os_ran t = os_ran s" "os_batch t = os_batch s" "os_dp t = os_dp s"
    and lc: "lc_queue (os_lc t) = lc_queue (os_lc s)" "lc_channel_handles (os_lc t) = lc_channel_handles (os_lc s)"
      "chan_handles (os_chan t) = chan_handles (os_chan s)"
    and pend: "\<And>p. p \<noteq> 0 \<Longrightarrow> filter (own owner p) (os_pend t) = filter (own owner p) (os_pend s)"
    and ph: "phase_ok owner t"
  shows "order_inv owner t"
proof -
  have "filter (own owner p) (pipeline t) = filter (own owner p) (pipeline s)" if "p \<noteq> 0" for p
    using pend [OF that] by (simp add: pipeline_def same lc)
  then have "pipe_ok owner t" using inv by (simp add: order_inv_def pipe_ok_def same)
  moreover have "entered t = entered s" by (simp add: entered_def same lc)
  ultimately show ?thesis
    using inv ph by (simp add: order_inv_def owner_ok_def count_ok_def held_ok_def try_ok_def same lc)
qed

subsection \<open>Producers keep the invariant\<close>

lemma owner_ok_in_flight:
  assumes "owner_ok owner s" "in_flight (os_prod s p) = [RHandleCallback h]"
  shows "owner h = p"
  using assms(1) [unfolded owner_ok_def, rule_format, of p] assms(2) by (auto simp: own_def split: if_splits)

lemma inv_call:
  assumes inv: "order_inv owner s" and pc: "os_prod s p = PIdle" and o: "owner h = p"
  defines "t \<equiv> set_prod p (if lc_channel_handles (os_lc s) = 0 then PTry h else PCount h)
      (s\<lparr>os_sched := (os_sched s)(p := os_sched s p @ [h])\<rparr>)"
  shows "order_inv owner t"
proof -
  have same: "os_lc t = os_lc s" "os_dp t = os_dp s" "os_phase t = os_phase s" "os_batch t = os_batch s"
    "os_ran t = os_ran s" "os_sched t = (os_sched s)(p := os_sched s p @ [h])"
    "os_prod t = (os_prod s)(p := if lc_channel_handles (os_lc s) = 0 then PTry h else PCount h)"
    by (simp_all add: t_def set_prod_def)
  have fl: "in_flight (os_prod t p) = [RHandleCallback h]" "in_flight (os_prod s p) = []"
    using pc by (simp_all add: same in_flight_def)
  have other: "p' \<noteq> p \<Longrightarrow> os_prod t p' = os_prod s p'" for p' by (simp add: same)
  have snd': "senders (os_prod t) = senders (os_prod s)"
    using pc by (auto simp: same senders_def sending_def)
  have ph: "phase_ok owner t = phase_ok owner s" by (rule phase_ok_cong [OF same(1-4)])
  have pl: "entered t = entered s" "pipeline t = pipeline s" by (simp_all add: same entered_def pipeline_def)
  have "pipe_ok owner t"
    unfolding pipe_ok_def
  proof (intro allI impI)
    fix q :: nat assume "q \<noteq> 0"
    with inv have "map RHandleCallback (os_sched s q) = filter (own owner q) (pipeline s) @ in_flight (os_prod s q)"
      by (simp add: order_inv_def pipe_ok_def)
    then show "map RHandleCallback (os_sched t q) = filter (own owner q) (pipeline t) @ in_flight (os_prod t q)"
      using fl other [of q] unfolding pl by (cases "q = p") (simp_all add: same(6))
  qed
  moreover have "owner_ok owner t"
    unfolding owner_ok_def
  proof (intro allI conjI impI)
    fix q
    show "filter (own owner q) (in_flight (os_prod t q)) = in_flight (os_prod t q)"
      using inv fl other o by (cases "q = p") (auto simp: order_inv_def owner_ok_def own_def)
    fix p' assume "p' \<noteq> q"
    then show "filter (own owner p') (in_flight (os_prod t q)) = []"
      using inv fl other o by (cases "q = p") (auto simp: order_inv_def owner_ok_def own_def)
  qed
  moreover have "count_ok t" "held_ok t"
    using inv by (simp_all add: order_inv_def count_ok_def held_ok_def snd' pl same(1,2))
  moreover have "try_ok owner t"
    unfolding try_ok_def
  proof (intro allI impI)
    fix q assume tr: "trying (os_prod t q)"
    show "filter (own owner q) (chan_handles (os_chan t)) = [] \<and> (entered t \<longrightarrow> filter (own owner q) (os_held t) = [])"
    proof (cases "q = p")
      case True
      then have z: "lc_channel_handles (os_lc s) = 0" using tr by (auto simp: same trying_def split: if_splits)
      then have c: "chan_handles (os_chan s) = []" "dp_channel_handles (os_dp s) = 0"
        using inv by (simp_all add: order_inv_def count_ok_def)
      have "filter is_handle (os_held s) = []" if "entered s"
        using inv c that by (simp add: order_inv_def held_ok_def)
      then have "filter (own owner q) (os_held s) = []" if "entered s"
        using that own_not_handle by (fastforce simp: filter_empty_conv)
      then show ?thesis using c by (simp add: same pl)
    next
      case False
      then have "trying (os_prod s q)" using tr other by simp
      then show ?thesis using inv by (simp add: order_inv_def try_ok_def same pl)
    qed
  qed
  ultimately show ?thesis using inv ph by (simp add: order_inv_def)
qed

text \<open>The effect of a producer step on its own program counter and on the rest of the state.\<close>

lemma inv_producer:
  assumes inv: "order_inv owner s" and fl: "in_flight (os_prod s p) = [RHandleCallback h]"
    and same: "os_prod t = (os_prod s)(p := pc)" "os_dp t = os_dp s"
      "lc_queue (os_lc t) = lc_queue (os_lc s)"
    and pc: "in_flight pc = [] \<or> in_flight pc = [RHandleCallback h]" "\<not> trying pc"
    and sched: "os_sched t = (os_sched s)(p := ys)"
    and pipe: "p \<noteq> 0 \<Longrightarrow> map RHandleCallback ys = filter (own owner p) (pipeline t) @ in_flight pc"
      "\<And>q. q \<noteq> 0 \<Longrightarrow> q \<noteq> p \<Longrightarrow> filter (own owner q) (pipeline t) = filter (own owner q) (pipeline s)"
    and chan: "\<And>q. q \<noteq> p \<Longrightarrow> filter (own owner q) (chan_handles (os_chan t)) = filter (own owner q) (chan_handles (os_chan s))"
    and cnt: "count_ok t" and ph: "phase_ok owner t"
  shows "order_inv owner t"
proof -
  have o: "owner h = p" using owner_ok_in_flight [OF _ fl] inv by (simp add: order_inv_def)
  have ent: "entered t = entered s" by (simp add: entered_def same)
  have "pipe_ok owner t"
    unfolding pipe_ok_def
  proof (intro allI impI)
    fix q :: nat assume q: "q \<noteq> 0"
    with inv have "map RHandleCallback (os_sched s q) = filter (own owner q) (pipeline s) @ in_flight (os_prod s q)"
      by (simp add: order_inv_def pipe_ok_def)
    then show "map RHandleCallback (os_sched t q) = filter (own owner q) (pipeline t) @ in_flight (os_prod t q)"
      using pipe q by (cases "q = p") (simp_all add: sched same(1))
  qed
  moreover have "owner_ok owner t"
    unfolding owner_ok_def
  proof
    fix q
    show "filter (own owner q) (in_flight (os_prod t q)) = in_flight (os_prod t q)
        \<and> (\<forall>p'. p' \<noteq> q \<longrightarrow> filter (own owner p') (in_flight (os_prod t q)) = [])"
      using inv pc(1) o by (cases "q = p") (auto simp: order_inv_def owner_ok_def same(1) own_def)
  qed
  moreover have "held_ok t" using inv by (simp add: order_inv_def held_ok_def ent same(2))
  moreover have "try_ok owner t"
    unfolding try_ok_def
  proof (intro allI impI)
    fix q assume tr: "trying (os_prod t q)"
    then have "q \<noteq> p" using pc(2) by (auto simp: same(1))
    then show "filter (own owner q) (chan_handles (os_chan t)) = [] \<and> (entered t \<longrightarrow> filter (own owner q) (os_held t) = [])"
      using inv tr chan by (simp add: order_inv_def try_ok_def ent same)
  qed
  ultimately show ?thesis using cnt ph by (simp add: order_inv_def)
qed

lemma inv_pipe_at:
  "order_inv owner s \<Longrightarrow> p \<noteq> 0
    \<Longrightarrow> map RHandleCallback (os_sched s p) = filter (own owner p) (pipeline s) @ in_flight (os_prod s p)"
  by (simp add: order_inv_def pipe_ok_def)

lemma inv_count:
  assumes inv: "order_inv owner s" and pc: "os_prod s p = PCount h"
  shows "order_inv owner (set_prod p (PSend h)
    (s\<lparr>os_lc := (os_lc s)\<lparr>lc_channel_handles := lc_channel_handles (os_lc s) + 1\<rparr>\<rparr>))"
    (is "order_inv owner ?t")
proof (rule inv_producer [OF inv, of p h _ "PSend h" "os_sched s p"])
  have pl: "pipeline ?t = pipeline s" by (simp add: pipeline_def set_prod_def)
  show "count_ok ?t"
    using inv pc by (simp add: order_inv_def count_ok_def set_prod_def senders_upd)
  show "phase_ok owner ?t"
    by (rule phase_ok_queues [OF inv]) (simp_all add: set_prod_def)
  show "map RHandleCallback (os_sched s p) = filter (own owner p) (pipeline ?t) @ in_flight (PSend h)" if "p \<noteq> 0"
    using inv_pipe_at [OF inv that] pc unfolding pl by simp
qed (use pc in \<open>simp_all add: in_flight_def trying_def set_prod_def pipeline_def\<close>)

lemma card_sending_remove:
  assumes "count_ok s" "os_prod s p = PSend h"
  shows "card (senders (os_prod s)) = Suc (card (senders (os_prod s) - {p}))"
  using assms by (intro card.remove) (simp_all add: count_ok_def)

lemma inv_send:
  assumes inv: "order_inv owner s" and pc: "os_prod s p = PSend h"
    and snd: "send_remote_command (ScheduleReadyHandle h) (os_lc s) = (Inr (), lc)"
  shows "order_inv owner (set_prod p PIdle (s\<lparr>os_lc := lc\<rparr>))" (is "order_inv owner ?t")
proof (rule inv_producer [OF inv, of p h _ PIdle "os_sched s p"])
  note e = send_remote_effect [OF snd]
  have op: "lc_channel_open (os_lc s)" using e(8) by (auto split: if_splits)
  have ch: "chan_handles (os_chan ?t) = chan_handles (os_chan s) @ [RHandleCallback h]"
    using e(4) op by (simp add: set_prod_def chan_handles_Cons is_handle_command_def items_of_def map_filter_simps item_of_command_def)
  have pl: "pipeline ?t = pipeline s @ [RHandleCallback h]"
    using ch e by (simp add: pipeline_def set_prod_def)
  have o: "owner h = p" using owner_ok_in_flight [of owner s p h] inv pc by (simp add: order_inv_def in_flight_def)
  show "count_ok ?t"
    using inv card_sending_remove [of s p h] pc ch e
    by (simp add: order_inv_def count_ok_def set_prod_def senders_upd)
  show "phase_ok owner ?t"
    using e op by (intro phase_ok_queues [OF inv]) (simp_all add: set_prod_def run_cmds_Cons)
  show "map RHandleCallback (os_sched s p) = filter (own owner p) (pipeline ?t) @ in_flight PIdle" if "p \<noteq> 0"
    using inv_pipe_at [OF inv that] pc o unfolding pl by (simp add: own_def)
  show "filter (own owner q) (pipeline ?t) = filter (own owner q) (pipeline s)" if "q \<noteq> p" for q
    using that o by (simp add: pl own_def)
  show "filter (own owner q) (chan_handles (os_chan ?t)) = filter (own owner q) (chan_handles (os_chan s))" if "q \<noteq> p" for q
    using that o unfolding ch by (simp add: own_def)
  show "lc_queue (os_lc ?t) = lc_queue (os_lc s)" using e by (simp add: set_prod_def)
qed (use pc in \<open>simp_all add: in_flight_def trying_def set_prod_def\<close>)

lemma inv_send_fails:
  assumes inv: "order_inv owner s" and pc: "os_prod s p = PSend h"
    and snd: "send_remote_command (ScheduleReadyHandle h) (os_lc s) = (Inl err, lc)"
  shows "order_inv owner (set_prod p PIdle
    (s\<lparr>os_lc := lc\<lparr>lc_channel_handles := lc_channel_handles lc - 1\<rparr>,
       os_sched := (os_sched s)(p := butlast (os_sched s p))\<rparr>))" (is "order_inv owner ?t")
proof (rule inv_producer [OF inv, of p h _ PIdle "butlast (os_sched s p)"])
  note e = send_remote_effect [OF snd]
  have op: "\<not> lc_channel_open (os_lc s)" using e(8) by (auto split: if_splits)
  have pl: "pipeline ?t = pipeline s"
    using e op by (simp add: pipeline_def set_prod_def)
  show "count_ok ?t"
    using inv card_sending_remove [of s p h] pc e op
    by (simp add: order_inv_def count_ok_def set_prod_def senders_upd)
  show "phase_ok owner ?t"
    using e op by (intro phase_ok_queues [OF inv]) (simp_all add: set_prod_def)
  show "map RHandleCallback (butlast (os_sched s p)) = filter (own owner p) (pipeline ?t) @ in_flight PIdle" if "p \<noteq> 0"
    using inv_pipe_at [OF inv that] pc unfolding pl by (simp add: map_butlast)
qed (use pc send_remote_effect [OF snd] in \<open>auto simp add: in_flight_def trying_def set_prod_def pipeline_def split: if_splits\<close>)

lemma active_ready_effect:
  assumes "try_enqueue_active_ready x sc = (r, sc')"
  shows "sc_dispatch sc \<noteq> Some True \<Longrightarrow> r = Inl x \<and> sc' = sc"
    "sc_dispatch sc = Some True \<Longrightarrow> r = Inr () \<and> sc_local sc' = sc_local sc \<and> sc_dispatch sc' = sc_dispatch sc
       \<and> sc_enqueues sc' = sc_enqueues sc \<and> pr_items (sc_pending sc') = pr_items (sc_pending sc) @ [x]
       \<and> (sched_inv sc \<longrightarrow> sched_inv sc')"
proof -
  show "r = Inl x \<and> sc' = sc" if "sc_dispatch sc \<noteq> Some True"
    using assms that by (auto simp: try_enqueue_active_ready_def split: option.splits if_splits)
  assume d: "sc_dispatch sc = Some True"
  have sc': "sc' = sc\<lparr>sc_pending := pr_extend [x] (sc_enqueues sc) (sc_pending sc), sc_wake := True\<rparr>"
    using try_enqueue_active_extend [OF d, of x] assms by simp
  have "sched_inv sc \<longrightarrow> sched_inv sc'" using extend_pending_order(1) [OF _ sc'] by simp
  moreover have "r = Inr ()" using assms d by (simp add: try_enqueue_active_ready_def)
  moreover have "pr_items (sc_pending sc') = pr_items (sc_pending sc) @ [x]"
    using sc' by (simp add: pr_extend_def pr_mark_def Let_def)
  ultimately show "r = Inr () \<and> sc_local sc' = sc_local sc \<and> sc_dispatch sc' = sc_dispatch sc
       \<and> sc_enqueues sc' = sc_enqueues sc \<and> pr_items (sc_pending sc') = pr_items (sc_pending sc) @ [x]
       \<and> (sched_inv sc \<longrightarrow> sched_inv sc')"
    using sc' by simp
qed

lemma inv_try:
  assumes inv: "order_inv owner s" and pc: "os_prod s p = PTry h"
    and act: "try_enqueue_active_ready (RHandleCallback h) (os_sc s) = (r, sc)"
  shows "order_inv owner (set_prod p (case r of Inr _ \<Rightarrow> PIdle | Inl _ \<Rightarrow> PCount h) (s\<lparr>os_lc := (os_lc s)\<lparr>lc_sched := sc\<rparr>\<rparr>))"
    (is "order_inv owner ?t")
proof (cases "sc_dispatch (os_sc s) = Some True")
  case False
  then have r: "r = Inl (RHandleCallback h)" "sc = os_sc s" using active_ready_effect(1) [OF act] by auto
  then have t: "?t = set_prod p (PCount h) s" by simp
  have pl: "pipeline (set_prod p (PCount h) s) = pipeline s" by (simp add: pipeline_def set_prod_def)
  show ?thesis
    unfolding t
  proof (rule inv_producer [OF inv, of p h _ "PCount h" "os_sched s p"])
    show "phase_ok owner (set_prod p (PCount h) s)" by (rule phase_ok_queues [OF inv]) (simp_all add: set_prod_def)
    show "count_ok (set_prod p (PCount h) s)"
      using inv pc by (simp add: order_inv_def count_ok_def set_prod_def senders_upd)
    show "map RHandleCallback (os_sched s p) = filter (own owner p) (pipeline (set_prod p (PCount h) s)) @ in_flight (PCount h)"
      if "p \<noteq> 0" using inv_pipe_at [OF inv that] pc unfolding pl by simp
  qed (use pc pl in \<open>simp_all add: set_prod_def\<close>)
next
  case True
  note e = active_ready_effect(2) [OF act True]
  then have t: "?t = set_prod p PIdle (s\<lparr>os_lc := (os_lc s)\<lparr>lc_sched := sc\<rparr>\<rparr>)" (is "_ = ?u") by simp
  have ph: "phase_ok owner s" and tr: "try_ok owner s" using inv by (simp_all add: order_inv_def)
  have ent: "entered s" by (rule entered_dispatch [OF ph True])
  have o: "owner h = p" using owner_ok_in_flight [of owner s p h] inv pc by (simp add: order_inv_def)
  have behind: "filter (own owner p) (os_held s) = []" "filter (own owner p) (chan_handles (os_chan s)) = []"
    using tr ent pc by (simp_all add: try_ok_def)
  have pl: "pipeline ?u = os_ran s @ os_batch s @ (os_pend s @ [RHandleCallback h]) @ os_held s @ chan_handles (os_chan s)"
    using e by (simp add: pipeline_def set_prod_def)
  show ?thesis
    unfolding t
  proof (rule inv_producer [OF inv, of p h _ PIdle "os_sched s p"])
    show "phase_ok owner ?u"
    proof (rule phase_ok_mono [OF ph])
      show "running_ok owner ?u" if "os_phase s = Running"
        using phase_ok_running [OF ph that] e by (simp add: running_ok_def set_prod_def)
    qed (use e True in \<open>simp_all add: set_prod_def\<close>)
    show "count_ok ?u"
      using inv pc by (simp add: order_inv_def count_ok_def set_prod_def senders_upd)
    show "map RHandleCallback (os_sched s p) = filter (own owner p) (pipeline ?u) @ in_flight PIdle" if "p \<noteq> 0"
      using inv_pipe_at [OF inv that] pc behind o unfolding pl by (simp add: pipeline_def own_def)
    show "filter (own owner q) (pipeline ?u) = filter (own owner q) (pipeline s)" if "q \<noteq> p" for q
      using that o unfolding pl by (simp add: pipeline_def own_def)
  qed (use pc in \<open>simp_all add: set_prod_def\<close>)
qed

subsection \<open>The loop thread and other senders keep it\<close>

lemma local_ready_effect:
  assumes "try_enqueue_local_ready True x sc = (r, sc')"
  shows "r = Inr ()" "sc_local sc' = sc_local sc @ [x]" "sc_dispatch sc' = sc_dispatch sc"
    "sc_enqueues sc \<le> sc_enqueues sc'" "sc_pending sc' = sc_pending sc" "sched_inv sc \<Longrightarrow> sched_inv sc'"
  using assms enqueue_local_order(1) [OF _ assms]
  by (auto simp: try_enqueue_local_ready_def note_local_enqueues_def Let_def split: if_splits)

lemma inv_call_soon:
  assumes inv: "order_inv owner s" and "os_phase s = Running" "owner h = 0"
    and call: "schedule_ready_handle True h (os_lc s) = Some (r, lc)"
  shows "order_inv owner (s\<lparr>os_lc := lc\<rparr>)"
proof -
  have ph: "phase_ok owner s" using inv by (simp add: order_inv_def)
  note run = phase_ok_running [OF ph assms(2)]
  obtain r' sc where l: "try_enqueue_local_ready True (RHandleCallback h) (os_sc s) = (r', sc)" by force
  note e = local_ready_effect [OF l]
  have lc: "lc = (os_lc s)\<lparr>lc_sched := sc\<rparr>"
    using call run l e(1) by (simp add: schedule_ready_handle_def running_ok_def on_runtime_thread_def)
  show ?thesis
  proof (rule inv_env [OF inv])
    show "phase_ok owner (s\<lparr>os_lc := lc\<rparr>)"
    proof (rule phase_ok_mono [OF ph])
      show "running_ok owner (s\<lparr>os_lc := lc\<rparr>)"
        using run e assms(3) by (auto simp: lc running_ok_def own_def)
    qed (use e in \<open>simp_all add: lc\<close>)
  qed (use e in \<open>simp_all add: lc\<close>)
qed

lemma inv_enqueue:
  assumes inv: "order_inv owner s" and x: "\<not> is_handle x"
    and enq: "enqueue_local_or_active thr x (os_lc s) = (Inr (), lc)"
  shows "order_inv owner (s\<lparr>os_lc := lc\<rparr>)"
proof -
  have ph: "phase_ok owner s" using inv by (simp add: order_inv_def)
  obtain sc where lc: "lc = (os_lc s)\<lparr>lc_sched := sc\<rparr>"
    and e: "sc_dispatch sc = sc_dispatch (os_sc s)" "sc_enqueues (os_sc s) \<le> sc_enqueues sc"
      "sched_inv (os_sc s) \<longrightarrow> sched_inv sc" "set (sc_local sc) \<subseteq> insert x (set (sc_local (os_sc s)))"
      "pr_items (sc_pending sc) = os_pend s
        \<or> sc_dispatch (os_sc s) = Some True \<and> pr_items (sc_pending sc) = os_pend s @ [x]"
  proof (cases "local_installed thr (os_lc s)")
    case True
    obtain r' sc where l: "try_enqueue_local_ready True x (os_sc s) = (r', sc)" by force
    show ?thesis
      by (rule that [of sc])
         (use True enq l local_ready_effect [OF l] in \<open>auto simp: enqueue_local_or_active_eq\<close>)
  next
    case False
    obtain r' sc where l: "try_enqueue_active_ready x (os_sc s) = (r', sc)" by force
    have d: "sc_dispatch (os_sc s) = Some True"
      using False enq by (auto simp: enqueue_local_or_active_eq split: if_splits)
    show ?thesis
      by (rule that [of sc])
         (use False enq l d active_ready_effect(2) [OF l d] in \<open>auto simp: enqueue_local_or_active_eq\<close>)
  qed
  show ?thesis
  proof (rule inv_env [OF inv])
    show "phase_ok owner (s\<lparr>os_lc := lc\<rparr>)"
    proof (rule phase_ok_mono [OF ph])
      show "running_ok owner (s\<lparr>os_lc := lc\<rparr>)" if "os_phase s = Running"
        using phase_ok_running [OF ph that] e(3,4) own_not_handle [OF x]
        by (auto simp: lc running_ok_def)
    qed (use e in \<open>auto simp: lc\<close>)
    show "filter (own owner p) (os_pend (s\<lparr>os_lc := lc\<rparr>)) = filter (own owner p) (os_pend s)" for p
      using e(5) own_not_handle [OF x] by (auto simp: lc)
  qed (simp_all add: lc)
qed

lemma inv_remote:
  assumes inv: "order_inv owner s" and c: "\<not> is_handle_command c" "\<forall>r. c \<noteq> CRun r" "c \<noteq> Close"
    and snd: "send_remote_command c (os_lc s) = (r, lc)"
  shows "order_inv owner (s\<lparr>os_lc := lc\<rparr>)"
proof -
  note e = send_remote_effect [OF snd]
  have ch: "chan_handles [c] = []" "run_cmds [c] = []"
    using c by (auto simp: chan_handles_Cons run_cmds_Cons split: loop_command.splits)
  show ?thesis
  proof (rule inv_env [OF inv])
    show "phase_ok owner (s\<lparr>os_lc := lc\<rparr>)"
      by (rule phase_ok_queues [OF inv]) (use e ch c in \<open>auto split: if_splits\<close>)
  qed (use e ch in simp_all)
qed

lemma inv_command:
  assumes inv: "order_inv owner s" and c: "plain_command c" "\<not> is_handle_command c"
    and snd: "send_command thr c (os_lc s) = Some (r, lc)"
  shows "order_inv owner (s\<lparr>os_lc := lc\<rparr>)"
proof -
  have nc: "\<forall>r. c \<noteq> CRun r" "c \<noteq> Close" using c(1) by (auto simp: plain_command_def item_of_command_def)
  show ?thesis
  proof (cases "local_item c")
    case None
    then show ?thesis using snd inv_remote [OF inv c(2) nc] by simp
  next
    case (Some x)
    have nh: "\<not> is_handle x"
      using c(2) Some
      by (auto simp: local_item_def item_of_command_def is_handle_def is_handle_command_def
          split: loop_command.splits loop_io_command.splits loop_future_command.splits
            loop_transport_command.splits reader_target.splits)
    obtain r' lc' where e: "enqueue_local_or_active thr x (os_lc s) = (r', lc')" by force
    show ?thesis
    proof (cases r')
      case (Inr u)
      then show ?thesis
        using snd Some e inv_enqueue [OF inv nh, of thr] by (simp add: send_command_def try_handle_local_command_eq)
    next
      case (Inl y)
      then have "lc' = os_lc s" using e by (auto simp: enqueue_local_or_active_eq split: if_splits)
      then show ?thesis
        using snd Some e Inl inv_remote [OF inv c(2) nc] by (simp add: send_command_def try_handle_local_command_eq)
    qed
  qed
qed

lemma inv_timers_due:
  assumes inv: "order_inv owner s" and "os_phase s = Running"
  shows "order_inv owner (s\<lparr>os_lc := (os_lc s)\<lparr>lc_sched := note_local_enqueues (length ts)
    ((os_sc s)\<lparr>sc_local := sc_local (os_sc s) @ map RTimerCallback ts\<rparr>)\<rparr>\<rparr>)" (is "order_inv owner ?t")
proof (rule inv_env [OF inv])
  have ph: "phase_ok owner s" using inv by (simp add: order_inv_def)
  note run = phase_ok_running [OF ph assms(2)]
  show "phase_ok owner ?t"
  proof (rule phase_ok_mono [OF ph])
    show "running_ok owner ?t"
      using run by (auto simp: running_ok_def sched_inv_def note_local_enqueues_def own_def)
  qed (simp_all add: note_local_enqueues_def)
qed (simp_all add: note_local_enqueues_def)

lemma inv_drain_flag:
  assumes inv: "order_inv owner s"
  shows "order_inv owner (s\<lparr>os_lc := set_ready_drain_active b (os_lc s)\<rparr>)" (is "order_inv owner ?t")
proof (rule inv_env [OF inv])
  have ph: "phase_ok owner s" using inv by (simp add: order_inv_def)
  show "phase_ok owner ?t"
  proof (rule phase_ok_mono [OF ph])
    show "running_ok owner ?t" if "os_phase s = Running"
      using phase_ok_running [OF ph that] by (simp add: running_ok_def set_ready_drain_active_def)
  qed (simp_all add: set_ready_drain_active_def)
qed (simp_all add: set_ready_drain_active_def)

lemma next_generation_effect:
  assumes "sched_inv sc" "next_generation sc = Some (g, sc')"
  shows "g = sched_order sc" "sched_inv sc'" "sc_local sc' = []" "pr_items (sc_pending sc') = []"
    "sc_dispatch sc' = sc_dispatch sc" "sc_enqueues sc' = sc_enqueues sc"
proof -
  show g: "g = sched_order sc" "sched_inv sc'"
    using next_generation_order [OF assms(1)] assms(2) by (metis option.inject prod.inject)+
  have "sched_order sc' = []" using next_generation_order [OF assms(1)] assms(2) by (metis option.inject prod.inject)
  then have "filter (\<lambda>x. x \<notin> set (sc_local sc')) (pr_items (sc_pending sc')) = []"
    using filter_sched_order [OF g(2), of "\<lambda>x. x \<notin> set (sc_local sc')"] by simp
  moreover show l: "sc_local sc' = []"
    using assms merge_ready_generation_ref [of "sc_pending sc" "sc_local sc" "sc_taken sc"]
    by (auto simp: next_generation_def sched_inv_def split: if_splits)
  ultimately show "pr_items (sc_pending sc') = []" by simp
  show "sc_dispatch sc' = sc_dispatch sc" "sc_enqueues sc' = sc_enqueues sc"
    using assms(2) by (auto simp: next_generation_def split: if_splits bind_splits)
qed

lemma inv_generation:
  assumes inv: "order_inv owner s" and "os_phase s = Running" "os_batch s = []"
    and gen: "next_generation (os_sc s) = Some (g, sc)"
  shows "order_inv owner (s\<lparr>os_lc := (os_lc s)\<lparr>lc_sched := sc\<rparr>, os_batch := g\<rparr>)" (is "order_inv owner ?t")
proof -
  have ph: "phase_ok owner s" using inv by (simp add: order_inv_def)
  note run = phase_ok_running [OF ph assms(2)]
  then have si: "sched_inv (os_sc s)" by (simp add: running_ok_def)
  note e = next_generation_effect [OF si gen]
  have "filter (own owner p) g = filter (own owner p) (os_pend s)" if "p \<noteq> 0" for p
    unfolding e(1) by (rule filter_sched_order [OF si]) (use run that in \<open>auto simp: running_ok_def\<close>)
  then have "filter (own owner p) (pipeline ?t) = filter (own owner p) (pipeline s)" if "p \<noteq> 0" for p
    using that assms(3) e(4) by (simp add: pipeline_def)
  then have "pipe_ok owner ?t" using inv by (simp add: order_inv_def pipe_ok_def)
  moreover have "phase_ok owner ?t"
    by (rule phase_ok_mono [OF ph])
       (use assms(2) run e ph in \<open>auto simp: running_ok_def phase_ok_def\<close>)
  ultimately show ?thesis
    using inv by (simp add: order_inv_def owner_ok_def count_ok_def held_ok_def try_ok_def entered_def)
qed

lemma inv_execute:
  assumes inv: "order_inv owner s" and "os_phase s = Running" "os_batch s = x # xs"
  shows "order_inv owner (s\<lparr>os_batch := xs, os_ran := os_ran s @ [x]\<rparr>)" (is "order_inv owner ?t")
proof -
  have "pipeline ?t = pipeline s" using assms(3) by (simp add: pipeline_def)
  moreover have ph: "phase_ok owner s" using inv by (simp add: order_inv_def)
  have "phase_ok owner ?t"
    by (rule phase_ok_mono [OF ph]) (use assms(2) phase_ok_running [OF ph assms(2)] in \<open>simp_all add: running_ok_def\<close>)
  ultimately show ?thesis
    using inv by (simp add: order_inv_def pipe_ok_def owner_ok_def count_ok_def held_ok_def try_ok_def entered_def)
qed

subsection \<open>The dispatcher keeps it\<close>

lemma inv_held:
  assumes inv: "order_inv owner s"
    and same: "os_prod t = os_prod s" "os_sched t = os_sched s" "os_ran t = os_ran s" "os_batch t = os_batch s"
      "os_phase t = os_phase s" "os_sc t = os_sc s" "lc_queue (os_lc t) = lc_queue (os_lc s)"
      "lc_channel_handles (os_lc t) = lc_channel_handles (os_lc s)"
      "ls_closed (lc_ls (os_lc t)) = ls_closed (lc_ls (os_lc s))" "lc_tls_core (os_lc t) = lc_tls_core (os_lc s)"
      "lc_tls_ready (os_lc t) = lc_tls_ready (os_lc s)" "os_active t = os_active s"
      "dp_finished (os_dp t) = dp_finished (os_dp s)"
    and chan: "run_cmds (os_chan t) = run_cmds (os_chan s)" "set (os_chan t) \<subseteq> set (os_chan s)"
      "chan_handles (os_chan s) = filter is_handle xs @ chan_handles (os_chan t)"
    and held: "os_held t = os_held s @ xs"
      "dp_channel_handles (os_dp t) = dp_channel_handles (os_dp s) + length (filter is_handle xs)"
  shows "order_inv owner t"
proof -
  have fxs: "filter (own owner p) (filter is_handle xs) = filter (own owner p) xs" for p
    by (simp, rule filter_cong) (auto dest: own_is_handle)
  have ent: "entered t = entered s" by (simp add: entered_def same)
  have "filter (own owner p) (pipeline t) = filter (own owner p) (pipeline s)" for p
    by (simp only: pipeline_def same held chan filter_append fxs append_assoc)
  then have "pipe_ok owner t" using inv by (simp add: order_inv_def pipe_ok_def same)
  moreover have "count_ok t" using inv by (simp add: order_inv_def count_ok_def same held chan)
  moreover have "held_ok t" using inv by (auto simp: order_inv_def held_ok_def ent held)
  moreover have "try_ok owner t"
    unfolding try_ok_def
  proof (intro allI impI)
    fix p assume "trying (os_prod t p)"
    then have t: "filter (own owner p) (filter is_handle xs @ chan_handles (os_chan t)) = []"
        "entered s \<longrightarrow> filter (own owner p) (os_held s) = []"
      using inv unfolding order_inv_def try_ok_def chan(3) same(1) by blast+
    then have "filter (own owner p) xs = []" using fxs [of p] by simp
    with t show "filter (own owner p) (chan_handles (os_chan t)) = [] \<and> (entered t \<longrightarrow> filter (own owner p) (os_held t) = [])"
      by (simp add: ent held)
  qed
  moreover have "phase_ok owner t"
    using inv chan(2) unfolding order_inv_def phase_ok_def running_ok_def enter_pending_def enter_done_def same chan(1)
    by blast
  ultimately show ?thesis using inv by (simp add: order_inv_def owner_ok_def same)
qed

lemma items_of_single: "filter is_handle (items_of [c]) = (if is_handle_command c then items_of [c] else [])"
  by (simp add: items_of_Cons item_of_command_def is_handle_def is_handle_command_def
      split: loop_command.split loop_future_command.split loop_transport_command.split)

lemma length_items_of_handle: "is_handle_command c \<Longrightarrow> length (items_of [c]) = 1"
  by (simp add: items_of_Cons item_of_command_def is_handle_command_def split: loop_command.splits)

lemma inv_recv_plain:
  assumes inv: "order_inv owner s" and ch: "os_chan s = c # rest" and c: "plain_command c"
    and h: "handle_command env keys c (os_dp s, (os_lc s)\<lparr>lc_channel := rest\<rparr>) = (b, dp, lc)"
  shows "order_inv owner (s\<lparr>os_dp := dp, os_lc := lc\<rparr>)"
proof -
  from handle_plain [OF c, of env keys "(os_dp s, (os_lc s)\<lparr>lc_channel := rest\<rparr>)"] h
  have e: "dp_view dp = (os_held s @ items_of [c], dp_channel_handles (os_dp s) + of_bool (is_handle_command c),
       os_active s, dp_finished (os_dp s), dp_shutting_down (os_dp s))"
    "lc_view lc = lc_view ((os_lc s)\<lparr>lc_channel := rest\<rparr>)"
    by (metis fst_conv snd_conv prod.inject)+
  have nr: "run_cmds [c] = []" using c by (auto simp: run_cmds_Cons plain_command_def item_of_command_def split: loop_command.splits)
  show ?thesis
    by (rule inv_held [OF inv, where xs = "items_of [c]"])
       (use e ch nr in \<open>auto simp: dp_view_def lc_view_def items_of_single length_items_of_handle chan_handles_Cons
         run_cmds_Cons split: if_splits\<close>)
qed

lemma handle_signal_effect:
  assumes "handle_signal env g s = t"
  shows "lc_view (snd t) = lc_view (snd s)"
    "\<exists>xs. filter is_handle xs = [] \<and> dp_view (fst t) = (dp_ready_batch (fst s) @ xs, dp_channel_handles (fst s),
        dp_active_run (fst s), dp_finished (fst s), dp_shutting_down (fst s))"
proof -
  have v: "lc_view (snd t) = lc_view (snd s) \<and> dp_ready_batch (fst t) \<in> {dp_ready_batch (fst s)} \<union> {dp_ready_batch (fst s) @ [RCallback a] | a. True}
      \<and> dp_channel_handles (fst t) = dp_channel_handles (fst s) \<and> dp_active_run (fst t) = dp_active_run (fst s)
      \<and> dp_finished (fst t) = dp_finished (fst s) \<and> dp_shutting_down (fst t) = dp_shutting_down (fst s)"
    unfolding assms [symmetric]
    by (cases g)
       (auto simp: handle_signal_def close_signal_watcher_def lc_view_def cancel_task_def spawn_task_def
         next_callback_id_def push_item_def case_prod_beta Let_def split: option.split)
  then show "lc_view (snd t) = lc_view (snd s)" by simp
  from v consider "dp_ready_batch (fst t) = dp_ready_batch (fst s)"
    | a where "dp_ready_batch (fst t) = dp_ready_batch (fst s) @ [RCallback a]" by blast
  then show "\<exists>xs. filter is_handle xs = [] \<and> dp_view (fst t) = (dp_ready_batch (fst s) @ xs, dp_channel_handles (fst s),
        dp_active_run (fst s), dp_finished (fst s), dp_shutting_down (fst s))"
  proof cases
    case 1
    then show ?thesis using v by (intro exI [of _ "[]"]) (simp add: dp_view_def)
  next
    case 2
    then show ?thesis using v by (intro exI [of _ "[RCallback a]"]) (simp add: dp_view_def is_handle_def)
  qed
qed

lemma inv_recv_signal:
  assumes inv: "order_inv owner s" and ch: "os_chan s = CSignal g # rest"
    and h: "handle_signal env g (os_dp s, (os_lc s)\<lparr>lc_channel := rest\<rparr>) = (dp, lc)"
  shows "order_inv owner (s\<lparr>os_dp := dp, os_lc := lc\<rparr>)"
proof -
  from handle_signal_effect [OF h] obtain xs where
    e: "lc_view lc = lc_view ((os_lc s)\<lparr>lc_channel := rest\<rparr>)" "filter is_handle xs = []"
      "dp_view dp = (os_held s @ xs, dp_channel_handles (os_dp s), os_active s, dp_finished (os_dp s), dp_shutting_down (os_dp s))"
    by auto
  show ?thesis
    by (rule inv_held [OF inv, where xs = xs])
       (use e ch in \<open>auto simp: dp_view_def lc_view_def chan_handles_Cons run_cmds_Cons is_handle_command_def\<close>)
qed

lemma inv_recv_close:
  assumes inv: "order_inv owner s" and ch: "os_chan s = Close # rest"
    and h: "handle_command env keys Close (os_dp s, (os_lc s)\<lparr>lc_channel := rest\<rparr>) = (b, dp, lc)"
  shows "order_inv owner (s\<lparr>os_dp := dp, os_lc := lc\<rparr>)"
proof -
  have "os_active s = None" using inv ch by (auto simp: order_inv_def phase_ok_def)
  then have f: "finish_run (os_dp s, (os_lc s)\<lparr>lc_channel := rest\<rparr>) = (os_dp s, (os_lc s)\<lparr>lc_channel := rest\<rparr>)"
    by (simp add: finish_run_def)
  obtain dp1 lc1 where c: "cleanup_watchers env keys (os_dp s, (os_lc s)\<lparr>lc_channel := rest\<rparr>) = (dp1, lc1)" by force
  have v: "dp_view dp1 = dp_view (os_dp s)" "lc_view lc1 = lc_view ((os_lc s)\<lparr>lc_channel := rest\<rparr>)"
    using cleanup_watchers_view [of env keys "(os_dp s, (os_lc s)\<lparr>lc_channel := rest\<rparr>)"] c by (simp_all add: same_view_def)
  have d: "dp = dp1\<lparr>dp_shutting_down := True\<rparr>" "lc = lc1" using h f c by (simp_all add: handle_command_def)
  show ?thesis
    by (rule inv_held [OF inv, where xs = "[]"])
       (use v d ch in \<open>auto simp: dp_view_def lc_view_def chan_handles_Cons run_cmds_Cons is_handle_command_def\<close>)
qed

lemma sched_inv_extend:
  assumes "sched_inv sc" "m \<le> sc_enqueues sc"
  shows "sched_inv (sc\<lparr>sc_pending := pr_extend xs m (sc_pending sc), sc_wake := True\<rparr>)"
proof -
  have wf: "pr_wf (sc_pending sc)" using assms(1) by (simp add: sched_inv_def)
  show ?thesis using pr_extend_view [OF wf, of xs m] assms by (auto simp: sched_inv_def)
qed

lemma forward_effect:
  assumes "dp_active_run dp = Some (lc_queue lc)" "forward_ready_batch m (dp, lc) = (dp', lc')"
  shows "dp_ready_batch dp' = []" "dp_active_run dp' = Some (lc_queue lc)" "dp_finished dp' = dp_finished dp"
    "pr_items (sc_pending (lc_sched lc')) = pr_items (sc_pending (lc_sched lc)) @ dp_ready_batch dp"
    "sc_local (lc_sched lc') = sc_local (lc_sched lc)" "sc_dispatch (lc_sched lc') = sc_dispatch (lc_sched lc)"
    "sc_enqueues (lc_sched lc') = sc_enqueues (lc_sched lc)"
    "lc_queue lc' = lc_queue lc" "lc_channel lc' = lc_channel lc" "lc_state lc' = lc_state lc"
    "lc_tls_core lc' = lc_tls_core lc" "lc_tls_ready lc' = lc_tls_ready lc"
    "dp_channel_handles dp \<le> length (filter is_handle (dp_ready_batch dp)) \<Longrightarrow> dp_channel_handles dp' = 0
       \<and> lc_channel_handles lc' = lc_channel_handles lc - dp_channel_handles dp"
    "sched_inv (lc_sched lc) \<Longrightarrow> m \<le> sc_enqueues (lc_sched lc) \<Longrightarrow> sched_inv (lc_sched lc')"
proof -
  have ext: "pr_items (pr_extend xs k p) = pr_items p @ xs" for xs :: "ready_item list" and k p
    by (simp add: pr_extend_def pr_mark_def Let_def)
  consider (nil) "dp_ready_batch dp = []" "dp' = dp" "lc' = lc"
    | (fwd) "dp_ready_batch dp \<noteq> []" "dp' = dp\<lparr>dp_ready_batch := [], dp_channel_handles := 0\<rparr>"
        "lc' = lc\<lparr>lc_sched := (lc_sched lc)\<lparr>sc_pending := pr_extend (dp_ready_batch dp) m (sc_pending (lc_sched lc)), sc_wake := True\<rparr>,
           lc_channel_handles := lc_channel_handles lc - dp_channel_handles dp\<rparr>"
    using assms
    by (cases "dp_ready_batch dp = []")
       (auto simp: forward_ready_batch_def run_queue_def set_run_queue_def signal_ready_def channel_handles_forwarded_def Let_def)
  note cs = this
  show "dp_ready_batch dp' = []" "dp_active_run dp' = Some (lc_queue lc)" "dp_finished dp' = dp_finished dp"
    "pr_items (sc_pending (lc_sched lc')) = pr_items (sc_pending (lc_sched lc)) @ dp_ready_batch dp"
    "sc_local (lc_sched lc') = sc_local (lc_sched lc)" "sc_dispatch (lc_sched lc') = sc_dispatch (lc_sched lc)"
    "sc_enqueues (lc_sched lc') = sc_enqueues (lc_sched lc)"
    "lc_queue lc' = lc_queue lc" "lc_channel lc' = lc_channel lc" "lc_state lc' = lc_state lc"
    "lc_tls_core lc' = lc_tls_core lc" "lc_tls_ready lc' = lc_tls_ready lc"
    using cs assms(1) by (cases; simp add: ext)+
  show "dp_channel_handles dp \<le> length (filter is_handle (dp_ready_batch dp)) \<Longrightarrow> dp_channel_handles dp' = 0
       \<and> lc_channel_handles lc' = lc_channel_handles lc - dp_channel_handles dp"
    using cs by cases simp_all
  show "sched_inv (lc_sched lc')" if "sched_inv (lc_sched lc)" "m \<le> sc_enqueues (lc_sched lc)"
    using cs that sched_inv_extend by cases simp_all
qed

text \<open>Forwarding to the entered queue; \<open>s\<close> is the state before the dispatcher held anything back.\<close>

lemma inv_forward:
  assumes inv: "order_inv owner s"
    and same: "os_prod t = os_prod s" "os_sched t = os_sched s" "os_ran t = os_ran s" "os_batch t = os_batch s"
    and ent: "entered t" and held: "os_held t = []" "os_pend t = os_pend s @ os_held s"
    and cnt: "dp_channel_handles (os_dp t) = 0"
      "lc_channel_handles (os_lc t) = lc_channel_handles (os_lc s) - dp_channel_handles (os_dp s)"
      "chan_handles (os_chan t) = chan_handles (os_chan s)"
    and ph: "phase_ok owner t"
  shows "order_inv owner t"
proof -
  have "pipeline t = pipeline s" by (simp add: pipeline_def same held cnt)
  then have "pipe_ok owner t" using inv by (simp add: order_inv_def pipe_ok_def same)
  moreover have "count_ok t" using inv by (simp add: order_inv_def count_ok_def same cnt)
  moreover have "held_ok t" "try_ok owner t" "owner_ok owner t"
    using inv by (simp_all add: order_inv_def held_ok_def try_ok_def owner_ok_def held cnt same)
  ultimately show ?thesis using ph by (simp add: order_inv_def)
qed

lemma inv_dispatch:
  assumes inv: "order_inv owner s" and d: "dispatch_if_ready (os_dp s, os_lc s) = (dp, lc)"
  shows "order_inv owner (s\<lparr>os_dp := dp, os_lc := lc\<rparr>)" (is "order_inv owner ?t")
proof (cases "os_active s \<noteq> None \<and> has_ready (os_dp s)")
  case False
  then have "dp = os_dp s" "lc = os_lc s" using d by (auto simp: dispatch_if_ready_def split: if_splits)
  then show ?thesis using inv by simp
next
  case True
  have ph: "phase_ok owner s" and ho: "held_ok s" using inv by (simp_all add: order_inv_def)
  have act: "os_active s = Some (lc_queue (os_lc s))"
    using True ph by (auto simp: phase_ok_def enter_pending_def enter_done_def split: run_phase.splits)
  have f: "forward_ready_batch (sc_enqueues (os_sc s)) (os_dp s, os_lc s) = (dp, lc)"
    using d True by (simp add: dispatch_if_ready_def dispatch_ready_batch_def local_enqueue_mark_def)
  note e = forward_effect [OF act f]
  have "dp_channel_handles (os_dp s) \<le> length (filter is_handle (os_held s))" using ho by (simp add: held_ok_def)
  note c = e(13) [OF this]
  show ?thesis
  proof (rule inv_forward [OF inv])
    have "running_ok owner ?t" if "os_phase s = Running"
      using phase_ok_running [OF ph that] e by (simp add: running_ok_def)
    then show "phase_ok owner ?t"
      using ph act e unfolding phase_ok_def enter_pending_def enter_done_def
      by (cases "os_phase s") auto
  qed (use e c act in \<open>simp_all add: entered_def\<close>)
qed

lemma inv_recv_enter:
  assumes inv: "order_inv owner s" and ch: "os_chan s = CRun (EnterRun q m) # rest"
    and h: "handle_command env keys (CRun (EnterRun q m)) (os_dp s, (os_lc s)\<lparr>lc_channel := rest\<rparr>) = (b, dp, lc)"
  shows "order_inv owner (s\<lparr>os_dp := dp, os_lc := lc\<rparr>)" (is "order_inv owner ?t")
proof -
  have ph: "phase_ok owner s" and ho: "held_ok s" using inv by (simp_all add: order_inv_def)
  have rc: "run_cmds (os_chan s) = EnterRun q m # run_cmds rest" by (simp add: ch run_cmds_Cons)
  have q: "q = lc_queue (os_lc s)" "m \<le> sc_enqueues (os_sc s)" "os_active s = None" "os_phase s \<noteq> Stopped"
    using ph rc by (auto simp: phase_ok_def enter_pending_def enter_done_def split: run_phase.splits)
  let ?dp = "(os_dp s)\<lparr>dp_active_run := Some q\<rparr>" and ?lc = "(os_lc s)\<lparr>lc_channel := rest\<rparr>"
  obtain dp1 lc1 where f: "forward_ready_batch m (?dp, ?lc) = (dp1, lc1)" by force
  have act: "dp_active_run ?dp = Some (lc_queue ?lc)" using q by simp
  note e = forward_effect [OF act f]
  have d: "dp = dp1" "lc = lc_activate_ready_dispatch q lc1" using h f by (simp_all add: handle_command_def)
  have sc: "lc_sched lc = (lc_sched lc1)\<lparr>sc_dispatch := (if sc_dispatch (os_sc s) = None then None else Some True)\<rparr>"
    using e(6,8) q by (cases "sc_dispatch (lc_sched lc1)") (auto simp: d lc_activate_ready_dispatch_def activate_ready_dispatch_def)
  have lc: "lc_queue lc = q" "lc_channel lc = rest" "lc_state lc = lc_state (os_lc s)" "lc_tls_core lc = lc_tls_core (os_lc s)"
    "lc_tls_ready lc = lc_tls_ready (os_lc s)" "lc_channel_handles lc = lc_channel_handles lc1"
    using e q by (simp_all add: d lc_activate_ready_dispatch_def)
  have "dp_channel_handles ?dp \<le> length (filter is_handle (dp_ready_batch ?dp))" using ho by (simp add: held_ok_def)
  note c = e(13) [OF this]
  show ?thesis
  proof (rule inv_forward [OF inv])
    have "running_ok owner ?t" if "os_phase s = Running"
      using phase_ok_running [OF ph that] e(5,14) q lc sc by (simp add: running_ok_def)
    then show "phase_ok owner ?t"
      using ph q e(2,3) lc sc rc ch d unfolding phase_ok_def enter_pending_def enter_done_def
      by (cases "os_phase s") auto
  qed (use e c d lc sc q ch in \<open>simp_all add: entered_def chan_handles_Cons is_handle_command_def\<close>)
qed

lemma inv_recv_finish:
  assumes inv: "order_inv owner s" and ch: "os_chan s = CRun (FinishRun d) # rest"
    and h: "handle_command env keys (CRun (FinishRun d)) (os_dp s, (os_lc s)\<lparr>lc_channel := rest\<rparr>) = (b, dp, lc)"
  shows "order_inv owner (s\<lparr>os_dp := dp, os_lc := lc\<rparr>)" (is "order_inv owner ?t")
proof -
  have ph: "phase_ok owner s" using inv by (simp add: order_inv_def)
  have rc: "run_cmds (os_chan s) = FinishRun d # run_cmds rest" by (simp add: ch run_cmds_Cons)
  have q: "os_phase s = Finishing d" "os_active s = Some (lc_queue (os_lc s))" "run_cmds rest = []" "os_batch s = []"
    "sc_dispatch (os_sc s) = None"
    using ph rc by (auto simp: phase_ok_def enter_pending_def enter_done_def split: run_phase.splits)
  have v: "os_held ?t = os_pend s @ os_held s" "os_pend ?t = []" "os_active ?t = None" "os_chan ?t = rest"
    "dp_finished dp = dp_finished (os_dp s) @ [d]" "dp_channel_handles dp = dp_channel_handles (os_dp s)"
    "lc_channel_handles lc = lc_channel_handles (os_lc s)" "lc_queue lc = lc_queue (os_lc s)"
    "ls_closed (lc_ls lc) = ls_closed (lc_ls (os_lc s))" "sc_dispatch (lc_sched lc) = None"
    using h q by (auto simp: handle_command_def finish_run_def pr_take_items_def run_queue_def set_run_queue_def)
  have chh: "chan_handles (os_chan s) = chan_handles rest" by (simp add: ch chan_handles_Cons is_handle_command_def)
  have "pipeline ?t = pipeline s"
    using v q chh by (simp add: pipeline_def)
  then have "pipe_ok owner ?t" using inv by (simp add: order_inv_def pipe_ok_def)
  moreover have "count_ok ?t" "owner_ok owner ?t"
    using inv v chh by (simp_all add: order_inv_def count_ok_def owner_ok_def)
  moreover have "held_ok ?t" "try_ok owner ?t"
    using inv v chh by (auto simp: order_inv_def held_ok_def try_ok_def entered_def)
  moreover have "phase_ok owner ?t"
    using ph q v ch by (auto simp: phase_ok_def)
  ultimately show ?thesis by (simp add: order_inv_def)
qed

lemma command_cases:
  obtains "plain_command c" | q m where "c = CRun (EnterRun q m)" | d where "c = CRun (FinishRun d)"
    | g where "c = CSignal g" | "c = Close"
proof (cases c)
  case (CRun r)
  then show thesis using that(2,3) by (cases r) simp_all
next
  case (CSignal g)
  then show thesis by (rule that(4))
next
  case Close
  then show thesis by (rule that(5))
qed (rule that(1), simp add: plain_command_def item_of_command_def
  split: loop_future_command.split loop_transport_command.split)+

lemma inv_recv:
  assumes inv: "order_inv owner s" and ch: "os_chan s = c # rest"
    and h: "handle_command env keys c (os_dp s, (os_lc s)\<lparr>lc_channel := rest\<rparr>) = (b, dp, lc)"
  shows "order_inv owner (s\<lparr>os_dp := dp, os_lc := lc\<rparr>)"
proof -
  consider "plain_command c" | q m where "c = CRun (EnterRun q m)" | d where "c = CRun (FinishRun d)"
    | g where "c = CSignal g" | "c = Close"
    by (rule command_cases [of c])
  then show ?thesis
  proof cases
    case 1
    then show ?thesis using inv_recv_plain [OF inv ch _ h] by simp
  next
    case 2
    then show ?thesis using inv_recv_enter [OF inv] ch h by blast
  next
    case 3
    then show ?thesis using inv_recv_finish [OF inv] ch h by blast
  next
    case 4
    then show ?thesis using inv_recv_signal [OF inv, of g rest env dp lc] ch h by (simp add: handle_command_def)
  next
    case 5
    then show ?thesis using inv_recv_close [OF inv] ch h by blast
  qed
qed

subsection \<open>Starting and ending runs keeps it\<close>

lemma inv_begin:
  assumes inv: "order_inv owner s" and "os_phase s = Stopped" "run_forever_begin True (os_lc s) = Some (Inr (), lc)"
  shows "order_inv owner (s\<lparr>os_lc := lc, os_phase := Running\<rparr>)" (is "order_inv owner ?t")
proof -
  have ph: "phase_ok owner s" using inv by (simp add: order_inv_def)
  have st: "os_active s = None" "run_cmds (os_chan s) = []" "os_pend s = []" "os_batch s = []"
    "Close \<in> set (os_chan s) \<longrightarrow> ls_closed (lc_ls (os_lc s))"
    using ph assms(2) by (simp_all add: phase_ok_def)
  note e = run_forever_begin_effect [OF assms(3)]
  have ch: "chan_handles (os_chan ?t) = chan_handles (os_chan s)"
    using e(4) by (simp add: chan_handles_Cons is_handle_command_def)
  have "pipeline ?t = pipeline s" using e(1) ch st by (simp add: pipeline_def pr_default_def)
  then have "pipe_ok owner ?t" using inv by (simp add: order_inv_def pipe_ok_def)
  moreover have "count_ok ?t" "owner_ok owner ?t"
    using inv e(3) ch by (simp_all add: order_inv_def count_ok_def owner_ok_def)
  moreover have "held_ok ?t" "try_ok owner ?t"
    using inv st ch by (auto simp: order_inv_def held_ok_def try_ok_def entered_def)
  moreover have "running_ok owner ?t"
    using e by (simp add: running_ok_def sched_inv_def pr_default_def pr_wf_def pr_view_def)
  then have "phase_ok owner ?t"
    using st e by (auto simp: phase_ok_def enter_pending_def run_cmds_Cons)
  ultimately show ?thesis by (simp add: order_inv_def)
qed

lemma inv_leave:
  assumes inv: "order_inv owner s" and "os_phase s = Running"
    and p: "preserve_leftover (os_batch s) (leave_run (os_lc s)) = Some lc"
  shows "order_inv owner (s\<lparr>os_lc := lc, os_batch := [], os_phase := Leftover\<rparr>)" (is "order_inv owner ?t")
proof -
  have ph: "phase_ok owner s" using inv by (simp add: order_inv_def)
  note run = phase_ok_running [OF ph assms(2)]
  have si: "sched_inv (os_sc s)" using run by (simp add: running_ok_def)
  have "sched_inv (lc_sched (leave_run (os_lc s)))" using si by (simp add: leave_run_effect)
  note e = preserve_leftover_effect [OF this p]
  have "filter (own owner q) (sched_order (os_sc s)) = filter (own owner q) (os_pend s)" if "q \<noteq> 0" for q
    by (rule filter_sched_order [OF si]) (use run that in \<open>auto simp: running_ok_def\<close>)
  then have "filter (own owner q) (pipeline ?t) = filter (own owner q) (pipeline s)" if "q \<noteq> 0" for q
    using that e by (simp add: pipeline_def leave_run_effect)
  then have "pipe_ok owner ?t" using inv by (simp add: order_inv_def pipe_ok_def)
  moreover have "phase_ok owner ?t"
    using ph assms(2) e by (auto simp: phase_ok_def leave_run_effect enter_pending_def enter_done_def)
  ultimately show ?thesis
    using inv e by (simp add: order_inv_def owner_ok_def count_ok_def held_ok_def try_ok_def entered_def leave_run_effect)
qed

lemma inv_retire:
  assumes inv: "order_inv owner s" and "os_phase s = Leftover"
  shows "order_inv owner (s\<lparr>os_lc := retire_dispatch (os_lc s), os_phase := Retired\<rparr>)" (is "order_inv owner ?t")
proof (rule inv_env [OF inv])
  show "phase_ok owner ?t"
    using inv assms(2) by (auto simp: order_inv_def phase_ok_def retire_dispatch_def enter_pending_def enter_done_def)
qed (simp_all add: retire_dispatch_def)

lemma inv_finish:
  assumes inv: "order_inv owner s" and "os_phase s = Retired" "d \<notin> set (dp_finished (os_dp s))"
    and snd: "send_command True (CRun (FinishRun d)) (os_lc s) = Some (Inr (), lc)"
  shows "order_inv owner (s\<lparr>os_lc := lc, os_phase := Finishing d\<rparr>)" (is "order_inv owner ?t")
proof -
  have "send_remote_command (CRun (FinishRun d)) (os_lc s) = (Inr (), lc)" using snd by simp
  note e = send_remote_effect [OF this]
  have op: "lc_channel_open (os_lc s)" using e(8) by (auto split: if_splits)
  show ?thesis
  proof (rule inv_env [OF inv])
    show "phase_ok owner ?t"
      using inv assms(2,3) e op by (auto simp: order_inv_def phase_ok_def enter_pending_def enter_done_def run_cmds_Cons)
  qed (use e op in \<open>simp_all add: chan_handles_Cons is_handle_command_def\<close>)
qed

lemma inv_acknowledged:
  assumes inv: "order_inv owner s" and "os_phase s = Finishing d" "d \<in> set (dp_finished (os_dp s))"
  shows "order_inv owner (s\<lparr>os_phase := Stopped\<rparr>)" (is "order_inv owner ?t")
proof (rule inv_env [OF inv])
  show "phase_ok owner ?t" using inv assms(2,3) by (auto simp: order_inv_def phase_ok_def)
qed simp_all

lemma inv_close:
  assumes inv: "order_inv owner s" and "os_phase s = Stopped" "loop_close True io fd joined (os_lc s) = Some (r, lc)"
  shows "order_inv owner (s\<lparr>os_lc := lc\<rparr>)" (is "order_inv owner ?t")
proof (cases "lc = os_lc s")
  case True
  then show ?thesis using inv by simp
next
  case False
  note e = loop_close_effect [OF assms(3)]
  have c: "ls_closed (lc_ls lc)" "lc_channel lc = os_chan s \<or> lc_channel lc = os_chan s @ [Close]" using e(4) False by auto
  then have ch: "chan_handles (lc_channel lc) = chan_handles (os_chan s)" "run_cmds (lc_channel lc) = run_cmds (os_chan s)"
    by (auto simp: chan_handles_Cons run_cmds_Cons is_handle_command_def)
  show ?thesis
  proof (rule inv_env [OF inv])
    show "phase_ok owner ?t" using inv assms(2) e c ch by (simp add: order_inv_def phase_ok_def)
  qed (use e ch in simp_all)
qed

lemma order_inv_init: "order_init s \<Longrightarrow> order_inv owner s"
  by (simp add: order_init_def order_inv_defs phase_ok_def lc_new_def dp_new_def pipeline_def entered_def senders_def
      pr_default_def sm_new_def loop_state_new_def)

lemma order_inv_step: "order_inv owner s \<Longrightarrow> order_step owner s t \<Longrightarrow> order_inv owner t"
proof (erule order_step.cases, goal_cases)
  case (8 thr g)
  then show ?case using inv_remote [of owner s "CSignal g"] by (simp add: is_handle_command_def)
qed (blast intro: inv_call inv_try inv_count inv_send inv_send_fails inv_call_soon inv_command inv_timers_due
  inv_drain_flag inv_recv inv_dispatch inv_begin inv_generation inv_execute inv_leave inv_retire inv_finish
  inv_acknowledged inv_close)+

interpretation handle_order: transition_system order_init "order_step owner" "order_inv owner" for owner
  by unfold_locales (erule order_inv_init, erule (1) order_inv_step)

subsection \<open>Properties\<close>

text \<open>C8. Handles scheduled from one thread other than the loop's run in the order they were scheduled,
  under every interleaving with other producers, the dispatcher, the loop thread, and the starts and
  ends of runs: what the thread has scheduled is, in order, what has run, what the loop has taken, what
  is in the run's queue, what the dispatcher holds, what is on the channel, and the call in progress.
  So no handle is lost, run twice or overtaken by a later one, although a call may bypass the channel
  after looking at a counter without a lock.\<close>

theorem off_loop_handles_fifo:
  assumes "order_init s0" "(order_step owner)\<^sup>*\<^sup>* s0 s" "p \<noteq> 0"
  shows "map RHandleCallback (os_sched s p)
    = filter (own owner p) (os_ran s @ os_batch s @ pr_items (sc_pending (lc_sched (os_lc s)))
        @ dp_ready_batch (os_dp s) @ chan_handles (lc_channel (os_lc s)))
      @ in_flight (os_prod s p)"
  using handle_order.inv_reachable [OF assms(1,2)] assms(3)
  by (simp add: order_inv_def pipe_ok_def pipeline_def)

definition demo_order :: order_state where
  "demo_order = \<lparr>os_lc = lc_new, os_dp = dp_new, os_phase = Stopped, os_batch = [], os_ran = [],
     os_prod = (\<lambda>_. PIdle), os_sched = (\<lambda>_. [])\<rparr>"

lemma schedule_handle_new:
  "schedule_ready_handle False h lc_new
    = Some (Inr (), lc_new\<lparr>lc_channel := [ScheduleReadyHandle h], lc_channel_handles := 1\<rparr>)"
  by (simp add: schedule_ready_handle_def try_enqueue_local_ready_def try_enqueue_active_ready_def on_runtime_thread_def
      send_remote_command_def lc_new_def)

theorem off_loop_handles_fifo_witness:
  "\<exists>s. (order_step (\<lambda>_. 1))\<^sup>*\<^sup>* demo_order s \<and> os_sched s 1 = [5]
    \<and> [RHandleCallback 5] = filter (own (\<lambda>_. 1) 1) (os_ran s @ os_batch s @ pr_items (sc_pending (lc_sched (os_lc s)))
        @ dp_ready_batch (os_dp s) @ chan_handles (lc_channel (os_lc s))) @ in_flight (os_prod s 1)"
proof -
  have init: "order_init demo_order" by (simp add: order_init_def demo_order_def)
  from producer_steps_are_schedule_ready_handle [of demo_order 1 "\<lambda>_. 1" 5] schedule_handle_new [of 5]
  obtain s where run: "(order_step (\<lambda>_. 1))\<^sup>*\<^sup>* demo_order s" and sc: "os_sched s 1 = [5]"
    by (auto simp: demo_order_def)
  from off_loop_handles_fifo [OF init run, of 1] sc run show ?thesis by (intro exI [of _ s]) simp
qed


end
