(* ===== verification/Loop_Wake.thy ===== *)
theory Loop_Wake
  imports Prelude
begin

section \<open>Waking the parked loop thread (engine/loop_core.rs)\<close>

text \<open>
  \<open>LoopWake\<close> (a flag and a waker slot), \<open>signal\<close> and the future \<open>WaitForWake\<close> the loop thread parks on.
  The atomic accesses of both sides are separate functions; \<open>wake_step\<close> interleaves them with producers
  that push an item under the queue's lock and then signal, and with the drain, which takes the items
  and clears the flag while it holds that lock. The waker slot is \<open>AtomicWaker\<close>: registering replaces
  the waker, waking takes it and notifies its task.
\<close>

record loop_wake =
  lw_pending :: bool
  lw_waker :: bool

definition lw_new :: loop_wake where
  "lw_new = \<lparr>lw_pending = False, lw_waker = False\<rparr>"

definition lw_swap :: "loop_wake \<Rightarrow> bool \<times> loop_wake" where
  "lw_swap w = (lw_pending w, w\<lparr>lw_pending := True\<rparr>)"

text \<open>\<open>AtomicWaker::wake\<close>: whether a task was notified.\<close>

definition lw_wake :: "loop_wake \<Rightarrow> bool \<times> loop_wake" where
  "lw_wake w = (lw_waker w, w\<lparr>lw_waker := False\<rparr>)"

definition lw_signal :: "loop_wake \<Rightarrow> bool \<times> loop_wake" where
  "lw_signal w = (let (old, w1) = lw_swap w in if \<not> old then lw_wake w1 else (False, w1))"

definition lw_register :: "loop_wake \<Rightarrow> loop_wake" where
  "lw_register w = w\<lparr>lw_waker := True\<rparr>"

text \<open>\<open>WaitForWake::poll\<close>: \<open>True\<close> is \<open>Ready\<close>.\<close>

definition wait_for_wake_poll :: "loop_wake \<Rightarrow> bool \<times> loop_wake" where
  "wait_for_wake_poll w =
     (if lw_pending w then (True, w)
      else let w1 = lw_register w in (lw_pending w1, w1))"

datatype loop_pc = Draining | Clearing | Check1 | Registering | Check2 | Parked

record wake_state =
  wk_wake :: loop_wake
  wk_pc :: loop_pc
  wk_items :: nat
  wk_notified :: bool
  wk_pushed :: nat
  wk_waking :: nat

definition wake_init :: "wake_state \<Rightarrow> bool" where
  "wake_init s \<longleftrightarrow> s = \<lparr>wk_wake = lw_new, wk_pc = Draining, wk_items = 0, wk_notified = False, wk_pushed = 0, wk_waking = 0\<rparr>"

inductive wake_step :: "wake_state \<Rightarrow> wake_state \<Rightarrow> bool" where
  push: "wk_pc s \<noteq> Clearing \<Longrightarrow> wake_step s (s\<lparr>wk_items := Suc (wk_items s), wk_pushed := Suc (wk_pushed s)\<rparr>)"
| swap: "wk_pushed s = Suc n \<Longrightarrow> lw_swap (wk_wake s) = (old, w)
    \<Longrightarrow> wake_step s (s\<lparr>wk_pushed := n, wk_wake := w, wk_waking := wk_waking s + of_bool (\<not> old)\<rparr>)"
| wake: "wk_waking s = Suc n \<Longrightarrow> lw_wake (wk_wake s) = (b, w)
    \<Longrightarrow> wake_step s (s\<lparr>wk_waking := n, wk_wake := w, wk_notified := wk_notified s \<or> b\<rparr>)"
| take: "wk_pc s = Draining \<Longrightarrow> lw_pending (wk_wake s) \<Longrightarrow> wake_step s (s\<lparr>wk_pc := Clearing, wk_items := 0\<rparr>)"
| clear: "wk_pc s = Clearing
    \<Longrightarrow> wake_step s (s\<lparr>wk_pc := Draining, wk_wake := (wk_wake s)\<lparr>lw_pending := False\<rparr>\<rparr>)"
| wait: "wk_pc s = Draining \<Longrightarrow> wake_step s (s\<lparr>wk_pc := Check1\<rparr>)"
| check1: "wk_pc s = Check1
    \<Longrightarrow> wake_step s (s\<lparr>wk_pc := (if lw_pending (wk_wake s) then Draining else Registering)\<rparr>)"
| register: "wk_pc s = Registering \<Longrightarrow> wake_step s (s\<lparr>wk_pc := Check2, wk_wake := lw_register (wk_wake s)\<rparr>)"
| check2: "wk_pc s = Check2
    \<Longrightarrow> wake_step s (s\<lparr>wk_pc := (if lw_pending (wk_wake s) then Draining else Parked)\<rparr>)"
| unpark: "wk_pc s = Parked \<Longrightarrow> wk_notified s \<Longrightarrow> wake_step s (s\<lparr>wk_pc := Check1, wk_notified := False\<rparr>)"
| deadline: "wk_pc s = Parked \<Longrightarrow> wake_step s (s\<lparr>wk_pc := Draining\<rparr>)"

lemma poll_is_checks:
  assumes "wk_pc s = Check1"
  shows "\<exists>t. wake_step\<^sup>*\<^sup>* s t \<and> wk_wake t = snd (wait_for_wake_poll (wk_wake s))
    \<and> wk_pc t = (if fst (wait_for_wake_poll (wk_wake s)) then Draining else Parked)"
proof (cases "lw_pending (wk_wake s)")
  case True
  then show ?thesis
    using wake_step.check1 [OF assms] by (intro exI [of _ "s\<lparr>wk_pc := Draining\<rparr>"]) (simp add: wait_for_wake_poll_def r_into_rtranclp)
next
  case False
  let ?s1 = "s\<lparr>wk_pc := Registering\<rparr>"
  let ?s2 = "?s1\<lparr>wk_pc := Check2, wk_wake := lw_register (wk_wake s)\<rparr>"
  have 1: "wake_step s ?s1" using wake_step.check1 [OF assms] False by simp
  have 2: "wake_step ?s1 ?s2" using wake_step.register [of ?s1] by simp
  have 3: "wake_step ?s2 (?s2\<lparr>wk_pc := Parked\<rparr>)" using wake_step.check2 [of ?s2] False by (simp add: lw_register_def)
  have "wake_step\<^sup>*\<^sup>* s (?s2\<lparr>wk_pc := Parked\<rparr>)" using 1 2 3 by (meson r_into_rtranclp rtranclp_trans)
  then show ?thesis
    using False by (intro exI [of _ "?s2\<lparr>wk_pc := Parked\<rparr>"]) (simp add: wait_for_wake_poll_def lw_register_def)
qed

definition wake_inv :: "wake_state \<Rightarrow> bool" where
  "wake_inv s \<longleftrightarrow> (0 < wk_items s \<longrightarrow> lw_pending (wk_wake s) \<or> 0 < wk_pushed s)
     \<and> (wk_pc s = Clearing \<longrightarrow> wk_items s = 0)
     \<and> (wk_pc s \<in> {Check2, Parked} \<longrightarrow> lw_waker (wk_wake s) \<or> wk_notified s)
     \<and> (wk_pc s = Parked \<and> lw_pending (wk_wake s) \<longrightarrow> wk_notified s \<or> 0 < wk_waking s)"

lemma wake_inv_init: "wake_init s \<Longrightarrow> wake_inv s"
  by (simp add: wake_init_def wake_inv_def)

lemma wake_inv_step: "wake_inv s \<Longrightarrow> wake_step s t \<Longrightarrow> wake_inv t"
  by (erule wake_step.cases) (auto simp: wake_inv_def lw_swap_def lw_wake_def lw_register_def)

interpretation loop_wake: transition_system wake_init wake_step wake_inv
  by unfold_locales (erule wake_inv_init, erule (1) wake_inv_step)

subsection \<open>Properties\<close>



end
