(* ===== verification/Loop_Run.thy ===== *)
theory Loop_Run
  imports Dispatcher
begin

section \<open>Running the loop (engine/loop_core.rs, errors.rs)\<close>

text \<open>
  The body of \<open>run_forever\<close>: executing ready items, the drain of one turn, parking, and the error paths.
  What Python code does is given by \<open>run_env\<close>, as functions on the loop state (a callback may schedule
  anything): invoking a callback, the exception handlers, the methods of futures, draining transports
  and processes, and the operating-system calls. An \<open>'e\<close> is a Python exception.
\<close>

record 'e run_env =
  re_invoke :: "nat ready_callback \<Rightarrow> loop_core \<Rightarrow> ('e + unit) \<times> loop_core"
  re_is_exception :: "'e \<Rightarrow> bool"
  re_custom_handler :: "nat \<Rightarrow> 'e \<Rightarrow> loop_core \<Rightarrow> 'e option \<times> loop_core"
  re_default_handler :: "'e \<Rightarrow> loop_core \<Rightarrow> 'e option \<times> loop_core"
  re_done :: "nat \<Rightarrow> loop_core \<Rightarrow> ('e + bool) \<times> loop_core"
  re_set_result :: "nat \<Rightarrow> nat option \<Rightarrow> loop_core \<Rightarrow> 'e option \<times> loop_core"
  re_set_exception :: "nat \<Rightarrow> nat + int \<Rightarrow> loop_core \<Rightarrow> 'e option \<times> loop_core"
  re_stream_read :: "nat \<Rightarrow> loop_core \<Rightarrow> 'e option \<times> loop_core"
  re_stream_write :: "nat \<Rightarrow> loop_core \<Rightarrow> loop_core"
  re_process :: "nat \<Rightarrow> loop_core \<Rightarrow> 'e option \<times> loop_core"
  re_server_closed :: "nat \<Rightarrow> loop_core \<Rightarrow> bool"
  re_accepted :: "nat \<Rightarrow> nat \<Rightarrow> loop_core \<Rightarrow> 'e option \<times> loop_core"
  re_report :: "nat \<Rightarrow> 'e \<Rightarrow> loop_core \<Rightarrow> loop_core"
  re_so_error :: "int \<Rightarrow> loop_core \<Rightarrow> int + int"
  re_work :: "nat \<Rightarrow> loop_core \<Rightarrow> 'e option \<times> loop_core"
  re_check_signals :: "loop_core \<Rightarrow> 'e option \<times> loop_core"
  re_now :: "loop_core \<Rightarrow> instant"
  re_poll :: "loop_core \<Rightarrow> loop_core"
  re_spin :: "instant \<Rightarrow> loop_core \<Rightarrow> bool"
  re_park :: "instant \<Rightarrow> loop_core \<Rightarrow> loop_core"

subsection \<open>Executing one callback\<close>

definition call_exception_handler :: "'e run_env \<Rightarrow> 'e \<Rightarrow> loop_core \<Rightarrow> 'e option \<times> loop_core" where
  "call_exception_handler env err lc =
     (case ls_exception_handler (lc_ls lc) of
        Some handler \<Rightarrow> re_custom_handler env handler err lc
      | None \<Rightarrow> re_default_handler env err lc)"

definition handle_callback_error :: "'e run_env \<Rightarrow> 'e \<Rightarrow> loop_core \<Rightarrow> ('e + 'e option) \<times> loop_core" where
  "handle_callback_error env err lc =
     (if re_is_exception env err then
        (case call_exception_handler env err lc of
           (Some e, lc1) \<Rightarrow> (Inl e, lc1)
         | (None, lc1) \<Rightarrow> (Inr None, lc1))
      else (Inr (Some err), lc))"

definition execute_ready :: "'e run_env \<Rightarrow> nat ready_callback \<Rightarrow> loop_core \<Rightarrow> ('e + 'e option) \<times> loop_core" where
  "execute_ready env ready lc =
     (if rc_cancelled ready then (Inr None, lc)
      else
        case re_invoke env ready lc of
          (Inr _, lc1) \<Rightarrow> (Inr None, lc1)
        | (Inl err, lc1) \<Rightarrow> handle_callback_error env err lc1)"

subsection \<open>Descriptor watches\<close>

definition start_fd_watch ::
    "bool \<Rightarrow> int \<Rightarrow> bool \<Rightarrow> nat \<Rightarrow> loop_core \<Rightarrow> ((loop_core_error + unit) \<times> loop_core) option" where
  "start_fd_watch thr fd writable callback lc =
     (if on_runtime_thread thr lc \<and> lc_has_runtime lc then
        let (handle, lc1) = spawn_task (FdWait fd writable callback) lc;
            replaced = lc_fd_tasks lc1 (fd, writable)
        in Some (Inr (), cancel_opt replaced (lc1\<lparr>lc_fd_tasks := (lc_fd_tasks lc1)((fd, writable) \<mapsto> handle)\<rparr>))
      else
        let stale = (if thr then lc_fd_tasks lc (fd, writable) else None);
            lc1 = (if thr then cancel_opt stale (lc\<lparr>lc_fd_tasks := (lc_fd_tasks lc)((fd, writable) := None)\<rparr>) else lc)
        in send_command thr (CIo (if writable then StartWriter fd callback else StartReader fd callback)) lc1)"

definition stop_fd_watch :: "bool \<Rightarrow> int \<Rightarrow> bool \<Rightarrow> loop_core \<Rightarrow> ((loop_core_error + unit) \<times> loop_core) option" where
  "stop_fd_watch thr fd writable lc =
     (case (if thr then lc_fd_tasks lc (fd, writable) else None) of
        Some handle \<Rightarrow>
          Some (Inr (), cancel_task handle (lc\<lparr>lc_fd_tasks := (lc_fd_tasks lc)((fd, writable) := None)\<rparr>))
      | None \<Rightarrow> send_command thr (CIo (if writable then StopWriter fd else StopReader fd)) lc)"

definition rearm_fd_watch_if_needed :: "nat \<Rightarrow> loop_core \<Rightarrow> loop_core option" where
  "rearm_fd_watch_if_needed ready lc =
     do {
       rc \<leftarrow> lc_callbacks lc ready;
       k \<leftarrow> kind rc;
       case (case k of Reader fd \<Rightarrow> Some (fd, False) | Writer fd \<Rightarrow> Some (fd, True) | _ \<Rightarrow> None) of
         None \<Rightarrow> Some lc
       | Some (fd, writable) \<Rightarrow>
           let watches = (if writable then ls_writer_keepalive (lc_ls lc) else ls_reader_keepalive (lc_ls lc))
           in (case map_of watches fd of
                 None \<Rightarrow> Some lc
               | Some watch \<Rightarrow>
                   if fw_ready watch = ready then map_option snd (start_fd_watch True fd writable ready lc)
                   else Some lc)
     }"

subsection \<open>Executing one ready item\<close>

abbreviation EINPROGRESS :: int where "EINPROGRESS \<equiv> 115"
abbreviation EALREADY :: int where "EALREADY \<equiv> 114"
abbreviation EWOULDBLOCK :: int where "EWOULDBLOCK \<equiv> 11"
abbreviation EISCONN :: int where "EISCONN \<equiv> 106"

definition is_connect_in_progress_errno :: "int \<Rightarrow> bool" where
  "is_connect_in_progress_errno errno \<longleftrightarrow> errno = EINPROGRESS \<or> errno = EALREADY \<or> errno = EWOULDBLOCK"

definition is_already_connected_errno :: "int \<Rightarrow> bool" where
  "is_already_connected_errno errno \<longleftrightarrow> errno = EISCONN"

text \<open>
  A result \<open>Some (Some e)\<close> is the error \<open>e\<close>, \<open>None\<close> a panic. \<open>re_so_error\<close> gives the pending socket error
  or, when it cannot be read, the error number of that failure (\<open>EBADF\<close> when it has none).
\<close>

definition set_if_pending ::
    "'e run_env \<Rightarrow> nat \<Rightarrow> (loop_core \<Rightarrow> 'e option \<times> loop_core) \<Rightarrow> loop_core \<Rightarrow> 'e option \<times> loop_core" where
  "set_if_pending env future settle lc =
     (case re_done env future lc of
        (Inl e, lc1) \<Rightarrow> (Some e, lc1)
      | (Inr True, lc1) \<Rightarrow> (None, lc1)
      | (Inr False, lc1) \<Rightarrow> settle lc1)"

definition resolve_connect_completed ::
    "'e run_env \<Rightarrow> nat \<Rightarrow> int \<Rightarrow> int \<Rightarrow> loop_core \<Rightarrow> ('e option \<times> loop_core) option" where
  "resolve_connect_completed env future fd wait_errno lc =
     (case re_done env future lc of
        (Inl e, lc1) \<Rightarrow> Some (Some e, lc1)
      | (Inr True, lc1) \<Rightarrow> Some (None, lc1)
      | (Inr False, lc1) \<Rightarrow>
          let so_error = (case re_so_error env fd lc1 of Inl err \<Rightarrow> err | Inr v \<Rightarrow> v);
              errno = (if so_error \<noteq> 0 then so_error else wait_errno)
          in if errno = 0 \<or> is_already_connected_errno errno then Some (re_set_result env future None lc1)
             else if is_connect_in_progress_errno errno
             then map_option (\<lambda>(_, lc2). (None, lc2)) (send_command True (CIo (WatchConnect fd future)) lc1)
             else Some (re_set_exception env future (Inr errno) lc1))"

datatype 'e item_result = Continue | ReadyError 'e | Abort 'e

definition of_ready :: "('e + 'e option) \<times> loop_core \<Rightarrow> 'e item_result \<times> loop_core" where
  "of_ready r =
     (case r of
        (Inl e, lc) \<Rightarrow> (Abort e, lc)
      | (Inr None, lc) \<Rightarrow> (Continue, lc)
      | (Inr (Some e), lc) \<Rightarrow> (ReadyError e, lc))"

definition of_error :: "'e option \<times> loop_core \<Rightarrow> 'e item_result \<times> loop_core" where
  "of_error r = (case r of (Some e, lc) \<Rightarrow> (Abort e, lc) | (None, lc) \<Rightarrow> (Continue, lc))"

text \<open>
  The \<open>match item\<close> of the drain. The second component is the descriptor watch to re-arm afterwards.
\<close>

definition exec_item ::
    "'e run_env \<Rightarrow> ready_item \<Rightarrow> loop_core \<Rightarrow> ('e item_result \<times> nat list \<times> loop_core) option" where
  "exec_item env item lc =
     (case item of
        RStop \<Rightarrow>
          Some (Continue, [], with_state (\<lambda>s. s\<lparr>ls_stopping := True\<rparr>) (lc\<lparr>lc_stop_requested := False\<rparr>))
      | RCallback callback \<Rightarrow> do {
          rc \<leftarrow> lc_callbacks lc callback;
          k \<leftarrow> kind rc;
          let (r, lc1) = of_ready (execute_ready env rc lc);
          Some (r, if (case r of Abort _ \<Rightarrow> False | _ \<Rightarrow> True)
                     \<and> (case k of Reader _ \<Rightarrow> True | Writer _ \<Rightarrow> True | _ \<Rightarrow> False) then [callback] else [], lc1)
        }
      | RHandleCallback handle \<Rightarrow> do {
          rc \<leftarrow> lc_callbacks lc handle;
          let (r, lc1) = of_ready (execute_ready env rc lc);
          Some (r, [], lc1)
        }
      | RTimerCallback timer \<Rightarrow>
          let (owned, store) = timer_take_ready timer (tcore_store (lc_timers lc));
              lc1 = lc\<lparr>lc_timers := (lc_timers lc)\<lparr>tcore_store := store\<rparr>\<rparr>;
              shared = (case st_timers store timer of
                          Some t \<Rightarrow> (case tc_legacy t of Some a \<Rightarrow> st_ready store a | None \<Rightarrow> None)
                        | None \<Rightarrow> None)
          in (case (case owned of Some rc \<Rightarrow> Some rc | None \<Rightarrow> shared) of
                None \<Rightarrow> Some (Continue, [], lc1)
              | Some rc \<Rightarrow> let (r, lc2) = of_ready (execute_ready env rc lc1) in Some (r, [], lc2))
      | RFutureSetResult future v \<Rightarrow>
          let (r, lc1) = of_error (set_if_pending env future (re_set_result env future (Some v)) lc) in Some (r, [], lc1)
      | RFutureSetException future v \<Rightarrow>
          let (r, lc1) = of_error (set_if_pending env future (re_set_exception env future (Inl v)) lc) in Some (r, [], lc1)
      | RStreamTransportRead core \<Rightarrow> let (r, lc1) = of_error (re_stream_read env core lc) in Some (r, [], lc1)
      | RStreamTransportWrite core \<Rightarrow> Some (Continue, [], re_stream_write env core lc)
      | RStartSocketReader fd core reader \<Rightarrow>
          (case (case reader of
                   ReaderTcp stream \<Rightarrow> Some (TcpReaderTask core stream)
                 | ReaderUnix stream \<Rightarrow> Some (UnixReaderTask core stream)
                 | ReaderFile _ \<Rightarrow> None) of
             None \<Rightarrow> None
           | Some task \<Rightarrow>
               (case spawn_io_tracked fd task lc of
                  (True, lc1) \<Rightarrow> Some (Continue, [], lc1)
                | (False, _) \<Rightarrow> None))
      | RProcessTransport core \<Rightarrow> let (r, lc1) = of_error (re_process env core lc) in Some (r, [], lc1)
      | RStartServerAccept fd server listener task_guard \<Rightarrow>
          if re_server_closed env server lc then Some (Continue, [], lc)
          else (case spawn_io_tracked fd (AcceptTask server listener task_guard) lc of
                  (True, lc1) \<Rightarrow> Some (Continue, [], lc1)
                | (False, _) \<Rightarrow> None)
      | RStopServerAccept fd \<Rightarrow>
          (case stop_io_task fd lc of
             (True, lc1) \<Rightarrow> Some (Continue, [], lc1)
           | (False, lc1) \<Rightarrow> Some (Continue, [], snd (send_remote_command (CIo (StopServerAccept fd)) lc1)))
      | RServerAccepted server stream \<Rightarrow>
          (case re_accepted env server stream lc of
             (None, lc1) \<Rightarrow> Some (Continue, [], lc1)
           | (Some err, lc1) \<Rightarrow> Some (Continue, [], re_report env server err lc1))
      | RConnectCompleted future fd wait_errno \<Rightarrow> do {
          r \<leftarrow> resolve_connect_completed env future fd wait_errno lc;
          let (r1, lc1) = of_error r;
          Some (r1, [], lc1)
        }
      | RLoopWork work \<Rightarrow> let (r, lc1) = of_error (re_work env work lc) in Some (r, [], lc1))"

subsection \<open>The drain of one turn\<close>

abbreviation max_ready_items_per_turn :: nat where
  "max_ready_items_per_turn \<equiv> 1024"

text \<open>\<open>ds_ran\<close> records the items executed, for the theorems; the program does not keep it.\<close>

record drain_state =
  ds_ran :: "ready_item list"
  ds_processed :: nat
  ds_batch :: "ready_item list"
  ds_rearms :: "nat list"
  ds_lc :: loop_core

datatype 'e drain_end = Drained | Failed 'e | Aborted 'e

text \<open>One iteration of the drain loop: the end of the loop (\<open>Inl\<close>) or the state for the next one.\<close>

definition drain_step :: "'e run_env \<Rightarrow> drain_state \<Rightarrow> ('e drain_end \<times> drain_state + drain_state) option" where
  "drain_step env s =
     (if ds_batch s = [] \<and> ds_processed s \<noteq> 0 \<and> \<not> lc_stop_requested (ds_lc s) then Some (Inl (Drained, s))
      else do {
        s1 \<leftarrow> (if ds_batch s = [] then do {
                 (g, sc) \<leftarrow> next_generation (lc_sched (ds_lc s));
                 Some (s\<lparr>ds_batch := g, ds_lc := (ds_lc s)\<lparr>lc_sched := sc\<rparr>\<rparr>)
               } else Some s);
        case ds_batch s1 of
          [] \<Rightarrow> Some (Inl (Drained, s1))
        | item # rest \<Rightarrow> do {
            (r, rearm, lc) \<leftarrow> exec_item env item (ds_lc s1);
            let s2 = s1\<lparr>ds_ran := ds_ran s1 @ [item], ds_batch := rest, ds_rearms := ds_rearms s1 @ rearm, ds_lc := lc\<rparr>;
            case r of
              Abort e \<Rightarrow> Some (Inl (Aborted e, s2))
            | ReadyError e \<Rightarrow> Some (Inl (Failed e, s2))
            | Continue \<Rightarrow>
                let n = ds_processed s2 + 1
                in if n \<ge> max_ready_items_per_turn then
                     (if \<not> is_stopping lc then Some (Inl (Drained, s2\<lparr>ds_processed := n\<rparr>))
                      else Some (Inr (s2\<lparr>ds_processed := 0\<rparr>)))
                   else Some (Inr (s2\<lparr>ds_processed := n\<rparr>))
          }
      })"

text \<open>
  The loop: \<open>None\<close> when it does not end, \<open>Some None\<close> when it panics.
\<close>

partial_function (option) drain_ready :: "'e run_env \<Rightarrow> drain_state \<Rightarrow> ('e drain_end \<times> drain_state) option option" where
  "drain_ready env s =
     (case drain_step env s of
        None \<Rightarrow> Some None
      | Some (Inl res) \<Rightarrow> Some (Some res)
      | Some (Inr s1) \<Rightarrow> drain_ready env s1)"

subsection \<open>The outer loop\<close>

abbreviation max_consecutive_spins :: nat where "max_consecutive_spins \<equiv> 64"
abbreviation spin_miss_cooldown_parks :: nat where "spin_miss_cooldown_parks \<equiv> 8"

text \<open>The parsed value of \<open>RSLOOP_WAKE_SPIN_US\<close> (if any), in nanoseconds.\<close>

definition wake_spin_window :: "nat option \<Rightarrow> nat" where
  "wake_spin_window var = min (case var of Some micros \<Rightarrow> micros | None \<Rightarrow> 0) 1000 * 1000"

record spin_state =
  sp_consecutive :: nat
  sp_cooldown :: nat

text \<open>Waiting for the next wakeup; the flag tells whether the thread parked. \<open>window\<close> is the spin window.\<close>

definition wait_wakeup :: "'e run_env \<Rightarrow> nat \<Rightarrow> instant \<Rightarrow> spin_state \<Rightarrow> loop_core \<Rightarrow> bool \<times> spin_state \<times> loop_core" where
  "wait_wakeup env window park_deadline sp lc =
     (let (caught, sp1) =
            (if window = 0 \<or> sp_cooldown sp > 0 then (False, sp\<lparr>sp_cooldown := sp_cooldown sp - 1\<rparr>)
             else if re_spin env (min (re_now env lc + window) park_deadline) lc then (True, sp)
             else (False, sp\<lparr>sp_cooldown := spin_miss_cooldown_parks\<rparr>))
      in if caught \<and> sp_consecutive sp1 < max_consecutive_spins
         then (False, sp1\<lparr>sp_consecutive := sp_consecutive sp1 + 1\<rparr>, lc)
         else (True, sp1\<lparr>sp_consecutive := 0\<rparr>, re_park env park_deadline lc))"

record 'e run_state =
  rs_batch :: "ready_item list"
  rs_signal_error :: "'e option"
  rs_spin :: spin_state
  rs_lc :: loop_core

definition collect_timers :: "'e run_env \<Rightarrow> loop_core \<Rightarrow> loop_core option" where
  "collect_timers env lc =
     (case tcore_local (lc_timers lc) of
        None \<Rightarrow> None
      | Some q \<Rightarrow> do {
          (q1, c1, ready) \<leftarrow> collect (re_now env lc) (lc_timers lc) q (sc_local (lc_sched lc));
          let queued = length (sc_local (lc_sched lc));
          Some (lc\<lparr>lc_timers := c1\<lparr>tcore_local := Some q1\<rparr>,
                   lc_sched := note_local_enqueues (length ready - queued) ((lc_sched lc)\<lparr>sc_local := ready\<rparr>)\<rparr>)
        })"

fun rearm_all :: "nat list \<Rightarrow> loop_core \<Rightarrow> loop_core option" where
  "rearm_all [] lc = Some lc"
| "rearm_all (r # rs) lc = (case rearm_fd_watch_if_needed r lc of None \<Rightarrow> None | Some lc1 \<Rightarrow> rearm_all rs lc1)"

text \<open>How a run ends: its loop breaks with a result, or an error leaves the function at once.\<close>

datatype 'e run_end = Break "'e option" | Return 'e

text \<open>What follows the drain in one turn.\<close>

definition after_drain ::
    "'e run_env \<Rightarrow> nat \<Rightarrow> 'e drain_end \<Rightarrow> 'e run_state \<Rightarrow> drain_state \<Rightarrow> ('e run_end \<times> 'e run_state + 'e run_state) option" where
  "after_drain env window res s d =
     (case res of
        Aborted e \<Rightarrow> Some (Inl (Return e, s\<lparr>rs_batch := ds_batch d, rs_lc := ds_lc d\<rparr>))
      | _ \<Rightarrow> do {
          lc1 \<leftarrow> rearm_all (ds_rearms d) (set_ready_drain_active False (ds_lc d));
          let s1 = s\<lparr>rs_batch := ds_batch d, rs_lc := lc1\<rparr>;
          case res of
            Failed err \<Rightarrow> Some (Inl (Break (Some err), s1))
          | _ \<Rightarrow>
              if is_stopping lc1 then Some (Inl (Break (rs_signal_error s1), s1))
              else
                let (sig, lc2) = (if rs_signal_error s1 = None then re_check_signals env lc1 else (None, lc1))
                in case sig of
                     Some err \<Rightarrow>
                       map_option (\<lambda>(_, lc3). Inr (s1\<lparr>rs_signal_error := Some err, rs_lc := lc3\<rparr>)) (schedule_stop True lc2)
                   | None \<Rightarrow>
                       if tcore_dirty (lc_timers lc2) then Some (Inr (s1\<lparr>rs_lc := lc2\<rparr>))
                       else
                         let busy = rs_batch s1 \<noteq> [] \<or> sc_local (lc_sched lc2) \<noteq> [];
                             polled = busy \<or> sp_cooldown (rs_spin s1) > 0;
                             lc3 = (if polled then re_poll env lc2 else lc2)
                         in if polled \<and> (rs_batch s1 \<noteq> [] \<or> sc_local (lc_sched lc3) \<noteq> [] \<or> sc_wake (lc_sched lc3))
                            then Some (Inr (s1\<lparr>rs_lc := lc3\<rparr>))
                            else
                              (case tcore_local (lc_timers lc3) of
                                 None \<Rightarrow> None
                               | Some q \<Rightarrow>
                                   let (_, sp, lc4) =
                                         wait_wakeup env window (local_deadline (re_now env lc3) q) (rs_spin s1) lc3
                                   in Some (Inr (s1\<lparr>rs_spin := sp, rs_lc := lc4\<rparr>)))
        })"

definition drain_start :: "'e run_env \<Rightarrow> 'e run_state \<Rightarrow> drain_state option" where
  "drain_start env s =
     map_option
       (\<lambda>lc. \<lparr>ds_ran = [], ds_processed = 0, ds_batch = rs_batch s, ds_rearms = [], ds_lc = lc\<rparr>)
       (collect_timers env (set_ready_drain_active True ((rs_lc s)\<lparr>lc_turn_number := lc_turn_number (rs_lc s) + 1\<rparr>)))"

partial_function (option) run_loop ::
    "'e run_env \<Rightarrow> nat \<Rightarrow> 'e run_state \<Rightarrow> ('e run_end \<times> 'e run_state) option option" where
  "run_loop env window s =
     (case drain_start env s of
        None \<Rightarrow> Some None
      | Some d \<Rightarrow>
          (case drain_ready env d of
             None \<Rightarrow> None
           | Some None \<Rightarrow> Some None
           | Some (Some (res, d1)) \<Rightarrow>
               (case after_drain env window res s d1 of
                  None \<Rightarrow> Some None
                | Some (Inl r) \<Rightarrow> Some (Some r)
                | Some (Inr s1) \<Rightarrow> run_loop env window s1)))"

text \<open>
  \<open>run_forever\<close>. The result is an error of the loop, a Python exception, or success. Leaving the
  function frees the local queue; on \<open>Return\<close> nothing else happens.
\<close>

datatype 'e run_result = LoopError "loop_core_error option" | PyError 'e | RunOk

definition run_forever ::
    "'e run_env \<Rightarrow> nat \<Rightarrow> bool \<Rightarrow> bool \<Rightarrow> finish_ack \<Rightarrow> nat \<Rightarrow> loop_core \<Rightarrow> ('e run_result \<times> loop_core) option option" where
  "run_forever env window ensure_ok clear_ok ack done_tx lc =
     (case run_forever_begin ensure_ok lc of
        None \<Rightarrow> Some None
      | Some (Inl e, lc1) \<Rightarrow> Some (Some (LoopError e, lc1))
      | Some (Inr _, lc1) \<Rightarrow>
          (case run_loop env window \<lparr>rs_batch = [], rs_signal_error = None,
                    rs_spin = \<lparr>sp_consecutive = 0, sp_cooldown = 0\<rparr>, rs_lc = lc1\<rparr> of
             None \<Rightarrow> None
           | Some None \<Rightarrow> Some None
           | Some (Some (Return e, s)) \<Rightarrow>
               let lc2 = (case tcore_local (lc_timers (rs_lc s)) of
                            Some q \<Rightarrow> (rs_lc s)\<lparr>lc_timers := local_timers_drop q (lc_timers (rs_lc s))\<rparr>
                          | None \<Rightarrow> rs_lc s)
               in Some (Some (PyError e, lc2\<lparr>lc_box := False\<rparr>))
           | Some (Some (Break result, s)) \<Rightarrow>
               (case run_forever_end clear_ok ack done_tx (rs_batch s) (rs_lc s) of
                  None \<Rightarrow> Some None
                | Some (Inl e, lc2) \<Rightarrow> Some (Some (LoopError e, lc2))
                | Some (Inr _, lc2) \<Rightarrow>
                    Some (Some (case result of Some err \<Rightarrow> PyError err | None \<Rightarrow> RunOk, lc2)))))"

subsection \<open>A quiet turn runs one generation\<close>

text \<open>Executing a list of items in order, with the watches to re-arm.\<close>

fun run_items :: "'e run_env \<Rightarrow> ready_item list \<Rightarrow> loop_core \<Rightarrow> nat list \<times> loop_core" where
  "run_items env [] lc = ([], lc)"
| "run_items env (i # is) lc =
     (case exec_item env i lc of
        Some (_, rearm, lc1) \<Rightarrow> (let (rs, lc2) = run_items env is lc1 in (rearm @ rs, lc2))
      | None \<Rightarrow> ([], lc))"

text \<open>No item fails, and none stops the loop or asks it to stop.\<close>

fun quiet_run :: "'e run_env \<Rightarrow> ready_item list \<Rightarrow> loop_core \<Rightarrow> bool" where
  "quiet_run env [] lc \<longleftrightarrow> True"
| "quiet_run env (i # is) lc \<longleftrightarrow>
     (case exec_item env i lc of
        Some (Continue, _, lc1) \<Rightarrow> \<not> lc_stop_requested lc1 \<and> \<not> is_stopping lc1 \<and> quiet_run env is lc1
      | _ \<Rightarrow> False)"

lemma drain_step_Cons:
  assumes "exec_item env i lc = Some (Continue, rearm, lc1)"
  shows "drain_step env \<lparr>ds_ran = past, ds_processed = n, ds_batch = i # is, ds_rearms = ra, ds_lc = lc\<rparr>
    = Some (let s = \<lparr>ds_ran = past @ [i], ds_processed = n + 1, ds_batch = is, ds_rearms = ra @ rearm, ds_lc = lc1\<rparr>
            in if n + 1 \<ge> max_ready_items_per_turn
               then (if \<not> is_stopping lc1 then Inl (Drained, s) else Inr (s\<lparr>ds_processed := 0\<rparr>))
               else Inr s)"
  using assms by (simp add: drain_step_def Let_def)

lemma drain_ready_quiet:
  assumes "n < max_ready_items_per_turn" "bs \<noteq> [] \<or> n \<noteq> 0" "\<not> lc_stop_requested lc"
    and "quiet_run env (take (max_ready_items_per_turn - n) bs) lc"
  shows "drain_ready env \<lparr>ds_ran = past, ds_processed = n, ds_batch = bs, ds_rearms = ra, ds_lc = lc\<rparr>
    = Some (Some (Drained,
        \<lparr>ds_ran = past @ take (max_ready_items_per_turn - n) bs,
         ds_processed = n + min (max_ready_items_per_turn - n) (length bs),
         ds_batch = drop (max_ready_items_per_turn - n) bs,
         ds_rearms = ra @ fst (run_items env (take (max_ready_items_per_turn - n) bs) lc),
         ds_lc = snd (run_items env (take (max_ready_items_per_turn - n) bs) lc)\<rparr>))"
  using assms
proof (induction bs arbitrary: n past ra lc)
  case Nil
  then show ?case by (subst drain_ready.simps) (simp add: drain_step_def)
next
  case (Cons i bs)
  obtain m where m: "max_ready_items_per_turn - n = Suc m" using Cons(2) by (metis Suc_diff_Suc)
  obtain rearm lc1 where e: "exec_item env i lc = Some (Continue, rearm, lc1)"
    and q: "\<not> lc_stop_requested lc1" "\<not> is_stopping lc1" "quiet_run env (take m bs) lc1"
    using Cons(5) unfolding m by (auto split: option.splits prod.splits item_result.splits)
  obtain rs lc2 where r: "run_items env (take m bs) lc1 = (rs, lc2)" by force
  show ?case
  proof (cases "m = 0")
    case True
    then have "n + 1 \<ge> max_ready_items_per_turn" using m by simp
    then show ?thesis
      using m True e q(2) by (subst drain_ready.simps) (simp add: drain_step_Cons [OF e] Let_def)
  next
    case False
    then have n: "n + 1 < max_ready_items_per_turn" using m by simp
    have m': "max_ready_items_per_turn - (n + 1) = m" using m by simp
    have "drain_ready env \<lparr>ds_ran = past, ds_processed = n, ds_batch = i # bs, ds_rearms = ra, ds_lc = lc\<rparr>
        = drain_ready env \<lparr>ds_ran = past @ [i], ds_processed = n + 1, ds_batch = bs, ds_rearms = ra @ rearm, ds_lc = lc1\<rparr>"
      using n by (subst drain_ready.simps) (simp add: drain_step_Cons [OF e] Let_def)
    also have "\<dots> = Some (Some (Drained, \<lparr>ds_ran = (past @ [i]) @ take m bs, ds_processed = n + 1 + min m (length bs),
        ds_batch = drop m bs, ds_rearms = (ra @ rearm) @ rs, ds_lc = lc2\<rparr>))"
      using Cons(1) [OF n, of lc1 "past @ [i]" "ra @ rearm"] q r unfolding m' by simp
    finally show ?thesis unfolding m using e r by simp
  qed
qed


text \<open>An environment whose Python code does nothing, with a clock that stands still.\<close>

definition demo_run_env :: "nat run_env" where
  "demo_run_env = \<lparr>re_invoke = (\<lambda>rc lc. (Inr (), lc)), re_is_exception = (\<lambda>e. e < 10),
     re_custom_handler = (\<lambda>h e lc. (None, lc)), re_default_handler = (\<lambda>e lc. (None, lc)),
     re_done = (\<lambda>f lc. (Inr False, lc)), re_set_result = (\<lambda>f v lc. (None, lc)),
     re_set_exception = (\<lambda>f v lc. (None, lc)), re_stream_read = (\<lambda>c lc. (None, lc)),
     re_stream_write = (\<lambda>c lc. lc), re_process = (\<lambda>c lc. (None, lc)), re_server_closed = (\<lambda>_ _. False),
     re_accepted = (\<lambda>_ _ lc. (None, lc)), re_report = (\<lambda>_ _ lc. lc), re_so_error = (\<lambda>_ _. Inr 0),
     re_work = (\<lambda>_ lc. (None, lc)), re_check_signals = (\<lambda>lc. (None, lc)), re_now = (\<lambda>_. 5),
     re_poll = (\<lambda>lc. lc), re_spin = (\<lambda>_ _. False), re_park = (\<lambda>_ lc. lc)\<rparr>"

definition demo_loaded :: loop_core where
  "demo_loaded = lc_new\<lparr>lc_sched := (lc_sched lc_new)\<lparr>sc_local := [RLoopWork 1, RStreamTransportWrite 2], sc_enqueues := 2\<rparr>\<rparr>"


subsection \<open>Stopping and failing\<close>

lemmas drain_ready_induct = drain_ready.raw_induct [rotated, consumes 1, case_names step]

lemma drain_ready_end:
  assumes "drain_ready env s = Some (Some (res, d))"
  obtains s' where "drain_step env s' = Some (Inl (res, d))"
proof -
  have "drain_ready env s = Some y \<Longrightarrow> y = Some (res, d) \<longrightarrow> (\<exists>s'. drain_step env s' = Some (Inl (res, d)))" for y
  proof (induction rule: drain_ready_induct)
    case (step f env s y)
    then show ?case by (auto split: option.splits sum.splits)
  qed
  then show ?thesis using assms that by blast
qed

text \<open>
  A stop does not cut work short: when a drain ends with the loop stopping, the batch it was
  working on has been executed to its end, however long it was; the item budget ends a turn early only
  while the loop is not stopping.\<close>

lemma stopping_turn_leaves_nothing:
  assumes "drain_ready env s = Some (Some (Drained, d))" "is_stopping (ds_lc d)"
  shows "ds_batch d = []"
proof -
  obtain s' where e: "drain_step env s' = Some (Inl (Drained, d))" by (rule drain_ready_end [OF assms(1)])
  show ?thesis
  proof (rule ccontr)
    assume n: "ds_batch d \<noteq> []"
    obtain s1 where "(if ds_batch s' = [] then do {
                 (g, sc) \<leftarrow> next_generation (lc_sched (ds_lc s'));
                 Some (s'\<lparr>ds_batch := g, ds_lc := (ds_lc s')\<lparr>lc_sched := sc\<rparr>\<rparr>)
               } else Some s') = Some s1" "ds_batch s1 \<noteq> []"
      using e n by (auto simp: drain_step_def split: if_splits list.splits bind_splits)
    then show False
      using e n assms(2)
      by (auto simp: drain_step_def Let_def split: if_splits list.splits bind_splits item_result.splits)
  qed
qed

definition demo_stop :: loop_core where
  "demo_stop = lc_new\<lparr>lc_stop_requested := True,
     lc_sched := (lc_sched lc_new)\<lparr>sc_local := [RStop, RLoopWork 7], sc_enqueues := 2\<rparr>\<rparr>"

lemma demo_stop_drains:
  "\<exists>d. drain_ready demo_run_env \<lparr>ds_ran = [], ds_processed = 0, ds_batch = [], ds_rearms = [], ds_lc = demo_stop\<rparr>
      = Some (Some (Drained, d)) \<and> is_stopping (ds_lc d)"
proof -
  let ?g = "[RStop, RLoopWork 7]"
  let ?lc = "demo_stop\<lparr>lc_sched := (lc_sched demo_stop)\<lparr>sc_taken := 2, sc_local := []\<rparr>\<rparr>"
  let ?lc1 = "with_state (\<lambda>s. s\<lparr>ls_stopping := True\<rparr>) (?lc\<lparr>lc_stop_requested := False\<rparr>)"
  have gen: "next_generation (lc_sched demo_stop) = Some (?g, (lc_sched demo_stop)\<lparr>sc_taken := 2, sc_local := []\<rparr>)"
    by (simp add: demo_stop_def lc_new_def next_generation_def)
  have st: "\<not> lc_stop_requested ?lc1" "is_stopping ?lc1"
    by (simp add: with_state_def) (simp add: flags_read)
  have 1: "exec_item demo_run_env RStop ?lc = Some (Continue, [], ?lc1)" by (simp add: exec_item_def)
  have 2: "exec_item demo_run_env (RLoopWork 7) ?lc1 = Some (Continue, [], ?lc1)"
    by (simp add: exec_item_def demo_run_env_def of_error_def)
  have "drain_ready demo_run_env \<lparr>ds_ran = [], ds_processed = 0, ds_batch = [], ds_rearms = [], ds_lc = demo_stop\<rparr>
      = drain_ready demo_run_env \<lparr>ds_ran = [], ds_processed = 0, ds_batch = ?g, ds_rearms = [], ds_lc = ?lc\<rparr>"
    using gen by (subst (1 2) drain_ready.simps) (simp add: drain_step_def)
  also have "\<dots> = drain_ready demo_run_env \<lparr>ds_ran = [RStop], ds_processed = Suc 0, ds_batch = [RLoopWork 7], ds_rearms = [], ds_lc = ?lc1\<rparr>"
    by (subst drain_ready.simps) (simp add: drain_step_Cons [OF 1] Let_def)
  also have "\<dots> = drain_ready demo_run_env \<lparr>ds_ran = ?g, ds_processed = Suc (Suc 0), ds_batch = [], ds_rearms = [], ds_lc = ?lc1\<rparr>"
    by (subst drain_ready.simps) (simp add: drain_step_Cons [OF 2] Let_def)
  also have "\<dots> = Some (Some (Drained, \<lparr>ds_ran = ?g, ds_processed = Suc (Suc 0), ds_batch = [], ds_rearms = [], ds_lc = ?lc1\<rparr>))"
    using st(1) by (subst drain_ready.simps) (simp add: drain_step_def)
  finally show ?thesis using st(2) by simp
qed

text \<open>Python code can only append to the schedule: it calls the scheduling operations of the loop.\<close>

definition appends_only :: "'e run_env \<Rightarrow> bool" where
  "appends_only env \<longleftrightarrow> (\<forall>item lc r rearm lc1. exec_item env item lc = Some (r, rearm, lc1) \<and> sched_inv (lc_sched lc)
     \<longrightarrow> sched_inv (lc_sched lc1) \<and> (\<exists>new. sched_order (lc_sched lc1) = sched_order (lc_sched lc) @ new))"

abbreviation ds_all :: "drain_state \<Rightarrow> ready_item list" where
  "ds_all s \<equiv> ds_ran s @ ds_batch s @ sched_order (lc_sched (ds_lc s))"

lemma drain_step_accounts:
  assumes env: "appends_only env" and inv: "sched_inv (lc_sched (ds_lc s))"
    and st: "drain_step env s = Some r" "r = Inl (res, t) \<or> r = Inr t"
  shows "sched_inv (lc_sched (ds_lc t)) \<and> (\<exists>new. ds_all t = ds_all s @ new)"
proof (cases "ds_batch s = [] \<and> ds_processed s \<noteq> 0 \<and> \<not> lc_stop_requested (ds_lc s)")
  case True
  then show ?thesis using st inv by (auto simp: drain_step_def)
next
  case False
  obtain s1 where s1: "(if ds_batch s = [] then do {
                 (g, sc) \<leftarrow> next_generation (lc_sched (ds_lc s));
                 Some (s\<lparr>ds_batch := g, ds_lc := (ds_lc s)\<lparr>lc_sched := sc\<rparr>\<rparr>)
               } else Some s) = Some s1"
    using st(1) False by (auto simp: drain_step_def split: if_splits bind_splits)
  have i1: "sched_inv (lc_sched (ds_lc s1))" "ds_all s1 = ds_all s"
  proof (atomize(full), cases "ds_batch s = []")
    case True
    obtain sc where "next_generation (lc_sched (ds_lc s)) = Some (sched_order (lc_sched (ds_lc s)), sc)"
      "sched_inv sc" "sched_order sc = []" by (rule next_generation_order [OF inv])
    with s1 True show "sched_inv (lc_sched (ds_lc s1)) \<and> ds_all s1 = ds_all s" by auto
  qed (use s1 inv in auto)
  show ?thesis
  proof (cases "ds_batch s1")
    case Nil
    then show ?thesis using st False s1 i1 by (auto simp: drain_step_def)
  next
    case (Cons item rest)
    obtain x rearm lc where e: "exec_item env item (ds_lc s1) = Some (x, rearm, lc)"
      using st(1) False s1 Cons by (auto simp: drain_step_def split: bind_splits)
    have t: "ds_ran t = ds_ran s1 @ [item]" "ds_batch t = rest" "ds_lc t = lc"
      using st False s1 Cons e by (auto simp: drain_step_def Let_def split: item_result.splits if_splits)
    from env e i1(1) have "sched_inv (lc_sched lc)" "\<exists>new. sched_order (lc_sched lc) = sched_order (lc_sched (ds_lc s1)) @ new"
      unfolding appends_only_def by blast+
    then obtain new where n: "sched_inv (lc_sched lc)" "sched_order (lc_sched lc) = sched_order (lc_sched (ds_lc s1)) @ new"
      by blast
    have "ds_all t = ds_all s @ new" unfolding i1(2) [symmetric] using t n(2) Cons by simp
    then show ?thesis using n(1) t(3) by blast
  qed
qed

lemma drain_ready_accounts:
  assumes env: "appends_only env" and "drain_ready env s = Some (Some (res, t))" "sched_inv (lc_sched (ds_lc s))"
  shows "sched_inv (lc_sched (ds_lc t)) \<and> (\<exists>new. ds_all t = ds_all s @ new)"
proof -
  have "drain_ready env s = Some y \<Longrightarrow> appends_only env \<longrightarrow> y = Some (res, t) \<longrightarrow> sched_inv (lc_sched (ds_lc s))
      \<longrightarrow> sched_inv (lc_sched (ds_lc t)) \<and> (\<exists>new. ds_all t = ds_all s @ new)" for y
  proof (induction rule: drain_ready_induct)
    case (step f env s y)
    show ?case
    proof (intro impI)
      assume a: "appends_only env" "y = Some (res, t)" "sched_inv (lc_sched (ds_lc s))"
      from step(2) a(2) consider "drain_step env s = Some (Inl (res, t))"
        | s1 where "drain_step env s = Some (Inr s1)" "f env s1 = Some y"
        by (auto split: option.splits sum.splits)
      then show "sched_inv (lc_sched (ds_lc t)) \<and> (\<exists>new. ds_all t = ds_all s @ new)"
      proof cases
        case 1
        then show ?thesis using drain_step_accounts [OF a(1,3)] by blast
      next
        case 2
        have "sched_inv (lc_sched (ds_lc s1)) \<and> (\<exists>new. ds_all s1 = ds_all s @ new)"
          using drain_step_accounts [OF a(1,3) 2(1)] by blast
        then show ?thesis using step(1) [OF 2(2)] a by (metis append_assoc)
      qed
    qed
  qed
  then show ?thesis using assms by blast
qed

lemma cancel_opt_sched [simp]: "lc_sched (cancel_opt h lc) = lc_sched lc"
  by (simp add: cancel_opt_def cancel_task_def split: option.split)

lemma start_fd_watch_sched:
  assumes "start_fd_watch thr fd w cb lc = Some (r, lc')"
  shows "lc_sched lc' = lc_sched lc"
proof (cases "on_runtime_thread thr lc \<and> lc_has_runtime lc")
  case True
  then show ?thesis using assms by (auto simp: start_fd_watch_def spawn_task_def)
next
  case False
  have li: "local_item (CIo (if w then StartWriter fd cb else StartReader fd cb)) = None"
    by (simp add: local_item_def item_of_command_def)
  let ?lc = "if thr then cancel_opt (lc_fd_tasks lc (fd, w)) (lc\<lparr>lc_fd_tasks := (lc_fd_tasks lc)((fd, w) := None)\<rparr>) else lc"
  have "start_fd_watch thr fd w cb lc = send_command thr (CIo (if w then StartWriter fd cb else StartReader fd cb)) ?lc"
    unfolding start_fd_watch_def Let_def if_not_P [OF False] by (cases thr) simp_all
  then have "send_remote_command (CIo (if w then StartWriter fd cb else StartReader fd cb)) ?lc = (r, lc')"
    using assms send_unrouted [OF li] by simp
  from send_remote_effect(1) [OF this] show ?thesis by (cases thr) simp_all
qed

lemma rearm_all_sched: "rearm_all rs lc = Some lc' \<Longrightarrow> lc_sched lc' = lc_sched lc"
proof (induction rs lc rule: rearm_all.induct)
  case (2 r rs lc)
  obtain lc1 where 1: "rearm_fd_watch_if_needed r lc = Some lc1" and rest: "rearm_all rs lc1 = Some lc'"
    using 2(2) by (auto split: option.splits)
  have "lc_sched lc1 = lc_sched lc"
    using 1 start_fd_watch_sched
    by (auto simp: rearm_fd_watch_if_needed_def Let_def split: bind_splits option.splits if_splits callback_kind.splits)
  then show ?case using 2(1) [OF 1 rest] by simp
qed simp

lemma run_forever_end_effect:
  assumes "run_forever_end True ack d batch lc = Some (r, lc')" "sched_inv (lc_sched lc)"
  shows "pr_items (sc_pending (lc_sched lc')) = batch @ sched_order (lc_sched lc)" "sc_dispatch (lc_sched lc') = None"
    "\<not> lc_tls_core lc'" "\<not> lc_tls_ready lc'" "\<not> lc_box lc'"
proof -
  have si: "sched_inv (lc_sched (leave_run lc))" using assms(2) by (simp add: leave_run_effect)
  obtain lc2 where p: "preserve_leftover batch (leave_run lc) = Some lc2"
    using assms(1) by (auto simp: run_forever_end_def Let_def split: bind_splits)
  obtain r3 lc3 where snd: "send_remote_command (CRun (FinishRun d)) (retire_dispatch lc2) = (r3, lc3)" by force
  note e = send_remote_effect [OF snd]
  have tls: "\<not> lc_tls_core lc2" "\<not> lc_tls_ready lc2"
    using p by (auto simp: preserve_leftover_def leave_run_def clear_runtime_thread_def set_ready_drain_active_def Let_def
        split: if_splits bind_splits option.splits)
  have "lc_sched lc' = lc_sched lc3 \<and> lc_tls_core lc' = lc_tls_core lc3 \<and> lc_tls_ready lc' = lc_tls_ready lc3 \<and> \<not> lc_box lc'"
    using assms(1) p snd
    by (auto simp: run_forever_end_def Let_def reset_run_state_after_finish_error_def split: sum.splits finish_ack.splits)
  then show "pr_items (sc_pending (lc_sched lc')) = batch @ sched_order (lc_sched lc)" "sc_dispatch (lc_sched lc') = None"
    "\<not> lc_tls_core lc'" "\<not> lc_tls_ready lc'" "\<not> lc_box lc'"
    using e tls preserve_leftover_effect(1) [OF si p] by (simp_all add: retire_dispatch_def leave_run_effect)
qed

text \<open>C26. An exception that leaves the loop loses no callback: when an item raises something that is not an
  ordinary exception (a \<open>KeyboardInterrupt\<close>, say), the run ends with that error, and what was scheduled
  up to then is exactly what was executed, in order, followed by the queue that the dispatcher hands to
  the next run, with the rest of the interrupted batch first; the loop thread's cells are cleared before
  the local queue is freed.\<close>

theorem failed_run_keeps_rest:
  assumes "appends_only env" "sched_inv (lc_sched (ds_lc d0))" "ds_ran d0 = []"
    and "drain_ready env d0 = Some (Some (Failed err, d))"
    and "after_drain env window (Failed err) s d = Some (Inl (Break result, s1))"
    and "run_forever_end True ack done_tx (rs_batch s1) (rs_lc s1) = Some (r, lc')"
  shows "result = Some err
    \<and> (\<exists>new. ds_batch d0 @ sched_order (lc_sched (ds_lc d0)) @ new = ds_ran d @ pr_items (sc_pending (lc_sched lc')))
    \<and> \<not> lc_tls_core lc' \<and> \<not> lc_tls_ready lc' \<and> \<not> lc_box lc' \<and> sc_dispatch (lc_sched lc') = None"
proof -
  obtain lc1 where a: "rearm_all (ds_rearms d) (set_ready_drain_active False (ds_lc d)) = Some lc1"
    "result = Some err" "rs_batch s1 = ds_batch d" "rs_lc s1 = lc1"
    using assms(5) by (auto simp: after_drain_def Let_def split: bind_splits)
  have sc: "lc_sched lc1 = (lc_sched (ds_lc d))\<lparr>sc_drain_active := False\<rparr>"
    using rearm_all_sched [OF a(1)] by (simp add: set_ready_drain_active_def)
  from drain_ready_accounts [OF assms(1,4,2)] obtain new where
    n: "sched_inv (lc_sched (ds_lc d))" "ds_all d = ds_all d0 @ new" by blast
  have "sched_inv (lc_sched (rs_lc s1))" using n(1) a(4) sc by simp
  note e = run_forever_end_effect [OF assms(6) this]
  have "ds_batch d0 @ sched_order (lc_sched (ds_lc d0)) @ new = ds_ran d @ pr_items (sc_pending (lc_sched lc'))"
    using n(2) assms(3) e(1) a sc by simp
  then show ?thesis using a(2) e by blast
qed

text \<open>A callback that raises exception 20, which is not an ordinary one; a handler that itself fails with 3.\<close>

definition demo_raise_env :: "nat \<Rightarrow> nat run_env" where
  "demo_raise_env e = demo_run_env\<lparr>re_invoke := (\<lambda>rc lc. (Inl e, lc)), re_default_handler := (\<lambda>e lc. (Some 3, lc))\<rparr>"

definition demo_rc :: "nat ready_callback" where
  "demo_rc = ready_new (\<lambda>_. 0) 1 Soon 0 [] 0 False"

lemma demo_raise_appends: "appends_only (demo_raise_env e)"
proof -
  have "lc_sched lc1 = lc_sched lc" if "exec_item (demo_raise_env e) item lc = Some (r, rearm, lc1)" for item lc r rearm lc1
    using that
    by (cases item)
       (auto simp: exec_item_def demo_raise_env_def demo_run_env_def of_ready_def of_error_def execute_ready_def
         handle_callback_error_def call_exception_handler_def set_if_pending_def resolve_connect_completed_def
         spawn_io_tracked_def spawn_task_def cancel_opt_def cancel_task_def stop_io_task_def send_remote_command_def
         is_already_connected_errno_def is_connect_in_progress_errno_def send_command_def try_handle_local_command_eq local_item_def item_of_command_def Let_def
         split: bind_splits option.splits if_splits prod.splits sum.splits reader_target.splits)
  then show ?thesis by (auto simp: appends_only_def)
qed

definition demo_failing :: loop_core where
  "demo_failing = lc_new\<lparr>lc_callbacks := [4 \<mapsto> demo_rc],
     lc_sched := (lc_sched lc_new)\<lparr>sc_local := [RHandleCallback 4, RLoopWork 7], sc_enqueues := 2\<rparr>\<rparr>"

lemma demo_failing_drains:
  "drain_ready (demo_raise_env 20) \<lparr>ds_ran = [], ds_processed = 0, ds_batch = [], ds_rearms = [], ds_lc = demo_failing\<rparr>
    = Some (Some (Failed 20, \<lparr>ds_ran = [RHandleCallback 4], ds_processed = 0, ds_batch = [RLoopWork 7], ds_rearms = [],
        ds_lc = demo_failing\<lparr>lc_sched := (lc_sched demo_failing)\<lparr>sc_local := [], sc_taken := 2\<rparr>\<rparr>\<rparr>))"
proof -
  have gen: "next_generation (lc_sched demo_failing)
      = Some ([RHandleCallback 4, RLoopWork 7], (lc_sched demo_failing)\<lparr>sc_local := [], sc_taken := 2\<rparr>)"
    by (simp add: demo_failing_def lc_new_def next_generation_def)
  have "rc_cancelled demo_rc = False" by (simp add: demo_rc_def ready_new_def from_args_def encode_kind_def)
  then have "exec_item (demo_raise_env 20) (RHandleCallback 4) (demo_failing\<lparr>lc_sched := sc\<rparr>)
      = Some (ReadyError 20, [], demo_failing\<lparr>lc_sched := sc\<rparr>)" for sc
    by (simp add: exec_item_def demo_failing_def execute_ready_def demo_raise_env_def demo_run_env_def
        handle_callback_error_def of_ready_def)
  then show ?thesis using gen by (subst drain_ready.simps) (simp add: drain_step_def)
qed

theorem failed_run_keeps_rest_witness:
  "\<exists>d (s1 :: nat run_state) r lc'. drain_ready (demo_raise_env 20)
        \<lparr>ds_ran = [], ds_processed = 0, ds_batch = [], ds_rearms = [], ds_lc = demo_failing\<rparr> = Some (Some (Failed 20, d))
    \<and> run_forever_end True AckOk 0 (rs_batch s1) (rs_lc s1) = Some (r, lc')
    \<and> (\<exists>new. [RHandleCallback 4, RLoopWork 7] @ new = [RHandleCallback 4] @ pr_items (sc_pending (lc_sched lc')))"
proof -
  let ?start = "\<lparr>ds_ran = [], ds_processed = 0, ds_batch = [], ds_rearms = [], ds_lc = demo_failing\<rparr>"
  let ?lc = "demo_failing\<lparr>lc_sched := (lc_sched demo_failing)\<lparr>sc_local := [], sc_taken := 2\<rparr>\<rparr>"
  let ?d = "\<lparr>ds_ran = [RHandleCallback 4], ds_processed = 0, ds_batch = [RLoopWork 7], ds_rearms = [], ds_lc = ?lc\<rparr>"
  let ?s = "\<lparr>rs_batch = [], rs_signal_error = (None :: nat option), rs_spin = \<lparr>sp_consecutive = 0, sp_cooldown = 0\<rparr>, rs_lc = demo_failing\<rparr>"
  let ?s1 = "?s\<lparr>rs_batch := [RLoopWork 7], rs_lc := set_ready_drain_active False ?lc\<rparr>"
  have inv: "sched_inv (lc_sched (ds_lc ?start))"
    by (simp add: demo_failing_def lc_new_def sched_inv_def pr_default_def pr_wf_def pr_view_def)
  have ord: "sched_order (lc_sched (ds_lc ?start)) = [RHandleCallback 4, RLoopWork 7]"
    by (simp add: demo_failing_def lc_new_def sched_order_def pr_default_def pr_view_def)
  have ad: "after_drain (demo_raise_env 20) 0 (Failed 20) ?s ?d = Some (Inl (Break (Some 20), ?s1))"
    by (simp add: after_drain_def)
  have "\<exists>r lc'. run_forever_end True AckOk 0 (rs_batch ?s1) (rs_lc ?s1) = Some (r, lc')"
    by (simp add: run_forever_end_def Let_def leave_run_def clear_runtime_thread_def set_ready_drain_active_def demo_failing_def
        lc_new_def preserve_leftover_def merge_ready_generation_def pr_default_def retire_dispatch_def send_remote_command_def)
  then obtain r lc' where re: "run_forever_end True AckOk 0 (rs_batch ?s1) (rs_lc ?s1) = Some (r, lc')" by blast
  have "ds_ran ?start = []" by simp
  note f = failed_run_keeps_rest [of "demo_raise_env 20" ?start 20 ?d 0 ?s "Some 20" ?s1 AckOk 0 r lc',
      OF demo_raise_appends inv this demo_failing_drains ad re]
  show ?thesis using f ord demo_failing_drains re
    by (intro exI [of _ ?d] exI [of _ ?s1] exI [of _ r] exI [of _ lc']) simp
qed

subsection \<open>Spinning before parking\<close>

text \<open>Consecutive waits, each with its deadline and the loop state it starts in: which of them parked.\<close>

fun wait_trace ::
    "'e run_env \<Rightarrow> nat \<Rightarrow> (instant \<times> loop_core) list \<Rightarrow> spin_state \<Rightarrow> bool list \<times> spin_state" where
  "wait_trace env window [] sp = ([], sp)"
| "wait_trace env window ((deadline, lc) # ws) sp =
     (let (parked, sp1, _) = wait_wakeup env window deadline sp lc;
          (ps, sp2) = wait_trace env window ws sp1
      in (parked # ps, sp2))"

lemma wait_wakeup_spin:
  assumes "wait_wakeup env window dl sp lc = (parked, sp1, lc1)"
  shows "\<not> parked \<Longrightarrow> sp_consecutive sp1 = Suc (sp_consecutive sp) \<and> sp_consecutive sp < max_consecutive_spins"
    "parked \<Longrightarrow> sp_consecutive sp1 = 0"
    "sp_cooldown sp \<le> spin_miss_cooldown_parks \<Longrightarrow> sp_cooldown sp1 \<le> spin_miss_cooldown_parks"
  using assms by (auto simp: wait_wakeup_def Let_def split: if_splits)

lemma wait_trace_no_park:
  assumes "True \<notin> set (fst (wait_trace env window ws sp))" "sp_consecutive sp \<le> max_consecutive_spins"
  shows "sp_consecutive sp + length ws \<le> max_consecutive_spins"
  using assms
proof (induction ws arbitrary: sp)
  case (Cons w ws)
  obtain dl lc where w: "w = (dl, lc)" by force
  obtain parked sp1 lc1 where e: "wait_wakeup env window dl sp lc = (parked, sp1, lc1)" by (metis prod_cases3)
  obtain ps sp2 where t: "wait_trace env window ws sp1 = (ps, sp2)" by force
  have np: "\<not> parked" "True \<notin> set ps" using Cons(2) e t by (auto simp: w)
  from wait_wakeup_spin(1) [OF e np(1)] Cons(1) [of sp1] np(2) t show ?case by simp
qed simp

text \<open>C30. Spinning never starves the reactor: whatever wakes arrive and whatever the spin window, among any
  65 consecutive waits of the loop thread at least one parks and so drives the reactor, and an
  environment variable can ask for no more than one millisecond of spinning per wait.\<close>

theorem spinning_is_bounded:
  assumes "sp_consecutive sp \<le> 64" "65 \<le> length ws"
  shows "True \<in> set (fst (wait_trace env window ws sp)) \<and> wake_spin_window var \<le> 1000000"
  using wait_trace_no_park [of env window ws sp] assms by (fastforce simp: wake_spin_window_def)

theorem spinning_is_bounded_witness:
  "sp_consecutive \<lparr>sp_consecutive = 3, sp_cooldown = 0\<rparr> \<le> 64
    \<and> True \<in> set (fst (wait_trace (demo_run_env\<lparr>re_spin := \<lambda>_ _. True\<rparr>) (wake_spin_window (Some 20))
        (replicate 65 (0, lc_new)) \<lparr>sp_consecutive = 3, sp_cooldown = 0\<rparr>))"
  using spinning_is_bounded [of "\<lparr>sp_consecutive = 3, sp_cooldown = 0\<rparr>" "replicate 65 (0, lc_new)"
      "demo_run_env\<lparr>re_spin := \<lambda>_ _. True\<rparr>" "wake_spin_window (Some 20)" None]
  by simp

subsection \<open>An error that leaves the function at once\<close>

text \<open>
  When the exception handler itself raises, \<open>run_forever\<close> returns through \<open>?\<close> from inside its loop and none
  of the code after the loop runs. Two timers are due, the first raises an ordinary exception and the
  handler fails: the loop then counts as running for good, its thread-local pointer refers to the
  freed queue, and the second timer is neither executed nor kept.
\<close>

definition demo_two_timers :: loop_core where
  "demo_two_timers = lc_new\<lparr>lc_timers := (lc_timers lc_new)
     \<lparr>tcore_pending := [\<lparr>tq_when = 1, tq_seq = 1, tq_callback = 1\<rparr>, \<lparr>tq_when = 2, tq_seq = 2, tq_callback = 2\<rparr>],
      tcore_dirty := True,
      tcore_store := \<lparr>st_timers = [1 \<mapsto> timer_callback_new demo_rc, 2 \<mapsto> timer_callback_new demo_rc],
        st_ready = Map.empty, st_cancelled_timers = 0\<rparr>\<rparr>\<rparr>"

declare drain_ready.simps [code]
declare run_loop.simps [code]


end
