(* ===== verification/Fd_Watch.thy ===== *)
theory Fd_Watch
  imports Loop_Run "HOL-Library.AList"
begin

section \<open>Descriptor registrations (bindings/loop\_api/watchers.rs)\<close>

text \<open>
  \<open>add_reader\<close>, \<open>remove_reader\<close> and their writer versions. A registration keeps one callback and one
  readiness wait; the wait is a task of the loop thread's reactor or of the dispatcher's. The calls are
  made on the loop's thread, running or not. \<open>raw\<close> is what \<open>fileobj_to_fd\<close> returned, \<open>copy\<close> what
  copying the context gave, \<open>addr\<close> the address of the new callback; the keepalive maps are association
  lists in iteration order.
\<close>

definition cancel_callback :: "nat \<Rightarrow> loop_core \<Rightarrow> loop_core" where
  "cancel_callback a lc = lc\<lparr>lc_callbacks := (lc_callbacks lc)(a := map_option ready_cancel (lc_callbacks lc a))\<rparr>"

definition lift_loop_error :: "((loop_core_error + unit) \<times> loop_core) option \<Rightarrow> ((('e + loop_core_error) + unit) \<times> loop_core) option" where
  "lift_loop_error r = map_option (\<lambda>(x, lc). (case x of Inl e \<Rightarrow> Inl (Inr e) | Inr _ \<Rightarrow> Inr (), lc)) r"

text \<open>The end of \<open>add_reader\<close> and \<open>add_writer\<close>: retire the replaced registration, arm the new one.\<close>

definition replace_watch ::
    "int \<Rightarrow> bool \<Rightarrow> fd_watch option \<Rightarrow> nat \<Rightarrow> loop_core \<Rightarrow> ((('e + loop_core_error) + unit) \<times> loop_core) option" where
  "replace_watch raw_fd writable previous addr lc =
     (case previous of
        None \<Rightarrow> lift_loop_error (start_fd_watch True raw_fd writable addr lc)
      | Some prev \<Rightarrow>
          (case stop_fd_watch True raw_fd writable (cancel_callback (fw_ready prev) lc) of
             None \<Rightarrow> None
           | Some (Inl e, lc1) \<Rightarrow> Some (Inl (Inr e), lc1)
           | Some (Inr _, lc1) \<Rightarrow> lift_loop_error (start_fd_watch True raw_fd writable addr lc1)))"

definition add_reader ::
    "(nat list \<Rightarrow> nat) \<Rightarrow> 'e + int \<Rightarrow> 'e + nat \<Rightarrow> nat \<Rightarrow> nat \<Rightarrow> nat list \<Rightarrow> nat \<Rightarrow> loop_core
      \<Rightarrow> ((('e + loop_core_error) + unit) \<times> loop_core) option" where
  "add_reader tuple raw copy fileobj callback args addr lc =
     (case raw of
        Inl e \<Rightarrow> Some (Inl (Inl e), lc)
      | Inr raw_fd \<Rightarrow>
          (case capture_context copy None of
             Inl e \<Rightarrow> Some (Inl (Inl e), lc)
           | Inr (context, context_needs_run) \<Rightarrow>
               let (cid, lc1) = next_callback_id lc;
                   ready = ready_new tuple cid (Reader raw_fd) callback args context context_needs_run;
                   lc2 = lc1\<lparr>lc_callbacks := (lc_callbacks lc1)(addr \<mapsto> ready)\<rparr>;
                   previous = map_of (ls_reader_keepalive (lc_ls lc2)) raw_fd;
                   lc3 = with_state (\<lambda>s. s\<lparr>ls_reader_keepalive :=
                           AList.update raw_fd \<lparr>fw_fileobj = fileobj, fw_ready = addr\<rparr> (ls_reader_keepalive s)\<rparr>) lc2
               in replace_watch raw_fd False previous addr lc3))"

definition add_writer ::
    "(nat list \<Rightarrow> nat) \<Rightarrow> 'e + int \<Rightarrow> 'e + nat \<Rightarrow> nat \<Rightarrow> nat \<Rightarrow> nat list \<Rightarrow> nat \<Rightarrow> loop_core
      \<Rightarrow> ((('e + loop_core_error) + unit) \<times> loop_core) option" where
  "add_writer tuple raw copy fileobj callback args addr lc =
     (case raw of
        Inl e \<Rightarrow> Some (Inl (Inl e), lc)
      | Inr raw_fd \<Rightarrow>
          (case capture_context copy None of
             Inl e \<Rightarrow> Some (Inl (Inl e), lc)
           | Inr (context, context_needs_run) \<Rightarrow>
               let (cid, lc1) = next_callback_id lc;
                   ready = ready_new tuple cid (Writer raw_fd) callback args context context_needs_run;
                   lc2 = lc1\<lparr>lc_callbacks := (lc_callbacks lc1)(addr \<mapsto> ready)\<rparr>;
                   previous = map_of (ls_writer_keepalive (lc_ls lc2)) raw_fd;
                   lc3 = with_state (\<lambda>s. s\<lparr>ls_writer_keepalive :=
                           AList.update raw_fd \<lparr>fw_fileobj = fileobj, fw_ready = addr\<rparr> (ls_writer_keepalive s)\<rparr>) lc2
               in replace_watch raw_fd True previous addr lc3))"

text \<open>The key of the registration to remove: by descriptor, else by identity of the file object.\<close>

definition watch_key :: "(int \<times> fd_watch) list \<Rightarrow> int \<Rightarrow> nat \<Rightarrow> int option" where
  "watch_key watches raw_fd fileobj =
     (if map_of watches raw_fd \<noteq> None then Some raw_fd
      else map_option fst (List.find (\<lambda>(_, watch). fw_fileobj watch = fileobj) watches))"

definition remove_reader ::
    "'e + int \<Rightarrow> nat \<Rightarrow> loop_core \<Rightarrow> ((('e + loop_core_error) + bool) \<times> loop_core) option" where
  "remove_reader raw fileobj lc =
     (case raw of
        Inl e \<Rightarrow> Some (Inl (Inl e), lc)
      | Inr raw_fd \<Rightarrow>
          let watches = ls_reader_keepalive (lc_ls lc);
              removed_fd = Option.bind (watch_key watches raw_fd fileobj)
                             (\<lambda>key. map_option (Pair key) (map_of watches key));
              lc1 = (case removed_fd of
                       None \<Rightarrow> lc
                     | Some (key, _) \<Rightarrow> with_state (\<lambda>s. s\<lparr>ls_reader_keepalive := AList.delete key (ls_reader_keepalive s)\<rparr>) lc);
              (stop_fd, removed, lc2) =
                (case removed_fd of
                   Some (key, watch) \<Rightarrow> (key, True, cancel_callback (fw_ready watch) lc1)
                 | None \<Rightarrow> (raw_fd, False, lc1))
          in case stop_fd_watch True stop_fd False lc2 of
               None \<Rightarrow> None
             | Some (Inl e, lc3) \<Rightarrow> Some (Inl (Inr e), lc3)
             | Some (Inr _, lc3) \<Rightarrow> Some (Inr removed, lc3))"

definition remove_writer ::
    "'e + int \<Rightarrow> nat \<Rightarrow> loop_core \<Rightarrow> ((('e + loop_core_error) + bool) \<times> loop_core) option" where
  "remove_writer raw fileobj lc =
     (case raw of
        Inl e \<Rightarrow> Some (Inl (Inl e), lc)
      | Inr raw_fd \<Rightarrow>
          let watches = ls_writer_keepalive (lc_ls lc);
              removed_fd = Option.bind (watch_key watches raw_fd fileobj)
                             (\<lambda>key. map_option (Pair key) (map_of watches key));
              lc1 = (case removed_fd of
                       None \<Rightarrow> lc
                     | Some (key, _) \<Rightarrow> with_state (\<lambda>s. s\<lparr>ls_writer_keepalive := AList.delete key (ls_writer_keepalive s)\<rparr>) lc);
              (stop_fd, removed, lc2) =
                (case removed_fd of
                   Some (key, watch) \<Rightarrow> (key, True, cancel_callback (fw_ready watch) lc1)
                 | None \<Rightarrow> (raw_fd, False, lc1))
          in case stop_fd_watch True stop_fd True lc2 of
               None \<Rightarrow> None
             | Some (Inl e, lc3) \<Rightarrow> Some (Inl (Inr e), lc3)
             | Some (Inr _, lc3) \<Rightarrow> Some (Inr removed, lc3))"

subsection \<open>Who waits for a descriptor\<close>

text \<open>
  The callback the loop thread's reactor waits for, and the one the dispatcher will wait for once it
  has handled the commands already sent to it.
\<close>

definition local_wait :: "int \<Rightarrow> bool \<Rightarrow> loop_core \<Rightarrow> nat option" where
  "local_wait fd w lc =
     Option.bind (lc_fd_tasks lc (fd, w)) (\<lambda>t. case lc_spawned lc ! t of FdWait _ _ cb \<Rightarrow> Some cb | _ \<Rightarrow> None)"

definition after_command :: "int \<Rightarrow> bool \<Rightarrow> loop_command \<Rightarrow> nat option \<Rightarrow> nat option" where
  "after_command fd w c cur =
     (case c of
        CIo (StartReader fd' cb) \<Rightarrow> if fd' = fd \<and> \<not> w then Some cb else cur
      | CIo (StopReader fd') \<Rightarrow> if fd' = fd \<and> \<not> w then None else cur
      | CIo (StartWriter fd' cb) \<Rightarrow> if fd' = fd \<and> w then Some cb else cur
      | CIo (StopWriter fd') \<Rightarrow> if fd' = fd \<and> w then None else cur
      | _ \<Rightarrow> cur)"

definition remote_wait :: "int \<Rightarrow> bool \<Rightarrow> nat option \<Rightarrow> loop_core \<Rightarrow> nat option" where
  "remote_wait fd w cur lc = fold (after_command fd w) (lc_channel lc) cur"

text \<open>\<open>waits\<close>: the waits armed for a descriptor, given the one the dispatcher holds now.\<close>

definition waits :: "int \<Rightarrow> bool \<Rightarrow> nat option \<Rightarrow> loop_core \<Rightarrow> nat option \<times> nat option" where
  "waits fd w cur lc = (local_wait fd w lc, remote_wait fd w cur lc)"

definition tasks_ok :: "loop_core \<Rightarrow> bool" where
  "tasks_ok lc \<longleftrightarrow> (\<forall>fd w t. lc_fd_tasks lc (fd, w) = Some t \<longrightarrow> t < length (lc_spawned lc)
     \<and> (\<exists>cb. lc_spawned lc ! t = FdWait fd w cb))"

definition keepalive :: "bool \<Rightarrow> loop_core \<Rightarrow> (int \<times> fd_watch) list" where
  "keepalive w lc = (if w then ls_writer_keepalive (lc_ls lc) else ls_reader_keepalive (lc_ls lc))"

text \<open>
  The invariant: an unregistered descriptor has no wait, a registered one at most one, on one side
  only, and it is for the registered callback. \<open>cur\<close> is what the dispatcher's own maps hold.
\<close>

definition watch_ok :: "(int \<times> bool \<Rightarrow> nat option) \<Rightarrow> loop_core \<Rightarrow> int \<Rightarrow> bool \<Rightarrow> bool" where
  "watch_ok cur lc fd w \<longleftrightarrow>
     (case map_of (keepalive w lc) fd of
        None \<Rightarrow> waits fd w (cur (fd, w)) lc = (None, None)
      | Some watch \<Rightarrow> lc_callbacks lc (fw_ready watch) \<noteq> None \<and>
          waits fd w (cur (fd, w)) lc \<in> {(None, None), (Some (fw_ready watch), None), (None, Some (fw_ready watch))})"

definition watch_inv :: "(int \<times> bool \<Rightarrow> nat option) \<Rightarrow> loop_core \<Rightarrow> bool" where
  "watch_inv cur lc \<longleftrightarrow> tasks_ok lc \<and> (\<forall>fd w. watch_ok cur lc fd w)"

text \<open>\<open>watch_frame\<close>: nothing changed for the other descriptors, nor in the callbacks and the loop state.\<close>

definition watch_frame :: "(int \<times> bool \<Rightarrow> nat option) \<Rightarrow> int \<Rightarrow> bool \<Rightarrow> loop_core \<Rightarrow> loop_core \<Rightarrow> bool" where
  "watch_frame cur fd w lc lc' \<longleftrightarrow> lc_callbacks lc' = lc_callbacks lc \<and> lc_state lc' = lc_state lc \<and>
     (\<forall>fd' w'. (fd', w') \<noteq> (fd, w) \<longrightarrow> waits fd' w' (cur (fd', w')) lc' = waits fd' w' (cur (fd', w')) lc)"

lemma waits_cong:
  assumes "lc_fd_tasks lc' (fd, w) = lc_fd_tasks lc (fd, w)" "lc_spawned lc' = lc_spawned lc" "lc_channel lc' = lc_channel lc"
  shows "waits fd w cur lc' = waits fd w cur lc"
  using assms by (simp add: waits_def local_wait_def remote_wait_def)

lemma after_command_other:
  assumes "(fd', w') \<noteq> (fd, w)"
  shows "after_command fd' w' (CIo (if w then StopWriter fd else StopReader fd)) cur = cur"
    "after_command fd' w' (CIo (if w then StartWriter fd cb else StartReader fd cb)) cur = cur"
  using assms by (auto simp: after_command_def)

lemma send_io_effect:
  assumes "send_command thr (CIo c) lc = Some (Inr (), lc')" "local_item (CIo c) = None"
  shows "lc_channel lc' = lc_channel lc @ [CIo c]" "lc_fd_tasks lc' = lc_fd_tasks lc" "lc_spawned lc' = lc_spawned lc"
    "lc_callbacks lc' = lc_callbacks lc" "lc_state lc' = lc_state lc"
proof -
  have "send_remote_command (CIo c) lc = (Inr (), lc')" using assms by simp
  then show "lc_channel lc' = lc_channel lc @ [CIo c]" "lc_fd_tasks lc' = lc_fd_tasks lc" "lc_spawned lc' = lc_spawned lc"
    "lc_callbacks lc' = lc_callbacks lc" "lc_state lc' = lc_state lc"
    by (auto simp: send_remote_command_def Let_def split: if_splits)
qed

lemma stop_fd_watch_effect:
  assumes ok: "tasks_ok lc" and one: "local_wait fd w lc = None \<or> remote_wait fd w (cur (fd, w)) lc = None"
    and st: "stop_fd_watch True fd w lc = Some (Inr (), lc')"
  shows "waits fd w (cur (fd, w)) lc' = (None, None) \<and> tasks_ok lc' \<and> watch_frame cur fd w lc lc'"
proof (cases "lc_fd_tasks lc (fd, w)")
  case (Some t)
  have lc': "lc' = cancel_task t (lc\<lparr>lc_fd_tasks := (lc_fd_tasks lc)((fd, w) := None)\<rparr>)"
    using st Some by (simp add: stop_fd_watch_def)
  obtain cb where "lc_spawned lc ! t = FdWait fd w cb" using ok Some unfolding tasks_ok_def by blast
  then have "remote_wait fd w (cur (fd, w)) lc = None" using one Some by (simp add: local_wait_def)
  moreover have "tasks_ok lc'" using ok unfolding lc' by (simp add: tasks_ok_def cancel_task_def)
  ultimately show ?thesis
    unfolding lc' by (auto simp: waits_def local_wait_def remote_wait_def cancel_task_def watch_frame_def)
next
  case None
  have li: "local_item (CIo (if w then StopWriter fd else StopReader fd)) = None"
    by (simp add: local_item_def item_of_command_def)
  have "send_command True (CIo (if w then StopWriter fd else StopReader fd)) lc = Some (Inr (), lc')"
    using st None by (simp add: stop_fd_watch_def)
  note f = send_io_effect [OF this li]
  have "tasks_ok lc'" using ok by (simp add: tasks_ok_def f)
  then show ?thesis
    using None by (simp add: waits_def local_wait_def remote_wait_def f watch_frame_def after_command_other)
      (simp add: after_command_def)
qed

lemma cancel_opt_frame [simp]:
  "lc_channel (cancel_opt t lc) = lc_channel lc" "lc_fd_tasks (cancel_opt t lc) = lc_fd_tasks lc"
  "lc_spawned (cancel_opt t lc) = lc_spawned lc" "lc_callbacks (cancel_opt t lc) = lc_callbacks lc"
  "lc_state (cancel_opt t lc) = lc_state lc"
  by (cases t; simp add: cancel_opt_def cancel_task_def)+

lemma start_fd_watch_effect:
  assumes ok: "tasks_ok lc" and free: "waits fd w (cur (fd, w)) lc = (None, None)"
    and st: "start_fd_watch True fd w cb lc = Some (Inr (), lc')"
  shows "waits fd w (cur (fd, w)) lc' \<in> {(Some cb, None), (None, Some cb)} \<and> tasks_ok lc' \<and> watch_frame cur fd w lc lc'"
proof (cases "on_runtime_thread True lc \<and> lc_has_runtime lc")
  case True
  have f: "lc_fd_tasks lc' = (lc_fd_tasks lc)((fd, w) \<mapsto> length (lc_spawned lc))" "lc_spawned lc' = lc_spawned lc @ [FdWait fd w cb]"
    "lc_channel lc' = lc_channel lc" "lc_callbacks lc' = lc_callbacks lc" "lc_state lc' = lc_state lc"
    using st True by (auto simp: start_fd_watch_def spawn_task_def Let_def)
  have old: "lc_spawned lc' ! t = lc_spawned lc ! t" if "lc_fd_tasks lc (fd', w') = Some t" for fd' w' t
  proof -
    have "t < length (lc_spawned lc)" using ok that unfolding tasks_ok_def by blast
    then show ?thesis by (simp add: f nth_append)
  qed
  have "tasks_ok lc'" using ok f by (auto simp: tasks_ok_def nth_append less_Suc_eq)
  moreover have "watch_frame cur fd w lc lc'"
    unfolding watch_frame_def waits_def local_wait_def remote_wait_def by (auto simp: f(1,3,4,5) old split: option.split bind_split)
  ultimately show ?thesis using f free by (simp add: waits_def local_wait_def remote_wait_def)
next
  case False
  let ?stop = "cancel_opt (lc_fd_tasks lc (fd, w)) (lc\<lparr>lc_fd_tasks := (lc_fd_tasks lc)((fd, w) := None)\<rparr>)"
  have li: "local_item (CIo (if w then StartWriter fd cb else StartReader fd cb)) = None"
    by (simp add: local_item_def item_of_command_def)
  have "send_command True (CIo (if w then StartWriter fd cb else StartReader fd cb)) ?stop = Some (Inr (), lc')"
    using st unfolding start_fd_watch_def Let_def if_not_P [OF False] by simp
  note f = send_io_effect [OF this li]
  have "tasks_ok lc'" using ok unfolding tasks_ok_def f by simp
  moreover have "watch_frame cur fd w lc lc'"
    unfolding watch_frame_def waits_def local_wait_def remote_wait_def f by (auto simp: after_command_other)
  ultimately show ?thesis
    unfolding waits_def local_wait_def remote_wait_def f by (simp add: after_command_def)
qed

lemma lift_loop_error_Inr: "lift_loop_error r = Some (Inr (), lc') \<longleftrightarrow> r = Some (Inr (), lc')"
  by (auto simp: lift_loop_error_def split: sum.splits) (metis old.unit.exhaust sum.exhaust)

lemma watch_frame_trans:
  "watch_frame cur fd w a b \<Longrightarrow> watch_frame cur fd w b c \<Longrightarrow> watch_frame cur fd w a c"
  by (simp add: watch_frame_def)

lemma replace_watch_effect:
  assumes ok: "tasks_ok lc"
    and pre: "case previous of None \<Rightarrow> waits fd w (cur (fd, w)) lc = (None, None)
              | Some prev \<Rightarrow> local_wait fd w lc = None \<or> remote_wait fd w (cur (fd, w)) lc = None"
    and st: "replace_watch fd w previous addr lc = Some (Inr (), lc')"
  defines "lc0 \<equiv> case previous of None \<Rightarrow> lc | Some prev \<Rightarrow> cancel_callback (fw_ready prev) lc"
  shows "waits fd w (cur (fd, w)) lc' \<in> {(Some addr, None), (None, Some addr)} \<and> tasks_ok lc' \<and> watch_frame cur fd w lc0 lc'"
proof (cases previous)
  case None
  then have "start_fd_watch True fd w addr lc = Some (Inr (), lc')"
    using st by (simp add: replace_watch_def lift_loop_error_Inr)
  from start_fd_watch_effect [OF ok _ this, of cur] show ?thesis using pre None by (simp add: lc0_def)
next
  case (Some prev)
  obtain m where m: "stop_fd_watch True fd w lc0 = Some (Inr (), m)" "start_fd_watch True fd w addr m = Some (Inr (), lc')"
    using st Some by (auto simp: replace_watch_def lift_loop_error_Inr lc0_def split: sum.splits option.splits prod.splits)
  have "tasks_ok lc0" "local_wait fd w lc0 = None \<or> remote_wait fd w (cur (fd, w)) lc0 = None"
    using ok pre Some by (simp_all add: lc0_def tasks_ok_def cancel_callback_def local_wait_def remote_wait_def)
  note a = stop_fd_watch_effect [where cur = cur, OF this m(1)]
  from start_fd_watch_effect [where cur = cur, OF _ _ m(2)] a show ?thesis using watch_frame_trans by blast
qed

subsection \<open>Adding and removing\<close>

lemma cancel_callback_simps [simp]:
  "lc_fd_tasks (cancel_callback a lc) = lc_fd_tasks lc" "lc_spawned (cancel_callback a lc) = lc_spawned lc"
  "lc_channel (cancel_callback a lc) = lc_channel lc" "lc_state (cancel_callback a lc) = lc_state lc"
  "lc_callbacks (cancel_callback a lc) = (lc_callbacks lc)(a := map_option ready_cancel (lc_callbacks lc a))"
  by (simp_all add: cancel_callback_def)

text \<open>\<open>registers\<close>: the state with the new callback and registration, before any wait is touched.\<close>

definition registers :: "int \<Rightarrow> bool \<Rightarrow> nat \<Rightarrow> nat \<Rightarrow> loop_core \<Rightarrow> loop_core \<Rightarrow> bool" where
  "registers fd w fileobj addr lc lc' \<longleftrightarrow>
     (\<exists>r. lc_callbacks lc' = (lc_callbacks lc)(addr \<mapsto> r)) \<and> lc_fd_tasks lc' = lc_fd_tasks lc \<and>
     lc_spawned lc' = lc_spawned lc \<and> lc_channel lc' = lc_channel lc \<and>
     keepalive w lc' = AList.update fd \<lparr>fw_fileobj = fileobj, fw_ready = addr\<rparr> (keepalive w lc) \<and>
     keepalive (\<not> w) lc' = keepalive (\<not> w) lc"

lemma add_watch_registers:
  assumes "(if w then add_writer else add_reader) tuple (Inr fd :: 'e + int) copy fileobj callback args addr lc = Some (Inr (), lc')"
  shows "\<exists>lc1. registers fd w fileobj addr lc lc1
    \<and> replace_watch fd w (map_of (keepalive w lc) fd) addr lc1 = (Some (Inr (), lc') :: ((('e + loop_core_error) + unit) \<times> loop_core) option)"
proof -
  obtain ctx needs where "capture_context copy None = Inr (ctx, needs)"
    using assms by (cases w) (auto simp: add_writer_def add_reader_def split: sum.splits)
  note cap = this
  let ?r = "ready_new tuple (lc_next_callback_id lc) (if w then Writer fd else Reader fd) callback args ctx needs"
  let ?u = "\<lambda>s. if w then s\<lparr>ls_writer_keepalive := AList.update fd \<lparr>fw_fileobj = fileobj, fw_ready = addr\<rparr> (ls_writer_keepalive s)\<rparr>
    else s\<lparr>ls_reader_keepalive := AList.update fd \<lparr>fw_fileobj = fileobj, fw_ready = addr\<rparr> (ls_reader_keepalive s)\<rparr>"
  let ?lc = "with_state ?u (lc\<lparr>lc_next_callback_id := lc_next_callback_id lc + 1, lc_callbacks := (lc_callbacks lc)(addr \<mapsto> ?r)\<rparr>)"
  have cbs: "lc_callbacks ?lc = (lc_callbacks lc)(addr \<mapsto> ?r)" by (simp add: with_state_def)
  have "registers fd w fileobj addr lc ?lc" unfolding registers_def cbs by (cases w) (auto simp: keepalive_def)
  moreover have "replace_watch fd w (map_of (keepalive w lc) fd) addr ?lc = (Some (Inr (), lc') :: ((('e + loop_core_error) + unit) \<times> loop_core) option)"
    using assms cap by (cases w) (simp_all add: add_writer_def add_reader_def Let_def next_callback_id_def keepalive_def)
  ultimately show ?thesis by blast
qed

text \<open>The other descriptors of a step that keeps their registrations, callbacks and waits.\<close>

lemma watch_ok_frame:
  assumes "watch_ok cur lc fd w" "map_of (keepalive w lc') fd = map_of (keepalive w lc) fd"
    "waits fd w (cur (fd, w)) lc' = waits fd w (cur (fd, w)) lc"
    "\<And>a. lc_callbacks lc a \<noteq> None \<Longrightarrow> lc_callbacks lc' a \<noteq> None"
  shows "watch_ok cur lc' fd w"
  using assms by (auto simp: watch_ok_def split: option.splits)

lemma watch_ok_one_side:
  "watch_ok cur lc fd w \<Longrightarrow> local_wait fd w lc = None \<or> remote_wait fd w (cur (fd, w)) lc = None"
  by (auto simp: watch_ok_def waits_def split: option.splits)

text \<open>C28. Registering a reader or writer leaves exactly one wait for the descriptor, on one side of the
  loop/dispatcher split, for the new callback; the replaced callback is cancelled, every other
  registration keeps its wait, and the one-owner invariant of the registrations is preserved.\<close>

theorem add_watch_arms_one:
  assumes inv: "watch_inv cur lc" and fresh: "lc_callbacks lc addr = None"
    and add: "(if w then add_writer else add_reader) tuple (Inr fd :: 'e + int) copy fileobj callback args addr lc = Some (Inr (), lc')"
  shows "watch_inv cur lc' \<and>
    waits fd w (cur (fd, w)) lc' \<in> {(Some addr, None), (None, Some addr)} \<and>
    map_of (keepalive w lc') fd = Some \<lparr>fw_fileobj = fileobj, fw_ready = addr\<rparr> \<and>
    (\<forall>prev. map_of (keepalive w lc) fd = Some prev \<longrightarrow>
       lc_callbacks lc' (fw_ready prev) = map_option ready_cancel (lc_callbacks lc (fw_ready prev))) \<and>
    (\<forall>fd' w'. (fd', w') \<noteq> (fd, w) \<longrightarrow> waits fd' w' (cur (fd', w')) lc' = waits fd' w' (cur (fd', w')) lc)"
proof -
  obtain lc1 where reg: "registers fd w fileobj addr lc lc1"
    and rw: "replace_watch fd w (map_of (keepalive w lc) fd) addr lc1 = (Some (Inr (), lc') :: ((('e + loop_core_error) + unit) \<times> loop_core) option)"
    using add_watch_registers [OF add] by blast
  have w1: "waits fd' w' c lc1 = waits fd' w' c lc" for fd' w' c
    using reg by (intro waits_cong) (simp_all add: registers_def)
  have ok: "tasks_ok lc1" using inv reg by (simp add: watch_inv_def tasks_ok_def registers_def)
  have wk: "watch_ok cur lc fd' w'" for fd' w' using inv by (simp add: watch_inv_def)
  have pre: "case map_of (keepalive w lc) fd of None \<Rightarrow> waits fd w (cur (fd, w)) lc1 = (None, None)
    | Some prev \<Rightarrow> local_wait fd w lc1 = None \<or> remote_wait fd w (cur (fd, w)) lc1 = None"
    using wk [of fd w] w1 [of fd w "cur (fd, w)"] by (auto simp: watch_ok_def waits_def split: option.splits)
  let ?lc0 = "case map_of (keepalive w lc) fd of None \<Rightarrow> lc1 | Some prev \<Rightarrow> cancel_callback (fw_ready prev) lc1"
  note eff = replace_watch_effect [where cur = cur, OF ok pre rw]
  have fr: "watch_frame cur fd w ?lc0 lc'" and ok': "tasks_ok lc'"
    and arm: "waits fd w (cur (fd, w)) lc' \<in> {(Some addr, None), (None, Some addr)}" using eff by auto
  have st: "lc_state lc' = lc_state lc1" using fr by (simp add: watch_frame_def split: option.splits)
  have ka: "keepalive v lc' = keepalive v lc1" for v by (simp add: keepalive_def st)
  have others: "waits fd' w' (cur (fd', w')) lc' = waits fd' w' (cur (fd', w')) lc" if "(fd', w') \<noteq> (fd, w)" for fd' w'
  proof -
    have "waits fd' w' (cur (fd', w')) ?lc0 = waits fd' w' (cur (fd', w')) lc1"
      by (rule waits_cong) (simp_all split: option.split)
    then show ?thesis using fr that w1 unfolding watch_frame_def by metis
  qed
  have cb: "lc_callbacks lc' = lc_callbacks ?lc0" using fr by (simp add: watch_frame_def)
  have dom: "lc_callbacks lc' a \<noteq> None" if "lc_callbacks lc a \<noteq> None \<or> a = addr" for a
    using that reg unfolding cb by (auto simp: registers_def split: option.splits)
  have reg': "map_of (keepalive w lc') fd = Some \<lparr>fw_fileobj = fileobj, fw_ready = addr\<rparr>"
    using reg by (simp add: ka registers_def update_conv')
  have "watch_ok cur lc' fd' w'" for fd' w'
  proof (cases "(fd', w') = (fd, w)")
    case True
    then show ?thesis using arm reg' dom by (auto simp: watch_ok_def)
  next
    case False
    have "map_of (keepalive w' lc') fd' = map_of (keepalive w' lc) fd'"
      using False reg unfolding ka registers_def by (cases "w' = w") (auto simp: update_conv')
    from watch_ok_frame [OF wk this others [OF False]] dom show ?thesis by blast
  qed
  then have inv': "watch_inv cur lc'" using ok' by (simp add: watch_inv_def)
  have "lc_callbacks lc' (fw_ready prev) = map_option ready_cancel (lc_callbacks lc (fw_ready prev))"
    if "map_of (keepalive w lc) fd = Some prev" for prev
  proof -
    have "fw_ready prev \<noteq> addr" using wk [of fd w] that fresh by (auto simp: watch_ok_def)
    then show ?thesis using reg that unfolding cb by (auto simp: registers_def)
  qed
  then show ?thesis using inv' arm reg' others by blast
qed

lemma watch_inv_new: "watch_inv (\<lambda>_. None) lc_new"
  by (simp add: watch_inv_def tasks_ok_def watch_ok_def waits_def local_wait_def remote_wait_def keepalive_def lc_new_def
      loop_state_new_def sm_new_def)

lemma lc_new_simps:
  "ls_reader_keepalive (lc_ls lc_new) = []" "lc_fd_tasks lc_new = Map.empty" "lc_tls_core lc_new = False"
  "lc_channel_open lc_new = True" "lc_runtime_waker lc_new = False" "lc_callbacks lc_new = Map.empty"
  by (simp_all add: lc_new_def loop_state_new_def sm_new_def)

lemma add_reader_new:
  "\<exists>lc'. add_reader (\<lambda>_. 0) (Inr 5) (Inr 0) 7 8 [] 3 lc_new = Some (Inr (), lc')"
  by (simp add: add_reader_def capture_context_def next_callback_id_def Let_def replace_watch_def lift_loop_error_Inr
      start_fd_watch_def on_runtime_thread_def with_state_def cancel_opt_def lc_new_simps
      local_item_def item_of_command_def send_remote_command_def)

theorem add_watch_arms_one_witness:
  "\<exists>lc'. add_reader (\<lambda>_. 0) (Inr 5 :: nat + int) (Inr 0) 7 8 [] 3 lc_new = Some (Inr (), lc') \<and>
     watch_inv (\<lambda>_. None) lc' \<and> waits 5 False None lc' \<in> {(Some 3, None), (None, Some 3)}"
proof -
  obtain lc' where a: "add_reader (\<lambda>_. 0) (Inr 5 :: nat + int) (Inr 0) 7 8 [] 3 lc_new = Some (Inr (), lc')"
    using add_reader_new by blast
  have "lc_callbacks lc_new 3 = None" by (simp add: lc_new_def)
  from add_watch_arms_one [OF watch_inv_new this, of False "\<lambda>_. 0" 5 "Inr 0" 7 8 "[]" lc'] a show ?thesis by auto
qed

text \<open>Where a removal stops, and what it leaves before the wait is stopped.\<close>

definition stop_key :: "(int \<times> fd_watch) list \<Rightarrow> int \<Rightarrow> nat \<Rightarrow> int" where
  "stop_key watches fd fileobj = (case watch_key watches fd fileobj of Some key \<Rightarrow> key | None \<Rightarrow> fd)"

lemma watch_key_registered: "watch_key watches fd fileobj = Some key \<Longrightarrow> \<exists>watch. map_of watches key = Some watch"
proof (cases "map_of watches fd")
  case None
  assume "watch_key watches fd fileobj = Some key"
  then have "key \<in> fst ` set watches" using None by (auto simp: watch_key_def find_Some_iff in_set_conv_nth intro!: rev_image_eqI)
  then show ?thesis by (auto simp: map_of_eq_None_iff dest: weak_map_of_SomeI)
qed (simp add: watch_key_def)

lemma watch_key_unregistered: "watch_key watches fd fileobj = None \<Longrightarrow> map_of watches fd = None"
  by (simp add: watch_key_def split: if_splits)

lemma remove_watch_stops:
  assumes "(if w then remove_writer else remove_reader) (Inr fd :: 'e + int) fileobj lc = Some (Inr removed, lc')"
  defines "key \<equiv> stop_key (keepalive w lc) fd fileobj"
  shows "\<exists>lc1. stop_fd_watch True key w lc1 = Some (Inr (), lc') \<and> removed = (map_of (keepalive w lc) key \<noteq> None) \<and>
    lc_fd_tasks lc1 = lc_fd_tasks lc \<and> lc_spawned lc1 = lc_spawned lc \<and> lc_channel lc1 = lc_channel lc \<and>
    map_of (keepalive w lc1) = (map_of (keepalive w lc))(key := None) \<and> keepalive (\<not> w) lc1 = keepalive (\<not> w) lc \<and>
    lc_callbacks lc1 = (case map_of (keepalive w lc) key of None \<Rightarrow> lc_callbacks lc
      | Some watch \<Rightarrow> (lc_callbacks lc)(fw_ready watch := map_option ready_cancel (lc_callbacks lc (fw_ready watch))))"
proof (cases "watch_key (keepalive w lc) fd fileobj")
  case None
  have k: "key = fd" "map_of (keepalive w lc) fd = None" using watch_key_unregistered [OF None] None by (auto simp: key_def stop_key_def)
  have "stop_fd_watch True fd w lc = Some (Inr (), lc') \<and> \<not> removed"
    using assms(1) None
    by (cases w) (auto simp: remove_reader_def remove_writer_def keepalive_def Let_def split: option.splits sum.splits prod.splits)
  then show ?thesis using k by (intro exI [of _ lc]) (auto simp: fun_upd_idem)
next
  case (Some k)
  obtain watch where watch: "map_of (keepalive w lc) k = Some watch" using watch_key_registered [OF Some] by blast
  have k: "key = k" using Some by (simp add: key_def stop_key_def)
  let ?u = "\<lambda>s. if w then s\<lparr>ls_writer_keepalive := AList.delete k (ls_writer_keepalive s)\<rparr>
    else s\<lparr>ls_reader_keepalive := AList.delete k (ls_reader_keepalive s)\<rparr>"
  let ?lc = "cancel_callback (fw_ready watch) (with_state ?u lc)"
  have "stop_fd_watch True k w ?lc = Some (Inr (), lc') \<and> removed"
    using assms(1) Some watch
    by (cases w) (auto simp: remove_reader_def remove_writer_def keepalive_def Let_def split: option.splits sum.splits prod.splits)
  moreover have "lc_callbacks (with_state ?u lc) = lc_callbacks lc" by (simp add: with_state_def)
  ultimately show ?thesis
    using watch k by (intro exI [of _ ?lc]) (auto simp: keepalive_def delete_conv')
qed

text \<open>
  Removing a reader or writer, by descriptor or by file object, leaves no wait and no registration
  for the descriptor it was registered under, cancels the registered callback, answers whether there
  was one, touches no other descriptor and preserves the one-owner invariant.\<close>

lemma remove_watch_disarms:
  assumes inv: "watch_inv cur lc"
    and rem: "(if w then remove_writer else remove_reader) (Inr fd :: 'e + int) fileobj lc = Some (Inr removed, lc')"
    and key: "key = stop_key (keepalive w lc) fd fileobj"
  shows "watch_inv cur lc' \<and> waits key w (cur (key, w)) lc' = (None, None) \<and> map_of (keepalive w lc') key = None \<and>
    removed = (map_of (keepalive w lc) key \<noteq> None) \<and>
    (\<forall>watch. map_of (keepalive w lc) key = Some watch \<longrightarrow>
       lc_callbacks lc' (fw_ready watch) = map_option ready_cancel (lc_callbacks lc (fw_ready watch))) \<and>
    (\<forall>fd' w'. (fd', w') \<noteq> (key, w) \<longrightarrow> waits fd' w' (cur (fd', w')) lc' = waits fd' w' (cur (fd', w')) lc \<and>
       map_of (keepalive w' lc') fd' = map_of (keepalive w' lc) fd')"
proof -
  obtain lc1 where st: "stop_fd_watch True key w lc1 = Some (Inr (), lc')" and rm: "removed = (map_of (keepalive w lc) key \<noteq> None)"
    and same: "lc_fd_tasks lc1 = lc_fd_tasks lc" "lc_spawned lc1 = lc_spawned lc" "lc_channel lc1 = lc_channel lc"
    and ka: "map_of (keepalive w lc1) = (map_of (keepalive w lc))(key := None)" "keepalive (\<not> w) lc1 = keepalive (\<not> w) lc"
    and cb: "lc_callbacks lc1 = (case map_of (keepalive w lc) key of None \<Rightarrow> lc_callbacks lc
      | Some watch \<Rightarrow> (lc_callbacks lc)(fw_ready watch := map_option ready_cancel (lc_callbacks lc (fw_ready watch))))"
    using remove_watch_stops [OF rem] unfolding key by blast
  have w1: "waits fd' w' c lc1 = waits fd' w' c lc" for fd' w' c by (rule waits_cong) (simp_all add: same)
  have wk: "watch_ok cur lc fd' w'" for fd' w' using inv by (simp add: watch_inv_def)
  have ok: "tasks_ok lc1" using inv by (simp add: watch_inv_def tasks_ok_def same)
  have "local_wait key w lc1 = None \<or> remote_wait key w (cur (key, w)) lc1 = None"
    using watch_ok_one_side [OF wk] w1 [of key w "cur (key, w)"] by (simp add: waits_def)
  note eff = stop_fd_watch_effect [where cur = cur, OF ok this st]
  have fr: "watch_frame cur key w lc1 lc'" using eff by blast
  have kal: "keepalive v lc' = keepalive v lc1" for v using fr by (simp add: keepalive_def watch_frame_def)
  have others: "waits fd' w' (cur (fd', w')) lc' = waits fd' w' (cur (fd', w')) lc \<and>
    map_of (keepalive w' lc') fd' = map_of (keepalive w' lc) fd'" if "(fd', w') \<noteq> (key, w)" for fd' w'
    using fr that w1 ka unfolding watch_frame_def kal by (cases "w' = w") auto
  have cb': "lc_callbacks lc' = lc_callbacks lc1" using fr by (simp add: watch_frame_def)
  have dom: "lc_callbacks lc a \<noteq> None \<Longrightarrow> lc_callbacks lc' a \<noteq> None" for a
    unfolding cb' cb by (auto split: option.splits)
  have gone: "map_of (keepalive w lc') key = None" by (simp add: kal ka)
  have "watch_ok cur lc' fd' w'" for fd' w'
  proof (cases "(fd', w') = (key, w)")
    case True
    then show ?thesis using gone eff by (simp add: watch_ok_def)
  next
    case False
    then show ?thesis using watch_ok_frame [OF wk, of w' lc' fd'] others dom by blast
  qed
  then have "watch_inv cur lc'" using eff by (simp add: watch_inv_def)
  moreover have "lc_callbacks lc' (fw_ready watch) = map_option ready_cancel (lc_callbacks lc (fw_ready watch))"
    if "map_of (keepalive w lc) key = Some watch" for watch
    unfolding cb' cb that by simp
  ultimately show ?thesis using eff gone rm others by blast
qed

end
