(* ===== verification/Stream_Buffers.thy ===== *)
theory Stream_Buffers
  imports Prelude
begin

section \<open>Buffers of the stream transports (transport/stream/buffers.rs, tuning.rs)\<close>

text \<open>
  Write buffers that keep Python bytes alive or own their storage, the pools that recycle the storage,
  and the read buffer that joins several chunks. A \<open>Vec<u8>\<close> has a capacity; what the allocator makes of
  a request is the parameter \<open>grow\<close> (current capacity, needed length), of which only \<open>n \<le> grow c n\<close> is
  known. \<open>None\<close> is a panic.
\<close>

definition DEFAULT_WRITE_BUFFER_HIGH_WATER :: nat where "DEFAULT_WRITE_BUFFER_HIGH_WATER = 64 * 1024"
definition DEFAULT_WRITE_BUFFER_LOW_WATER :: nat where
  "DEFAULT_WRITE_BUFFER_LOW_WATER = DEFAULT_WRITE_BUFFER_HIGH_WATER div 4"
definition STREAM_READ_BUFFER_SIZE :: nat where "STREAM_READ_BUFFER_SIZE = 16 * 1024"
definition MAX_STREAM_READ_BUFFER_SIZE :: nat where "MAX_STREAM_READ_BUFFER_SIZE = 64 * 1024"
definition READ_BUFFER_POOL_LIMIT :: nat where "READ_BUFFER_POOL_LIMIT = 4"
definition MIN_WRITE_BUFFER_CAPACITY :: nat where "MIN_WRITE_BUFFER_CAPACITY = 256"
definition WRITE_BUFFER_BLOCK_SIZE :: nat where "WRITE_BUFFER_BLOCK_SIZE = 16 * 1024"
definition WRITE_BUFFER_POOL_LIMIT :: nat where
  "WRITE_BUFFER_POOL_LIMIT = DEFAULT_WRITE_BUFFER_HIGH_WATER div WRITE_BUFFER_BLOCK_SIZE + 1"

text \<open>The values the environment may override; the argument is the parsed variable.\<close>

definition positive_usize_or_default :: "nat option \<Rightarrow> nat \<Rightarrow> nat" where
  "positive_usize_or_default v dflt = (case v of Some n \<Rightarrow> if n > 0 then n else dflt | None \<Rightarrow> dflt)"

definition reader_spin_micros :: "nat option \<Rightarrow> nat" where
  "reader_spin_micros v = min (case v of Some n \<Rightarrow> n | None \<Rightarrow> 30) 1000"

subsection \<open>Vectors\<close>

record vec =
  vec_cap :: nat
  vec_data :: bytes

definition vec_empty :: vec where "vec_empty = \<lparr>vec_cap = 0, vec_data = []\<rparr>"

definition vec_with_capacity :: "(nat \<Rightarrow> nat \<Rightarrow> nat) \<Rightarrow> nat \<Rightarrow> vec" where
  "vec_with_capacity grow n = \<lparr>vec_cap = (if n = 0 then 0 else grow 0 n), vec_data = []\<rparr>"

definition vec_reserve :: "(nat \<Rightarrow> nat \<Rightarrow> nat) \<Rightarrow> nat \<Rightarrow> vec \<Rightarrow> vec" where
  "vec_reserve grow n v =
     (let need = length (vec_data v) + n in if vec_cap v < need then v\<lparr>vec_cap := grow (vec_cap v) need\<rparr> else v)"

definition vec_extend :: "(nat \<Rightarrow> nat \<Rightarrow> nat) \<Rightarrow> bytes \<Rightarrow> vec \<Rightarrow> vec" where
  "vec_extend grow d v = (vec_reserve grow (length d) v)\<lparr>vec_data := vec_data v @ d\<rparr>"

definition vec_clear :: "vec \<Rightarrow> vec" where "vec_clear v = v\<lparr>vec_data := []\<rparr>"

definition vec_ok :: "vec \<Rightarrow> bool" where "vec_ok v \<longleftrightarrow> length (vec_data v) \<le> vec_cap v"

lemma vec_data_simps [simp]:
  "vec_data vec_empty = []" "vec_data (vec_with_capacity grow n) = []" "vec_data (vec_reserve grow n v) = vec_data v"
  "vec_data (vec_extend grow d v) = vec_data v @ d" "vec_data (vec_clear v) = []"
  by (simp_all add: vec_empty_def vec_with_capacity_def vec_reserve_def Let_def vec_extend_def vec_clear_def)

subsection \<open>Pools\<close>

definition retain_write_buffer :: "nat \<Rightarrow> bool" where
  "retain_write_buffer capacity \<longleftrightarrow> capacity \<le> DEFAULT_WRITE_BUFFER_HIGH_WATER"

definition retain_read_buffer :: "nat \<Rightarrow> bool" where
  "retain_read_buffer capacity \<longleftrightarrow> capacity \<le> MAX_STREAM_READ_BUFFER_SIZE"

datatype pool_acquire_kind = Reuse | Allocate | Fallback | Unavailable

datatype pool_release_kind = Store | Discard

definition pool_acquire :: "nat \<Rightarrow> nat \<Rightarrow> nat \<Rightarrow> bool \<Rightarrow> pool_acquire_kind" where
  "pool_acquire available allocated limit allow_fallback =
     (if available > 0 then Reuse
      else if allocated < limit then Allocate
      else if allow_fallback then Fallback
      else Unavailable)"

definition pool_release :: "bool \<Rightarrow> nat \<Rightarrow> nat \<Rightarrow> pool_release_kind" where
  "pool_release retain available limit = (if retain \<and> available < limit then Store else Discard)"

record pool_state =
  ps_buffers :: "vec list"
  ps_allocated :: nat

definition pool_state_new :: pool_state where
  "pool_state_new = \<lparr>ps_buffers = [], ps_allocated = 0\<rparr>"

definition pool_pop :: "pool_state \<Rightarrow> (vec \<times> pool_state) option" where
  "pool_pop st = (if ps_buffers st = [] then None else Some (last (ps_buffers st), st\<lparr>ps_buffers := butlast (ps_buffers st)\<rparr>))"

text \<open>\<open>WriteBufferPoolState::acquire\<close>: the buffer, whether it belongs to the pool, allocations, fallback.\<close>

definition write_acquire ::
    "(nat \<Rightarrow> nat \<Rightarrow> nat) \<Rightarrow> nat \<Rightarrow> pool_state \<Rightarrow> ((vec \<times> bool \<times> nat \<times> bool) \<times> pool_state) option" where
  "write_acquire grow capacity st = do {
     ((buffer, pooled, allocation_events, fallback), st1) \<leftarrow>
       (case pool_acquire (length (ps_buffers st)) (ps_allocated st) WRITE_BUFFER_POOL_LIMIT True of
          Reuse \<Rightarrow> map_option (\<lambda>(b, st1). ((b, True, 0, False), st1)) (pool_pop st)
        | Allocate \<Rightarrow>
            Some ((vec_with_capacity grow (max capacity MIN_WRITE_BUFFER_CAPACITY), True, 1, False),
                  st\<lparr>ps_allocated := ps_allocated st + 1\<rparr>)
        | Fallback \<Rightarrow> Some ((vec_with_capacity grow capacity, False, 0, True), st)
        | Unavailable \<Rightarrow> None);
     let buffer1 = vec_clear buffer;
     if vec_cap buffer1 < capacity
     then Some ((vec_reserve grow capacity buffer1, pooled, allocation_events + 1, fallback), st1)
     else Some ((buffer1, pooled, allocation_events, fallback), st1)
   }"

definition write_release :: "vec \<Rightarrow> pool_state \<Rightarrow> pool_state" where
  "write_release buffer st =
     (case pool_release (retain_write_buffer (vec_cap buffer)) (length (ps_buffers st)) WRITE_BUFFER_POOL_LIMIT of
        Store \<Rightarrow> st\<lparr>ps_buffers := ps_buffers st @ [vec_clear buffer]\<rparr>
      | Discard \<Rightarrow> st\<lparr>ps_allocated := ps_allocated st - 1\<rparr>)"

definition read_try_acquire :: "(nat \<Rightarrow> nat \<Rightarrow> nat) \<Rightarrow> nat \<Rightarrow> pool_state \<Rightarrow> ((vec option \<times> nat) \<times> pool_state) option" where
  "read_try_acquire grow capacity st =
     (case pool_acquire (length (ps_buffers st)) (ps_allocated st) READ_BUFFER_POOL_LIMIT False of
        Unavailable \<Rightarrow> Some ((None, 0), st)
      | Fallback \<Rightarrow> None
      | k \<Rightarrow> do {
          (buffer, allocation_events, st1) \<leftarrow>
            (if k = Reuse then map_option (\<lambda>(b, st1). (b, 0, st1)) (pool_pop st)
             else Some (vec_with_capacity grow capacity, 1, st\<lparr>ps_allocated := ps_allocated st + 1\<rparr>));
          let buffer1 = vec_clear buffer;
          if vec_cap buffer1 < capacity
          then Some ((Some (vec_reserve grow capacity buffer1), allocation_events + 1), st1)
          else Some ((Some buffer1, allocation_events), st1)
        })"

definition read_release :: "vec \<Rightarrow> pool_state \<Rightarrow> pool_state" where
  "read_release buffer st =
     (case pool_release (retain_read_buffer (vec_cap buffer)) (length (ps_buffers st)) READ_BUFFER_POOL_LIMIT of
        Store \<Rightarrow> st\<lparr>ps_buffers := ps_buffers st @ [vec_clear buffer]\<rparr>
      | Discard \<Rightarrow> st\<lparr>ps_allocated := ps_allocated st - 1\<rparr>)"

definition has_available :: "pool_state \<Rightarrow> bool" where
  "has_available st \<longleftrightarrow> ps_buffers st \<noteq> [] \<or> ps_allocated st < READ_BUFFER_POOL_LIMIT"

subsection \<open>Write buffers\<close>

text \<open>\<open>ob_pool\<close>: the buffer holds a reference to the transport's write pool.\<close>

record owned_write_buffer =
  ob_bytes :: vec
  ob_python :: "bytes option"
  ob_offset :: nat
  ob_pool :: bool

definition from_python :: "bytes \<Rightarrow> owned_write_buffer" where
  "from_python data = \<lparr>ob_bytes = vec_empty, ob_python = Some data, ob_offset = 0, ob_pool = False\<rparr>"

definition with_pooled_capacity :: "(nat \<Rightarrow> nat \<Rightarrow> nat) \<Rightarrow> nat \<Rightarrow> pool_state \<Rightarrow> (owned_write_buffer \<times> pool_state) option" where
  "with_pooled_capacity grow capacity pool = do {
     ((buffer, pooled, _, _), pool1) \<leftarrow> write_acquire grow capacity pool;
     Some (\<lparr>ob_bytes = buffer, ob_python = None, ob_offset = 0, ob_pool = pooled\<rparr>, pool1)
   }"

text \<open>The bytes a buffer refers to, and those not yet sent.\<close>

definition ob_source :: "owned_write_buffer \<Rightarrow> bytes" where
  "ob_source b = (case ob_python b of Some data \<Rightarrow> data | None \<Rightarrow> vec_data (ob_bytes b))"

definition remaining :: "owned_write_buffer \<Rightarrow> bytes option" where
  "remaining b = (if ob_offset b \<le> length (ob_source b) then Some (drop (ob_offset b) (ob_source b)) else None)"

definition ob_len :: "owned_write_buffer \<Rightarrow> nat option" where
  "ob_len b = map_option length (remaining b)"

definition ob_is_empty :: "owned_write_buffer \<Rightarrow> bool option" where
  "ob_is_empty b = map_option (\<lambda>r. r = []) (remaining b)"

definition advance :: "nat \<Rightarrow> owned_write_buffer \<Rightarrow> owned_write_buffer" where
  "advance written b = b\<lparr>ob_offset := ob_offset b + written\<rparr>"

text \<open>Slicing \<open>bytes[offset..]\<close> (and the subtraction before it) panics when the offset is past the end.\<close>

definition extend_from_slice :: "(nat \<Rightarrow> nat \<Rightarrow> nat) \<Rightarrow> bytes \<Rightarrow> owned_write_buffer \<Rightarrow> owned_write_buffer option" where
  "extend_from_slice grow data b =
     (case ob_python b of
        Some py \<Rightarrow>
          if ob_offset b \<le> length py then
            let v = vec_reserve grow (length py - ob_offset b + length data) (ob_bytes b);
                v1 = vec_extend grow (drop (ob_offset b) py) v
            in Some (b\<lparr>ob_python := None, ob_bytes := vec_extend grow data v1, ob_offset := 0\<rparr>)
          else None
      | None \<Rightarrow> Some (b\<lparr>ob_bytes := vec_extend grow data (ob_bytes b)\<rparr>))"

definition extend_from_slice_pooled ::
    "(nat \<Rightarrow> nat \<Rightarrow> nat) \<Rightarrow> bytes \<Rightarrow> owned_write_buffer \<Rightarrow> pool_state \<Rightarrow> (owned_write_buffer \<times> pool_state) option" where
  "extend_from_slice_pooled grow data b pool =
     (case ob_python b of
        Some py \<Rightarrow>
          if ob_offset b \<le> length py then do {
            ((allocated, pooled, _, _), pool1) \<leftarrow> write_acquire grow (length py - ob_offset b + length data) pool;
            let v = vec_extend grow (drop (ob_offset b) py) allocated;
            Some (b\<lparr>ob_python := None, ob_bytes := vec_extend grow data v, ob_pool := pooled, ob_offset := 0\<rparr>, pool1)
          } else None
      | None \<Rightarrow> Some (b\<lparr>ob_bytes := vec_extend grow data (ob_bytes b)\<rparr>, pool))"

definition can_append :: "nat \<Rightarrow> nat \<Rightarrow> nat \<Rightarrow> bool" where
  "can_append offset current_len incoming_len \<longleftrightarrow>
     offset = 0 \<and> current_len \<le> DEFAULT_WRITE_BUFFER_HIGH_WATER
     \<and> incoming_len \<le> DEFAULT_WRITE_BUFFER_HIGH_WATER - current_len"

definition try_append :: "(nat \<Rightarrow> nat \<Rightarrow> nat) \<Rightarrow> bytes \<Rightarrow> owned_write_buffer \<Rightarrow> (bool \<times> owned_write_buffer) option" where
  "try_append grow data b = do {
     n \<leftarrow> ob_len b;
     if \<not> can_append (ob_offset b) n (length data) then Some (False, b)
     else map_option (Pair True) (extend_from_slice grow data b)
   }"

text \<open>Dropping a write buffer returns pooled storage.\<close>

definition write_buffer_drop :: "owned_write_buffer \<Rightarrow> pool_state \<Rightarrow> pool_state" where
  "write_buffer_drop b pool = (if ob_pool b then write_release (ob_bytes b) pool else pool)"

subsection \<open>Read buffers\<close>

record owned_read_buffer =
  or_bytes :: vec
  or_pool :: bool

definition or_with_capacity :: "(nat \<Rightarrow> nat \<Rightarrow> nat) \<Rightarrow> nat \<Rightarrow> owned_read_buffer" where
  "or_with_capacity grow capacity = \<lparr>or_bytes = vec_with_capacity grow capacity, or_pool = False\<rparr>"

definition or_from_pooled :: "vec \<Rightarrow> owned_read_buffer" where
  "or_from_pooled v = \<lparr>or_bytes = v, or_pool = True\<rparr>"

subsection \<open>Write buffers keep their bytes\<close>

text \<open>The offset is in range, and a buffer that refers to Python bytes has no bytes of its own.\<close>

definition ob_ok :: "owned_write_buffer \<Rightarrow> bool" where
  "ob_ok b \<longleftrightarrow> ob_offset b \<le> length (ob_source b) \<and> (ob_python b \<noteq> None \<longrightarrow> vec_data (ob_bytes b) = [])"

definition ob_rest :: "owned_write_buffer \<Rightarrow> bytes" where
  "ob_rest b = drop (ob_offset b) (ob_source b)"

lemma remaining_ok [simp]: "ob_ok b \<Longrightarrow> remaining b = Some (ob_rest b)"
  by (simp add: remaining_def ob_ok_def ob_rest_def)

lemma ob_len_ok [simp]: "ob_ok b \<Longrightarrow> ob_len b = Some (length (ob_rest b))"
  by (simp add: ob_len_def)

lemma ob_is_empty_ok [simp]: "ob_ok b \<Longrightarrow> ob_is_empty b = Some (ob_rest b = [])"
  by (simp add: ob_is_empty_def)

lemma from_python_rest [simp]: "ob_rest (from_python d) = d" "ob_ok (from_python d)" "\<not> ob_pool (from_python d)"
  by (simp_all add: from_python_def ob_rest_def ob_source_def ob_ok_def)

lemma advance_rest [simp]:
  "ob_rest (advance n b) = drop n (ob_rest b)" "ob_ok b \<Longrightarrow> n \<le> length (ob_rest b) \<Longrightarrow> ob_ok (advance n b)"
proof -
  have [simp]: "ob_source (advance n b) = ob_source b" "ob_python (advance n b) = ob_python b" "ob_bytes (advance n b) = ob_bytes b"
    "ob_offset (advance n b) = ob_offset b + n"
    by (simp_all add: advance_def ob_source_def cong: option.case_cong)
  show "ob_rest (advance n b) = drop n (ob_rest b)" by (simp add: ob_rest_def add.commute)
  show "ob_ok b \<Longrightarrow> n \<le> length (ob_rest b) \<Longrightarrow> ob_ok (advance n b)" by (auto simp: ob_rest_def ob_ok_def)
qed

lemma write_acquire_Some:
  "\<exists>v pooled e f pool1. write_acquire grow n pool = Some ((v, pooled, e, f), pool1) \<and> vec_data v = []"
  by (auto simp: write_acquire_def pool_acquire_def pool_pop_def Let_def)

lemma extend_from_slice_ok:
  assumes "ob_ok b"
  shows "\<exists>b'. extend_from_slice grow d b = Some b' \<and> ob_ok b' \<and> ob_rest b' = ob_rest b @ d"
  using assms by (auto simp: extend_from_slice_def ob_ok_def ob_source_def ob_rest_def Let_def split: option.splits)

lemma extend_from_slice_pooled_ok:
  assumes "ob_ok b"
  shows "\<exists>b' pool'. extend_from_slice_pooled grow d b pool = Some (b', pool') \<and> ob_ok b' \<and> ob_rest b' = ob_rest b @ d"
proof (cases "ob_python b")
  case None
  then show ?thesis using assms by (auto simp: extend_from_slice_pooled_def ob_ok_def ob_source_def ob_rest_def)
next
  case (Some py)
  obtain v pooled e f pool1 where
    w: "write_acquire grow (length py - ob_offset b + length d) pool = Some ((v, pooled, e, f), pool1)" "vec_data v = []"
    using write_acquire_Some by blast
  have off: "ob_offset b \<le> length py" using assms Some by (simp add: ob_ok_def ob_source_def)
  let ?b = "b\<lparr>ob_python := None, ob_bytes := vec_extend grow d (vec_extend grow (drop (ob_offset b) py) v), ob_pool := pooled, ob_offset := 0\<rparr>"
  have "extend_from_slice_pooled grow d b pool = Some (?b, pool1)"
    by (simp only: extend_from_slice_pooled_def Some option.case off if_True w(1) Option.bind.bind_lunit prod.case Let_def)
  moreover have "ob_ok ?b" "ob_rest ?b = ob_rest b @ d" using w(2) Some by (simp_all add: ob_ok_def ob_source_def ob_rest_def)
  ultimately show ?thesis by blast
qed

lemma with_pooled_capacity_ok:
  "\<exists>b pool'. with_pooled_capacity grow n pool = Some (b, pool') \<and> ob_ok b \<and> ob_rest b = []"
proof -
  obtain v pooled e f pool1 where "write_acquire grow n pool = Some ((v, pooled, e, f), pool1)" "vec_data v = []"
    using write_acquire_Some by blast
  then show ?thesis by (simp add: with_pooled_capacity_def ob_ok_def ob_source_def ob_rest_def)
qed

lemma try_append_ok:
  assumes "ob_ok b"
  shows "\<exists>acc b'. try_append grow d b = Some (acc, b') \<and> ob_ok b' \<and> ob_rest b' = (if acc then ob_rest b @ d else ob_rest b)
    \<and> (acc \<longrightarrow> ob_offset b = 0 \<and> length (ob_rest b') \<le> DEFAULT_WRITE_BUFFER_HIGH_WATER) \<and> (\<not> acc \<longrightarrow> b' = b)"
proof (cases "can_append (ob_offset b) (length (ob_rest b)) (length d)")
  case True
  obtain b' where "extend_from_slice grow d b = Some b'" "ob_ok b'" "ob_rest b' = ob_rest b @ d"
    using extend_from_slice_ok [OF assms] by blast
  moreover from this have "try_append grow d b = Some (True, b')" using True assms by (simp add: try_append_def)
  moreover have "ob_offset b = 0" "length (ob_rest b) + length d \<le> DEFAULT_WRITE_BUFFER_HIGH_WATER"
    using True unfolding can_append_def by linarith+
  ultimately show ?thesis by (intro exI [of _ True] exI [of _ b']) simp
next
  case False
  then have "try_append grow d b = Some (False, b)" using assms by (simp add: try_append_def)
  then show ?thesis using assms by (intro exI [of _ False] exI [of _ b]) simp
qed

subsection \<open>Pools keep account of their slots\<close>

text \<open>
  A history of a pool: acquisitions (with the capacity asked for) and releases of buffers acquired from
  it earlier, in any order and with any content. \<open>held\<close> are the pooled buffers that are out.
\<close>

datatype pool_op = Acquire nat | Release nat vec

definition pool_run_op ::
    "(nat \<Rightarrow> pool_state \<Rightarrow> ((vec \<times> bool) option \<times> pool_state) option) \<Rightarrow> (vec \<Rightarrow> pool_state \<Rightarrow> pool_state)
      \<Rightarrow> pool_op \<Rightarrow> vec list \<times> pool_state \<Rightarrow> (vec list \<times> pool_state) option" where
  "pool_run_op acquire release op s =
     (case s of (held, st) \<Rightarrow>
        (case op of
           Acquire n \<Rightarrow>
             (case acquire n st of
                None \<Rightarrow> None
              | Some (Some (v, True), st1) \<Rightarrow> Some (held @ [v], st1)
              | Some (_, st1) \<Rightarrow> Some (held, st1))
         | Release i v \<Rightarrow>
             if i < length held then Some (take i held @ drop (Suc i) held, release v st) else Some (held, st)))"

fun pool_run ::
    "(nat \<Rightarrow> pool_state \<Rightarrow> ((vec \<times> bool) option \<times> pool_state) option) \<Rightarrow> (vec \<Rightarrow> pool_state \<Rightarrow> pool_state)
      \<Rightarrow> pool_op list \<Rightarrow> vec list \<times> pool_state \<Rightarrow> (vec list \<times> pool_state) option" where
  "pool_run acquire release [] s = Some s"
| "pool_run acquire release (op # ops) s = Option.bind (pool_run_op acquire release op s) (pool_run acquire release ops)"

definition write_pool_acquire :: "(nat \<Rightarrow> nat \<Rightarrow> nat) \<Rightarrow> nat \<Rightarrow> pool_state \<Rightarrow> ((vec \<times> bool) option \<times> pool_state) option" where
  "write_pool_acquire grow n st = map_option (\<lambda>((v, pooled, _, _), st1). (Some (v, pooled), st1)) (write_acquire grow n st)"

definition read_pool_acquire :: "(nat \<Rightarrow> nat \<Rightarrow> nat) \<Rightarrow> nat \<Rightarrow> pool_state \<Rightarrow> ((vec \<times> bool) option \<times> pool_state) option" where
  "read_pool_acquire grow n st =
     map_option (\<lambda>((v, _), st1). (map_option (\<lambda>v. (v, True)) v, st1)) (read_try_acquire grow n st)"

locale buffer_pool =
  fixes acquire :: "nat \<Rightarrow> pool_state \<Rightarrow> ((vec \<times> bool) option \<times> pool_state) option"
    and release :: "vec \<Rightarrow> pool_state \<Rightarrow> pool_state"
    and limit :: nat
  assumes acquire_total: "\<exists>r st1. acquire n st = Some (r, st1)"
    and acquire_slots: "acquire n st = Some (r, st1) \<Longrightarrow>
      (if (\<exists>v. r = Some (v, True))
       then (ps_buffers st \<noteq> [] \<and> length (ps_buffers st) = Suc (length (ps_buffers st1)) \<and> ps_allocated st1 = ps_allocated st
         \<or> ps_buffers st = [] \<and> ps_buffers st1 = [] \<and> ps_allocated st1 = Suc (ps_allocated st) \<and> ps_allocated st < limit)
       else st1 = st \<and> ps_buffers st = [] \<and> limit \<le> ps_allocated st)"
    and release_slots: "(length (ps_buffers (release v st)) = Suc (length (ps_buffers st)) \<and> ps_allocated (release v st) = ps_allocated st
         \<or> ps_buffers (release v st) = ps_buffers st \<and> ps_allocated (release v st) = ps_allocated st - 1)"
begin

definition slots_ok :: "vec list \<times> pool_state \<Rightarrow> bool" where
  "slots_ok s \<longleftrightarrow> length (ps_buffers (snd s)) + length (fst s) = ps_allocated (snd s) \<and> ps_allocated (snd s) \<le> limit"

lemma run_op_ok:
  assumes "slots_ok s"
  shows "\<exists>s'. pool_run_op acquire release op s = Some s' \<and> slots_ok s'"
proof (cases s)
  case (Pair held st)
  show ?thesis
  proof (cases op)
    case (Acquire n)
    obtain r st1 where a: "acquire n st = Some (r, st1)" using acquire_total by blast
    then show ?thesis
      using acquire_slots [OF a] assms Acquire Pair
      by (cases r) (auto simp: pool_run_op_def slots_ok_def split: if_splits bool.splits)
  next
    case (Release i v)
    then show ?thesis
      using release_slots [of v st] assms Pair by (auto simp: pool_run_op_def slots_ok_def)
  qed
qed

lemma run_ok: "slots_ok s \<Longrightarrow> \<exists>s'. pool_run acquire release ops s = Some s' \<and> slots_ok s'"
proof (induction ops arbitrary: s)
  case (Cons op ops)
  then show ?case using run_op_ok [OF Cons.prems, of op] by fastforce
qed simp

end

lemma pool_pop_Some: "ps_buffers st \<noteq> [] \<Longrightarrow> pool_pop st = Some (last (ps_buffers st), st\<lparr>ps_buffers := butlast (ps_buffers st)\<rparr>)"
  by (simp add: pool_pop_def)

lemmas pool_defs = write_pool_acquire_def write_acquire_def read_pool_acquire_def read_try_acquire_def pool_acquire_def
  write_release_def read_release_def pool_release_def

interpretation write_pool: buffer_pool "write_pool_acquire grow" write_release WRITE_BUFFER_POOL_LIMIT for grow
proof unfold_locales
  fix n st r st1 v
  show "\<exists>r st1. write_pool_acquire grow n st = Some (r, st1)"
    using write_acquire_Some [of grow n st] by (auto simp: write_pool_acquire_def)
  show "if \<exists>v. r = Some (v, True)
    then ps_buffers st \<noteq> [] \<and> length (ps_buffers st) = Suc (length (ps_buffers st1)) \<and> ps_allocated st1 = ps_allocated st
      \<or> ps_buffers st = [] \<and> ps_buffers st1 = [] \<and> ps_allocated st1 = Suc (ps_allocated st) \<and> ps_allocated st < WRITE_BUFFER_POOL_LIMIT
    else st1 = st \<and> ps_buffers st = [] \<and> WRITE_BUFFER_POOL_LIMIT \<le> ps_allocated st"
    if "write_pool_acquire grow n st = Some (r, st1)"
    using that by (cases "ps_buffers st = []") (auto simp: pool_defs pool_pop_Some Let_def split: if_splits)
  show "length (ps_buffers (write_release v st)) = Suc (length (ps_buffers st)) \<and> ps_allocated (write_release v st) = ps_allocated st
    \<or> ps_buffers (write_release v st) = ps_buffers st \<and> ps_allocated (write_release v st) = ps_allocated st - 1"
    by (simp add: pool_defs)
qed

interpretation read_pool: buffer_pool "read_pool_acquire grow" read_release READ_BUFFER_POOL_LIMIT for grow
proof unfold_locales
  fix n st r st1 v
  show "\<exists>r st1. read_pool_acquire grow n st = Some (r, st1)"
    by (cases "ps_buffers st = []") (auto simp: pool_defs pool_pop_Some Let_def)
  show "if \<exists>v. r = Some (v, True)
    then ps_buffers st \<noteq> [] \<and> length (ps_buffers st) = Suc (length (ps_buffers st1)) \<and> ps_allocated st1 = ps_allocated st
      \<or> ps_buffers st = [] \<and> ps_buffers st1 = [] \<and> ps_allocated st1 = Suc (ps_allocated st) \<and> ps_allocated st < READ_BUFFER_POOL_LIMIT
    else st1 = st \<and> ps_buffers st = [] \<and> READ_BUFFER_POOL_LIMIT \<le> ps_allocated st"
    if "read_pool_acquire grow n st = Some (r, st1)"
    using that by (cases "ps_buffers st = []") (auto simp: pool_defs pool_pop_Some Let_def split: if_splits)
  show "length (ps_buffers (read_release v st)) = Suc (length (ps_buffers st)) \<and> ps_allocated (read_release v st) = ps_allocated st
    \<or> ps_buffers (read_release v st) = ps_buffers st \<and> ps_allocated (read_release v st) = ps_allocated st - 1"
    by (simp add: pool_defs)
qed

lemma reserve_room:
  assumes "\<And>c n. n \<le> grow c n" "vec_data v = []"
  shows "n \<le> vec_cap (if vec_cap v < n then vec_reserve grow n v else v)"
  using assms by (simp add: vec_reserve_def Let_def)

lemma acquire_room:
  assumes "\<And>c n. n \<le> grow c n"
    and "write_pool_acquire grow n st = Some (Some (v, pooled), st1) \<or> read_pool_acquire grow n st = Some (Some (v, pooled), st1)"
  shows "vec_data v = [] \<and> n \<le> vec_cap v"
  using assms(2) reserve_room [OF assms(1), where v = "vec_clear _"]
  by (cases "ps_buffers st = []") (auto simp: pool_defs pool_pop_Some Let_def vec_reserve_def assms(1) split: if_splits)

text \<open>C37. A pool never owns more slots than its limit, whatever is acquired and released: the stored
  buffers and the pooled buffers that are out together are exactly the slots it counts. An acquisition
  never panics, and what it hands out is empty and has the room that was asked for.\<close>

theorem pools_bounded:
  assumes "\<And>c n. n \<le> grow c n"
  shows "(\<exists>held st. pool_run (write_pool_acquire grow) write_release ops ([], pool_state_new) = Some (held, st)
      \<and> length (ps_buffers st) + length held = ps_allocated st \<and> ps_allocated st \<le> WRITE_BUFFER_POOL_LIMIT) \<and>
    (\<exists>held st. pool_run (read_pool_acquire grow) read_release ops ([], pool_state_new) = Some (held, st)
      \<and> length (ps_buffers st) + length held = ps_allocated st \<and> ps_allocated st \<le> READ_BUFFER_POOL_LIMIT) \<and>
    (\<forall>n st v pooled st1. write_pool_acquire grow n st = Some (Some (v, pooled), st1)
        \<or> read_pool_acquire grow n st = Some (Some (v, pooled), st1)
      \<longrightarrow> vec_data v = [] \<and> n \<le> vec_cap v)"
proof -
  have "write_pool.slots_ok ([], pool_state_new)" "read_pool.slots_ok ([], pool_state_new)"
    by (simp_all add: write_pool.slots_ok_def read_pool.slots_ok_def pool_state_new_def)
  from write_pool.run_ok [OF this(1), of grow ops] read_pool.run_ok [OF this(2), of grow ops] acquire_room [OF assms]
  show ?thesis unfolding write_pool.slots_ok_def read_pool.slots_ok_def by fastforce
qed

theorem pools_bounded_witness:
  "\<exists>held st. pool_run (read_pool_acquire (\<lambda>c n. n)) read_release [Acquire 10, Acquire 20, Release 0 vec_empty] ([], pool_state_new)
    = Some (held, st) \<and> ps_allocated st \<le> READ_BUFFER_POOL_LIMIT"
  using pools_bounded [of "\<lambda>c n. n" "[Acquire 10, Acquire 20, Release 0 vec_empty]"] by auto

subsection \<open>Waiting for a read buffer\<close>

text \<open>
  \<open>ReadBufferPool\<close>: the slots, the closed flag and the waker of the one asynchronous reader. \<open>release\<close> and
  \<open>close\<close> are split where the lock is released: the flag returned by \<open>rb_release_locked\<close> says whether
  \<open>notify_all\<close> follows.
\<close>

record read_buffer_pool =
  rb_state :: pool_state
  rb_closed :: bool
  rb_waker :: bool

definition read_buffer_pool_new :: read_buffer_pool where
  "read_buffer_pool_new = \<lparr>rb_state = pool_state_new, rb_closed = False, rb_waker = False\<rparr>"

definition rb_try_acquire :: "(nat \<Rightarrow> nat \<Rightarrow> nat) \<Rightarrow> nat \<Rightarrow> read_buffer_pool \<Rightarrow> (vec option \<times> read_buffer_pool) option" where
  "rb_try_acquire grow capacity p =
     map_option (\<lambda>((v, _), st). (v, p\<lparr>rb_state := st\<rparr>)) (read_try_acquire grow capacity (rb_state p))"

definition rb_release_locked :: "vec \<Rightarrow> read_buffer_pool \<Rightarrow> bool \<times> read_buffer_pool" where
  "rb_release_locked buffer p =
     (let was_exhausted = (ps_buffers (rb_state p) = [] \<and> ps_allocated (rb_state p) \<ge> READ_BUFFER_POOL_LIMIT)
      in (was_exhausted, p\<lparr>rb_state := read_release buffer (rb_state p)\<rparr>))"

text \<open>Waking tells whether a registered task was notified.\<close>

definition rb_notify_all :: "read_buffer_pool \<Rightarrow> bool \<times> read_buffer_pool" where
  "rb_notify_all p = (rb_waker p, p\<lparr>rb_waker := False\<rparr>)"

definition rb_release :: "vec \<Rightarrow> read_buffer_pool \<Rightarrow> bool \<times> read_buffer_pool" where
  "rb_release buffer p =
     (case rb_release_locked buffer p of (was_exhausted, p1) \<Rightarrow> if was_exhausted then rb_notify_all p1 else (False, p1))"

definition read_buffer_drop :: "owned_read_buffer \<Rightarrow> read_buffer_pool \<Rightarrow> read_buffer_pool" where
  "read_buffer_drop b pool = (if or_pool b then snd (rb_release (or_bytes b) pool) else pool)"

text \<open>
  \<open>PendingReadBuffer\<close> joins chunks in the transport's coalescing buffer \<open>home\<close>; until a second chunk
  comes it keeps the first one where it is.
\<close>

record pending_read_buffer =
  pb_bytes :: vec
  pb_pool :: bool

definition pb_from_pooled :: "vec \<Rightarrow> pending_read_buffer" where
  "pb_from_pooled v = \<lparr>pb_bytes = v, pb_pool = True\<rparr>"

definition pb_extend ::
    "(nat \<Rightarrow> nat \<Rightarrow> nat) \<Rightarrow> bytes \<Rightarrow> pending_read_buffer \<Rightarrow> vec \<times> read_buffer_pool \<Rightarrow> pending_read_buffer \<times> vec \<times> read_buffer_pool" where
  "pb_extend grow data b s =
     (case s of (home, pool) \<Rightarrow>
        if pb_pool b then
          let joined = vec_extend grow (vec_data (pb_bytes b)) (vec_clear home)
          in (\<lparr>pb_bytes = vec_extend grow data joined, pb_pool = False\<rparr>, vec_empty, snd (rb_release (pb_bytes b) pool))
        else (b\<lparr>pb_bytes := vec_extend grow data (pb_bytes b)\<rparr>, home, pool))"

text \<open>\<open>free\<close>: the coalescing buffer's lock could be taken.\<close>

definition pb_drop :: "bool \<Rightarrow> pending_read_buffer \<Rightarrow> vec \<times> read_buffer_pool \<Rightarrow> vec \<times> read_buffer_pool" where
  "pb_drop free b s =
     (case s of (home, pool) \<Rightarrow>
        if pb_pool b then (home, snd (rb_release (pb_bytes b) pool))
        else ((if free then vec_clear (pb_bytes b) else home), pool))"

definition rb_close :: "read_buffer_pool \<Rightarrow> bool \<times> read_buffer_pool" where
  "rb_close p = rb_notify_all (p\<lparr>rb_closed := True\<rparr>)"

definition rb_ready :: "read_buffer_pool \<Rightarrow> bool" where
  "rb_ready p \<longleftrightarrow> rb_closed p \<or> has_available (rb_state p)"

text \<open>One poll of \<open>wait_async\<close>: \<open>True\<close> is \<open>Ready\<close>.\<close>

definition wait_async_poll :: "read_buffer_pool \<Rightarrow> bool \<times> read_buffer_pool" where
  "wait_async_poll p = (if rb_ready p then (True, p) else let p1 = p\<lparr>rb_waker := True\<rparr> in (rb_ready p1, p1))"

datatype wait_pc = WIdle | WCheck1 | WRegister | WCheck2 | WParked

record pool_wait =
  pw_pool :: read_buffer_pool
  pw_pc :: wait_pc
  pw_held :: nat
  pw_notified :: bool
  pw_waking :: nat

definition pool_wait_init :: "pool_wait \<Rightarrow> bool" where
  "pool_wait_init s \<longleftrightarrow> s = \<lparr>pw_pool = read_buffer_pool_new, pw_pc = WIdle, pw_held = 0, pw_notified = False, pw_waking = 0\<rparr>"

text \<open>Any thread may acquire, release what is out, or close; the reader waits.\<close>

inductive pool_wait_step :: "(nat \<Rightarrow> nat \<Rightarrow> nat) \<Rightarrow> pool_wait \<Rightarrow> pool_wait \<Rightarrow> bool" for grow where
  acquire: "rb_try_acquire grow n (pw_pool s) = Some (Some v, p)
    \<Longrightarrow> pool_wait_step grow s (s\<lparr>pw_pool := p, pw_held := Suc (pw_held s)\<rparr>)"
| release: "pw_held s = Suc n \<Longrightarrow> rb_release_locked v (pw_pool s) = (b, p)
    \<Longrightarrow> pool_wait_step grow s (s\<lparr>pw_pool := p, pw_held := n, pw_waking := pw_waking s + of_bool b\<rparr>)"
| close: "pool_wait_step grow s (s\<lparr>pw_pool := (pw_pool s)\<lparr>rb_closed := True\<rparr>, pw_waking := Suc (pw_waking s)\<rparr>)"
| notify: "pw_waking s = Suc n \<Longrightarrow> rb_notify_all (pw_pool s) = (b, p)
    \<Longrightarrow> pool_wait_step grow s (s\<lparr>pw_pool := p, pw_waking := n, pw_notified := pw_notified s \<or> b\<rparr>)"
| wait: "pw_pc s = WIdle \<Longrightarrow> pool_wait_step grow s (s\<lparr>pw_pc := WCheck1\<rparr>)"
| check1: "pw_pc s = WCheck1 \<Longrightarrow> pool_wait_step grow s (s\<lparr>pw_pc := (if rb_ready (pw_pool s) then WIdle else WRegister)\<rparr>)"
| register: "pw_pc s = WRegister \<Longrightarrow> pool_wait_step grow s (s\<lparr>pw_pc := WCheck2, pw_pool := (pw_pool s)\<lparr>rb_waker := True\<rparr>\<rparr>)"
| check2: "pw_pc s = WCheck2 \<Longrightarrow> pool_wait_step grow s (s\<lparr>pw_pc := (if rb_ready (pw_pool s) then WIdle else WParked)\<rparr>)"
| unpark: "pw_pc s = WParked \<Longrightarrow> pw_notified s \<Longrightarrow> pool_wait_step grow s (s\<lparr>pw_pc := WCheck1, pw_notified := False\<rparr>)"

definition pool_wait_inv :: "pool_wait \<Rightarrow> bool" where
  "pool_wait_inv s \<longleftrightarrow>
     length (ps_buffers (rb_state (pw_pool s))) + pw_held s = ps_allocated (rb_state (pw_pool s))
     \<and> ps_allocated (rb_state (pw_pool s)) \<le> READ_BUFFER_POOL_LIMIT
     \<and> (pw_pc s \<in> {WCheck2, WParked} \<longrightarrow> rb_waker (pw_pool s) \<or> pw_notified s)
     \<and> (pw_pc s = WParked \<and> rb_ready (pw_pool s) \<longrightarrow> pw_notified s \<or> 0 < pw_waking s)"

lemma rb_try_acquire_effect:
  assumes "rb_try_acquire grow n p = Some (Some v, p')"
  shows "rb_closed p' = rb_closed p" "rb_waker p' = rb_waker p" "has_available (rb_state p)"
    "length (ps_buffers (rb_state p)) + h = ps_allocated (rb_state p) \<Longrightarrow>
      length (ps_buffers (rb_state p')) + Suc h = ps_allocated (rb_state p')"
    "ps_allocated (rb_state p) \<le> READ_BUFFER_POOL_LIMIT \<Longrightarrow> ps_allocated (rb_state p') \<le> READ_BUFFER_POOL_LIMIT"
proof -
  have r: "read_pool_acquire grow n (rb_state p) = Some (Some (v, True), rb_state p')"
    and f: "rb_closed p' = rb_closed p" "rb_waker p' = rb_waker p"
    using assms by (auto simp: rb_try_acquire_def read_pool_acquire_def)
  note s = read_pool.acquire_slots [OF r]
  show "rb_closed p' = rb_closed p" "rb_waker p' = rb_waker p" by (fact f)+
  show "has_available (rb_state p)" using s by (auto simp: has_available_def)
  show "length (ps_buffers (rb_state p')) + Suc h = ps_allocated (rb_state p')"
    if "length (ps_buffers (rb_state p)) + h = ps_allocated (rb_state p)" using s that by auto
  show "ps_allocated (rb_state p') \<le> READ_BUFFER_POOL_LIMIT" if "ps_allocated (rb_state p) \<le> READ_BUFFER_POOL_LIMIT"
    using s that by auto
qed

lemma pool_wait_inv_step:
  assumes inv: "pool_wait_inv s" and "pool_wait_step grow s t"
  shows "pool_wait_inv t"
  using assms(2)
proof cases
  case (acquire n v p)
  note e = rb_try_acquire_effect [OF acquire(2)]
  have "rb_ready (pw_pool s)" using e(3) by (simp add: rb_ready_def)
  then show ?thesis using inv e(1,2) e(4) [of "pw_held s"] e(5) acquire(1) by (auto simp: pool_wait_inv_def)
next
  case (release n v b p)
  have p: "p = (pw_pool s)\<lparr>rb_state := read_release v (rb_state (pw_pool s))\<rparr>"
    and b: "b \<longleftrightarrow> \<not> has_available (rb_state (pw_pool s))"
    using release(3) by (auto simp: rb_release_locked_def has_available_def Let_def)
  have ready: "rb_ready (pw_pool s) \<or> b" by (simp add: b rb_ready_def)
  have slots: "length (ps_buffers (rb_state p)) + n = ps_allocated (rb_state p) \<and> ps_allocated (rb_state p) \<le> READ_BUFFER_POOL_LIMIT"
    using inv release(2) read_pool.release_slots [of v "rb_state (pw_pool s)"] by (auto simp: pool_wait_inv_def p)
  have f: "rb_waker p = rb_waker (pw_pool s)" "rb_closed p = rb_closed (pw_pool s)" by (simp_all add: p)
  have w: "pw_pc s \<in> {WCheck2, WParked} \<longrightarrow> rb_waker p \<or> pw_notified s"
    and k: "pw_pc s = WParked \<longrightarrow> pw_notified s \<or> 0 < pw_waking s + of_bool b"
    using inv ready unfolding pool_wait_inv_def f by auto
  show ?thesis unfolding release(1) pool_wait_inv_def using slots w k by simp
qed (use inv in \<open>auto simp: pool_wait_inv_def rb_notify_all_def rb_ready_def\<close>)

lemma pool_wait_inv_init: "pool_wait_init s \<Longrightarrow> pool_wait_inv s"
  by (simp add: pool_wait_init_def pool_wait_inv_def read_buffer_pool_new_def pool_state_new_def)

interpretation pool_wait: transition_system pool_wait_init "pool_wait_step grow" pool_wait_inv for grow
  by unfold_locales (erule pool_wait_inv_init, erule (1) pool_wait_inv_step)

text \<open>C38. No reader sleeps beside a free buffer: in every interleaving of acquisitions, releases and a close,
  when the reader is parked while a slot is free or the pool is closed and no notification is still on
  its way, the reader has been notified, and its next poll is ready.\<close>

theorem pool_waiter_is_woken:
  assumes "pool_wait_init s0" "(pool_wait_step grow)\<^sup>*\<^sup>* s0 s"
    and "pw_pc s = WParked" "rb_ready (pw_pool s)" "pw_waking s = 0"
  shows "pw_notified s \<and> fst (wait_async_poll (pw_pool s))
    \<and> (pool_wait_step grow)\<^sup>*\<^sup>* s (s\<lparr>pw_notified := False, pw_pc := WIdle\<rparr>)"
proof -
  have "pool_wait_inv s" by (rule pool_wait.inv_reachable [OF assms(1,2)])
  then have n: "pw_notified s" using assms(3-5) by (simp add: pool_wait_inv_def)
  let ?s1 = "s\<lparr>pw_pc := WCheck1, pw_notified := False\<rparr>"
  have 1: "pool_wait_step grow s ?s1" by (rule pool_wait_step.unpark [OF assms(3) n])
  have 2: "pool_wait_step grow ?s1 (s\<lparr>pw_notified := False, pw_pc := WIdle\<rparr>)"
    using pool_wait_step.check1 [of ?s1 grow] assms(4) by simp
  have "(pool_wait_step grow)\<^sup>*\<^sup>* s (s\<lparr>pw_notified := False, pw_pc := WIdle\<rparr>)"
    using 1 2 by (meson r_into_rtranclp rtranclp_trans)
  then show ?thesis using n assms(4) by (simp add: wait_async_poll_def)
qed

definition demo_wait :: "nat \<Rightarrow> wait_pc \<Rightarrow> pool_wait" where
  "demo_wait k pc = \<lparr>pw_pool = \<lparr>rb_state = \<lparr>ps_buffers = [], ps_allocated = k\<rparr>, rb_closed = False, rb_waker = pc = WCheck2 \<or> pc = WParked\<rparr>,
     pw_pc = pc, pw_held = k, pw_notified = False, pw_waking = 0\<rparr>"

lemma demo_wait_acquires: "k \<le> READ_BUFFER_POOL_LIMIT \<Longrightarrow> (pool_wait_step grow)\<^sup>*\<^sup>* (demo_wait 0 WIdle) (demo_wait k WIdle)"
proof (induction k)
  case (Suc k)
  have "\<exists>v. rb_try_acquire grow 0 (pw_pool (demo_wait k WIdle)) = Some (Some v, pw_pool (demo_wait (Suc k) WIdle))"
    using Suc.prems by (simp add: rb_try_acquire_def read_try_acquire_def pool_acquire_def demo_wait_def Let_def)
  then obtain v where v: "rb_try_acquire grow 0 (pw_pool (demo_wait k WIdle)) = Some (Some v, pw_pool (demo_wait (Suc k) WIdle))" ..
  have "pool_wait_step grow (demo_wait k WIdle) (demo_wait (Suc k) WIdle)"
    using pool_wait_step.acquire [OF v] by (simp add: demo_wait_def)
  then show ?case using Suc by (meson Suc_leD rtranclp.rtrancl_into_rtrancl)
qed simp

theorem pool_waiter_is_woken_witness:
  "\<exists>s. pool_wait_init (demo_wait 0 WIdle) \<and> (pool_wait_step (\<lambda>c n. n))\<^sup>*\<^sup>* (demo_wait 0 WIdle) s \<and> pw_pc s = WParked
    \<and> rb_ready (pw_pool s) \<and> pw_waking s = 0 \<and> pw_notified s"
proof -
  let ?step = "pool_wait_step (\<lambda>c n. n)" and ?d = "demo_wait READ_BUFFER_POOL_LIMIT"
  let ?c = "(?d WParked)\<lparr>pw_pool := (pw_pool (?d WParked))\<lparr>rb_closed := True\<rparr>, pw_waking := 1\<rparr>"
  let ?s = "?c\<lparr>pw_pool := (pw_pool ?c)\<lparr>rb_waker := False\<rparr>, pw_waking := 0, pw_notified := True\<rparr>"
  have init: "pool_wait_init (demo_wait 0 WIdle)"
    by (simp add: pool_wait_init_def demo_wait_def read_buffer_pool_new_def pool_state_new_def)
  have 1: "?step (?d WIdle) (?d WCheck1)" using pool_wait_step.wait [of "?d WIdle"] by (simp add: demo_wait_def)
  have 2: "?step (?d WCheck1) (?d WRegister)"
    using pool_wait_step.check1 [of "?d WCheck1"] by (simp add: demo_wait_def rb_ready_def has_available_def)
  have 3: "?step (?d WRegister) (?d WCheck2)" using pool_wait_step.register [of "?d WRegister"] by (simp add: demo_wait_def)
  have 4: "?step (?d WCheck2) (?d WParked)"
    using pool_wait_step.check2 [of "?d WCheck2"] by (simp add: demo_wait_def rb_ready_def has_available_def)
  have 5: "?step (?d WParked) ?c" using pool_wait_step.close [of _ "?d WParked"] by (simp add: demo_wait_def)
  have 6: "?step ?c ?s" using pool_wait_step.notify [of ?c 0 True] by (simp add: demo_wait_def rb_notify_all_def)
  have run: "?step\<^sup>*\<^sup>* (demo_wait 0 WIdle) ?s"
    using demo_wait_acquires [OF order_refl, of "\<lambda>c n. n"] 1 2 3 4 5 6 by (meson r_into_rtranclp rtranclp_trans)
  have "pw_pc ?s = WParked" "rb_ready (pw_pool ?s)" "pw_waking ?s = 0" by (simp_all add: demo_wait_def rb_ready_def)
  from pool_waiter_is_woken [OF init run this] init run this show ?thesis by blast
qed

end
