(* ===== verification/Write_Queue.thy ===== *)
theory Write_Queue
  imports Stream_Buffers
begin

section \<open>The command queue of a writer worker (transport/stream/write\_queue.rs)\<close>

text \<open>
  The queue between a transport and its writer thread. Adjacent data commands are joined while the
  joined buffer stays small and nothing of it has been sent. Each operation is one critical section
  of the queue's mutex. The write pool is passed along because a joined buffer is dropped.
\<close>

datatype writer_command = WData owned_write_buffer | WriteEof | WClose | WAbort | WStop

record queue_state =
  q_commands :: "writer_command list"
  q_sender_alive :: bool
  q_receiver_alive :: bool

definition queue_new :: queue_state where
  "queue_new = \<lparr>q_commands = [], q_sender_alive = True, q_receiver_alive = True\<rparr>"

text \<open>The \<open>if let ... && let ... && try_append\<close> chain: \<open>Some\<close> when the data was joined to the last command.\<close>

definition join_last ::
    "(nat \<Rightarrow> nat \<Rightarrow> nat) \<Rightarrow> writer_command \<Rightarrow> writer_command list \<Rightarrow> (writer_command list option) option" where
  "join_last grow command commands =
     (case command of
        WData data \<Rightarrow>
          (if commands = [] then Some None
           else (case last commands of
                   WData pending \<Rightarrow> do {
                     d \<leftarrow> remaining data;
                     (accepted, pending1) \<leftarrow> try_append grow d pending;
                     Some (if accepted then Some (butlast commands @ [WData pending1]) else None)
                   }
                 | _ \<Rightarrow> Some None))
      | _ \<Rightarrow> Some None)"

definition command_drop :: "writer_command \<Rightarrow> pool_state \<Rightarrow> pool_state" where
  "command_drop command pool = (case command of WData data \<Rightarrow> write_buffer_drop data pool | _ \<Rightarrow> pool)"

definition enqueue ::
    "(nat \<Rightarrow> nat \<Rightarrow> nat) \<Rightarrow> writer_command \<Rightarrow> queue_state \<times> pool_state
      \<Rightarrow> ((writer_command + unit) \<times> queue_state \<times> pool_state) option" where
  "enqueue grow command s =
     (case s of (q, pool) \<Rightarrow>
        if \<not> q_receiver_alive q then Some (Inl command, q, pool)
        else do {
          joined \<leftarrow> join_last grow command (q_commands q);
          Some (case joined of
                  Some commands \<Rightarrow> (Inr (), q\<lparr>q_commands := commands\<rparr>, command_drop command pool)
                | None \<Rightarrow> (Inr (), q\<lparr>q_commands := q_commands q @ [command]\<rparr>, pool))
        })"

datatype try_recv_error = RecvEmpty | RecvDisconnected

definition try_dequeue :: "queue_state \<Rightarrow> (try_recv_error + writer_command) \<times> queue_state" where
  "try_dequeue q =
     (case q_commands q of
        command # rest \<Rightarrow> (Inr command, q\<lparr>q_commands := rest\<rparr>)
      | [] \<Rightarrow> (Inl (if q_sender_alive q then RecvEmpty else RecvDisconnected), q))"

definition send_batch :: "owned_write_buffer list \<Rightarrow> queue_state \<Rightarrow> (unit + unit) \<times> queue_state" where
  "send_batch buffers q =
     (if \<not> q_receiver_alive q then (Inl (), q)
      else (Inr (), q\<lparr>q_commands := q_commands q @ map WData buffers\<rparr>))"

text \<open>\<open>WriterSender::send\<close> and the two drops; what they notify is the receiver's wait.\<close>

definition writer_send ::
    "(nat \<Rightarrow> nat \<Rightarrow> nat) \<Rightarrow> writer_command \<Rightarrow> queue_state \<times> pool_state
      \<Rightarrow> ((writer_command + unit) \<times> queue_state \<times> pool_state) option" where
  "writer_send grow command s = enqueue grow command s"

definition sender_drop :: "queue_state \<Rightarrow> queue_state" where
  "sender_drop q = q\<lparr>q_sender_alive := False\<rparr>"

definition receiver_drop :: "queue_state \<Rightarrow> queue_state" where
  "receiver_drop q = q\<lparr>q_receiver_alive := False\<rparr>"

text \<open>One pass of \<open>recv\<close>'s loop: \<open>None\<close> when it waits for a notification.\<close>

definition recv :: "queue_state \<Rightarrow> ((unit + writer_command) \<times> queue_state) option" where
  "recv q =
     (case try_dequeue q of
        (Inr command, q1) \<Rightarrow> Some (Inr command, q1)
      | (Inl RecvDisconnected, q1) \<Rightarrow> Some (Inl (), q1)
      | (Inl RecvEmpty, _) \<Rightarrow> None)"

definition try_recv :: "queue_state \<Rightarrow> (try_recv_error + writer_command) \<times> queue_state" where
  "try_recv q = try_dequeue q"

subsection \<open>The stream a queue holds\<close>

text \<open>What a sequence of commands means to the connection: bytes and marks, in order.\<close>

datatype token = TByte byte | TEof | TClose | TAbort | TStop

fun command_tokens :: "writer_command \<Rightarrow> token list" where
  "command_tokens (WData b) = map TByte (ob_rest b)"
| "command_tokens WriteEof = [TEof]"
| "command_tokens WClose = [TClose]"
| "command_tokens WAbort = [TAbort]"
| "command_tokens WStop = [TStop]"

definition command_ok :: "writer_command \<Rightarrow> bool" where
  "command_ok c \<longleftrightarrow> (case c of WData b \<Rightarrow> ob_ok b | _ \<Rightarrow> True)"

definition tokens :: "writer_command list \<Rightarrow> token list" where
  "tokens cs = concat (map command_tokens cs)"

definition queue_ok :: "queue_state \<Rightarrow> bool" where
  "queue_ok q \<longleftrightarrow> list_all command_ok (q_commands q)"

lemma tokens_simps [simp]: "tokens [] = []" "tokens (c # cs) = command_tokens c @ tokens cs" "tokens (cs @ ds) = tokens cs @ tokens ds"
  by (simp_all add: tokens_def)

lemma command_ok_simps [simp]:
  "command_ok (WData b) \<longleftrightarrow> ob_ok b" "command_ok WriteEof" "command_ok WClose" "command_ok WAbort" "command_ok WStop"
  by (simp_all add: command_ok_def)

lemma queue_ok_new [simp]: "queue_ok queue_new" "tokens (q_commands queue_new) = []"
  by (simp_all add: queue_ok_def queue_new_def)

lemma join_last_ok:
  assumes c: "command_ok c" and cs: "list_all command_ok cs"
  shows "\<exists>r. join_last grow c cs = Some r \<and>
    (case r of None \<Rightarrow> True | Some cs' \<Rightarrow> list_all command_ok cs' \<and> tokens cs' = tokens cs @ command_tokens c)"
proof (cases "\<exists>data pending. c = WData data \<and> cs \<noteq> [] \<and> last cs = WData pending")
  case True
  then obtain data pending ds where c': "c = WData data" and cs': "cs = ds @ [WData pending]"
    by (metis append_butlast_last_id)
  obtain acc p where t: "try_append grow (ob_rest data) pending = Some (acc, p)" "ob_ok p"
    "ob_rest p = (if acc then ob_rest pending @ ob_rest data else ob_rest pending)"
    using try_append_ok [of pending grow "ob_rest data"] cs by (auto simp: cs')
  then show ?thesis using c cs by (auto simp: join_last_def c' cs')
next
  case False
  then have "join_last grow c cs = Some None" by (cases c; cases "last cs") (auto simp: join_last_def)
  then show ?thesis by simp
qed

lemma enqueue_ok:
  assumes "queue_ok q" "command_ok c"
  shows "\<exists>r q' pool'. enqueue grow c (q, pool) = Some (r, q', pool') \<and> queue_ok q' \<and>
    q_receiver_alive q' = q_receiver_alive q \<and> q_sender_alive q' = q_sender_alive q \<and>
    (if q_receiver_alive q then r = Inr () \<and> tokens (q_commands q') = tokens (q_commands q) @ command_tokens c
     else r = Inl c \<and> q' = q \<and> pool' = pool)"
proof (cases "q_receiver_alive q")
  case True
  obtain r where r: "join_last grow c (q_commands q) = Some r"
    "case r of None \<Rightarrow> True | Some cs' \<Rightarrow> list_all command_ok cs' \<and> tokens cs' = tokens (q_commands q) @ command_tokens c"
    using join_last_ok [OF assms(2), of "q_commands q"] assms(1) by (auto simp: queue_ok_def)
  then show ?thesis using True assms by (cases r) (auto simp: enqueue_def queue_ok_def)
next
  case False
  then show ?thesis using assms by (simp add: enqueue_def)
qed

lemma try_dequeue_ok:
  assumes "queue_ok q" "try_dequeue q = (r, q')"
  shows "queue_ok q' \<and> q_receiver_alive q' = q_receiver_alive q \<and> q_sender_alive q' = q_sender_alive q \<and>
    (case r of
       Inr c \<Rightarrow> command_ok c \<and> tokens (q_commands q) = command_tokens c @ tokens (q_commands q')
     | Inl e \<Rightarrow> q' = q \<and> tokens (q_commands q) = [] \<and> (e = RecvDisconnected \<longleftrightarrow> \<not> q_sender_alive q))"
  using assms by (cases "q_commands q") (auto simp: try_dequeue_def queue_ok_def)

lemma send_batch_ok:
  assumes "queue_ok q" "list_all ob_ok bs" "send_batch bs q = (r, q')"
  shows "queue_ok q' \<and> q_receiver_alive q' = q_receiver_alive q \<and> q_sender_alive q' = q_sender_alive q \<and>
    (if q_receiver_alive q then r = Inr () \<and> tokens (q_commands q') = tokens (q_commands q) @ map TByte (concat (map ob_rest bs))
     else r = Inl () \<and> q' = q)"
proof -
  have "list_all command_ok (map WData bs)" using assms(2) by (induction bs) auto
  moreover have "tokens (map WData bs) = map TByte (concat (map ob_rest bs))" by (induction bs) auto
  ultimately show ?thesis using assms(1,3) by (auto simp: send_batch_def queue_ok_def split: if_splits)
qed

subsection \<open>The interface its users rely on\<close>

text \<open>A history of sends (\<open>Some\<close>) and receives, with the tokens accepted and those received.\<close>

fun chan_run ::
    "(writer_command \<Rightarrow> 'q \<Rightarrow> ((writer_command + unit) \<times> 'q) option) \<Rightarrow> ('q \<Rightarrow> (try_recv_error + writer_command) \<times> 'q)
      \<Rightarrow> (writer_command option) list \<Rightarrow> token list \<times> token list \<times> 'q \<Rightarrow> (token list \<times> token list \<times> 'q) option" where
  "chan_run send receive [] s = Some s"
| "chan_run send receive (Some c # ops) (sent, got, q) =
     (case send c q of
        None \<Rightarrow> None
      | Some (Inr _, q1) \<Rightarrow> chan_run send receive ops (sent @ command_tokens c, got, q1)
      | Some (Inl _, q1) \<Rightarrow> chan_run send receive ops (sent, got, q1))"
| "chan_run send receive (None # ops) (sent, got, q) =
     (case receive q of
        (Inr c, q1) \<Rightarrow> chan_run send receive ops (sent, got @ command_tokens c, q1)
      | (Inl _, q1) \<Rightarrow> chan_run send receive ops (sent, got, q1))"

text \<open>
  A channel of commands: \<open>stream\<close> is what it still holds. Sending appends, receiving takes from the
  front, and an empty answer means that nothing is left.
\<close>

locale command_channel =
  fixes chan_ok :: "'q \<Rightarrow> bool"
    and stream :: "'q \<Rightarrow> token list"
    and open_end :: "'q \<Rightarrow> bool"
    and send :: "writer_command \<Rightarrow> 'q \<Rightarrow> ((writer_command + unit) \<times> 'q) option"
    and receive :: "'q \<Rightarrow> (try_recv_error + writer_command) \<times> 'q"
  assumes send_appends: "chan_ok q \<Longrightarrow> command_ok c \<Longrightarrow>
      \<exists>r q'. send c q = Some (r, q') \<and> chan_ok q' \<and> open_end q' = open_end q \<and>
        (if open_end q then r = Inr () \<and> stream q' = stream q @ command_tokens c else r = Inl c \<and> stream q' = stream q)"
    and receive_takes: "chan_ok q \<Longrightarrow> receive q = (r, q') \<Longrightarrow> chan_ok q' \<and> open_end q' = open_end q \<and>
        (case r of Inr c \<Rightarrow> command_ok c \<and> stream q = command_tokens c @ stream q' | Inl e \<Rightarrow> stream q = [] \<and> stream q' = [])"
begin

lemma fifo:
  assumes "chan_ok q" "\<forall>c. Some c \<in> set ops \<longrightarrow> command_ok c" "sent = got @ stream q"
  shows "\<exists>sent' got' q'. chan_run send receive ops (sent, got, q) = Some (sent', got', q') \<and> chan_ok q' \<and> sent' = got' @ stream q'"
  using assms
proof (induction ops arbitrary: sent got q)
  case (Cons op ops)
  show ?case
  proof (cases op)
    case (Some c)
    then have "command_ok c" using Cons.prems(2) by auto
    then obtain r q1 where s: "send c q = Some (r, q1)" "chan_ok q1"
      "if open_end q then r = Inr () \<and> stream q1 = stream q @ command_tokens c else r = Inl c \<and> stream q1 = stream q"
      using send_appends [OF Cons.prems(1)] by blast
    then show ?thesis
      using Some Cons.IH [OF s(2), of "case r of Inr _ \<Rightarrow> sent @ command_tokens c | Inl _ \<Rightarrow> sent" got] Cons.prems(2,3)
      by (cases "open_end q") auto
  next
    case None
    obtain r q1 where r: "receive q = (r, q1)" by (cases "receive q")
    note t = receive_takes [OF Cons.prems(1) r]
    show ?thesis
    proof (cases r)
      case (Inr c)
      then show ?thesis using None r t Cons.IH [of q1 sent "got @ command_tokens c"] Cons.prems(2,3) by auto
    next
      case (Inl e)
      then show ?thesis using None r t Cons.IH [of q1 sent got] Cons.prems(2,3) by auto
    qed
  qed
qed simp

end

definition queue_send ::
    "(nat \<Rightarrow> nat \<Rightarrow> nat) \<Rightarrow> writer_command \<Rightarrow> queue_state \<times> pool_state \<Rightarrow> ((writer_command + unit) \<times> queue_state \<times> pool_state) option" where
  "queue_send grow c s = writer_send grow c s"

definition queue_receive :: "queue_state \<times> pool_state \<Rightarrow> (try_recv_error + writer_command) \<times> queue_state \<times> pool_state" where
  "queue_receive s = (case try_recv (fst s) of (r, q) \<Rightarrow> (r, q, snd s))"

interpretation writer_queue: command_channel "\<lambda>s. queue_ok (fst s)" "\<lambda>s. tokens (q_commands (fst s))" "\<lambda>s. q_receiver_alive (fst s)"
  "queue_send grow" queue_receive for grow
proof unfold_locales
  fix q :: "queue_state \<times> pool_state" and c r q'
  show "\<exists>r q'. queue_send grow c q = Some (r, q') \<and> queue_ok (fst q') \<and> q_receiver_alive (fst q') = q_receiver_alive (fst q) \<and>
      (if q_receiver_alive (fst q) then r = Inr () \<and> tokens (q_commands (fst q')) = tokens (q_commands (fst q)) @ command_tokens c
       else r = Inl c \<and> tokens (q_commands (fst q')) = tokens (q_commands (fst q)))"
    if "queue_ok (fst q)" "command_ok c"
    using enqueue_ok [OF that, of grow "snd q"] by (fastforce simp: queue_send_def writer_send_def)
  show "queue_ok (fst q') \<and> q_receiver_alive (fst q') = q_receiver_alive (fst q) \<and>
      (case r of Inr c \<Rightarrow> command_ok c \<and> tokens (q_commands (fst q)) = command_tokens c @ tokens (q_commands (fst q'))
       | Inl e \<Rightarrow> tokens (q_commands (fst q)) = [] \<and> tokens (q_commands (fst q')) = [])"
    if "queue_ok (fst q)" "queue_receive q = (r, q')"
    using try_dequeue_ok [OF that(1)] that(2) by (fastforce simp: queue_receive_def try_recv_def split: prod.splits sum.splits)
qed

text \<open>C33. The writer queue is a lossless first-in first-out stream: over any history of sends and receives no
  operation panics, and the bytes and marks received so far, followed by those still queued, are exactly
  those accepted, however the data commands were joined.\<close>

theorem writer_queue_fifo:
  assumes "\<forall>c. Some c \<in> set ops \<longrightarrow> command_ok c"
  shows "\<exists>sent got q pool. chan_run (queue_send grow) queue_receive ops ([], [], queue_new, pool_state_new) = Some (sent, got, q, pool)
    \<and> sent = got @ tokens (q_commands q)"
  using writer_queue.fifo [of "(queue_new, pool_state_new)" ops "[]" "[]" grow] assms by auto

theorem writer_queue_fifo_witness:
  "\<exists>sent got q pool. chan_run (queue_send (\<lambda>c n. n)) queue_receive [Some (WData (from_python [1, 2])), Some (WData (from_python [3])), None, Some WClose]
      ([], [], queue_new, pool_state_new) = Some (sent, got, q, pool)
    \<and> sent = got @ tokens (q_commands q)"
  by (rule writer_queue_fifo) auto

end
