(* ===== verification/Stream_Core.thy ===== *)
theory Stream_Core
  imports Write_Queue State_Snapshot
begin

section \<open>The state of a stream transport (transport/stream: mod.rs, builder.rs, core\_state.rs)\<close>

text \<open>
  \<open>StreamTransportCore\<close> with its locked state, its flow control for reading and writing, and the gate
  through which every event for the protocol passes (\<open>enqueue_pending_read_event\<close> of core\_events.rs and
  the read backpressure of core\_protocol.rs). The operating system, the event loop and the Python
  protocol are the fields of \<open>stream_env\<close>: what the kernel answers to a write, whether the loop
  accepts a command, what the protocol does when it is called (it may call the transport again).
\<close>

subsection \<open>Errors\<close>

datatype io_error_kind = KWouldBlock | KInterrupted | KNotConnected | KOutOfMemory | KWriteZero | KTimedOut | KBrokenPipe | KOther

record io_error =
  ie_kind :: io_error_kind
  ie_os :: "int option"

abbreviation ENOBUFS :: int where "ENOBUFS \<equiv> 105"

definition io_err :: "io_error_kind \<Rightarrow> io_error" where
  "io_err k = \<lparr>ie_kind = k, ie_os = None\<rparr>"

definition is_no_buffer_space_code :: "int option \<Rightarrow> bool" where
  "is_no_buffer_space_code raw \<longleftrightarrow> raw = Some ENOBUFS"

definition is_transient_write_backpressure :: "io_error \<Rightarrow> bool" where
  "is_transient_write_backpressure err \<longleftrightarrow> ie_kind err = KWouldBlock \<or> is_no_buffer_space_code (ie_os err)"

subsection \<open>Flow control of writes\<close>

record write_buffer_state =
  wb_size :: nat
  wb_high_water :: nat
  wb_low_water :: nat
  wb_protocol_paused :: bool

definition write_buffer_default :: write_buffer_state where
  "write_buffer_default = \<lparr>wb_size = 0, wb_high_water = DEFAULT_WRITE_BUFFER_HIGH_WATER,
     wb_low_water = DEFAULT_WRITE_BUFFER_LOW_WATER, wb_protocol_paused = False\<rparr>"

datatype write_buffer_signal = SigNone | SigPause | SigResume

definition enqueue_write_buffer ::
    "nat \<Rightarrow> nat \<Rightarrow> write_buffer_state \<Rightarrow> (unit + write_buffer_signal) \<times> write_buffer_state" where
  "enqueue_write_buffer len cap s =
     (if len = 0 then (Inr SigNone, s)
      else if len > cap - wb_size s then (Inl (), s)
      else
        let s1 = s\<lparr>wb_size := wb_size s + len\<rparr>
        in if wb_size s1 > wb_high_water s1 \<and> \<not> wb_protocol_paused s1
           then (Inr SigPause, s1\<lparr>wb_protocol_paused := True\<rparr>)
           else (Inr SigNone, s1))"

definition drain_write_buffer :: "nat \<Rightarrow> write_buffer_state \<Rightarrow> write_buffer_signal \<times> write_buffer_state" where
  "drain_write_buffer len s =
     (let s1 = s\<lparr>wb_size := wb_size s - len\<rparr>
      in if wb_protocol_paused s1 \<and> wb_size s1 \<le> wb_low_water s1
         then (SigResume, s1\<lparr>wb_protocol_paused := False\<rparr>)
         else (SigNone, s1))"

definition clear_write_buffer_state :: "bool \<Rightarrow> write_buffer_state \<Rightarrow> write_buffer_signal \<times> write_buffer_state" where
  "clear_write_buffer_state resume_protocol s =
     (if resume_protocol \<and> wb_protocol_paused s then SigResume else SigNone,
      s\<lparr>wb_size := 0, wb_protocol_paused := False\<rparr>)"

definition reconcile_write_buffer_limits ::
    "nat \<Rightarrow> nat \<Rightarrow> write_buffer_state \<Rightarrow> write_buffer_signal \<times> write_buffer_state" where
  "reconcile_write_buffer_limits low_water high_water s =
     (let s1 = s\<lparr>wb_low_water := low_water, wb_high_water := high_water\<rparr>
      in if wb_size s1 > high_water \<and> \<not> wb_protocol_paused s1 then (SigPause, s1\<lparr>wb_protocol_paused := True\<rparr>)
         else if wb_protocol_paused s1 \<and> wb_size s1 \<le> low_water then (SigResume, s1\<lparr>wb_protocol_paused := False\<rparr>)
         else (SigNone, s1))"

text \<open>\<open>checked_mul\<close> fails when the product does not fit \<open>usize\<close>.\<close>

definition checked_mul :: "nat \<Rightarrow> nat \<Rightarrow> nat option" where
  "checked_mul a b = (if a * b \<le> usize_max then Some (a * b) else None)"

definition normalize_write_buffer_limits :: "nat option \<Rightarrow> nat option \<Rightarrow> (nat \<times> nat) option" where
  "normalize_write_buffer_limits high low = do {
     h \<leftarrow> (case (high, low) of
            (Some h, _) \<Rightarrow> Some h
          | (None, Some l) \<Rightarrow> checked_mul l 4
          | (None, None) \<Rightarrow> Some DEFAULT_WRITE_BUFFER_HIGH_WATER);
     let l = (case low of Some l \<Rightarrow> l | None \<Rightarrow> h div 4);
     if h \<ge> l then Some (l, h) else None
   }"

subsection \<open>The transport\<close>

datatype pending_read_event = EData vec | EEof | ELost "string option" | EPause | EResume

text \<open>The fields of \<open>StreamTransportState\<close> that are not references to Python objects.\<close>

record stream_state =
  st_io_fd :: "int option"
  st_runtime_socket_io :: bool
  st_closing :: bool
  st_read_paused :: bool
  st_read_backpressured :: bool
  st_reading :: bool
  st_writable :: bool
  st_write_eof_requested :: bool
  st_can_write_eof :: bool
  st_close_on_write_eof :: bool
  st_lost_called :: bool
  st_writer_registered :: bool
  st_write_buffer :: write_buffer_state

unbundle bit_operations_syntax

definition stream_flags :: "stream_state \<Rightarrow> 8 word" where
  "stream_flags s =
     of_bool (st_closing s) OR push_bit 1 (of_bool (st_writable s)) OR push_bit 2 (of_bool (st_writer_registered s))
     OR push_bit 3 (of_bool (st_lost_called s))"

text \<open>
  The core. \<open>sc_direct\<close> is \<open>None\<close> without a direct writer, else whether it is still there; \<open>sc_lazy\<close> says
  that the writer worker has not been started; \<open>sc_commands\<close> are the commands the loop accepted.
  \<open>sc_callbacks\<close> is whether the protocol's callbacks are still held. \<open>sc_wire\<close> is what the kernel has
  accepted for this connection, \<open>sc_shutdown\<close> the shutdowns asked of it and \<open>sc_calls\<close> the calls made to
  the protocol; the program keeps none of these three.
\<close>

datatype loop_message = MStreamRead | MStreamWrite | MStopReader int

datatype shutdown = ShutWrite | ShutBoth

datatype protocol_call = CData bytes | CEof | CLost "string option" | CPause | CResume

record stream_core =
  sc_state :: "stream_state snapshot_mutex"
  sc_events :: "pending_read_event list"
  sc_drain :: "pending_read_event list"
  sc_coalesce :: vec
  sc_read_pool :: read_buffer_pool
  sc_pending_read_bytes :: nat
  sc_read_scheduled :: bool
  sc_event_state :: nat
  sc_reading :: bool
  sc_detached :: bool
  sc_queue :: queue_state
  sc_write_pool :: pool_state
  sc_direct :: "bool option"
  sc_pending_direct :: "owned_write_buffer option"
  sc_direct_scheduled :: bool
  sc_lazy :: bool
  sc_workers :: nat
  sc_coalesce_small :: bool
  sc_small_turn :: u64
  sc_small_writes :: nat
  sc_commands :: "loop_message list"
  sc_callbacks :: bool
  sc_wire :: bytes
  sc_shutdown :: "shutdown list"
  sc_calls :: "protocol_call list"

record stream_env =
  te_grow :: "nat \<Rightarrow> nat \<Rightarrow> nat"
  te_on_loop :: bool
  te_turn :: u64
  te_cap :: nat
  te_loop_send :: "stream_core \<Rightarrow> bool"
  te_send :: "bytes list \<Rightarrow> stream_core \<Rightarrow> io_error + nat"
  te_materialize :: "stream_core \<Rightarrow> io_error option"
  te_spawn :: "stream_core \<Rightarrow> io_error option"
  te_stop_io_task :: "int \<Rightarrow> bool"
  te_pause :: "stream_core \<Rightarrow> stream_core"
  te_resume :: "stream_core \<Rightarrow> stream_core"
  te_display :: "io_error \<Rightarrow> string"

abbreviation sc_st :: "stream_core \<Rightarrow> stream_state" where
  "sc_st c \<equiv> sm_inner (sc_state c)"

definition sc_update :: "(stream_state \<Rightarrow> stream_state) \<Rightarrow> stream_core \<Rightarrow> stream_core" where
  "sc_update f c = c\<lparr>sc_state := sm_update stream_flags f (sc_state c)\<rparr>"

text \<open>\<open>StreamTransportStateConfig\<close> and the state and core built from it (builder.rs).\<close>

record state_config =
  cfg_io_fd :: "int option"
  cfg_runtime_socket_io :: bool
  cfg_reading :: bool
  cfg_writable :: bool
  cfg_can_write_eof :: bool
  cfg_close_on_write_eof :: bool

definition stream_transport_state_parts :: "state_config \<Rightarrow> stream_state" where
  "stream_transport_state_parts config =
     \<lparr>st_io_fd = cfg_io_fd config, st_runtime_socket_io = cfg_runtime_socket_io config, st_closing = False,
      st_read_paused = False, st_read_backpressured = False, st_reading = cfg_reading config,
      st_writable = cfg_writable config, st_write_eof_requested = False, st_can_write_eof = cfg_can_write_eof config,
      st_close_on_write_eof = cfg_close_on_write_eof config, st_lost_called = False, st_writer_registered = False,
      st_write_buffer = write_buffer_default\<rparr>"

definition new_stream_transport_core :: "stream_state \<Rightarrow> bool \<Rightarrow> bool \<Rightarrow> bool \<Rightarrow> bool \<Rightarrow> stream_core" where
  "new_stream_transport_core state direct_writer lazy_writer server_side native_stream_reader =
     \<lparr>sc_state = sm_new stream_flags state, sc_events = [], sc_drain = [], sc_coalesce = vec_empty,
      sc_read_pool = read_buffer_pool_new, sc_pending_read_bytes = 0, sc_read_scheduled = False, sc_event_state = 0,
      sc_reading = st_reading state, sc_detached = False, sc_queue = queue_new, sc_write_pool = pool_state_new,
      sc_direct = (if direct_writer then Some True else None), sc_pending_direct = None, sc_direct_scheduled = False,
      sc_lazy = lazy_writer, sc_workers = 0, sc_coalesce_small = (server_side \<or> \<not> native_stream_reader),
      sc_small_turn = - 1, sc_small_writes = 0, sc_commands = [], sc_callbacks = True, sc_wire = [], sc_shutdown = [], sc_calls = []\<rparr>"

subsection \<open>State accessors (core\_state.rs)\<close>

definition is_closing :: "stream_core \<Rightarrow> bool" where
  "is_closing c \<longleftrightarrow> sm_flags (sc_state c) AND 1 \<noteq> 0"

definition is_closing_or_lost :: "stream_core \<Rightarrow> bool" where
  "is_closing_or_lost c \<longleftrightarrow> sm_flags (sc_state c) AND 9 \<noteq> 0"

definition write_backpressure_active :: "stream_core \<Rightarrow> bool" where
  "write_backpressure_active c \<longleftrightarrow> sm_flags (sc_state c) AND 4 \<noteq> 0"

definition write_status :: "stream_core \<Rightarrow> bool \<times> bool \<times> bool" where
  "write_status c =
     (let flags = sm_flags (sc_state c) in (flags AND 1 \<noteq> 0, flags AND 2 \<noteq> 0, flags AND 4 \<noteq> 0))"

definition set_write_backpressure_active :: "bool \<Rightarrow> stream_core \<Rightarrow> stream_core" where
  "set_write_backpressure_active active c = sc_update (\<lambda>s. s\<lparr>st_writer_registered := active\<rparr>) c"

definition set_closing :: "stream_core \<Rightarrow> stream_core" where
  "set_closing c =
     (let c1 = sc_update (\<lambda>s. s\<lparr>st_closing := True\<rparr>) c in c1\<lparr>sc_read_pool := snd (rb_close (sc_read_pool c1))\<rparr>)"

definition runtime_socket_fd :: "stream_core \<Rightarrow> int option" where
  "runtime_socket_fd c = (if st_runtime_socket_io (sc_st c) then st_io_fd (sc_st c) else None)"

definition detach_underlying_stream :: "stream_core \<Rightarrow> stream_core" where
  "detach_underlying_stream c =
     (let c1 = sc_update (\<lambda>s. s\<lparr>st_closing := True, st_reading := False, st_writable := False\<rparr>) (c\<lparr>sc_detached := True\<rparr>)
      in c1\<lparr>sc_reading := False, sc_read_pool := snd (rb_close (sc_read_pool c1))\<rparr>)"

definition release_direct_writer :: "stream_core \<Rightarrow> stream_core" where
  "release_direct_writer c = c\<lparr>sc_direct := map_option (\<lambda>_. False) (sc_direct c)\<rparr>"

definition mark_write_eof :: "stream_core \<Rightarrow> stream_core" where
  "mark_write_eof c = sc_update (\<lambda>s. s\<lparr>st_write_eof_requested := True\<rparr>) c"

definition pause_reading :: "stream_core \<Rightarrow> stream_core" where
  "pause_reading c = (sc_update (\<lambda>s. s\<lparr>st_read_paused := True, st_reading := False\<rparr>) c)\<lparr>sc_reading := False\<rparr>"

definition resume_reading :: "stream_core \<Rightarrow> stream_core" where
  "resume_reading c =
     (let c1 = sc_update (\<lambda>s. s\<lparr>st_read_paused := False, st_reading := \<not> st_read_backpressured s \<and> \<not> st_closing s\<rparr>) c
      in c1\<lparr>sc_reading := st_reading (sc_st c1)\<rparr>)"

definition is_reading :: "stream_core \<Rightarrow> bool" where
  "is_reading c = sc_reading c"

definition get_write_buffer_size :: "stream_core \<Rightarrow> nat" where
  "get_write_buffer_size c = wb_size (st_write_buffer (sc_st c))"

definition get_write_buffer_limits :: "stream_core \<Rightarrow> nat \<times> nat" where
  "get_write_buffer_limits c = (wb_low_water (st_write_buffer (sc_st c)), wb_high_water (st_write_buffer (sc_st c)))"

subsection \<open>Read backpressure (core\_protocol.rs)\<close>

definition PENDING_READ_HIGH_WATER :: nat where "PENDING_READ_HIGH_WATER = 1024 * 1024"
definition PENDING_READ_LOW_WATER :: nat where "PENDING_READ_LOW_WATER = PENDING_READ_HIGH_WATER div 4"

definition apply_pending_read_backpressure :: "stream_core \<Rightarrow> stream_core" where
  "apply_pending_read_backpressure c =
     (if sc_pending_read_bytes c < PENDING_READ_HIGH_WATER then c
      else if st_read_backpressured (sc_st c) \<or> st_closing (sc_st c) then c
      else (sc_update (\<lambda>s. s\<lparr>st_read_backpressured := True, st_reading := False\<rparr>) c)\<lparr>sc_reading := False\<rparr>)"

text \<open>\<open>fetch_sub\<close> wraps.\<close>

definition fetch_sub_usize :: "nat \<Rightarrow> nat \<Rightarrow> nat" where
  "fetch_sub_usize a b = (if b \<le> a then a - b else a + 2 ^ 64 - b)"

definition record_pending_read_drained :: "nat \<Rightarrow> stream_core \<Rightarrow> stream_core" where
  "record_pending_read_drained len c =
     (let remaining = sc_pending_read_bytes c - len;
          c1 = c\<lparr>sc_pending_read_bytes := fetch_sub_usize (sc_pending_read_bytes c) len\<rparr>
      in if remaining > PENDING_READ_LOW_WATER then c1
         else if \<not> st_read_backpressured (sc_st c1) then c1
         else
           let c2 = sc_update (\<lambda>s. s\<lparr>st_read_backpressured := False, st_reading := \<not> st_read_paused s \<and> \<not> st_closing s\<rparr>) c1
           in c2\<lparr>sc_reading := st_reading (sc_st c2)\<rparr>)"

subsection \<open>The event gate (core\_events.rs)\<close>

abbreviation (input) READ_EVENT_OPEN :: nat where "READ_EVENT_OPEN \<equiv> 0"
abbreviation (input) READ_EVENT_EOF :: nat where "READ_EVENT_EOF \<equiv> 1"
abbreviation (input) READ_EVENT_LOST :: nat where "READ_EVENT_LOST \<equiv> 2"

datatype read_event_kind = KData | KEof | KLost | KPause | KResume

definition read_event_kind :: "pending_read_event \<Rightarrow> read_event_kind" where
  "read_event_kind event =
     (case event of EData _ \<Rightarrow> KData | EEof \<Rightarrow> KEof | ELost _ \<Rightarrow> KLost | EPause \<Rightarrow> KPause | EResume \<Rightarrow> KResume)"

definition transition_read_event_state :: "nat \<Rightarrow> read_event_kind \<Rightarrow> nat option" where
  "transition_read_event_state state event =
     (case event of
        KData \<Rightarrow> if state = READ_EVENT_OPEN then Some READ_EVENT_OPEN else None
      | KEof \<Rightarrow> if state = READ_EVENT_OPEN then Some READ_EVENT_EOF else None
      | KLost \<Rightarrow> if state \<noteq> READ_EVENT_LOST then Some READ_EVENT_LOST else None
      | KPause \<Rightarrow> if state \<noteq> READ_EVENT_LOST then Some state else None
      | KResume \<Rightarrow> if state \<noteq> READ_EVENT_LOST then Some state else None)"

definition release_event :: "pending_read_event \<Rightarrow> stream_core \<Rightarrow> stream_core" where
  "release_event event c =
     (case event of EData data \<Rightarrow> c\<lparr>sc_read_pool := snd (rb_release data (sc_read_pool c))\<rparr> | _ \<Rightarrow> c)"

definition event_len :: "pending_read_event \<Rightarrow> nat" where
  "event_len event = (case event of EData data \<Rightarrow> length (vec_data data) | _ \<Rightarrow> 0)"

definition schedule_read_drain :: "stream_env \<Rightarrow> stream_core \<Rightarrow> stream_core" where
  "schedule_read_drain env c =
     (if sc_read_scheduled c then c
      else
        let c1 = c\<lparr>sc_read_scheduled := True\<rparr>
        in if te_loop_send env c1 then c1\<lparr>sc_commands := sc_commands c1 @ [MStreamRead]\<rparr>
           else c1\<lparr>sc_read_scheduled := False\<rparr>)"

definition enqueue_pending_read_event :: "stream_env \<Rightarrow> pending_read_event \<Rightarrow> stream_core \<Rightarrow> stream_core" where
  "enqueue_pending_read_event env event c =
     (if sc_detached c then release_event event c
      else
        (case transition_read_event_state (sc_event_state c) (read_event_kind event) of
           None \<Rightarrow> release_event event c
         | Some next_read_event_state \<Rightarrow>
             let c1 = c\<lparr>sc_event_state := next_read_event_state,
                        sc_pending_read_bytes := sc_pending_read_bytes c + event_len event,
                        sc_events := sc_events c @ [event]\<rparr>;
                 c2 = (if event_len event > 0 then apply_pending_read_backpressure c1 else c1)
             in schedule_read_drain env c2))"

text \<open>Loss of the connection always goes through the gate (core\_protocol.rs).\<close>

definition connection_lost :: "stream_env \<Rightarrow> string option \<Rightarrow> stream_core \<Rightarrow> stream_core" where
  "connection_lost env exc c = enqueue_pending_read_event env (ELost exc) c"

text \<open>A transport for the examples: the first write finds the socket full.\<close>

definition demo_env :: stream_env where
  "demo_env = \<lparr>te_grow = (\<lambda>_ n. n), te_on_loop = True, te_turn = 1, te_cap = 1024, te_loop_send = (\<lambda>_. True),
     te_send = (\<lambda>slices c. if sc_wire c = [] then Inl (io_err KWouldBlock) else Inr (length (concat slices))),
     te_materialize = (\<lambda>_. None), te_spawn = (\<lambda>_. None), te_stop_io_task = (\<lambda>_. True), te_pause = id, te_resume = id,
     te_display = (\<lambda>_. [])\<rparr>"

definition demo_config :: state_config where
  "demo_config = \<lparr>cfg_io_fd = Some 7, cfg_runtime_socket_io = True, cfg_reading = True, cfg_writable = True,
     cfg_can_write_eof = True, cfg_close_on_write_eof = False\<rparr>"

subsection \<open>Flags\<close>

lemma sm_new_inner [simp]: "sm_inner (sm_new f x) = x"
  by (simp add: sm_new_def)

abbreviation sc_coherent :: "stream_core \<Rightarrow> bool" where
  "sc_coherent c \<equiv> sm_coherent stream_flags (sc_state c)"

lemma stream_flags_bits:
  "stream_flags s AND 1 \<noteq> 0 \<longleftrightarrow> st_closing s"
  "stream_flags s AND 2 \<noteq> 0 \<longleftrightarrow> st_writable s"
  "stream_flags s AND 4 \<noteq> 0 \<longleftrightarrow> st_writer_registered s"
  "stream_flags s AND 9 \<noteq> 0 \<longleftrightarrow> st_closing s \<or> st_lost_called s"
  by (cases "st_closing s"; cases "st_writable s"; cases "st_writer_registered s"; cases "st_lost_called s"; simp add: stream_flags_def)+

lemma stream_flags_read:
  assumes "sc_coherent c"
  shows "is_closing c \<longleftrightarrow> st_closing (sc_st c)" "write_backpressure_active c \<longleftrightarrow> st_writer_registered (sc_st c)"
    "is_closing_or_lost c \<longleftrightarrow> st_closing (sc_st c) \<or> st_lost_called (sc_st c)"
    "write_status c = (st_closing (sc_st c), st_writable (sc_st c), st_writer_registered (sc_st c))"
  using assms
  by (simp_all add: is_closing_def write_backpressure_active_def is_closing_or_lost_def write_status_def sm_coherent_def
      stream_flags_bits Let_def)

lemma sc_update_state [simp]:
  "sc_st (sc_update f c) = f (sc_st c)" "sc_coherent (sc_update f c)"
  by (simp_all add: sc_update_def)

lemma sc_update_frame [simp]:
  "sc_events (sc_update f c) = sc_events c" "sc_drain (sc_update f c) = sc_drain c" "sc_coalesce (sc_update f c) = sc_coalesce c"
  "sc_read_pool (sc_update f c) = sc_read_pool c" "sc_pending_read_bytes (sc_update f c) = sc_pending_read_bytes c"
  "sc_read_scheduled (sc_update f c) = sc_read_scheduled c" "sc_event_state (sc_update f c) = sc_event_state c"
  "sc_reading (sc_update f c) = sc_reading c" "sc_detached (sc_update f c) = sc_detached c" "sc_queue (sc_update f c) = sc_queue c"
  "sc_write_pool (sc_update f c) = sc_write_pool c" "sc_direct (sc_update f c) = sc_direct c"
  "sc_pending_direct (sc_update f c) = sc_pending_direct c" "sc_direct_scheduled (sc_update f c) = sc_direct_scheduled c"
  "sc_lazy (sc_update f c) = sc_lazy c" "sc_workers (sc_update f c) = sc_workers c" "sc_coalesce_small (sc_update f c) = sc_coalesce_small c"
  "sc_commands (sc_update f c) = sc_commands c" "sc_wire (sc_update f c) = sc_wire c" "sc_shutdown (sc_update f c) = sc_shutdown c"
  by (simp_all add: sc_update_def)

subsection \<open>Flow control: properties\<close>

text \<open>The calls that change the write-buffer account, and the signals they give to the protocol.\<close>

datatype flow_op = FEnqueue nat | FDrain nat | FClear | FLimits "nat option" "nat option"

definition flow_step :: "nat \<Rightarrow> flow_op \<Rightarrow> write_buffer_state \<Rightarrow> write_buffer_signal \<times> write_buffer_state" where
  "flow_step cap op s =
     (case op of
        FEnqueue len \<Rightarrow> (case enqueue_write_buffer len cap s of (Inr sig, s1) \<Rightarrow> (sig, s1) | (Inl _, s1) \<Rightarrow> (SigNone, s1))
      | FDrain len \<Rightarrow> drain_write_buffer len s
      | FClear \<Rightarrow> clear_write_buffer_state True s
      | FLimits high low \<Rightarrow>
          (case normalize_write_buffer_limits high low of
             Some (l, h) \<Rightarrow> reconcile_write_buffer_limits l h s
           | None \<Rightarrow> (SigNone, s)))"

fun flow_run :: "nat \<Rightarrow> flow_op list \<Rightarrow> write_buffer_state \<Rightarrow> write_buffer_signal list \<times> write_buffer_state" where
  "flow_run cap [] s = ([], s)"
| "flow_run cap (op # ops) s =
     (let (sig, s1) = flow_step cap op s; (sigs, s2) = flow_run cap ops s1
      in (if sig = SigNone then sigs else sig # sigs, s2))"

definition flow_ok :: "nat \<Rightarrow> write_buffer_state \<Rightarrow> bool" where
  "flow_ok cap s \<longleftrightarrow> wb_low_water s \<le> wb_high_water s \<and> wb_size s \<le> cap
     \<and> (wb_protocol_paused s \<longrightarrow> wb_low_water s < wb_size s) \<and> (\<not> wb_protocol_paused s \<longrightarrow> wb_size s \<le> wb_high_water s)"

text \<open>\<open>alternating b\<close>: the signals of a protocol that is paused (\<open>b\<close>) or not.\<close>

fun alternating :: "bool \<Rightarrow> write_buffer_signal list \<Rightarrow> bool" where
  "alternating b [] = True"
| "alternating b (sig # sigs) = (sig = (if b then SigResume else SigPause) \<and> alternating (\<not> b) sigs)"

lemma normalize_ordered: "normalize_write_buffer_limits high low = Some (l, h) \<Longrightarrow> l \<le> h"
  by (auto simp: normalize_write_buffer_limits_def Let_def bind_eq_Some_conv split: if_splits)

lemma flow_step_ok:
  assumes "flow_ok cap s" "flow_step cap op s = (sig, s')"
  shows "flow_ok cap s' \<and> (sig = SigNone \<and> wb_protocol_paused s' = wb_protocol_paused s \<or>
    sig = (if wb_protocol_paused s then SigResume else SigPause) \<and> wb_protocol_paused s' = (\<not> wb_protocol_paused s))"
proof (cases op)
  case (FLimits high low)
  show ?thesis
  proof (cases "normalize_write_buffer_limits high low")
    case None
    then show ?thesis using assms FLimits by (simp add: flow_step_def)
  next
    case (Some lh)
    then obtain l h where lh: "normalize_write_buffer_limits high low = Some (l, h)" "l \<le> h"
      using normalize_ordered by (cases lh) blast
    then show ?thesis
      using assms FLimits
      by (auto simp: flow_step_def flow_ok_def reconcile_write_buffer_limits_def Let_def split: if_splits)
  qed
qed (use assms in \<open>auto simp: flow_step_def flow_ok_def enqueue_write_buffer_def drain_write_buffer_def
      clear_write_buffer_state_def Let_def split: if_splits\<close>)

lemma flow_run_ok:
  "flow_ok cap s \<Longrightarrow> flow_run cap ops s = (sigs, s') \<Longrightarrow>
    flow_ok cap s' \<and> alternating (wb_protocol_paused s) sigs
    \<and> wb_protocol_paused s' = (if sigs = [] then wb_protocol_paused s else last sigs = SigPause)"
proof (induction ops arbitrary: s sigs s')
  case (Cons op ops)
  obtain sig s1 where 1: "flow_step cap op s = (sig, s1)" by (cases "flow_step cap op s")
  obtain sigs1 s2 where 2: "flow_run cap ops s1 = (sigs1, s2)" by (cases "flow_run cap ops s1")
  note st = flow_step_ok [OF Cons.prems(1) 1]
  have "flow_ok cap s1" using st by blast
  note ih = Cons.IH [OF this 2]
  show ?case using Cons.prems(2) st ih 1 2 by (auto split: if_splits)
qed simp



end
