(* ===== verification/Write_Path.thy ===== *)
theory Write_Path
  imports Stream_Core "HOL-Library.Sublist"
begin

section \<open>The write path (transport/stream/core\_write.rs, py\_transport.rs)\<close>

text \<open>
  Direct writes, staging for one loop turn, the hand-over to the writer worker, and the close
  operations of the transport. \<open>None\<close> is a panic. What a write leaves behind is the concatenation of
  what the kernel accepted, what is queued for the worker and what is staged; the properties say that
  writes extend it at the end and nothing else changes it.
\<close>

definition SMALL_WRITE_COALESCE_MIN_BYTES :: nat where "SMALL_WRITE_COALESCE_MIN_BYTES = 64"
definition SMALL_WRITE_COALESCE_MAX_BYTES :: nat where "SMALL_WRITE_COALESCE_MAX_BYTES = STREAM_READ_BUFFER_SIZE"

definition is_write_batch_candidate :: "nat \<Rightarrow> bool" where
  "is_write_batch_candidate len \<longleftrightarrow> len > SMALL_WRITE_COALESCE_MIN_BYTES \<and> len \<le> SMALL_WRITE_COALESCE_MAX_BYTES"

subsection \<open>Accounting and signals\<close>

definition notify_pause_writing :: "stream_env \<Rightarrow> stream_core \<Rightarrow> stream_core" where
  "notify_pause_writing env c = (if te_on_loop env then te_pause env c else enqueue_pending_read_event env EPause c)"

definition notify_resume_writing :: "stream_env \<Rightarrow> stream_core \<Rightarrow> stream_core" where
  "notify_resume_writing env c = (if te_on_loop env then te_resume env c else enqueue_pending_read_event env EResume c)"

definition record_write_buffer_enqueued :: "stream_env \<Rightarrow> nat \<Rightarrow> stream_core \<Rightarrow> (io_error + bool) \<times> stream_core" where
  "record_write_buffer_enqueued env len c =
     (if len = 0 then (Inr False, c)
      else
        (case enqueue_write_buffer len (te_cap env) (st_write_buffer (sc_st c)) of
           (Inr sig, wb) \<Rightarrow> (Inr (sig = SigPause), sc_update (\<lambda>s. s\<lparr>st_write_buffer := wb\<rparr>) c)
         | (Inl _, wb) \<Rightarrow> (Inl (io_err KOutOfMemory), sc_update (\<lambda>s. s\<lparr>st_write_buffer := wb\<rparr>) c)))"

definition record_write_buffer_drained :: "stream_env \<Rightarrow> nat \<Rightarrow> stream_core \<Rightarrow> stream_core" where
  "record_write_buffer_drained env len c =
     (if len = 0 then c
      else
        (case drain_write_buffer len (st_write_buffer (sc_st c)) of
           (sig, wb) \<Rightarrow>
             let c1 = sc_update (\<lambda>s. s\<lparr>st_write_buffer := wb\<rparr>) c
             in if sig = SigResume then notify_resume_writing env c1 else c1))"

definition clear_write_buffer :: "stream_env \<Rightarrow> bool \<Rightarrow> stream_core \<Rightarrow> stream_core" where
  "clear_write_buffer env resume_protocol c =
     (case clear_write_buffer_state resume_protocol (st_write_buffer (sc_st c)) of
        (sig, wb) \<Rightarrow>
          let c1 = sc_update (\<lambda>s. s\<lparr>st_write_buffer := wb\<rparr>) c
          in if sig = SigResume then notify_resume_writing env c1 else c1)"

definition set_write_buffer_limits :: "stream_env \<Rightarrow> nat option \<Rightarrow> nat option \<Rightarrow> stream_core \<Rightarrow> bool \<times> stream_core" where
  "set_write_buffer_limits env high low c =
     (case normalize_write_buffer_limits high low of
        None \<Rightarrow> (False, c)
      | Some (l, h) \<Rightarrow>
          (case reconcile_write_buffer_limits l h (st_write_buffer (sc_st c)) of
             (sig, wb) \<Rightarrow>
               let c1 = sc_update (\<lambda>s. s\<lparr>st_write_buffer := wb\<rparr>) c
               in (True,
                   case sig of
                     SigPause \<Rightarrow> notify_pause_writing env c1
                   | SigResume \<Rightarrow> notify_resume_writing env c1
                   | SigNone \<Rightarrow> c1)))"

subsection \<open>Failing, starting the worker, queueing\<close>

text \<open>Sending to the worker; a refused command is dropped, which returns pooled storage.\<close>

definition writer_tx_send :: "stream_env \<Rightarrow> writer_command \<Rightarrow> stream_core \<Rightarrow> (bool \<times> stream_core) option" where
  "writer_tx_send env command c = do {
     (r, q, pool) \<leftarrow> writer_send (te_grow env) command (sc_queue c, sc_write_pool c);
     Some (case r of
             Inr _ \<Rightarrow> (True, c\<lparr>sc_queue := q, sc_write_pool := pool\<rparr>)
           | Inl refused \<Rightarrow> (False, c\<lparr>sc_queue := q, sc_write_pool := command_drop refused pool\<rparr>))
   }"

definition drop_pending :: "stream_core \<Rightarrow> stream_core" where
  "drop_pending c =
     (case sc_pending_direct c of
        None \<Rightarrow> c
      | Some b \<Rightarrow> c\<lparr>sc_pending_direct := None, sc_write_pool := write_buffer_drop b (sc_write_pool c)\<rparr>)"

definition drop_buffer :: "owned_write_buffer \<Rightarrow> stream_core \<Rightarrow> stream_core" where
  "drop_buffer b c = c\<lparr>sc_write_pool := write_buffer_drop b (sc_write_pool c)\<rparr>"

definition fail_write :: "stream_env \<Rightarrow> io_error option \<Rightarrow> stream_core \<Rightarrow> stream_core option" where
  "fail_write env err c =
     (if is_closing c then Some c
      else
        let c1 = enqueue_pending_read_event env (ELost (map_option (te_display env) err)) c;
            c2 = set_write_backpressure_active False (set_closing c1);
            c3 = (drop_pending c2)\<lparr>sc_direct_scheduled := False\<rparr>;
            c4 = clear_write_buffer env False c3
        in map_option snd (writer_tx_send env WStop c4))"

definition ensure_writer_worker :: "stream_env \<Rightarrow> stream_core \<Rightarrow> stream_core option" where
  "ensure_writer_worker env c =
     (if \<not> sc_lazy c then Some c
      else
        let c1 = c\<lparr>sc_lazy := False\<rparr>
        in case te_materialize env c1 of
             Some err \<Rightarrow>
               map_option (\<lambda>c2. c2\<lparr>sc_queue := receiver_drop (sc_queue c2)\<rparr>) (fail_write env (Some err) c1)
           | None \<Rightarrow>
               (case te_spawn env c1 of
                  None \<Rightarrow> Some (c1\<lparr>sc_workers := sc_workers c1 + 1\<rparr>)
                | Some err \<Rightarrow> fail_write env (Some err) (c1\<lparr>sc_queue := receiver_drop (sc_queue c1)\<rparr>)))"

definition queue_write :: "stream_env \<Rightarrow> owned_write_buffer \<Rightarrow> stream_core \<Rightarrow> ((io_error + unit) \<times> stream_core) option" where
  "queue_write env data c = do {
     n \<leftarrow> ob_len data;
     (case record_write_buffer_enqueued env n c of
        (Inl e, c1) \<Rightarrow> Some (Inl e, drop_buffer data c1)
      | (Inr should_pause, c1) \<Rightarrow> do {
          c2 \<leftarrow> ensure_writer_worker env c1;
          (sent, c3) \<leftarrow> writer_tx_send env (WData data) c2;
          if \<not> sent then map_option (Pair (Inr ())) (fail_write env None (clear_write_buffer env False c3))
          else Some (Inr (), if should_pause then notify_pause_writing env c3 else c3)
        })
   }"

definition queue_recorded_write :: "stream_env \<Rightarrow> owned_write_buffer \<Rightarrow> stream_core \<Rightarrow> stream_core option" where
  "queue_recorded_write env data c = do {
     c1 \<leftarrow> ensure_writer_worker env c;
     (sent, c2) \<leftarrow> writer_tx_send env (WData data) c1;
     if \<not> sent then fail_write env None (clear_write_buffer env False c2) else Some c2
   }"

definition queue_write_batch ::
    "stream_env \<Rightarrow> owned_write_buffer list \<Rightarrow> stream_core \<Rightarrow> ((io_error + unit) \<times> stream_core) option" where
  "queue_write_batch env buffers c = do {
     lens \<leftarrow> those (map ob_len buffers);
     (case record_write_buffer_enqueued env (sum_list lens) c of
        (Inl e, c1) \<Rightarrow> Some (Inl e, fold drop_buffer buffers c1)
      | (Inr should_pause, c1) \<Rightarrow> do {
          c2 \<leftarrow> ensure_writer_worker env (set_write_backpressure_active True c1);
          (case send_batch buffers (sc_queue c2) of
             (Inl _, q) \<Rightarrow>
               map_option (Pair (Inr ()))
                 (fail_write env None (clear_write_buffer env False (fold drop_buffer buffers (c2\<lparr>sc_queue := q\<rparr>))))
           | (Inr _, q) \<Rightarrow>
               let c3 = c2\<lparr>sc_queue := q\<rparr> in Some (Inr (), if should_pause then notify_pause_writing env c3 else c3))
        })
   }"

subsection \<open>Direct writes and staging\<close>

text \<open>The kernel takes a prefix of what it is offered; \<open>te_send\<close> says how much.\<close>

definition kernel_write :: "stream_env \<Rightarrow> bytes list \<Rightarrow> stream_core \<Rightarrow> (io_error + nat) \<times> stream_core" where
  "kernel_write env slices c =
     (case te_send env slices c of
        Inl e \<Rightarrow> (Inl e, c)
      | Inr n \<Rightarrow> (Inr n, c\<lparr>sc_wire := sc_wire c @ take n (concat slices)\<rparr>))"

definition try_direct_tasked_write :: "stream_env \<Rightarrow> bytes \<Rightarrow> stream_core \<Rightarrow> (io_error + nat) \<times> stream_core" where
  "try_direct_tasked_write env data c =
     (case sc_direct c of
        None \<Rightarrow> (Inl (io_err KOther), c)
      | Some False \<Rightarrow> (Inl (io_err KNotConnected), c)
      | Some True \<Rightarrow> kernel_write env [data] c)"

definition try_direct_tasked_write_vectored ::
    "stream_env \<Rightarrow> bytes list \<Rightarrow> stream_core \<Rightarrow> ((io_error + nat) \<times> stream_core) option" where
  "try_direct_tasked_write_vectored env slices c =
     (case sc_direct c of
        None \<Rightarrow> None
      | Some True \<Rightarrow> Some (kernel_write env slices c)
      | Some False \<Rightarrow> Some (Inl (io_err KNotConnected), c))"

definition stage_owned_buffer :: "stream_env \<Rightarrow> owned_write_buffer \<Rightarrow> stream_core \<Rightarrow> stream_core option" where
  "stage_owned_buffer env data c =
     (case sc_pending_direct c of
        Some buffer \<Rightarrow> do {
          d \<leftarrow> remaining data;
          (buffer1, pool) \<leftarrow> extend_from_slice_pooled (te_grow env) d buffer (sc_write_pool c);
          Some (drop_buffer data (c\<lparr>sc_pending_direct := Some buffer1, sc_write_pool := pool\<rparr>))
        }
      | None \<Rightarrow> Some (c\<lparr>sc_pending_direct := Some data\<rparr>))"

definition finish_staged_write :: "stream_env \<Rightarrow> bool \<Rightarrow> stream_core \<Rightarrow> stream_core option" where
  "finish_staged_write env should_pause c =
     (let c1 = (if should_pause then notify_pause_writing env c else c)
      in if sc_direct_scheduled c1 then Some c1
         else
           let c2 = c1\<lparr>sc_direct_scheduled := True\<rparr>
           in if te_loop_send env c2 then Some (c2\<lparr>sc_commands := sc_commands c2 @ [MStreamWrite]\<rparr>)
              else fail_write env None (c2\<lparr>sc_direct_scheduled := False\<rparr>))"

definition stage_direct_write_buffer ::
    "stream_env \<Rightarrow> owned_write_buffer \<Rightarrow> stream_core \<Rightarrow> ((io_error + unit) \<times> stream_core) option" where
  "stage_direct_write_buffer env data c = do {
     empty \<leftarrow> ob_is_empty data;
     if empty then Some (Inr (), drop_buffer data c)
     else do {
       n \<leftarrow> ob_len data;
       (case record_write_buffer_enqueued env n c of
          (Inl e, c1) \<Rightarrow> Some (Inl e, drop_buffer data c1)
        | (Inr should_pause, c1) \<Rightarrow> do {
            c2 \<leftarrow> stage_owned_buffer env data c1;
            map_option (Pair (Inr ())) (finish_staged_write env should_pause c2)
          })
     }
   }"

definition flush_pending_direct_write :: "stream_env \<Rightarrow> stream_core \<Rightarrow> stream_core option" where
  "flush_pending_direct_write env c0 =
     (let c = c0\<lparr>sc_direct_scheduled := False\<rparr>
      in case sc_pending_direct c of
           None \<Rightarrow> Some c
         | Some data \<Rightarrow> do {
             let c1 = c\<lparr>sc_pending_direct := None\<rparr>;
             r \<leftarrow> remaining data;
             if is_closing c1 then Some (drop_buffer data (record_write_buffer_drained env (length r) c1))
             else
               (case try_direct_tasked_write env r c1 of
                  (Inr written, c2) \<Rightarrow>
                    if written = length r then Some (drop_buffer data (record_write_buffer_drained env written c2))
                    else do {
                      c3 \<leftarrow> queue_recorded_write env (advance written data) (set_write_backpressure_active True c2);
                      Some (record_write_buffer_drained env written c3)
                    }
                | (Inl err, c2) \<Rightarrow>
                    if ie_kind err = KInterrupted \<or> is_transient_write_backpressure err
                    then queue_recorded_write env data (set_write_backpressure_active True c2)
                    else map_option (drop_buffer data) (fail_write env (Some err) c2))
           })"

definition discard_pending_direct_write :: "stream_env \<Rightarrow> stream_core \<Rightarrow> stream_core option" where
  "discard_pending_direct_write env c0 =
     (let c = c0\<lparr>sc_direct_scheduled := False\<rparr>
      in case sc_pending_direct c of
           None \<Rightarrow> Some (record_write_buffer_drained env 0 c)
         | Some b \<Rightarrow> do {
             n \<leftarrow> ob_len b;
             Some (record_write_buffer_drained env n (drop_pending c))
           })"

text \<open>Whether this connection emits batches: two small writes in one turn, or a batch in the turn before.\<close>

definition should_coalesce_small_write :: "stream_env \<Rightarrow> nat \<Rightarrow> stream_core \<Rightarrow> bool \<times> stream_core" where
  "should_coalesce_small_write env len c =
     (if \<not> sc_coalesce_small c \<or> \<not> is_write_batch_candidate len then (False, c)
      else
        let turn = te_turn env; c1 = c\<lparr>sc_small_turn := turn\<rparr>
        in if sc_small_turn c = turn then (True, c1\<lparr>sc_small_writes := 2\<rparr>)
           else (sc_small_writes c1 > 1, c1\<lparr>sc_small_writes := 1\<rparr>))"

text \<open>What follows a direct attempt in all three write functions: the rest goes to the worker.\<close>

definition after_direct ::
    "stream_env \<Rightarrow> owned_write_buffer \<Rightarrow> nat \<Rightarrow> (io_error + nat) \<times> stream_core \<Rightarrow> ((io_error + unit) \<times> stream_core) option" where
  "after_direct env data len r =
     (case r of
        (Inr written, c) \<Rightarrow>
          if written = len then Some (Inr (), drop_buffer data c)
          else queue_write env (advance written data) (set_write_backpressure_active True c)
      | (Inl err, c) \<Rightarrow>
          if ie_kind err = KInterrupted \<or> is_transient_write_backpressure err
          then queue_write env data (set_write_backpressure_active True c)
          else map_option (\<lambda>c1. (Inr (), drop_buffer data c1)) (fail_write env (Some err) c))"

definition try_write_bytes_with_status ::
    "stream_env \<Rightarrow> bytes \<Rightarrow> bool \<Rightarrow> stream_core \<Rightarrow> ((io_error + unit) \<times> stream_core) option" where
  "try_write_bytes_with_status env data backpressure_active c =
     (if sc_direct c \<noteq> None \<and> \<not> backpressure_active then
        let (coalesce, c1) = should_coalesce_small_write env (length data) c
        in if sc_direct_scheduled c1 \<or> coalesce then stage_direct_write_buffer env (from_python data) c1
           else after_direct env (from_python data) (length data) (try_direct_tasked_write env data c1)
      else queue_write env (from_python data) c)"

definition try_write_bytes :: "stream_env \<Rightarrow> bytes \<Rightarrow> stream_core \<Rightarrow> ((io_error + unit) \<times> stream_core) option" where
  "try_write_bytes env data c = try_write_bytes_with_status env data (write_backpressure_active c) c"

definition try_write_buffer :: "stream_env \<Rightarrow> owned_write_buffer \<Rightarrow> stream_core \<Rightarrow> ((io_error + unit) \<times> stream_core) option" where
  "try_write_buffer env data c = do {
     r \<leftarrow> remaining data;
     if r = [] then Some (Inr (), drop_buffer data c)
     else if sc_direct c \<noteq> None \<and> \<not> write_backpressure_active c then
       (if sc_direct_scheduled c \<or> (sc_coalesce_small c \<and> is_write_batch_candidate (length r))
        then stage_direct_write_buffer env data c
        else after_direct env data (length r) (try_direct_tasked_write env r c))
     else queue_write env data c
   }"

subsection \<open>Several segments at once\<close>

text \<open>The segments left after \<open>written\<close> bytes, as buffers of their own.\<close>

fun segment_buffers :: "nat \<Rightarrow> bytes list \<Rightarrow> owned_write_buffer list" where
  "segment_buffers written [] = []"
| "segment_buffers written (segment # rest) =
     (if written \<ge> length segment then segment_buffers (written - length segment) rest
      else advance written (from_python segment) # segment_buffers 0 rest)"

text \<open>The same bytes joined in one pooled buffer.\<close>

fun join_segments :: "(nat \<Rightarrow> nat \<Rightarrow> nat) \<Rightarrow> nat \<Rightarrow> bytes list \<Rightarrow> owned_write_buffer \<Rightarrow> owned_write_buffer option" where
  "join_segments grow written [] joined = Some joined"
| "join_segments grow written (segment # rest) joined =
     (let skip = min written (length segment)
      in Option.bind (extend_from_slice grow (drop skip segment) joined) (join_segments grow (written - skip) rest))"

definition write_rest ::
    "stream_env \<Rightarrow> bytes list \<Rightarrow> nat \<Rightarrow> nat \<Rightarrow> stream_core \<Rightarrow> ((io_error + unit) \<times> stream_core) option" where
  "write_rest env segments len written c =
     (if len - written > DEFAULT_WRITE_BUFFER_HIGH_WATER \<and> length segments \<le> 16 \<and> \<not> sc_direct_scheduled c
      then queue_write_batch env (segment_buffers written segments) c
      else do {
        (joined, pool) \<leftarrow> with_pooled_capacity (te_grow env) (len - written) (sc_write_pool c);
        joined1 \<leftarrow> join_segments (te_grow env) written segments joined;
        try_write_buffer env joined1 (c\<lparr>sc_write_pool := pool\<rparr>)
      })"

definition try_write_segments ::
    "stream_env \<Rightarrow> bytes list \<Rightarrow> nat \<Rightarrow> stream_core \<Rightarrow> ((io_error + unit) \<times> stream_core) option" where
  "try_write_segments env segments len c =
     (if len = 0 then Some (Inr (), c)
      else if length segments = 1 then try_write_bytes env (hd segments) c
      else if len > SMALL_WRITE_COALESCE_MAX_BYTES \<and> sc_direct c \<noteq> None \<and> \<not> write_backpressure_active c
          \<and> \<not> sc_direct_scheduled c
      then do {
        (r, c1) \<leftarrow> try_direct_tasked_write_vectored env (take 16 segments) c;
        case r of
          Inr n \<Rightarrow>
            if n = len then Some (Inr (), c1)
            else write_rest env segments len n (set_write_backpressure_active True c1)
        | Inl err \<Rightarrow>
            if ie_kind err = KInterrupted \<or> is_transient_write_backpressure err
            then write_rest env segments len 0 (set_write_backpressure_active True c1)
            else map_option (Pair (Inr ())) (fail_write env (Some err) c1)
      }
      else write_rest env segments len 0 c)"

subsection \<open>The Python transport\<close>

text \<open>\<open>write\<close> of bytes (a text transport encodes first), and \<open>writelines\<close> of converted segments.\<close>

definition write_data :: "stream_env \<Rightarrow> bytes \<Rightarrow> stream_core \<Rightarrow> ((io_error option + unit) \<times> stream_core) option" where
  "write_data env data c =
     (case write_status c of (closing, writable, backpressure_active) \<Rightarrow>
        if closing then Some (Inr (), c)
        else if \<not> writable then Some (Inl None, c)
        else map_option (map_prod (map_sum Some id) id) (try_write_bytes_with_status env data backpressure_active c))"

definition writelines :: "stream_env \<Rightarrow> bytes list \<Rightarrow> stream_core \<Rightarrow> ((io_error option + unit) \<times> stream_core) option" where
  "writelines env items c =
     (case write_status c of (closing, writable, _) \<Rightarrow>
        if closing then Some (Inr (), c)
        else if \<not> writable then Some (Inl None, c)
        else
          let len = sum_list (map length items)
          in if len > usize_max then Some (Inl None, c)
             else map_option (map_prod (map_sum Some id) id) (try_write_segments env (filter (\<lambda>b. b \<noteq> []) items) len c))"

definition stop_socket_reader_nowait :: "stream_env \<Rightarrow> int \<Rightarrow> stream_core \<Rightarrow> stream_core" where
  "stop_socket_reader_nowait env fd c =
     (if te_stop_io_task env fd then c
      else if te_loop_send env c then c\<lparr>sc_commands := sc_commands c @ [MStopReader fd]\<rparr> else c)"

definition stop_reader_if_runtime :: "stream_env \<Rightarrow> stream_core \<Rightarrow> stream_core" where
  "stop_reader_if_runtime env c =
     (case runtime_socket_fd c of Some fd \<Rightarrow> stop_socket_reader_nowait env fd c | None \<Rightarrow> c)"

definition direct_shutdown :: "shutdown \<Rightarrow> stream_core \<Rightarrow> stream_core" where
  "direct_shutdown how c = (if sc_direct c = Some True then c\<lparr>sc_shutdown := sc_shutdown c @ [how]\<rparr> else c)"

definition transport_close :: "stream_env \<Rightarrow> stream_core \<Rightarrow> stream_core option" where
  "transport_close env c = do {
     c1 \<leftarrow> flush_pending_direct_write env c;
     let c2 = stop_reader_if_runtime env (set_closing c1);
     if sc_direct c2 = None then map_option snd (writer_tx_send env WClose c2)
     else if sc_lazy c2 then do {
       (_, c3) \<leftarrow> writer_tx_send env WStop (direct_shutdown ShutWrite c2);
       Some (connection_lost env None c3)
     }
     else map_option snd (writer_tx_send env WClose c2)
   }"

definition transport_abort :: "stream_env \<Rightarrow> stream_core \<Rightarrow> stream_core option" where
  "transport_abort env c = do {
     c1 \<leftarrow> discard_pending_direct_write env c;
     let c2 = stop_reader_if_runtime env (set_closing c1);
     if sc_direct c2 = None then map_option snd (writer_tx_send env WAbort c2)
     else do {
       (_, c3) \<leftarrow> writer_tx_send env WAbort (direct_shutdown ShutBoth c2);
       Some (connection_lost env None c3)
     }
   }"

definition transport_write_eof :: "stream_env \<Rightarrow> stream_core \<Rightarrow> (bool \<times> stream_core) option" where
  "transport_write_eof env c =
     (if \<not> st_can_write_eof (sc_st c) then Some (False, c)
      else do {
        c1 \<leftarrow> flush_pending_direct_write env c;
        let c2 = mark_write_eof c1;
        if sc_direct c2 \<noteq> None \<and> sc_lazy c2 then
          let c3 = direct_shutdown ShutWrite c2
          in Some (True, if st_close_on_write_eof (sc_st c3) then connection_lost env None c3 else c3)
        else map_option (\<lambda>(_, c3). (True, c3)) (writer_tx_send env WriteEof c2)
      })"

subsection \<open>What has been written\<close>

definition bytes_of :: "token list \<Rightarrow> bytes" where
  "bytes_of ts = concat (map (\<lambda>t. case t of TByte b \<Rightarrow> [b] | _ \<Rightarrow> []) ts)"

definition queued :: "stream_core \<Rightarrow> bytes" where
  "queued c = bytes_of (tokens (q_commands (sc_queue c)))"

definition staged :: "stream_core \<Rightarrow> bytes" where
  "staged c = (case sc_pending_direct c of None \<Rightarrow> [] | Some b \<Rightarrow> ob_rest b)"

definition written :: "stream_core \<Rightarrow> bytes" where
  "written c = sc_wire c @ queued c @ staged c"

text \<open>
  The invariant of the write path: staged bytes have nothing queued before them and a flush is due;
  queued bytes keep later writes off the socket; and the account is exact.
\<close>

definition write_inv :: "stream_core \<Rightarrow> bool" where
  "write_inv c \<longleftrightarrow> sc_coherent c \<and> queue_ok (sc_queue c)
     \<and> (\<forall>b. sc_pending_direct c = Some b \<longrightarrow> ob_ok b \<and> sc_direct_scheduled c \<and> \<not> st_writer_registered (sc_st c) \<and> sc_direct c \<noteq> None)
     \<and> (queued c \<noteq> [] \<longrightarrow> st_writer_registered (sc_st c) \<or> sc_direct c = None)
     \<and> wb_size (st_write_buffer (sc_st c)) = length (queued c) + length (staged c)"

text \<open>The part of the state the write path depends on.\<close>

definition same_writes :: "stream_core \<Rightarrow> stream_core \<Rightarrow> bool" where
  "same_writes c c' \<longleftrightarrow> sc_queue c' = sc_queue c \<and> sc_direct c' = sc_direct c \<and> sc_pending_direct c' = sc_pending_direct c
     \<and> sc_direct_scheduled c' = sc_direct_scheduled c \<and> sc_wire c' = sc_wire c
     \<and> st_closing (sc_st c') = st_closing (sc_st c) \<and> st_writer_registered (sc_st c') = st_writer_registered (sc_st c)
     \<and> st_write_buffer (sc_st c') = st_write_buffer (sc_st c) \<and> (sc_coherent c \<longrightarrow> sc_coherent c')"

text \<open>
  What is assumed of the environment: the kernel never accepts more than it was offered, and the flow
  control callbacks of the protocol do not themselves write to or close this transport.
\<close>

definition quiet_env :: "stream_env \<Rightarrow> bool" where
  "quiet_env env \<longleftrightarrow> (\<forall>slices c n. te_send env slices c = Inr n \<longrightarrow> n \<le> length (concat slices))
     \<and> (\<forall>c. same_writes c (te_pause env c)) \<and> (\<forall>c. same_writes c (te_resume env c))"

lemma same_writes_refl [simp]: "same_writes c c"
  by (simp add: same_writes_def)

lemma same_writes_trans: "same_writes a b \<Longrightarrow> same_writes b c \<Longrightarrow> same_writes a c"
  by (simp add: same_writes_def)

lemma bytes_of_simps [simp]:
  "bytes_of [] = []" "bytes_of (a @ b) = bytes_of a @ bytes_of b" "bytes_of (map TByte d) = d"
  "bytes_of [TEof] = []" "bytes_of [TClose] = []" "bytes_of [TAbort] = []" "bytes_of [TStop] = []"
  by (simp_all add: bytes_of_def) (induction d, simp_all)

lemma same_writes_derived:
  assumes "same_writes c c'"
  shows "queued c' = queued c" "staged c' = staged c" "written c' = written c" "write_inv c \<Longrightarrow> write_inv c'"
    "sc_coherent c \<Longrightarrow> is_closing c' = is_closing c"
  using assms by (simp_all add: same_writes_def queued_def staged_def written_def write_inv_def stream_flags_read)

lemma release_event_same [simp]: "same_writes c (release_event e c)"
  by (cases e) (simp_all add: release_event_def same_writes_def)

lemma schedule_read_drain_same [simp]: "same_writes c (schedule_read_drain env c)"
  by (simp add: schedule_read_drain_def same_writes_def Let_def)

lemma apply_backpressure_same [simp]: "same_writes c (apply_pending_read_backpressure c)"
  by (simp add: apply_pending_read_backpressure_def same_writes_def)

lemma enqueue_event_same [simp]: "same_writes c (enqueue_pending_read_event env e c)"
proof (cases "sc_detached c \<or> transition_read_event_state (sc_event_state c) (read_event_kind e) = None")
  case True
  then show ?thesis by (auto simp: enqueue_pending_read_event_def)
next
  case False
  then obtain n where n: "transition_read_event_state (sc_event_state c) (read_event_kind e) = Some n" by blast
  let ?c1 = "c\<lparr>sc_event_state := n, sc_pending_read_bytes := sc_pending_read_bytes c + event_len e, sc_events := sc_events c @ [e]\<rparr>"
  let ?c2 = "if event_len e > 0 then apply_pending_read_backpressure ?c1 else ?c1"
  have e: "enqueue_pending_read_event env e c = schedule_read_drain env ?c2"
    using False n by (simp add: enqueue_pending_read_event_def Let_def)
  have 1: "same_writes c ?c1" by (simp add: same_writes_def)
  have 2: "same_writes ?c1 ?c2" by simp
  show ?thesis
    unfolding e by (rule same_writes_trans [OF same_writes_trans [OF 1 2] schedule_read_drain_same])
qed

lemma notify_same [simp]:
  assumes "quiet_env env"
  shows "same_writes c (notify_pause_writing env c)" "same_writes c (notify_resume_writing env c)"
  using assms by (simp_all add: notify_pause_writing_def notify_resume_writing_def quiet_env_def)

lemma drop_buffer_same [simp]: "same_writes c (drop_buffer b c)" "same_writes c (fold drop_buffer bs c)"
proof -
  show 1: "same_writes c (drop_buffer b c)" for b c by (simp add: drop_buffer_def same_writes_def)
  show "same_writes c (fold drop_buffer bs c)"
    by (induction bs arbitrary: c) (auto intro: same_writes_trans 1)
qed

subsection \<open>Failing always ends in a closing transport\<close>

definition calm :: "stream_core \<Rightarrow> bool" where
  "calm c \<longleftrightarrow> sc_coherent c \<and> queue_ok (sc_queue c) \<and> (st_closing (sc_st c) \<longrightarrow> sc_pending_direct c = None)"

definition closed_core :: "stream_core \<Rightarrow> bool" where
  "closed_core c \<longleftrightarrow> sc_coherent c \<and> st_closing (sc_st c) \<and> queue_ok (sc_queue c) \<and> sc_pending_direct c = None"

lemma calm_same: "calm c \<Longrightarrow> same_writes c c' \<Longrightarrow> calm c'"
  by (simp add: calm_def same_writes_def)

lemma closed_calm: "closed_core c \<Longrightarrow> calm c"
  by (simp add: closed_core_def calm_def)

text \<open>A transport that gave up while \<open>d\<close> was on its way: nothing was sent, \<open>d\<close> may still have been queued.\<close>

definition stopped :: "bytes \<Rightarrow> stream_core \<Rightarrow> stream_core \<Rightarrow> bool" where
  "stopped d c c' \<longleftrightarrow> closed_core c' \<and> sc_wire c' = sc_wire c \<and> (queued c' = queued c \<or> queued c' = queued c @ d)"

lemma closed_core_same: "closed_core c \<Longrightarrow> same_writes c c' \<Longrightarrow> closed_core c'"
  by (simp add: closed_core_def same_writes_def)

lemma stopped_same: "stopped d c c' \<Longrightarrow> same_writes c' c'' \<Longrightarrow> stopped d c c''"
  by (simp add: stopped_def closed_core_def same_writes_def queued_def)

lemma same_stopped: "same_writes c c' \<Longrightarrow> stopped d c' c'' \<Longrightarrow> stopped d c c''"
  by (simp add: stopped_def same_writes_def queued_def)

lemma stopped_weaken: "stopped [] c c' \<Longrightarrow> stopped d c c'"
  by (simp add: stopped_def)

lemma send_effect:
  assumes "queue_ok (sc_queue c)" "command_ok cmd"
  shows "\<exists>b q pool. writer_tx_send env cmd c = Some (b, c\<lparr>sc_queue := q, sc_write_pool := pool\<rparr>) \<and> queue_ok q
    \<and> q_receiver_alive q = q_receiver_alive (sc_queue c)
    \<and> (if b then tokens (q_commands q) = tokens (q_commands (sc_queue c)) @ command_tokens cmd else q = sc_queue c)"
proof -
  obtain r q pool where e: "enqueue (te_grow env) cmd (sc_queue c, sc_write_pool c) = Some (r, q, pool)" "queue_ok q"
    "q_receiver_alive q = q_receiver_alive (sc_queue c)"
    "if q_receiver_alive (sc_queue c) then r = Inr () \<and> tokens (q_commands q) = tokens (q_commands (sc_queue c)) @ command_tokens cmd
     else r = Inl cmd \<and> q = sc_queue c \<and> pool = sc_write_pool c"
    using enqueue_ok [OF assms, of "te_grow env" "sc_write_pool c"] by blast
  show ?thesis
  proof (cases "q_receiver_alive (sc_queue c)")
    case True
    then have "writer_tx_send env cmd c = Some (True, c\<lparr>sc_queue := q, sc_write_pool := pool\<rparr>)"
      using e(1,4) by (simp add: writer_tx_send_def writer_send_def)
    then show ?thesis using e True by (intro exI [of _ True] exI [of _ q] exI [of _ pool]) simp
  next
    case False
    then have "writer_tx_send env cmd c = Some (False, c\<lparr>sc_queue := q, sc_write_pool := command_drop cmd pool\<rparr>)"
      using e(1,4) by (simp add: writer_tx_send_def writer_send_def)
    then show ?thesis using e False by (intro exI [of _ False] exI [of _ q] exI [of _ "command_drop cmd pool"]) simp
  qed
qed

text \<open>A control command leaves the bytes in the queue as they are.\<close>

lemma send_control_effect:
  assumes "queue_ok (sc_queue c)" "bytes_of (command_tokens cmd) = []" "command_ok cmd"
  shows "\<exists>b q pool. writer_tx_send env cmd c = Some (b, c\<lparr>sc_queue := q, sc_write_pool := pool\<rparr>) \<and> queue_ok q
    \<and> bytes_of (tokens (q_commands q)) = queued c"
  using send_effect [OF assms(1,3), of env] assms(2) unfolding queued_def by (metis append_Nil2 bytes_of_simps(2))

lemma clear_false_effect: "clear_write_buffer env False c = sc_update (\<lambda>s. s\<lparr>st_write_buffer := (st_write_buffer (sc_st c))\<lparr>wb_size := 0, wb_protocol_paused := False\<rparr>\<rparr>) c"
  by (simp add: clear_write_buffer_def clear_write_buffer_state_def)

lemma set_closing_simps [simp]:
  "st_closing (sc_st (set_closing c))" "sc_coherent (set_closing c)" "sc_queue (set_closing c) = sc_queue c"
  "sc_wire (set_closing c) = sc_wire c"
  by (simp_all add: set_closing_def Let_def)

lemma drop_pending_simps [simp]:
  "sc_state (drop_pending c) = sc_state c" "sc_queue (drop_pending c) = sc_queue c" "sc_wire (drop_pending c) = sc_wire c"
  "sc_pending_direct (drop_pending c) = None"
  by (simp_all add: drop_pending_def split: option.split)

lemma fail_write_closes:
  assumes "calm c"
  shows "\<exists>c'. fail_write env err c = Some c' \<and> stopped d c c'"
proof (cases "is_closing c")
  case True
  then show ?thesis using assms by (simp add: fail_write_def stopped_def closed_core_def calm_def stream_flags_read)
next
  case False
  let ?c1 = "enqueue_pending_read_event env (ELost (map_option (te_display env) err)) c"
  let ?c3 = "(drop_pending (set_write_backpressure_active False (set_closing ?c1)))\<lparr>sc_direct_scheduled := False\<rparr>"
  let ?c4 = "clear_write_buffer env False ?c3"
  have q: "sc_queue ?c1 = sc_queue c" "sc_wire ?c1 = sc_wire c" using enqueue_event_same [of c env] by (simp_all add: same_writes_def)
  have 4: "sc_coherent ?c4" "st_closing (sc_st ?c4)" "sc_queue ?c4 = sc_queue c" "sc_wire ?c4 = sc_wire c"
    "sc_pending_direct ?c4 = None"
    by (simp_all add: clear_false_effect set_write_backpressure_active_def q)
  obtain b q pool where "writer_tx_send env WStop ?c4 = Some (b, ?c4\<lparr>sc_queue := q, sc_write_pool := pool\<rparr>)" "queue_ok q"
    "bytes_of (tokens (q_commands q)) = queued ?c4"
    using send_control_effect [of ?c4 WStop env] 4(3) assms by (auto simp: calm_def)
  then show ?thesis using False 4 by (simp add: fail_write_def Let_def stopped_def closed_core_def queued_def)
qed

lemma ensure_writer_effect:
  assumes "calm c"
  shows "\<exists>c'. ensure_writer_worker env c = Some c' \<and> (stopped [] c c' \<or> same_writes c c')"
proof (cases "sc_lazy c")
  case True
  let ?c1 = "c\<lparr>sc_lazy := False\<rparr>" and ?c0 = "c\<lparr>sc_lazy := False, sc_queue := receiver_drop (sc_queue c)\<rparr>"
  have ok: "queue_ok (receiver_drop q)" if "queue_ok q" for q using that by (simp add: receiver_drop_def queue_ok_def)
  have calm: "calm ?c1" "calm ?c0" using assms ok by (simp_all add: calm_def)
  show ?thesis
  proof (cases "te_materialize env ?c1")
    case (Some err)
    obtain c2 where "fail_write env (Some err) ?c1 = Some c2" "stopped [] ?c1 c2"
      using fail_write_closes [OF calm(1)] by blast
    then show ?thesis
      using True Some by (auto simp: ensure_writer_worker_def stopped_def closed_core_def ok queued_def receiver_drop_def queue_ok_def)
  next
    case None
    show ?thesis
    proof (cases "te_spawn env ?c1")
      case (Some err)
      obtain c2 where "fail_write env (Some err) ?c0 = Some c2" "stopped [] ?c0 c2"
        using fail_write_closes [OF calm(2)] by blast
      then show ?thesis
        using True None Some by (auto simp: ensure_writer_worker_def stopped_def queued_def receiver_drop_def)
    next
      case None': None
      then show ?thesis using True None by (simp add: ensure_writer_worker_def same_writes_def)
    qed
  qed
qed (simp add: ensure_writer_worker_def)

subsection \<open>Each step of a write\<close>

text \<open>\<open>accounts n c c'\<close>: only the account changed, to \<open>n\<close>; \<open>pushed d n c c'\<close>: also \<open>d\<close> was queued.\<close>

definition accounts :: "nat \<Rightarrow> stream_core \<Rightarrow> stream_core \<Rightarrow> bool" where
  "accounts n c c' \<longleftrightarrow> sc_queue c' = sc_queue c \<and> sc_direct c' = sc_direct c \<and> sc_pending_direct c' = sc_pending_direct c
     \<and> sc_direct_scheduled c' = sc_direct_scheduled c \<and> sc_wire c' = sc_wire c
     \<and> st_closing (sc_st c') = st_closing (sc_st c) \<and> st_writer_registered (sc_st c') = st_writer_registered (sc_st c)
     \<and> wb_size (st_write_buffer (sc_st c')) = n \<and> (sc_coherent c \<longrightarrow> sc_coherent c')"

definition pushed :: "bytes \<Rightarrow> nat \<Rightarrow> stream_core \<Rightarrow> stream_core \<Rightarrow> bool" where
  "pushed d n c c' \<longleftrightarrow> queue_ok (sc_queue c') \<and> queued c' = queued c @ d \<and> sc_direct c' = sc_direct c
     \<and> sc_pending_direct c' = sc_pending_direct c \<and> sc_direct_scheduled c' = sc_direct_scheduled c \<and> sc_wire c' = sc_wire c
     \<and> st_closing (sc_st c') = st_closing (sc_st c) \<and> st_writer_registered (sc_st c') = st_writer_registered (sc_st c)
     \<and> wb_size (st_write_buffer (sc_st c')) = n \<and> (sc_coherent c \<longrightarrow> sc_coherent c')"

abbreviation size_of :: "stream_core \<Rightarrow> nat" where
  "size_of c \<equiv> wb_size (st_write_buffer (sc_st c))"

lemma accounts_same: "accounts n c c' \<Longrightarrow> same_writes c' c'' \<Longrightarrow> accounts n c c''"
  by (simp add: accounts_def same_writes_def)

lemma pushed_same: "pushed d n c c' \<Longrightarrow> same_writes c' c'' \<Longrightarrow> pushed d n c c''"
  by (simp add: pushed_def same_writes_def queued_def)

lemma accounts_stopped: "accounts n c c' \<Longrightarrow> stopped d c' c'' \<Longrightarrow> stopped d c c''"
  by (simp add: stopped_def accounts_def queued_def)

lemma record_enqueued_effect:
  "case record_write_buffer_enqueued env n c of
     (Inl _, c') \<Rightarrow> same_writes c c' | (Inr _, c') \<Rightarrow> accounts (size_of c + n) c c'"
proof (cases "enqueue_write_buffer n (te_cap env) (st_write_buffer (sc_st c))")
  case (Pair r wb)
  have "case r of Inl _ \<Rightarrow> wb = st_write_buffer (sc_st c) | Inr _ \<Rightarrow> wb_size wb = size_of c + n"
    using Pair by (auto simp: enqueue_write_buffer_def Let_def split: if_splits)
  then show ?thesis
    using Pair by (cases r) (simp_all add: record_write_buffer_enqueued_def same_writes_def accounts_def)
qed

lemma record_drained_effect:
  assumes "quiet_env env"
  shows "accounts (size_of c - n) c (record_write_buffer_drained env n c)"
proof (cases "drain_write_buffer n (st_write_buffer (sc_st c))")
  case (Pair sig wb)
  let ?c1 = "sc_update (\<lambda>s. s\<lparr>st_write_buffer := wb\<rparr>) c"
  have "wb_size wb = size_of c - n" using Pair by (auto simp: drain_write_buffer_def Let_def split: if_splits)
  then have "accounts (size_of c - n) c ?c1" by (simp add: accounts_def)
  moreover have "same_writes ?c1 (if sig = SigResume then notify_resume_writing env ?c1 else ?c1)" using assms by simp
  ultimately have "n \<noteq> 0 \<Longrightarrow> ?thesis" using Pair accounts_same by (simp add: record_write_buffer_drained_def Let_def)
  then show ?thesis by (cases "n = 0") (simp_all add: record_write_buffer_drained_def accounts_def)
qed

text \<open>Giving up because the worker is gone.\<close>

lemma give_up_closes:
  assumes "calm c"
  shows "\<exists>c'. fail_write env None (clear_write_buffer env False c) = Some c' \<and> stopped d c c'"
proof -
  let ?c = "clear_write_buffer env False c"
  have "calm ?c" using assms by (simp add: clear_false_effect calm_def)
  from fail_write_closes [OF this, of env None d] show ?thesis by (auto simp: clear_false_effect stopped_def queued_def)
qed

text \<open>Sending data, in a transport that may have been closed on the way.\<close>

lemma send_data_effect:
  assumes "queue_ok (sc_queue c)" "ob_ok data"
  shows "\<exists>b c'. writer_tx_send env (WData data) c = Some (b, c') \<and> queue_ok (sc_queue c') \<and> sc_state c' = sc_state c
    \<and> sc_wire c' = sc_wire c \<and> sc_pending_direct c' = sc_pending_direct c \<and> (b \<longrightarrow> pushed (ob_rest data) (size_of c) c c') \<and> (\<not> b \<longrightarrow> same_writes c c')"
proof -
  obtain b q pool where e: "writer_tx_send env (WData data) c = Some (b, c\<lparr>sc_queue := q, sc_write_pool := pool\<rparr>)" "queue_ok q"
    "if b then tokens (q_commands q) = tokens (q_commands (sc_queue c)) @ map TByte (ob_rest data) else q = sc_queue c"
    using send_effect [of c "WData data" env] assms by auto
  then show ?thesis
    by (intro exI [of _ b] exI [of _ "c\<lparr>sc_queue := q, sc_write_pool := pool\<rparr>"])
      (auto simp: pushed_def same_writes_def queued_def)
qed

text \<open>Starting the worker if need be, and handing data to it.\<close>

lemma hand_over:
  assumes "calm c" "ob_ok data"
  obtains c1 b c2 where "ensure_writer_worker env c = Some c1" "writer_tx_send env (WData data) c1 = Some (b, c2)" "calm c2"
    "b \<Longrightarrow> stopped (ob_rest data) c c2 \<or> pushed (ob_rest data) (size_of c) c c2"
    "\<not> b \<Longrightarrow> sc_wire c2 = sc_wire c \<and> queued c2 = queued c"
proof -
  obtain c1 where 1: "ensure_writer_worker env c = Some c1" "stopped [] c c1 \<or> same_writes c c1"
    using ensure_writer_effect [OF assms(1)] by blast
  have calm1: "calm c1" using 1(2) calm_same [OF assms(1)] closed_calm by (auto simp: stopped_def)
  have ok1: "queue_ok (sc_queue c1)" "sc_wire c1 = sc_wire c" "queued c1 = queued c"
    using 1(2) calm1 by (auto simp: calm_def stopped_def same_writes_def queued_def)
  obtain b c2 where 2: "writer_tx_send env (WData data) c1 = Some (b, c2)" "queue_ok (sc_queue c2)" "sc_state c2 = sc_state c1"
    "sc_pending_direct c2 = sc_pending_direct c1" "b \<longrightarrow> pushed (ob_rest data) (size_of c1) c1 c2" "\<not> b \<longrightarrow> same_writes c1 c2"
    using send_data_effect [OF ok1(1) assms(2)] by blast
  have calm2: "calm c2" using 2(2-4) calm1 by (simp add: calm_def)
  have 3: "stopped (ob_rest data) c c2 \<or> pushed (ob_rest data) (size_of c) c c2" if b
  proof (cases "same_writes c c1")
    case True
    then show ?thesis using 2(5) that by (simp add: pushed_def same_writes_def queued_def)
  next
    case False
    then have "stopped [] c c1" using 1(2) by blast
    then show ?thesis using 2(2-5) that ok1 by (simp add: stopped_def closed_core_def pushed_def)
  qed
  show ?thesis
    by (rule that [OF 1(1) 2(1) calm2]) (use 3 2(6) ok1 in \<open>simp_all add: same_writes_def queued_def\<close>)
qed

lemma queue_recorded_ok:
  assumes "calm c" "ob_ok data"
  shows "\<exists>c'. queue_recorded_write env data c = Some c' \<and> (stopped (ob_rest data) c c' \<or> pushed (ob_rest data) (size_of c) c c')"
proof -
  obtain c1 b c2 where h: "ensure_writer_worker env c = Some c1" "writer_tx_send env (WData data) c1 = Some (b, c2)" "calm c2"
    "b \<Longrightarrow> stopped (ob_rest data) c c2 \<or> pushed (ob_rest data) (size_of c) c c2"
    "\<not> b \<Longrightarrow> sc_wire c2 = sc_wire c \<and> queued c2 = queued c"
    using hand_over [OF assms, of env] by metis
  show ?thesis
  proof (cases b)
    case True
    then show ?thesis using h by (simp add: queue_recorded_write_def)
  next
    case False
    obtain c' where "fail_write env None (clear_write_buffer env False c2) = Some c'" "stopped (ob_rest data) c2 c'"
      using give_up_closes [OF h(3)] by blast
    then show ?thesis using h(1,2,5) False by (auto simp: queue_recorded_write_def stopped_def)
  qed
qed

lemma queue_write_ok:
  assumes "quiet_env env" "calm c" "ob_ok data"
  shows "\<exists>r c'. queue_write env data c = Some (r, c') \<and>
    (stopped (ob_rest data) c c' \<or>
     (case r of Inr _ \<Rightarrow> pushed (ob_rest data) (size_of c + length (ob_rest data)) c c' | Inl _ \<Rightarrow> same_writes c c'))"
proof (cases "record_write_buffer_enqueued env (length (ob_rest data)) c")
  case (Pair r c1)
  note rec = record_enqueued_effect [where env = env and n = "length (ob_rest data)" and c = c]
  show ?thesis
  proof (cases r)
    case (Inl e)
    have "same_writes c c1" using rec Pair Inl by simp
    then have "same_writes c (drop_buffer data c1)" by (rule same_writes_trans) simp
    then show ?thesis using Pair Inl assms(3) by (simp add: queue_write_def)
  next
    case (Inr should_pause)
    have acc: "accounts (size_of c + length (ob_rest data)) c c1" using rec Pair Inr by simp
    then have ok1: "calm c1" using assms(2) by (simp add: accounts_def calm_def)
    obtain c2 b c3 where h: "ensure_writer_worker env c1 = Some c2" "writer_tx_send env (WData data) c2 = Some (b, c3)" "calm c3"
      "b \<Longrightarrow> stopped (ob_rest data) c1 c3 \<or> pushed (ob_rest data) (size_of c1) c1 c3"
      "\<not> b \<Longrightarrow> sc_wire c3 = sc_wire c1 \<and> queued c3 = queued c1"
      using hand_over [OF ok1 assms(3), of env] by metis
    let ?c4 = "if should_pause then notify_pause_writing env c3 else c3"
    have sm: "same_writes c3 ?c4" using assms(1) by simp
    show ?thesis
    proof (cases b)
      case True
      have res: "queue_write env data c = Some (Inr (), ?c4)"
        using Pair Inr h(1,2) True assms(3) by (simp add: queue_write_def)
      have "stopped (ob_rest data) c c3 \<or> pushed (ob_rest data) (size_of c + length (ob_rest data)) c c3"
        using h(4) True acc accounts_stopped [OF acc] by (auto simp: pushed_def accounts_def queued_def)
      then show ?thesis using res stopped_same [OF _ sm] pushed_same [OF _ sm] by auto
    next
      case False
      obtain c' where "fail_write env None (clear_write_buffer env False c3) = Some c'" "stopped (ob_rest data) c3 c'"
        using give_up_closes [OF h(3)] by blast
      moreover have "sc_wire c3 = sc_wire c" "queued c3 = queued c" using h(5) False acc by (simp_all add: accounts_def queued_def)
      ultimately show ?thesis using h(1,2) False Pair Inr assms(3) by (auto simp: queue_write_def stopped_def)
    qed
  qed
qed

subsection \<open>What one write does\<close>

text \<open>
  A write of \<open>d\<close> either ends in a closing transport, whose connection will see a prefix of what was
  written, or in an open one: then \<open>d\<close> follows everything written before it, or, when the write is
  refused, some prefix of \<open>d\<close> does.
\<close>

definition outcome :: "bytes \<Rightarrow> stream_core \<Rightarrow> io_error + unit \<Rightarrow> stream_core \<Rightarrow> bool" where
  "outcome d c r c' \<longleftrightarrow>
     closed_core c' \<and> prefix (sc_wire c' @ queued c') (written c @ d)
     \<or> write_inv c' \<and> \<not> st_closing (sc_st c')
       \<and> (case r of Inr _ \<Rightarrow> written c' = written c @ d | Inl _ \<Rightarrow> \<exists>n. written c' = written c @ take n d)"

abbreviation open_core :: "stream_core \<Rightarrow> bool" where
  "open_core c \<equiv> write_inv c \<and> \<not> st_closing (sc_st c)"

lemma open_coreD:
  assumes "open_core c"
  shows "sc_coherent c" "queue_ok (sc_queue c)" "size_of c = length (queued c) + length (staged c)"
    "\<not> sc_direct_scheduled c \<Longrightarrow> sc_pending_direct c = None"
    "st_writer_registered (sc_st c) \<Longrightarrow> sc_pending_direct c = None" "sc_direct c = None \<Longrightarrow> sc_pending_direct c = None"
    "\<not> st_writer_registered (sc_st c) \<Longrightarrow> sc_direct c \<noteq> None \<Longrightarrow> queued c = []"
    "write_backpressure_active c = st_writer_registered (sc_st c)" "\<not> is_closing c" "calm c"
  using assms by (auto simp: write_inv_def stream_flags_read calm_def)

lemma outcome_same:
  assumes "outcome d c r c'" "same_writes c' c''"
  shows "outcome d c r c''"
proof -
  have e: "sc_wire c'' = sc_wire c'" "st_closing (sc_st c'') = st_closing (sc_st c')" using assms(2) by (simp_all add: same_writes_def)
  note d = same_writes_derived [OF assms(2)]
  show ?thesis using assms(1) closed_core_same [OF _ assms(2)] d(4) unfolding outcome_def e d(1,3) by blast
qed

lemma outcome_compose:
  assumes "outcome (drop n d) c1 r c'" "written c1 = written c @ take n d"
  shows "outcome d c r c'"
proof -
  have "take n d @ take m (drop n d) = take (n + m) d" for m by (simp add: take_add)
  then show ?thesis using assms by (cases r) (auto simp: outcome_def)
qed

lemma stopped_outcome:
  assumes "stopped d c c'" "staged c = []"
  shows "outcome d c r c'"
  using assms by (auto simp: stopped_def outcome_def written_def)

lemma stopped_nothing_outcome:
  assumes "stopped [] c c'"
  shows "outcome d c r c'"
  using assms by (auto simp: stopped_def outcome_def written_def)

lemma staged_None [simp]: "sc_pending_direct c = None \<Longrightarrow> staged c = []"
  by (simp add: staged_def)

lemma pushed_outcome:
  assumes "pushed d (size_of c + length d) c c'" "open_core c" "sc_pending_direct c = None"
    "st_writer_registered (sc_st c) \<or> sc_direct c = None"
  shows "outcome d c (Inr ()) c'"
proof -
  have "staged c' = []" "queued c' = queued c @ d" "sc_wire c' = sc_wire c" using assms(1,3) by (simp_all add: pushed_def)
  moreover have "size_of c' = length (queued c) + length d" using assms(1) open_coreD(3) [OF assms(2)] assms(3) by (simp add: pushed_def)
  ultimately show ?thesis
    using assms open_coreD(1) [OF assms(2)] by (auto simp: outcome_def written_def write_inv_def pushed_def)
qed

lemma refused_outcome:
  assumes "same_writes c c'" "open_core c"
  shows "outcome d c (Inl e) c'"
  using assms same_writes_derived [OF assms(1)] by (auto simp: outcome_def same_writes_def intro: exI [of _ 0])

lemma queue_path_ok:
  assumes "quiet_env env" "open_core c" "sc_pending_direct c = None" "st_writer_registered (sc_st c) \<or> sc_direct c = None" "ob_ok data"
  shows "\<exists>r c'. queue_write env data c = Some (r, c') \<and> outcome (ob_rest data) c r c'"
proof -
  obtain r c' where q: "queue_write env data c = Some (r, c')" "stopped (ob_rest data) c c' \<or>
     (case r of Inr _ \<Rightarrow> pushed (ob_rest data) (size_of c + length (ob_rest data)) c c' | Inl _ \<Rightarrow> same_writes c c')"
    using queue_write_ok [OF assms(1) open_coreD(10) [OF assms(2)] assms(5)] by blast
  have "outcome (ob_rest data) c r c'"
  proof (cases "stopped (ob_rest data) c c'")
    case True
    then show ?thesis using assms(3) by (intro stopped_outcome) simp_all
  next
    case False
    then show ?thesis
      using q(2) refused_outcome [OF _ assms(2)] pushed_outcome [OF _ assms(2-4)] by (cases r) auto
  qed
  then show ?thesis using q(1) by blast
qed

text \<open>What the kernel took, before anything else happens: the state a partial write continues from.\<close>

definition sent :: "bytes \<Rightarrow> stream_core \<Rightarrow> stream_core" where
  "sent d c = c\<lparr>sc_wire := sc_wire c @ d\<rparr>"

lemma sent_open:
  assumes "open_core c" "queued c = []" "sc_pending_direct c = None"
  shows "open_core (sent d c)" "open_core (set_write_backpressure_active True (sent d c))" "written (sent d c) = written c @ d"
    "written (set_write_backpressure_active True (sent d c)) = written c @ d"
    "open_core (set_write_backpressure_active True c)" "written (set_write_backpressure_active True c) = written c"
    "sc_pending_direct (set_write_backpressure_active True (sent d c)) = None"
    "st_writer_registered (sc_st (set_write_backpressure_active True (sent d c)))"
proof -
  have u: "queued (sent d c) = []" "queued (set_write_backpressure_active True c) = []"
    "queued (set_write_backpressure_active True (sent d c)) = []"
    using assms(2) by (simp_all add: queued_def sent_def set_write_backpressure_active_def)
  show "open_core (sent d c)" "open_core (set_write_backpressure_active True (sent d c))" "written (sent d c) = written c @ d"
    "written (set_write_backpressure_active True (sent d c)) = written c @ d"
    "open_core (set_write_backpressure_active True c)" "written (set_write_backpressure_active True c) = written c"
    "sc_pending_direct (set_write_backpressure_active True (sent d c)) = None"
    "st_writer_registered (sc_st (set_write_backpressure_active True (sent d c)))"
    using assms u by (simp_all add: write_inv_def written_def) (simp_all add: sent_def set_write_backpressure_active_def staged_def)
qed

lemma sent_nil [simp]: "sent [] c = c"
  by (simp add: sent_def)

text \<open>The result of a kernel write: an error and no change, or a prefix on the wire.\<close>

lemma kernel_write_cases:
  assumes "quiet_env env"
  obtains (err) e where "kernel_write env slices c = (Inl e, c)"
    | (wrote) n where "kernel_write env slices c = (Inr n, sent (take n (concat slices)) c)" "n \<le> length (concat slices)"
proof (cases "te_send env slices c")
  case (Inl e)
  then show ?thesis by (intro err [of e]) (simp add: kernel_write_def)
next
  case (Inr n)
  have "n \<le> length (concat slices)" using assms Inr unfolding quiet_env_def by blast
  then show ?thesis using Inr by (intro wrote [of n]) (simp_all add: kernel_write_def sent_def)
qed

lemma direct_write_cases:
  assumes "quiet_env env"
  obtains (err) e where "try_direct_tasked_write env d c = (Inl e, c)"
    | (wrote) n where "try_direct_tasked_write env d c = (Inr n, sent (take n d) c)" "n \<le> length d"
proof (cases "sc_direct c = Some True")
  case True
  then show ?thesis using kernel_write_cases [OF assms, of "[d]" c] that by (auto simp: try_direct_tasked_write_def)
next
  case False
  then show ?thesis using that(1) by (cases "sc_direct c") (auto simp: try_direct_tasked_write_def)
qed

lemma after_direct_ok:
  assumes "quiet_env env" "open_core c" "sc_direct c \<noteq> None" "\<not> st_writer_registered (sc_st c)" "\<not> sc_direct_scheduled c" "ob_ok data"
  shows "\<exists>r c'. after_direct env data (length (ob_rest data)) (try_direct_tasked_write env (ob_rest data) c) = Some (r, c')
    \<and> outcome (ob_rest data) c r c'"
proof -
  note D = open_coreD [OF assms(2)]
  have e: "queued c = []" "sc_pending_direct c = None" using D(4,7) assms(3-5) by simp_all
  note s = sent_open [OF assms(2) e]
  show ?thesis
    using assms(1)
  proof (cases rule: direct_write_cases [where d = "ob_rest data" and c = c])
    case (err x)
    show ?thesis
    proof (cases "ie_kind x = KInterrupted \<or> is_transient_write_backpressure x")
      case True
      obtain r c' where "queue_write env data (set_write_backpressure_active True c) = Some (r, c')"
        "outcome (ob_rest data) (set_write_backpressure_active True c) r c'"
        using queue_path_ok [OF assms(1) s(5) _ _ assms(6)] s(7,8) [of "[]"] by auto
      then show ?thesis
        using err True outcome_compose [of 0 "ob_rest data" "set_write_backpressure_active True c" r c' c] s(6)
        by (simp add: after_direct_def)
    next
      case False
      obtain c' where "fail_write env (Some x) c = Some c'" "stopped [] c c'" using fail_write_closes [OF D(10)] by blast
      moreover have "outcome (ob_rest data) c (Inr ()) (drop_buffer data c')"
        using outcome_same [OF stopped_nothing_outcome [OF calculation(2)]] by simp
      ultimately show ?thesis using err False by (simp add: after_direct_def)
    qed
  next
    case (wrote n)
    show ?thesis
    proof (cases "n = length (ob_rest data)")
      case True
      have "outcome (ob_rest data) c (Inr ()) (sent (ob_rest data) c)" using s(1,3) by (simp add: outcome_def)
      then have "outcome (ob_rest data) c (Inr ()) (drop_buffer data (sent (ob_rest data) c))" by (rule outcome_same) simp
      then show ?thesis using wrote True by (simp add: after_direct_def)
    next
      case False
      have "ob_ok (advance n data)" using assms(6) wrote(2) by simp
      then obtain r c' where "queue_write env (advance n data) (set_write_backpressure_active True (sent (take n (ob_rest data)) c)) = Some (r, c')"
        "outcome (drop n (ob_rest data)) (set_write_backpressure_active True (sent (take n (ob_rest data)) c)) r c'"
        using queue_path_ok [OF assms(1) s(2,7)] s(8) by fastforce
      then show ?thesis using wrote False outcome_compose [OF _ s(4)] by (auto simp: after_direct_def)
    qed
  qed
qed

subsection \<open>Staging\<close>

lemma stage_owned_ok:
  assumes "ob_ok data" "\<forall>b. sc_pending_direct c = Some b \<longrightarrow> ob_ok b"
  shows "\<exists>b pool. stage_owned_buffer env data c = Some (c\<lparr>sc_pending_direct := Some b, sc_write_pool := pool\<rparr>)
    \<and> ob_ok b \<and> ob_rest b = staged c @ ob_rest data"
proof (cases "sc_pending_direct c")
  case None
  have "c\<lparr>sc_pending_direct := Some data\<rparr> = c\<lparr>sc_pending_direct := Some data, sc_write_pool := sc_write_pool c\<rparr>" by (cases c) simp
  then show ?thesis
    using None assms(1) by (intro exI [of _ data] exI [of _ "sc_write_pool c"]) (simp add: stage_owned_buffer_def)
next
  case (Some b)
  obtain b1 pool where "extend_from_slice_pooled (te_grow env) (ob_rest data) b (sc_write_pool c) = Some (b1, pool)" "ob_ok b1"
    "ob_rest b1 = ob_rest b @ ob_rest data"
    using extend_from_slice_pooled_ok assms(2) Some by blast
  then show ?thesis
    using Some assms(1)
    by (intro exI [of _ b1] exI [of _ "write_buffer_drop data pool"]) (simp add: stage_owned_buffer_def drop_buffer_def staged_def)
qed

lemma finish_staged_ok:
  assumes "quiet_env env" "sc_coherent c" "queue_ok (sc_queue c)" "\<not> st_closing (sc_st c)" "\<not> st_writer_registered (sc_st c)" "queued c = []"
    "sc_direct c \<noteq> None" "sc_pending_direct c = Some b" "ob_ok b" "size_of c = length (ob_rest b)"
  shows "\<exists>c'. finish_staged_write env p c = Some c' \<and> (stopped [] c c' \<or> open_core c' \<and> written c' = written c)"
proof -
  define c1 where "c1 = (if p then notify_pause_writing env c else c)"
  have sm: "same_writes c c1" using assms(1) by (simp add: c1_def)
  have f: "finish_staged_write env p c =
    (if sc_direct_scheduled c1 then Some c1
     else let c2 = c1\<lparr>sc_direct_scheduled := True\<rparr>
          in if te_loop_send env c2 then Some (c2\<lparr>sc_commands := sc_commands c2 @ [MStreamWrite]\<rparr>)
             else fail_write env None (c2\<lparr>sc_direct_scheduled := False\<rparr>))"
    by (simp add: finish_staged_write_def c1_def)
  have ok: "open_core x \<and> written x = written c" if "same_writes (c\<lparr>sc_direct_scheduled := True\<rparr>) x" for x
    using that assms by (simp add: write_inv_def written_def queued_def staged_def same_writes_def)
  show ?thesis
  proof (cases "sc_direct_scheduled c1")
    case True
    then have "same_writes (c\<lparr>sc_direct_scheduled := True\<rparr>) c1" using sm by (simp add: same_writes_def)
    then show ?thesis using True f ok by simp
  next
    case False
    show ?thesis
    proof (cases "te_loop_send env (c1\<lparr>sc_direct_scheduled := True\<rparr>)")
      case True
      let ?c2 = "c1\<lparr>sc_direct_scheduled := True, sc_commands := sc_commands c1 @ [MStreamWrite]\<rparr>"
      have "same_writes (c\<lparr>sc_direct_scheduled := True\<rparr>) ?c2" using sm by (simp add: same_writes_def)
      from ok [OF this] show ?thesis using True False f by (simp add: Let_def)
    next
      case no: False
      have c: "c1\<lparr>sc_direct_scheduled := False\<rparr> = c1" using False by (cases c1) simp
      have "calm c1" using sm assms(2-4) by (simp add: same_writes_def calm_def)
      then obtain c' where "fail_write env None c1 = Some c'" "stopped [] c1 c'" using fail_write_closes by blast
      moreover have "finish_staged_write env p c = fail_write env None (c1\<lparr>sc_direct_scheduled := False\<rparr>)"
        using False no f by (simp add: Let_def)
      ultimately show ?thesis unfolding c using same_stopped [OF sm] by auto
    qed
  qed
qed

lemma stage_direct_ok:
  assumes "quiet_env env" "open_core c" "sc_direct c \<noteq> None" "\<not> st_writer_registered (sc_st c)" "ob_ok data"
  shows "\<exists>r c'. stage_direct_write_buffer env data c = Some (r, c') \<and> outcome (ob_rest data) c r c'"
proof (cases "ob_rest data = []")
  case True
  have "outcome [] c (Inr ()) c" using assms(2) by (simp add: outcome_def)
  then have "outcome [] c (Inr ()) (drop_buffer data c)" by (rule outcome_same) simp
  then show ?thesis using True assms(5) by (simp add: stage_direct_write_buffer_def)
next
  case ne: False
  note D = open_coreD [OF assms(2)]
  note rec = record_enqueued_effect [where env = env and n = "length (ob_rest data)" and c = c]
  show ?thesis
  proof (cases "record_write_buffer_enqueued env (length (ob_rest data)) c")
    case (Pair r c1)
    show ?thesis
    proof (cases r)
      case (Inl e)
      have "same_writes c c1" using rec Pair Inl by simp
      then have "outcome (ob_rest data) c (Inl e) (drop_buffer data c1)"
        by (rule outcome_same [OF refused_outcome [OF _ assms(2)]]) simp
      then show ?thesis using Pair Inl ne assms(5) by (simp add: stage_direct_write_buffer_def)
    next
      case (Inr p)
      have acc: "accounts (size_of c + length (ob_rest data)) c c1" using rec Pair Inr by simp
      have "\<forall>b. sc_pending_direct c1 = Some b \<longrightarrow> ob_ok b" using acc assms(2) by (auto simp: accounts_def write_inv_def)
      then obtain b pool where st: "stage_owned_buffer env data c1 = Some (c1\<lparr>sc_pending_direct := Some b, sc_write_pool := pool\<rparr>)"
        "ob_ok b" "ob_rest b = staged c1 @ ob_rest data"
        using stage_owned_ok [OF assms(5)] by blast
      let ?c2 = "c1\<lparr>sc_pending_direct := Some b, sc_write_pool := pool\<rparr>"
      have stg: "staged c1 = staged c" using acc by (simp add: staged_def accounts_def)
      have q: "queued ?c2 = []" using D(7) assms(3,4) acc by (simp add: queued_def accounts_def)
      have sz: "size_of ?c2 = length (ob_rest b)" using acc D(3,7) assms(3,4) st(3) stg by (simp add: accounts_def)
      have w: "written ?c2 = written c @ ob_rest data"
        using q D(7) assms(3,4) st(3) stg acc by (simp add: written_def accounts_def staged_def)
      obtain c' where f: "finish_staged_write env p ?c2 = Some c'" "stopped [] ?c2 c' \<or> open_core c' \<and> written c' = written ?c2"
        using finish_staged_ok [OF assms(1), of ?c2 b p] acc D(1,2) assms(2-4) st(2) q sz by (auto simp: accounts_def)
      have "outcome (ob_rest data) c (Inr ()) c'"
      proof (cases "stopped [] ?c2 c'")
        case True
        then have "sc_wire c' @ queued c' = sc_wire c @ []" "closed_core c'" using q acc by (auto simp: stopped_def accounts_def)
        then show ?thesis by (simp add: outcome_def written_def)
      qed (use f(2) w in \<open>simp add: outcome_def\<close>)
      then show ?thesis using f(1) st(1) Pair Inr ne assms(5) by (simp add: stage_direct_write_buffer_def)
    qed
  qed
qed

subsection \<open>The write operations\<close>

lemma try_write_buffer_ok:
  assumes "quiet_env env" "open_core c" "ob_ok data"
  shows "\<exists>r c'. try_write_buffer env data c = Some (r, c') \<and> outcome (ob_rest data) c r c'"
proof (cases "ob_rest data = []")
  case True
  have "outcome [] c (Inr ()) c" using assms(2) by (simp add: outcome_def)
  then have "outcome [] c (Inr ()) (drop_buffer data c)" by (rule outcome_same) simp
  then show ?thesis using True assms(3) by (simp add: try_write_buffer_def)
next
  case ne: False
  note D = open_coreD [OF assms(2)]
  show ?thesis
  proof (cases "sc_direct c \<noteq> None \<and> \<not> st_writer_registered (sc_st c)")
    case True
    show ?thesis
    proof (cases "sc_direct_scheduled c \<or> (sc_coalesce_small c \<and> is_write_batch_candidate (length (ob_rest data)))")
      case st: True
      have "try_write_buffer env data c = stage_direct_write_buffer env data c"
        using True st ne assms(3) D(8) by (simp add: try_write_buffer_def)
      then show ?thesis using stage_direct_ok [OF assms(1,2) _ _ assms(3)] True by simp
    next
      case dir: False
      have "try_write_buffer env data c = after_direct env data (length (ob_rest data)) (try_direct_tasked_write env (ob_rest data) c)"
        using True dir ne assms(3) D(8) by (auto simp: try_write_buffer_def)
      then show ?thesis using after_direct_ok [OF assms(1,2) _ _ _ assms(3)] True dir by simp
    qed
  next
    case False
    have "try_write_buffer env data c = queue_write env data c" using False ne assms(3) D(8) by (auto simp: try_write_buffer_def)
    then show ?thesis using queue_path_ok [OF assms(1,2) _ _ assms(3)] D(5,6) False by auto
  qed
qed

lemma coalesce_same: "same_writes c (snd (should_coalesce_small_write env n c))"
  by (simp add: should_coalesce_small_write_def same_writes_def Let_def)

lemma outcome_from:
  assumes "same_writes c c1" "outcome d c1 r c'"
  shows "outcome d c r c'"
  using assms(2) same_writes_derived(3) [OF assms(1)] by (cases r) (simp_all add: outcome_def)

lemma try_write_bytes_ok:
  assumes "quiet_env env" "open_core c"
  shows "\<exists>r c'. try_write_bytes_with_status env d (st_writer_registered (sc_st c)) c = Some (r, c') \<and> outcome d c r c'"
proof (cases "sc_direct c \<noteq> None \<and> \<not> st_writer_registered (sc_st c)")
  case True
  obtain b c1 where k: "should_coalesce_small_write env (length d) c = (b, c1)" by fastforce
  have sm: "same_writes c c1" using coalesce_same [of c env "length d"] k by simp
  have o1: "open_core c1" using same_writes_derived(4) [OF sm] sm assms(2) by (simp add: same_writes_def)
  have s1: "sc_direct c1 \<noteq> None" "\<not> st_writer_registered (sc_st c1)" using sm True by (simp_all add: same_writes_def)
  show ?thesis
  proof (cases "sc_direct_scheduled c1 \<or> b")
    case st: True
    have "try_write_bytes_with_status env d (st_writer_registered (sc_st c)) c = stage_direct_write_buffer env (from_python d) c1"
      using True st k by (simp add: try_write_bytes_with_status_def)
    then show ?thesis using stage_direct_ok [OF assms(1) o1 s1, of "from_python d"] outcome_from [OF sm] by auto
  next
    case dir: False
    have "try_write_bytes_with_status env d (st_writer_registered (sc_st c)) c
      = after_direct env (from_python d) (length d) (try_direct_tasked_write env d c1)"
      using True dir k by (simp add: try_write_bytes_with_status_def)
    then show ?thesis using after_direct_ok [OF assms(1) o1 s1, of "from_python d"] dir outcome_from [OF sm] by auto
  qed
next
  case False
  have "try_write_bytes_with_status env d (st_writer_registered (sc_st c)) c = queue_write env (from_python d) c"
    using False by (auto simp: try_write_bytes_with_status_def)
  then show ?thesis
    using queue_path_ok [OF assms, of "from_python d"] open_coreD(5,6) [OF assms(2)] False by auto
qed

lemma segment_buffers_rest:
  "list_all ob_ok (segment_buffers n ss) \<and> concat (map ob_rest (segment_buffers n ss)) = drop n (concat ss)"
  by (induction n ss rule: segment_buffers.induct) auto

lemma join_segments_ok:
  "ob_ok b \<Longrightarrow> \<exists>b'. join_segments g n ss b = Some b' \<and> ob_ok b' \<and> ob_rest b' = ob_rest b @ drop n (concat ss)"
proof (induction ss arbitrary: n b)
  case (Cons s ss)
  obtain b1 where "extend_from_slice g (drop (min n (length s)) s) b = Some b1" "ob_ok b1" "ob_rest b1 = ob_rest b @ drop (min n (length s)) s"
    using extend_from_slice_ok [OF Cons.prems] by blast
  moreover obtain b2 where "join_segments g (n - min n (length s)) ss b1 = Some b2" "ob_ok b2"
    "ob_rest b2 = ob_rest b1 @ drop (n - min n (length s)) (concat ss)"
    using Cons.IH [OF calculation(2)] by blast
  ultimately show ?case by (cases "n \<le> length s") (simp_all add: Let_def)
qed simp

lemma those_lens: "list_all ob_ok bs \<Longrightarrow> those (map ob_len bs) = Some (map (length \<circ> ob_rest) bs)"
  by (induction bs) auto

lemma queue_batch_effect:
  assumes "quiet_env env" "calm c" "list_all ob_ok bs" "d = concat (map ob_rest bs)"
  shows "\<exists>r c'. queue_write_batch env bs c = Some (r, c') \<and>
    (stopped d c c' \<or>
     (case r of Inr _ \<Rightarrow> pushed d (size_of c + length d) (set_write_backpressure_active True c) c' | Inl _ \<Rightarrow> same_writes c c'))"
proof -
  note rec = record_enqueued_effect [where env = env and n = "length d" and c = c]
  have lens: "those (map ob_len bs) = Some (map (length \<circ> ob_rest) bs)" "sum_list (map (length \<circ> ob_rest) bs) = length d"
    using those_lens [OF assms(3)] assms(4) by (simp_all add: length_concat)
  obtain r c1 where r: "record_write_buffer_enqueued env (length d) c = (r, c1)" by fastforce
  show ?thesis
  proof (cases r)
    case (Inl e)
    have "same_writes c (fold drop_buffer bs c1)" using rec r Inl by (auto intro: same_writes_trans)
    then show ?thesis using lens r Inl by (simp add: queue_write_batch_def)
  next
    case (Inr p)
    have acc: "accounts (size_of c + length d) c c1" using rec r Inr by simp
    let ?c2 = "set_write_backpressure_active True c1"
    have ok2: "calm ?c2" using acc assms(2) by (simp add: set_write_backpressure_active_def accounts_def calm_def)
    obtain c3 where 3: "ensure_writer_worker env ?c2 = Some c3" "stopped [] ?c2 c3 \<or> same_writes ?c2 c3"
      using ensure_writer_effect [OF ok2] by blast
    have calm3: "calm c3" using 3(2) calm_same [OF ok2] closed_calm by (auto simp: stopped_def)
    have ok3: "queue_ok (sc_queue c3)" "sc_wire c3 = sc_wire c" "queued c3 = queued c"
      using 3(2) calm3 acc by (auto simp: calm_def stopped_def same_writes_def queued_def accounts_def set_write_backpressure_active_def)
    show ?thesis
    proof (cases "q_receiver_alive (sc_queue c3)")
      case False
      let ?c4 = "fold drop_buffer bs (c3\<lparr>sc_queue := sc_queue c3\<rparr>)"
      have sm: "same_writes c3 ?c4" by simp
      obtain c' where f: "fail_write env None (clear_write_buffer env False ?c4) = Some c'" "stopped [] ?c4 c'"
        using give_up_closes [OF calm_same [OF calm3 sm]] by blast
      have "stopped d c c'" using same_stopped [OF sm f(2)] ok3 by (simp add: stopped_def)
      then show ?thesis using f(1) lens r Inr 3(1) False by (auto simp: queue_write_batch_def send_batch_def)
    next
      case True
      let ?c4 = "c3\<lparr>sc_queue := (sc_queue c3)\<lparr>q_commands := q_commands (sc_queue c3) @ map WData bs\<rparr>\<rparr>"
      let ?c5 = "if p then notify_pause_writing env ?c4 else ?c4"
      have res: "queue_write_batch env bs c = Some (Inr (), ?c5)"
        using lens r Inr 3(1) True by (simp add: queue_write_batch_def send_batch_def Let_def)
      have "bytes_of (tokens (map WData bs)) = concat (map ob_rest bs)" by (induction bs) simp_all
      then have q4: "queued ?c4 = queued c @ d" using ok3(3) assms(4) by (simp add: queued_def)
      have qok: "queue_ok (sc_queue ?c4)" using ok3(1) assms(3) by (auto simp: queue_ok_def list_all_iff)
      have sm: "same_writes ?c4 ?c5" using assms(1) by simp
      have "stopped d c ?c4 \<or> pushed d (size_of c + length d) (set_write_backpressure_active True c) ?c4"
      proof (cases "same_writes ?c2 c3")
        case True
        have "queued (set_write_backpressure_active True c) = queued c" by (simp add: queued_def set_write_backpressure_active_def)
        then show ?thesis
          using True acc q4 qok ok2 by (simp add: calm_def pushed_def same_writes_def accounts_def set_write_backpressure_active_def)
      next
        case False
        then have "closed_core c3" using 3(2) by (simp add: stopped_def)
        then show ?thesis using qok q4 ok3(2) by (simp add: stopped_def closed_core_def)
      qed
      then show ?thesis using res stopped_same [OF _ sm] pushed_same [OF _ sm] by auto
    qed
  qed
qed

lemma queue_batch_ok:
  assumes "quiet_env env" "open_core c" "\<not> sc_direct_scheduled c" "list_all ob_ok bs"
  shows "\<exists>r c'. queue_write_batch env bs c = Some (r, c') \<and> outcome (concat (map ob_rest bs)) c r c'"
proof -
  let ?d = "concat (map ob_rest bs)" and ?c = "set_write_backpressure_active True c"
  note D = open_coreD [OF assms(2)]
  obtain r c' where q: "queue_write_batch env bs c = Some (r, c')" "stopped ?d c c' \<or>
     (case r of Inr _ \<Rightarrow> pushed ?d (size_of c + length ?d) ?c c' | Inl _ \<Rightarrow> same_writes c c')"
    using queue_batch_effect [OF assms(1) D(10) assms(4) refl] by blast
  have pend: "sc_pending_direct c = None" using D(4) assms(3) by simp
  have u: "open_core ?c" "written ?c = written c" "size_of ?c = size_of c" "sc_pending_direct ?c = None" "st_writer_registered (sc_st ?c)"
    using assms(2) pend by (simp_all add: write_inv_def written_def queued_def staged_def set_write_backpressure_active_def)
  have "outcome ?d c r c'"
  proof (cases "stopped ?d c c'")
    case True
    then show ?thesis using pend by (intro stopped_outcome) simp_all
  next
    case False
    show ?thesis
    proof (cases r)
      case (Inl e)
      then show ?thesis using q(2) False refused_outcome [OF _ assms(2)] by simp
    next
      case (Inr x)
      then have "outcome ?d ?c r c'" using q(2) False pushed_outcome [of ?d ?c c'] u by simp
      then show ?thesis using outcome_compose [of 0 ?d ?c r c' c] u(2) by simp
    qed
  qed
  then show ?thesis using q(1) by blast
qed

lemma write_rest_ok:
  assumes "quiet_env env" "open_core c"
  shows "\<exists>r c'. write_rest env ss len n c = Some (r, c') \<and> outcome (drop n (concat ss)) c r c'"
proof (cases "len - n > DEFAULT_WRITE_BUFFER_HIGH_WATER \<and> length ss \<le> 16 \<and> \<not> sc_direct_scheduled c")
  case True
  then show ?thesis
    using queue_batch_ok [OF assms, of "segment_buffers n ss"] segment_buffers_rest [of n ss] by (simp add: write_rest_def)
next
  case False
  obtain b pool where b: "with_pooled_capacity (te_grow env) (len - n) (sc_write_pool c) = Some (b, pool)" "ob_ok b" "ob_rest b = []"
    using with_pooled_capacity_ok by blast
  obtain j where j: "join_segments (te_grow env) n ss b = Some j" "ob_ok j" "ob_rest j = drop n (concat ss)"
    using join_segments_ok [OF b(2)] b(3) by fastforce
  let ?c = "c\<lparr>sc_write_pool := pool\<rparr>"
  have sm: "same_writes c ?c" by (simp add: same_writes_def)
  then have "open_core ?c" using same_writes_derived(4) [OF sm] assms(2) by simp
  then obtain r c' where "try_write_buffer env j ?c = Some (r, c')" "outcome (drop n (concat ss)) ?c r c'"
    using try_write_buffer_ok [OF assms(1) _ j(2)] j(3) by fastforce
  then show ?thesis using False b(1) j(1) outcome_from [OF sm] by (auto simp: write_rest_def)
qed

lemma concat_take_prefix: "n \<le> length (concat (take k ss)) \<Longrightarrow> take n (concat (take k ss)) = take n (concat ss)"
  by (metis append_take_drop_id concat_append take_append cancel_comm_monoid_add_class.diff_cancel diff_is_0_eq take_0 append_Nil2)

lemma try_write_segments_ok:
  assumes "quiet_env env" "open_core c" "len = length (concat ss)"
  shows "\<exists>r c'. try_write_segments env ss len c = Some (r, c') \<and> outcome (concat ss) c r c'"
proof -
  note D = open_coreD [OF assms(2)]
  consider (empty) "len = 0" | (one) "len \<noteq> 0" "length ss = 1"
    | (direct) "len \<noteq> 0" "length ss \<noteq> 1" "len > SMALL_WRITE_COALESCE_MAX_BYTES" "sc_direct c \<noteq> None" "\<not> st_writer_registered (sc_st c)" "\<not> sc_direct_scheduled c"
    | (rest) "len \<noteq> 0" "length ss \<noteq> 1" "\<not> (len > SMALL_WRITE_COALESCE_MAX_BYTES \<and> sc_direct c \<noteq> None \<and> \<not> st_writer_registered (sc_st c) \<and> \<not> sc_direct_scheduled c)"
    by blast
  then show ?thesis
  proof cases
    case empty
    then show ?thesis using assms(2,3) by (auto simp: try_write_segments_def outcome_def)
  next
    case one
    then obtain s where "ss = [s]" by (cases ss) auto
    then show ?thesis
      using one try_write_bytes_ok [OF assms(1,2), of s] D(8) by (simp add: try_write_segments_def try_write_bytes_def)
  next
    case direct
    have e: "queued c = []" "sc_pending_direct c = None" using D(4,7) direct(4-6) by simp_all
    note s = sent_open [OF assms(2) e]
    have cond: "len > SMALL_WRITE_COALESCE_MAX_BYTES \<and> sc_direct c \<noteq> None \<and> \<not> write_backpressure_active c \<and> \<not> sc_direct_scheduled c"
      using direct D(8) by simp
    obtain res c1 where v: "try_direct_tasked_write_vectored env (take 16 ss) c = Some (res, c1)"
      "(\<exists>x. res = Inl x \<and> c1 = c) \<or> (\<exists>n. res = Inr n \<and> c1 = sent (take n (concat ss)) c \<and> n \<le> length (concat ss))"
    proof (cases "sc_direct c = Some True")
      case True
      show ?thesis
        using assms(1)
      proof (cases rule: kernel_write_cases [where slices = "take 16 ss" and c = c])
        case (err x)
        then show ?thesis using that True by (simp add: try_direct_tasked_write_vectored_def)
      next
        case (wrote n)
        have "n \<le> length (concat ss)" using wrote(2) by (metis append_take_drop_id concat_append length_append trans_le_add1)
        then show ?thesis using that [of "Inr n"] True wrote concat_take_prefix [OF wrote(2)] by (simp add: try_direct_tasked_write_vectored_def)
      qed
    next
      case False
      then have "sc_direct c = Some False" using direct(4) by auto
      then show ?thesis using that by (simp add: try_direct_tasked_write_vectored_def)
    qed
    from v(2) show ?thesis
    proof (elim disjE exE conjE)
      fix x assume x: "res = Inl x" "c1 = c"
      show ?thesis
      proof (cases "ie_kind x = KInterrupted \<or> is_transient_write_backpressure x")
        case True
        obtain r c' where "write_rest env ss len 0 (set_write_backpressure_active True c) = Some (r, c')"
          "outcome (drop 0 (concat ss)) (set_write_backpressure_active True c) r c'"
          using write_rest_ok [OF assms(1) s(5)] by blast
        moreover have "outcome (concat ss) c r c'" using outcome_compose [OF calculation(2)] s(6) by simp
        ultimately show ?thesis using direct(1,2) cond v(1) x True by (simp add: try_write_segments_def)
      next
        case False
        obtain c' where "fail_write env (Some x) c = Some c'" "stopped [] c c'" using fail_write_closes [OF D(10)] by blast
        then show ?thesis
          using direct(1,2) cond v(1) x False stopped_nothing_outcome by (auto simp: try_write_segments_def)
      qed
    next
      fix n assume n: "res = Inr n" "c1 = sent (take n (concat ss)) c" "n \<le> length (concat ss)"
      show ?thesis
      proof (cases "n = len")
        case True
        then have "try_write_segments env ss len c = Some (Inr (), sent (concat ss) c)"
          using direct(1,2) cond v(1) n assms(3) by (simp only: try_write_segments_def) simp
        then show ?thesis using s(1,3) by (simp add: outcome_def)
      next
        case False
        obtain r c' where "write_rest env ss len n (set_write_backpressure_active True c1) = Some (r, c')"
          "outcome (drop n (concat ss)) (set_write_backpressure_active True c1) r c'"
          using write_rest_ok [OF assms(1) s(2)] n(2) by blast
        moreover have "outcome (concat ss) c r c'" using outcome_compose [OF calculation(2)] s(4) n(2) by simp
        ultimately show ?thesis using direct(1,2) cond v(1) n(1) False by (simp add: try_write_segments_def)
      qed
    qed
  next
    case rest
    have "\<not> (len > SMALL_WRITE_COALESCE_MAX_BYTES \<and> sc_direct c \<noteq> None \<and> \<not> write_backpressure_active c \<and> \<not> sc_direct_scheduled c)"
      using rest(3) D(8) by simp
    then have "try_write_segments env ss len c = write_rest env ss len 0 c" using rest(1,2) by (simp only: try_write_segments_def if_False)
    then show ?thesis using write_rest_ok [OF assms(1,2), of ss len 0] by simp
  qed
qed

text \<open>\<open>write\<close> and \<open>writelines\<close> on an open, writable transport, and the flush of a loop turn.\<close>

lemma write_data_ok:
  assumes "quiet_env env" "open_core c" "st_writable (sc_st c)"
  shows "\<exists>r c'. write_data env d c = Some (map_sum Some id r, c') \<and> outcome d c r c'"
proof -
  have "write_status c = (False, True, st_writer_registered (sc_st c))"
    using assms(2,3) open_coreD(1) [OF assms(2)] by (simp add: stream_flags_read)
  then show ?thesis using try_write_bytes_ok [OF assms(1,2), of d] by (auto simp: write_data_def)
qed

lemma concat_filter_ne: "concat (filter (\<lambda>b. b \<noteq> []) ds) = concat ds"
  by (induction ds) auto

lemma writelines_ok:
  assumes "quiet_env env" "open_core c" "st_writable (sc_st c)" "length (concat ds) \<le> usize_max"
  shows "\<exists>r c'. writelines env ds c = Some (map_sum Some id r, c') \<and> outcome (concat ds) c r c'"
proof -
  have "write_status c = (False, True, st_writer_registered (sc_st c))"
    using assms(2,3) open_coreD(1) [OF assms(2)] by (simp add: stream_flags_read)
  then show ?thesis
    using try_write_segments_ok [OF assms(1,2), of "length (concat ds)" "filter (\<lambda>b. b \<noteq> []) ds"] assms(4)
    by (auto simp: writelines_def Let_def length_concat concat_filter_ne)
qed

lemma accounts_open:
  assumes "accounts n c c'" "sc_coherent c" "queue_ok (sc_queue c)" "\<not> st_closing (sc_st c)" "sc_pending_direct c = None"
    "queued c \<noteq> [] \<longrightarrow> st_writer_registered (sc_st c) \<or> sc_direct c = None" "n = length (queued c)"
  shows "open_core c'" "written c' = written c" "sc_pending_direct c' = None"
  using assms by (simp_all add: accounts_def write_inv_def written_def queued_def staged_def)

lemma flush_ok:
  assumes "quiet_env env" "open_core c0"
  shows "\<exists>c'. flush_pending_direct_write env c0 = Some c' \<and> outcome [] c0 (Inr ()) c' \<and> (st_closing (sc_st c') \<or> sc_pending_direct c' = None)"
proof (cases "sc_pending_direct c0")
  case None
  then have "open_core (c0\<lparr>sc_direct_scheduled := False\<rparr>)" "written (c0\<lparr>sc_direct_scheduled := False\<rparr>) = written c0"
    using assms(2) by (simp_all add: write_inv_def written_def queued_def staged_def)
  then show ?thesis using None by (simp add: flush_pending_direct_write_def outcome_def)
next
  case (Some data)
  let ?r = "ob_rest data" and ?c = "c0\<lparr>sc_direct_scheduled := False, sc_pending_direct := None\<rparr>"
  note D = open_coreD [OF assms(2)]
  have p: "ob_ok data" "\<not> st_writer_registered (sc_st c0)" "sc_direct c0 \<noteq> None" using Some assms(2) by (auto simp: write_inv_def)
  have q0: "queued c0 = []" using D(7) p(2,3) by simp
  have w0: "written c0 = sc_wire c0 @ ?r" using q0 Some by (simp add: written_def staged_def)
  have sz: "size_of c0 = length ?r" using D(3) q0 Some by (simp add: staged_def)
  have nc: "\<not> is_closing ?c" using D(1,9) by (simp add: stream_flags_read)
  have flush: "flush_pending_direct_write env c0 =
    (case try_direct_tasked_write env ?r ?c of
       (Inr n, c2) \<Rightarrow>
         if n = length ?r then Some (drop_buffer data (record_write_buffer_drained env n c2))
         else do {
           c3 \<leftarrow> queue_recorded_write env (advance n data) (set_write_backpressure_active True c2);
           Some (record_write_buffer_drained env n c3)
         }
     | (Inl err, c2) \<Rightarrow>
         if ie_kind err = KInterrupted \<or> is_transient_write_backpressure err
         then queue_recorded_write env data (set_write_backpressure_active True c2)
         else map_option (drop_buffer data) (fail_write env (Some err) c2))"
    using Some p(1) nc by (simp add: flush_pending_direct_write_def)
  have st: "sc_wire ?c = sc_wire c0" "queued ?c = []" "sc_coherent ?c" "queue_ok (sc_queue ?c)" "calm ?c"
    using D(1,2) q0 by (simp_all add: queued_def calm_def)
  have rest: "\<exists>c'. queue_recorded_write env (advance n data) (set_write_backpressure_active True (sent (take n ?r) ?c)) = Some c' \<and>
      (let c'' = record_write_buffer_drained env n c' in outcome [] c0 (Inr ()) c'' \<and> (st_closing (sc_st c'') \<or> sc_pending_direct c'' = None))"
    if n: "n \<le> length ?r" for n
  proof -
    let ?b = "set_write_backpressure_active True (sent (take n ?r) ?c)"
    have b: "sc_coherent ?b" "queue_ok (sc_queue ?b)" "ob_ok (advance n data)" "sc_wire ?b = sc_wire c0 @ take n ?r" "queued ?b = []"
      "size_of ?b = length ?r" "sc_pending_direct ?b = None" "st_writer_registered (sc_st ?b)" "\<not> st_closing (sc_st ?b)"
      "calm ?b"
      using st n p(1) sz assms(2) by (simp_all add: set_write_backpressure_active_def sent_def queued_def calm_def)
    obtain c' where q: "queue_recorded_write env (advance n data) ?b = Some c'"
      "stopped (drop n ?r) ?b c' \<or> pushed (drop n ?r) (size_of ?b) ?b c'"
      using queue_recorded_ok [OF b(10,3), of env] by auto
    let ?c' = "record_write_buffer_drained env n c'"
    have acc: "accounts (size_of c' - n) c' ?c'" by (rule record_drained_effect [OF assms(1)])
    have "outcome [] c0 (Inr ()) ?c' \<and> (st_closing (sc_st ?c') \<or> sc_pending_direct ?c' = None)"
    proof (cases "stopped (drop n ?r) ?b c'")
      case True
      then have "closed_core ?c'" "sc_wire ?c' @ queued ?c' = sc_wire c0 @ take n ?r \<or> sc_wire ?c' @ queued ?c' = sc_wire c0 @ ?r"
        using acc b(4,5) by (auto simp: stopped_def closed_core_def accounts_def queued_def)
      moreover have "prefix (sc_wire c0 @ take n ?r) (sc_wire c0 @ ?r)" by (simp add: take_is_prefix)
      ultimately show ?thesis using w0 by (auto simp: outcome_def closed_core_def)
    next
      case False
      then have pu: "pushed (drop n ?r) (length ?r) ?b c'" using q(2) b(6) by simp
      have "size_of c' - n = length (queued c')" using pu b(5) by (simp add: pushed_def)
      then have "open_core ?c'" "written ?c' = written c'" "sc_pending_direct ?c' = None"
        using accounts_open [OF acc] pu b by (auto simp: pushed_def)
      moreover have "written c' = written c0" using pu b w0 by (simp add: pushed_def written_def)
      ultimately show ?thesis by (simp add: outcome_def)
    qed
    then show ?thesis using q(1) by (simp add: Let_def)
  qed
  show ?thesis
    using assms(1)
  proof (cases rule: direct_write_cases [where d = ?r and c = ?c])
    case (err x)
    show ?thesis
    proof (cases "ie_kind x = KInterrupted \<or> is_transient_write_backpressure x")
      case True
      have "advance 0 data = data" by (simp add: advance_def)
      then show ?thesis using rest [of 0] flush err True by (auto simp: record_write_buffer_drained_def)
    next
      case False
      obtain c' where f: "fail_write env (Some x) ?c = Some c'" "stopped [] ?c c'" using fail_write_closes [OF st(5)] by blast
      have sm: "same_writes c' (drop_buffer data c')" by simp
      have "outcome [] c0 (Inr ()) (drop_buffer data c') \<and> st_closing (sc_st (drop_buffer data c'))"
        using stopped_same [OF f(2) sm] st(1,2) w0 by (auto simp: outcome_def stopped_def closed_core_def)
      then show ?thesis using flush err False f(1) by simp
    qed
  next
    case (wrote n)
    show ?thesis
    proof (cases "n = length ?r")
      case True
      let ?s = "sent ?r ?c"
      have acc: "accounts (size_of ?s - n) ?s (record_write_buffer_drained env n ?s)" by (rule record_drained_effect [OF assms(1)])
      have s: "sc_coherent ?s" "queue_ok (sc_queue ?s)" "\<not> st_closing (sc_st ?s)" "sc_pending_direct ?s = None" "queued ?s = []"
        "size_of ?s = length ?r" "written ?s = written c0"
        using st assms(2) sz w0 by (simp_all add: sent_def queued_def written_def staged_def)
      have o: "open_core (record_write_buffer_drained env n ?s)" "written (record_write_buffer_drained env n ?s) = written c0"
        "sc_pending_direct (record_write_buffer_drained env n ?s) = None"
        using accounts_open [OF acc s(1-4)] s(5-7) True by simp_all
      have "outcome [] c0 (Inr ()) (drop_buffer data (record_write_buffer_drained env n ?s))"
        by (rule outcome_same [where c' = "record_write_buffer_drained env n ?s"]) (use o in \<open>simp_all add: outcome_def\<close>)
      moreover have "sc_pending_direct (drop_buffer data (record_write_buffer_drained env n ?s)) = None" using o(3) by (simp add: drop_buffer_def)
      ultimately show ?thesis using flush wrote True by simp
    next
      case False
      then show ?thesis using rest [OF wrote(2)] flush wrote(1) by (auto simp: Let_def)
    qed
  qed
qed

end
