(* ===== verification/Writer_Worker.thy ===== *)
theory Writer_Worker
  imports Write_Path
begin

section \<open>The writer worker (transport/stream/writer.rs, io\_targets.rs)\<close>

text \<open>
  The thread that drains the writer queue into the connection. What the system calls of the thread
  answer is a script carried by the worker: the results of the next writes, polls and shutdowns. When
  a script has run out, the call succeeds (a write accepts all it is offered), so a script is any finite
  stretch of adversity. \<open>None\<close> is a panic. The thread that reads the queue is not the loop's, so its
  flow control signals go through the event queue.
\<close>

subsection \<open>Targets\<close>

datatype writer_target = WFile | WTcp | WUnix | WSink

record worker =
  wk_target :: writer_target
  wk_pending :: "writer_command option"
  wk_stop :: bool
  wk_writes :: "(io_error + nat) list"
  wk_polls :: "(io_error + bool \<times> bool) list"
  wk_downs :: "io_error option list"

definition worker_env :: "stream_env \<Rightarrow> stream_env" where
  "worker_env env = env\<lparr>te_on_loop := False\<rparr>"

text \<open>\<open>shutdown_tcp_stream\<close> and \<open>shutdown_unix_stream\<close>: a hundred retries while the kernel is short of buffers.\<close>

fun shutdown_stream :: "nat \<Rightarrow> io_error option list \<Rightarrow> (io_error + unit) \<times> io_error option list" where
  "shutdown_stream attempt [] = (Inr (), [])"
| "shutdown_stream attempt (None # rs) = (Inr (), rs)"
| "shutdown_stream attempt (Some err # rs) =
     (if ie_kind err = KNotConnected \<or> ie_kind err = KBrokenPipe then (Inr (), rs)
      else if is_no_buffer_space_code (ie_os err) \<and> attempt < 100 then shutdown_stream (attempt + 1) rs
      else (Inl err, rs))"

definition target_shutdown :: "shutdown \<Rightarrow> worker \<Rightarrow> stream_core \<Rightarrow> (io_error + unit) \<times> worker \<times> stream_core" where
  "target_shutdown how w c =
     (if wk_target w = WTcp \<or> wk_target w = WUnix then
        (case shutdown_stream 0 (wk_downs w) of
           (r, downs) \<Rightarrow> (r, w\<lparr>wk_downs := downs\<rparr>, if r = Inr () then c\<lparr>sc_shutdown := sc_shutdown c @ [how]\<rparr> else c))
      else (Inr (), w, c))"

definition release_file_writer :: "worker \<Rightarrow> worker" where
  "release_file_writer w = (if wk_target w = WFile then w\<lparr>wk_target := WSink\<rparr> else w)"

subsection \<open>Writing a buffer\<close>

fun poll_writable :: "(io_error + bool \<times> bool) list \<Rightarrow> (io_error + unit) \<times> (io_error + bool \<times> bool) list" where
  "poll_writable [] = (Inr (), [])"
| "poll_writable (Inl err # ps) = (Inl err, ps)"
| "poll_writable (Inr ready # ps) = (if ready = (False, True) then (Inr (), ps) else poll_writable ps)"

text \<open>A write of \<open>n\<close> means at most what was offered; the sink takes everything and sends nothing.\<close>

fun write_all_owned ::
    "writer_target \<Rightarrow> (io_error + nat) list \<Rightarrow> (io_error + bool \<times> bool) list \<Rightarrow> owned_write_buffer \<Rightarrow> stream_core
      \<Rightarrow> (((io_error + unit) \<times> owned_write_buffer \<times> (io_error + nat) list \<times> (io_error + bool \<times> bool) list) \<times> stream_core) option" where
  "write_all_owned t [] ps data c =
     (case remaining data of
        None \<Rightarrow> None
      | Some r \<Rightarrow> Some ((Inr (), advance (length r) data, [], ps), if t = WSink then c else sent r c))"
| "write_all_owned t (res # ws) ps data c =
     (case remaining data of
        None \<Rightarrow> None
      | Some r \<Rightarrow>
          if r = [] then Some ((Inr (), data, res # ws, ps), c)
          else if t = WSink then Some ((Inr (), advance (length r) data, res # ws, ps), c)
          else
            (case res of
               Inr n \<Rightarrow>
                 if n = 0 then Some ((Inl (io_err KWriteZero), data, ws, ps), c)
                 else let m = min n (length r) in write_all_owned t ws ps (advance m data) (sent (take m r) c)
             | Inl err \<Rightarrow>
                 if is_transient_write_backpressure err then
                   (case poll_writable ps of
                      (Inr _, ps1) \<Rightarrow> write_all_owned t ws ps1 data c
                    | (Inl err1, ps1) \<Rightarrow> Some ((Inl err1, data, ws, ps1), c))
                 else if ie_kind err = KInterrupted then write_all_owned t ws ps data c
                 else Some ((Inl err, data, ws, ps), c)))"

definition report_writer_io_error :: "stream_env \<Rightarrow> io_error \<Rightarrow> stream_core \<Rightarrow> stream_core" where
  "report_writer_io_error env err c = connection_lost env (Some (te_display env err)) c"

definition report_writer_close_result :: "stream_env \<Rightarrow> io_error + unit \<Rightarrow> stream_core \<Rightarrow> stream_core" where
  "report_writer_close_result env result c =
     connection_lost env (case result of Inl err \<Rightarrow> Some (te_display env err) | Inr _ \<Rightarrow> None) c"

definition write_one_stream_buffer ::
    "stream_env \<Rightarrow> owned_write_buffer \<Rightarrow> worker \<Rightarrow> stream_core \<Rightarrow> (bool \<times> owned_write_buffer \<times> worker \<times> stream_core) option" where
  "write_one_stream_buffer env data w c =
     (case remaining data of
        None \<Rightarrow> None
      | Some r \<Rightarrow>
          (case write_all_owned (wk_target w) (wk_writes w) (wk_polls w) data c of
             None \<Rightarrow> None
           | Some ((res, data1, ws, ps), c1) \<Rightarrow>
               let w1 = w\<lparr>wk_writes := ws, wk_polls := ps\<rparr>
               in case res of
                    Inl err \<Rightarrow> Some (False, data1, release_file_writer w1, report_writer_io_error env err c1)
                  | Inr _ \<Rightarrow> Some (True, data1, w1, record_write_buffer_drained (worker_env env) (length r) c1)))"

subsection \<open>Commands\<close>

text \<open>Writing leaves the queue alone, which is why draining it ends.\<close>

lemma write_all_queue: "write_all_owned t ws ps data c = Some (x, c') \<Longrightarrow> sc_queue c' = sc_queue c"
  by (induction t ws ps data c rule: write_all_owned.induct)
    (auto simp: sent_def Let_def split: option.splits if_splits sum.splits prod.splits)

lemma event_queue [simp]: "sc_queue (enqueue_pending_read_event env ev c) = sc_queue c" "sc_queue (connection_lost env x c) = sc_queue c"
  using enqueue_event_same [of c env] by (simp_all add: same_writes_def connection_lost_def)

lemma drained_queue [simp]: "sc_queue (record_write_buffer_drained (worker_env env) n c) = sc_queue c"
  by (simp add: record_write_buffer_drained_def notify_resume_writing_def worker_env_def Let_def split: prod.split)

lemma write_one_queue:
  assumes "write_one_stream_buffer env data w c = Some (ok, d, w', c')"
  shows "sc_queue c' = sc_queue c"
proof -
  obtain res d1 ws ps c1 where a: "write_all_owned (wk_target w) (wk_writes w) (wk_polls w) data c = Some ((res, d1, ws, ps), c1)"
    using assms by (auto simp: write_one_stream_buffer_def split: option.splits)
  then show ?thesis
    using assms write_all_queue [OF a]
    by (auto simp: write_one_stream_buffer_def Let_def report_writer_io_error_def split: option.splits sum.splits)
qed

text \<open>The loop of \<open>write_stream_data_batch\<close>, and its return.\<close>

function write_batch_loop :: "stream_env \<Rightarrow> worker \<Rightarrow> stream_core \<Rightarrow> (bool \<times> worker \<times> stream_core) option" where
  "write_batch_loop env w c =
     (case try_recv (sc_queue c) of
        (Inr (WData data), q) \<Rightarrow>
          (case write_one_stream_buffer env data w (c\<lparr>sc_queue := q\<rparr>) of
             None \<Rightarrow> None
           | Some (ok, data1, w1, c1) \<Rightarrow>
               if ok then write_batch_loop env w1 (drop_buffer data1 c1) else Some (False, w1, drop_buffer data1 c1))
      | (Inr command, q) \<Rightarrow> Some (True, w\<lparr>wk_pending := Some command\<rparr>, c\<lparr>sc_queue := q\<rparr>)
      | (Inl RecvEmpty, q) \<Rightarrow>
          let c1 = set_write_backpressure_active False (c\<lparr>sc_queue := q\<rparr>)
          in Some (True, w, if wk_pending w = None then set_write_backpressure_active False c1 else c1)
      | (Inl RecvDisconnected, q) \<Rightarrow>
          Some (False, release_file_writer w,
                connection_lost env None (set_write_backpressure_active False (c\<lparr>sc_queue := q\<rparr>))))"
  by pat_completeness auto

termination
proof (relation "measure (\<lambda>(env, w, c). length (q_commands (sc_queue c)))", goal_cases)
  case (2 env w c x q b data x2 xa ya xb yb w1 c1)
  then have "sc_queue (drop_buffer xb c1) = q" by (auto simp: drop_buffer_def dest: write_one_queue)
  moreover have "length (q_commands q) < length (q_commands (sc_queue c))"
    using 2 by (auto simp: try_recv_def try_dequeue_def split: list.splits)
  ultimately show ?case by simp
qed simp

declare write_batch_loop.simps [simp del]

definition write_stream_data_batch ::
    "stream_env \<Rightarrow> owned_write_buffer \<Rightarrow> worker \<Rightarrow> stream_core \<Rightarrow> (bool \<times> worker \<times> stream_core) option" where
  "write_stream_data_batch env data w c = do {
     (ok, data1, w1, c1) \<leftarrow> write_one_stream_buffer env data w c;
     if \<not> ok then Some (False, w1, drop_buffer data1 c1)
     else do {
       (going, w2, c2) \<leftarrow> write_batch_loop env w1 c1;
       Some (going, w2, drop_buffer data1 c2)
     }
   }"

definition handle_stream_write_eof :: "stream_env \<Rightarrow> worker \<Rightarrow> stream_core \<Rightarrow> bool \<times> worker \<times> stream_core" where
  "handle_stream_write_eof env w c =
     (case target_shutdown ShutWrite w c of
        (Inl err, w1, c1) \<Rightarrow> (False, w1, report_writer_io_error env err c1)
      | (Inr _, w1, c1) \<Rightarrow>
          if st_close_on_write_eof (sc_st c1) then (False, release_file_writer w1, connection_lost env None c1)
          else (True, w1, c1))"

definition handle_stream_writer_command ::
    "stream_env \<Rightarrow> writer_command \<Rightarrow> worker \<Rightarrow> stream_core \<Rightarrow> (bool \<times> worker \<times> stream_core) option" where
  "handle_stream_writer_command env command w c =
     (case command of
        WData data \<Rightarrow> write_stream_data_batch env data w c
      | WriteEof \<Rightarrow> Some (handle_stream_write_eof env w c)
      | WClose \<Rightarrow>
          (case target_shutdown ShutWrite w c of
             (result, w1, c1) \<Rightarrow> Some (False, release_file_writer w1, report_writer_close_result env result c1))
      | WAbort \<Rightarrow>
          (case target_shutdown ShutBoth w c of
             (result, w1, c1) \<Rightarrow> Some (False, release_file_writer w1, report_writer_close_result env result c1))
      | WStop \<Rightarrow> Some (False, w, c))"

text \<open>
  One pass of the thread's loop. \<open>WBlocked\<close>: it waits for a command. When the thread ends, the receiving
  end of the queue goes with it.
\<close>

datatype writer_exit = WGoOn | WBlocked | WEnded

definition run_stream_writer :: "stream_env \<Rightarrow> worker \<Rightarrow> stream_core \<Rightarrow> (writer_exit \<times> worker \<times> stream_core) option" where
  "run_stream_writer env w c =
     (let ended = (\<lambda>c1. c1\<lparr>sc_queue := receiver_drop (sc_queue c1)\<rparr>);
          handle = (\<lambda>command w1 c1.
            case handle_stream_writer_command env command w1 c1 of
              None \<Rightarrow> None
            | Some (going, w2, c2) \<Rightarrow> Some (if going then (WGoOn, w2, c2) else (WEnded, w2, ended c2)))
      in if wk_stop w then Some (WEnded, w, ended c)
         else
           (case wk_pending w of
              Some command \<Rightarrow> handle command (w\<lparr>wk_pending := None\<rparr>) c
            | None \<Rightarrow>
                (case recv (sc_queue c) of
                   None \<Rightarrow> Some (WBlocked, w, c)
                 | Some (Inr command, q) \<Rightarrow> handle command w (c\<lparr>sc_queue := q\<rparr>)
                 | Some (Inl _, q) \<Rightarrow> Some (WEnded, w, ended (connection_lost env None (c\<lparr>sc_queue := q\<rparr>))))))"

subsection \<open>What the worker moves\<close>

text \<open>\<open>moved x c c'\<close>: the worker put \<open>x\<close> on the wire; the loop's side of the write path is untouched.\<close>

definition moved :: "bytes \<Rightarrow> stream_core \<Rightarrow> stream_core \<Rightarrow> bool" where
  "moved x c c' \<longleftrightarrow> sc_wire c' = sc_wire c @ x \<and> sc_direct c' = sc_direct c \<and> sc_pending_direct c' = sc_pending_direct c
     \<and> sc_direct_scheduled c' = sc_direct_scheduled c \<and> st_closing (sc_st c') = st_closing (sc_st c) \<and> sc_coherent c' \<and> queue_ok (sc_queue c')"

text \<open>All of \<open>x\<close> has left the queue and the account.\<close>

definition drained :: "bytes \<Rightarrow> bytes \<Rightarrow> stream_core \<Rightarrow> stream_core \<Rightarrow> bool" where
  "drained x q c c' \<longleftrightarrow> moved x c c' \<and> q = x @ queued c' \<and> size_of c' = size_of c - length x"

lemma sent_simps [simp]:
  "sent y (sent x c) = sent (x @ y) c" "sc_state (sent x c) = sc_state c" "sc_queue (sent x c) = sc_queue c"
  "sc_wire (sent x c) = sc_wire c @ x" "sc_direct (sent x c) = sc_direct c" "sc_pending_direct (sent x c) = sc_pending_direct c"
  "sc_direct_scheduled (sent x c) = sc_direct_scheduled c" "queued (sent x c) = queued c"
  by (simp_all add: sent_def queued_def)

lemma quiet_worker [simp]: "quiet_env env \<Longrightarrow> quiet_env (worker_env env)"
  by (simp add: quiet_env_def worker_env_def)

lemma write_all_ok:
  assumes "t \<noteq> WSink" "ob_ok data"
  shows "\<exists>res d ws' ps' x. write_all_owned t ws ps data c = Some ((res, d, ws', ps'), sent x c) \<and> ob_ok d
    \<and> x @ ob_rest d = ob_rest data \<and> (res = Inr () \<longleftrightarrow> ob_rest d = [])"
  using assms
proof (induction t ws ps data c rule: write_all_owned.induct)
  case (1 t ps data c)
  then show ?case
    by (intro exI [of _ "Inr ()"] exI [of _ "advance (length (ob_rest data)) data"] exI [of _ "[]"] exI [of _ ps] exI [of _ "ob_rest data"]) simp
next
  case (2 t res ws ps data c)
  let ?r = "ob_rest data"
  note ok = 2(4,5)
  have stay: "\<exists>x. c = sent x c \<and> x @ ?r = ?r" by (intro exI [of _ "[]"]) simp
  show ?case
  proof (cases "?r = []")
    case True
    then show ?thesis using ok stay by auto
  next
    case ne: False
    show ?thesis
    proof (cases res)
      case (Inr n)
      show ?thesis
      proof (cases "n = 0")
        case True
        then show ?thesis using ok ne Inr stay by auto
      next
        case False
        let ?m = "min n (length ?r)"
        have "ob_ok (advance ?m data)" using ok(2) by simp
        then obtain res' d ws' ps' x where
          "write_all_owned t ws ps (advance ?m data) (sent (take ?m ?r) c) = Some ((res', d, ws', ps'), sent x (sent (take ?m ?r) c))"
          "ob_ok d" "x @ ob_rest d = drop ?m ?r" "res' = Inr () \<longleftrightarrow> ob_rest d = []"
          using 2(3) [of ?r n ?m] ok ne Inr False by auto
        then show ?thesis
          using ok ne Inr False by (intro exI [of _ res'] exI [of _ d] exI [of _ ws'] exI [of _ ps'] exI [of _ "take ?m ?r @ x"]) (simp add: Let_def)
      qed
    next
      case (Inl err)
      obtain res1 ps1 where pw: "poll_writable ps = (res1, ps1)" by fastforce
      consider (wait) "is_transient_write_backpressure err" "res1 = Inr ()"
        | (fail) e where "is_transient_write_backpressure err" "res1 = Inl e"
        | (again) "\<not> is_transient_write_backpressure err" "ie_kind err = KInterrupted"
        | (stop) "\<not> is_transient_write_backpressure err" "ie_kind err \<noteq> KInterrupted"
        by (cases res1) auto
      then show ?thesis
      proof cases
        case wait
        have e: "write_all_owned t (res # ws) ps data c = write_all_owned t ws ps1 data c" using ok ne Inl pw wait by simp
        show ?thesis unfolding e by (rule 2(1)) (use ok ne Inl pw wait in simp_all)
      next
        case fail
        then show ?thesis using ok ne Inl stay pw by auto
      next
        case again
        then show ?thesis using 2(2) [of ?r err] ok ne Inl by simp
      next
        case stop
        then show ?thesis using ok ne Inl stay by auto
      qed
    qed
  qed
qed

lemma write_one_ok:
  assumes "quiet_env env" "wk_target w \<noteq> WSink" "ob_ok data"
  shows "\<exists>ok d w' c' x. write_one_stream_buffer env data w c = Some (ok, d, w', c') \<and> wk_pending w' = wk_pending w \<and> prefix x (ob_rest data)
    \<and> (if ok then x = ob_rest data \<and> wk_target w' = wk_target w \<and> accounts (size_of c - length x) (sent x c) c' else ob_rest data \<noteq> [] \<and> same_writes (sent x c) c')"
proof -
  obtain res d ws' ps' x where a: "write_all_owned (wk_target w) (wk_writes w) (wk_polls w) data c = Some ((res, d, ws', ps'), sent x c)"
    "x @ ob_rest d = ob_rest data" "res = Inr () \<longleftrightarrow> ob_rest d = []"
    using write_all_ok [OF assms(2,3)] by blast
  have px: "prefix x (ob_rest data)" using a(2) by (metis prefixI)
  let ?w = "w\<lparr>wk_writes := ws', wk_polls := ps'\<rparr>"
  show ?thesis
  proof (cases res)
    case (Inl err)
    have "write_one_stream_buffer env data w c = Some (False, d, release_file_writer ?w, report_writer_io_error env err (sent x c))"
      using a(1) Inl assms(3) by (simp add: write_one_stream_buffer_def Let_def)
    moreover have "same_writes (sent x c) (report_writer_io_error env err (sent x c))"
      by (simp add: report_writer_io_error_def connection_lost_def)
    moreover have "wk_pending (release_file_writer ?w) = wk_pending w" by (simp add: release_file_writer_def)
    moreover have "ob_rest data \<noteq> []" using a(2,3) Inl by auto
    ultimately show ?thesis using px by (intro exI [of _ False] exI) (auto simp del: same_writes_refl)
  next
    case (Inr u)
    have x: "x = ob_rest data" using a(2,3) Inr by simp
    have "write_one_stream_buffer env data w c
      = Some (True, d, ?w, record_write_buffer_drained (worker_env env) (length (ob_rest data)) (sent x c))"
      using a(1) Inr assms(3) by (simp add: write_one_stream_buffer_def Let_def)
    moreover have "accounts (size_of c - length x) (sent x c) (record_write_buffer_drained (worker_env env) (length (ob_rest data)) (sent x c))"
      using record_drained_effect [OF quiet_worker [OF assms(1)], of "sent x c" "length x"] x by simp
    ultimately show ?thesis using px x by (intro exI [of _ True] exI [of _ d] exI [of _ ?w] exI) auto
  qed
qed

lemma drop_buffer_simps [simp]:
  "sc_wire (drop_buffer b c) = sc_wire c" "sc_state (drop_buffer b c) = sc_state c" "sc_queue (drop_buffer b c) = sc_queue c"
  "sc_direct (drop_buffer b c) = sc_direct c" "sc_pending_direct (drop_buffer b c) = sc_pending_direct c"
  "sc_direct_scheduled (drop_buffer b c) = sc_direct_scheduled c" "queued (drop_buffer b c) = queued c"
  "moved x c0 (drop_buffer b c) = moved x c0 c" "drained x q c0 (drop_buffer b c) = drained x q c0 c"
  by (simp_all add: drop_buffer_def queued_def moved_def drained_def)

text \<open>How the worker leaves a batch: at an empty queue, at a control command, or ended.\<close>

definition batch_end :: "bytes \<Rightarrow> worker \<Rightarrow> stream_core \<Rightarrow> bool \<Rightarrow> worker \<Rightarrow> stream_core \<Rightarrow> bool" where
  "batch_end q w c going w' c' \<longleftrightarrow>
     (if going then
        wk_target w' = wk_target w \<and> (\<exists>x. drained x q c c')
        \<and> (wk_pending w' = None \<and> q_commands (sc_queue c') = [] \<and> \<not> st_writer_registered (sc_st c')
           \<or> (\<exists>cmd. wk_pending w' = Some cmd \<and> command_ok cmd \<and> bytes_of (command_tokens cmd) = []) \<and> st_writer_registered (sc_st c') = st_writer_registered (sc_st c))
      else
        wk_pending w' = wk_pending w
        \<and> ((\<exists>x. moved x c c' \<and> prefix x q \<and> q \<noteq> [] \<and> st_writer_registered (sc_st c') = st_writer_registered (sc_st c))
           \<or> drained q q c c' \<and> queued c' = [] \<and> \<not> st_writer_registered (sc_st c')))"

lemma batch_end_step:
  assumes "accounts (size_of c - length x) (sent x c) c1" "batch_end q w1 c1 going w' c'" "wk_target w1 = wk_target w" "wk_pending w1 = wk_pending w"
  shows "batch_end (x @ q) w c going w' c'"
proof -
  have m: "moved (x @ y) c c'" if "moved y c1 c'" for y using that assms(1) by (simp add: moved_def accounts_def)
  have d: "drained (x @ y) (x @ q) c c'" if "drained y q c1 c'" for y
    using that assms(1) m by (simp add: drained_def accounts_def)
  have r: "st_writer_registered (sc_st c1) = st_writer_registered (sc_st c)" using assms(1) by (simp add: accounts_def)
  show ?thesis
  proof (cases going)
    case True
    then show ?thesis using assms(2,3) r unfolding batch_end_def by (auto dest: d)
  next
    case False
    then show ?thesis using assms(2,4) r unfolding batch_end_def by (auto dest: d m intro: exI [of _ "x @ y" for y])
  qed
qed

lemma write_batch_loop_ok:
  assumes "quiet_env env" "wk_target w \<noteq> WSink" "wk_pending w = None" "sc_coherent c" "queue_ok (sc_queue c)"
  shows "\<exists>going w' c'. write_batch_loop env w c = Some (going, w', c') \<and> batch_end (queued c) w c going w' c'"
  using assms(2-)
proof (induction "q_commands (sc_queue c)" arbitrary: w c)
  case Nil
  let ?c = "set_write_backpressure_active False c"
  note cmds = Nil.hyps [symmetric]
  have q: "queued c = []" by (simp add: queued_def cmds)
  have d: "drained [] [] c ?c" "drained [] [] c (set_write_backpressure_active False ?c)" "queued ?c = []"
    using Nil.prems q by (simp_all add: drained_def moved_def set_write_backpressure_active_def queued_def)
  show ?case
  proof (cases "q_sender_alive (sc_queue c)")
    case True
    have "try_recv (sc_queue c) = (Inl RecvEmpty, sc_queue c)" using True by (simp add: try_recv_def try_dequeue_def cmds)
    then have "write_batch_loop env w c = Some (True, w, set_write_backpressure_active False ?c)"
      using Nil.prems(2) by (simp add: write_batch_loop.simps Let_def)
    moreover have "batch_end [] w c True w (set_write_backpressure_active False ?c)"
      using d Nil.prems(2) by (auto simp: batch_end_def set_write_backpressure_active_def cmds)
    ultimately show ?thesis using q by auto
  next
    case False
    have "try_recv (sc_queue c) = (Inl RecvDisconnected, sc_queue c)" using False by (simp add: try_recv_def try_dequeue_def cmds)
    then have "write_batch_loop env w c = Some (False, release_file_writer w, connection_lost env None ?c)"
      by (simp add: write_batch_loop.simps)
    moreover have sm: "same_writes ?c (connection_lost env None ?c)" by (simp add: connection_lost_def)
    have "drained [] [] c (connection_lost env None ?c)" "queued (connection_lost env None ?c) = []"
      "\<not> st_writer_registered (sc_st (connection_lost env None ?c))"
      using d(1,3) sm by (simp_all add: drained_def moved_def same_writes_def queued_def set_write_backpressure_active_def)
    then have "batch_end [] w c False (release_file_writer w) (connection_lost env None ?c)"
      by (simp add: batch_end_def release_file_writer_def)
    ultimately show ?thesis using q by auto
  qed
next
  case (Cons cmd cmds)
  let ?q = "(sc_queue c)\<lparr>q_commands := cmds\<rparr>" and ?c = "c\<lparr>sc_queue := (sc_queue c)\<lparr>q_commands := cmds\<rparr>\<rparr>"
  note cmds = Cons.hyps(2) [symmetric]
  have tr: "try_recv (sc_queue c) = (Inr cmd, ?q)" by (simp add: try_recv_def try_dequeue_def cmds)
  have qk: "queue_ok ?q" "command_ok cmd" using Cons.prems(4) by (simp_all add: queue_ok_def cmds)
  have qd: "queued c = bytes_of (command_tokens cmd) @ queued ?c" by (simp add: queued_def cmds)
  show ?case
  proof (cases "\<exists>data. cmd = WData data")
    case True
    then obtain data where data: "cmd = WData data" by blast
    obtain ok d w1 c1 x where one: "write_one_stream_buffer env data w ?c = Some (ok, d, w1, c1)" "wk_pending w1 = wk_pending w"
      "prefix x (ob_rest data)"
      "if ok then x = ob_rest data \<and> wk_target w1 = wk_target w \<and> accounts (size_of ?c - length x) (sent x ?c) c1 else ob_rest data \<noteq> [] \<and> same_writes (sent x ?c) c1"
      using write_one_ok [OF assms(1) Cons.prems(1), of data ?c] qk(2) data by auto
    show ?thesis
    proof (cases ok)
      case True
      have a: "accounts (size_of ?c - length x) (sent x ?c) (drop_buffer d c1)" "x = ob_rest data" "wk_target w1 = wk_target w"
        using one(4) True by (simp_all add: accounts_def)
      have s: "sc_queue (drop_buffer d c1) = ?q" "sc_coherent (drop_buffer d c1)" using a(1) Cons.prems(3) by (simp_all add: accounts_def)
      then obtain going w' c' where l: "write_batch_loop env w1 (drop_buffer d c1) = Some (going, w', c')"
        "batch_end (queued (drop_buffer d c1)) w1 (drop_buffer d c1) going w' c'"
        using Cons.hyps(1) [of "drop_buffer d c1" w1] Cons.prems(1,2) one(2) a(3) qk(1) by auto
      have "queued (drop_buffer d c1) = queued ?c" using s(1) by (simp add: queued_def)
      then have "batch_end (queued c) w ?c going w' c'" using batch_end_step [OF a(1) l(2) a(3) one(2)] qd data a(2) by simp
      moreover have "moved y ?c c' = moved y c c'" "drained y z ?c c' = drained y z c c'" for y z by (simp_all add: drained_def moved_def)
      ultimately have "batch_end (queued c) w c going w' c'" by (cases going) (simp_all add: batch_end_def)
      then show ?thesis using l(1) one(1) True tr data by (subst write_batch_loop.simps) simp
    next
      case False
      have "same_writes (sent x ?c) c1" using one(4) False by simp
      then have "moved x c (drop_buffer d c1)" "st_writer_registered (sc_st (drop_buffer d c1)) = st_writer_registered (sc_st c)"
        using Cons.prems(3) qk(1) by (simp_all add: moved_def same_writes_def)
      moreover have "prefix x (queued c)" "queued c \<noteq> []" using one(3,4) False qd data by (auto simp: prefix_def)
      ultimately have "batch_end (queued c) w c False w1 (drop_buffer d c1)" using one(2) by (auto simp: batch_end_def)
      then show ?thesis using one(1) False tr data by (intro exI [of _ False]) (subst write_batch_loop.simps, simp)
    qed
  next
    case False
    then have b: "bytes_of (command_tokens cmd) = []" by (cases cmd) simp_all
    have "write_batch_loop env w c = Some (True, w\<lparr>wk_pending := Some cmd\<rparr>, ?c)"
      using tr False by (subst write_batch_loop.simps) (cases cmd, simp_all)
    moreover have "drained [] (queued c) c ?c" using qd b Cons.prems(3) qk(1) by (simp add: drained_def moved_def)
    then have "batch_end (queued c) w c True (w\<lparr>wk_pending := Some cmd\<rparr>) ?c" using b qk(2) by (auto simp: batch_end_def)
    ultimately show ?thesis by blast
  qed
qed

lemma write_data_batch_ok:
  assumes "quiet_env env" "wk_target w \<noteq> WSink" "wk_pending w = None" "sc_coherent c" "queue_ok (sc_queue c)" "ob_ok data"
  shows "\<exists>going w' c'. write_stream_data_batch env data w c = Some (going, w', c') \<and> batch_end (ob_rest data @ queued c) w c going w' c'"
proof -
  obtain ok d w1 c1 x where one: "write_one_stream_buffer env data w c = Some (ok, d, w1, c1)" "wk_pending w1 = wk_pending w"
    "prefix x (ob_rest data)"
    "if ok then x = ob_rest data \<and> wk_target w1 = wk_target w \<and> accounts (size_of c - length x) (sent x c) c1 else ob_rest data \<noteq> [] \<and> same_writes (sent x c) c1"
    using write_one_ok [OF assms(1,2,6)] by blast
  show ?thesis
  proof (cases ok)
    case True
    have a: "accounts (size_of c - length x) (sent x c) c1" "x = ob_rest data" "wk_target w1 = wk_target w" using one(4) True by auto
    have s: "sc_queue c1 = sc_queue c" "sc_coherent c1" using a(1) assms(4) by (simp_all add: accounts_def)
    then obtain going w' c' where l: "write_batch_loop env w1 c1 = Some (going, w', c')" "batch_end (queued c1) w1 c1 going w' c'"
      using write_batch_loop_ok [OF assms(1), of w1 c1] assms(2,3,5) one(2) a(3) by auto
    have "queued c1 = queued c" using s(1) by (simp add: queued_def)
    then have "batch_end (ob_rest data @ queued c) w c going w' c'" using batch_end_step [OF a(1) l(2) a(3) one(2)] a(2) by simp
    then have "batch_end (ob_rest data @ queued c) w c going w' (drop_buffer d c')" by (cases going) (simp_all add: batch_end_def)
    then show ?thesis using l(1) one(1) True by (simp add: write_stream_data_batch_def)
  next
    case False
    have "same_writes (sent x c) c1" using one(4) False by simp
    then have "moved x c (drop_buffer d c1)" "st_writer_registered (sc_st (drop_buffer d c1)) = st_writer_registered (sc_st c)"
      using assms(4,5) by (simp_all add: moved_def same_writes_def)
    moreover have "prefix x (ob_rest data @ queued c)" "ob_rest data @ queued c \<noteq> []" using one(3,4) False by (auto simp: prefix_def)
    ultimately have "batch_end (ob_rest data @ queued c) w c False w1 (drop_buffer d c1)" using one(2) by (auto simp: batch_end_def)
    then show ?thesis using one(1) False by (intro exI [of _ False]) (simp add: write_stream_data_batch_def)
  qed
qed

text \<open>
  One pass of the thread: it drains a prefix of the queue, or ends in the middle of it. In the second
  case the command queue was not empty, so later writes are still queued and not sent past the loss.
\<close>

definition writer_effect :: "stream_core \<Rightarrow> bool \<Rightarrow> stream_core \<Rightarrow> bool" where
  "writer_effect c ended c' \<longleftrightarrow>
     (\<exists>x. drained x (queued c) c c'
        \<and> (st_writer_registered (sc_st c') = st_writer_registered (sc_st c) \<or> queued c' = [] \<and> \<not> st_writer_registered (sc_st c')))
     \<or> ended \<and> (\<exists>x. moved x c c' \<and> prefix x (queued c) \<and> queued c \<noteq> [] \<and> st_writer_registered (sc_st c') = st_writer_registered (sc_st c))"

definition worker_ok :: "worker \<Rightarrow> bool" where
  "worker_ok w \<longleftrightarrow> (\<forall>cmd. wk_pending w = Some cmd \<longrightarrow> command_ok cmd \<and> bytes_of (command_tokens cmd) = [])"

text \<open>What the write path sees of a state in which only the receiving end went away.\<close>

lemma effect_same:
  assumes "same_writes c c'" "calm c"
  shows "writer_effect c e c'" "writer_effect c e (c'\<lparr>sc_queue := receiver_drop (sc_queue c')\<rparr>)"
proof -
  have "drained [] (queued c) c c'" "drained [] (queued c) c (c'\<lparr>sc_queue := receiver_drop (sc_queue c')\<rparr>)"
    using assms by (simp_all add: drained_def moved_def same_writes_def calm_def queued_def receiver_drop_def queue_ok_def)
  then show "writer_effect c e c'" "writer_effect c e (c'\<lparr>sc_queue := receiver_drop (sc_queue c')\<rparr>)"
    using assms(1) by (auto simp: writer_effect_def same_writes_def)
qed

lemma batch_effect:
  assumes "batch_end (queued c) w c0 going w' c'" "c0 = c\<lparr>sc_queue := q\<rparr>"
  shows "writer_effect c (\<not> going) c'" "\<not> going \<Longrightarrow> writer_effect c True (c'\<lparr>sc_queue := receiver_drop (sc_queue c')\<rparr>)"
proof -
  have e: "moved y c0 x = moved y c x" "drained y z c0 x = drained y z c x" "sc_st c0 = sc_st c" for x y z
    using assms(2) by (simp_all add: drained_def moved_def)
  have r: "moved y c (c'\<lparr>sc_queue := receiver_drop (sc_queue c')\<rparr>) = moved y c c'"
    "drained y z c (c'\<lparr>sc_queue := receiver_drop (sc_queue c')\<rparr>) = drained y z c c'"
    "queued (c'\<lparr>sc_queue := receiver_drop (sc_queue c')\<rparr>) = queued c'" for y z
    by (simp_all add: drained_def moved_def queued_def receiver_drop_def queue_ok_def)
  show "writer_effect c (\<not> going) c'"
  proof (cases going)
    case True
    then show ?thesis using assms(1) unfolding batch_end_def writer_effect_def e by (auto simp: queued_def)
  next
    case False
    then show ?thesis using assms(1) unfolding batch_end_def writer_effect_def e by auto
  qed
  show "writer_effect c True (c'\<lparr>sc_queue := receiver_drop (sc_queue c')\<rparr>)" if "\<not> going"
    using that assms(1) unfolding batch_end_def writer_effect_def e r by auto
qed

lemma shutdown_same [simp]: "target_shutdown how w c = (r, w', c') \<Longrightarrow> same_writes c c' \<and> wk_pending w' = wk_pending w \<and> wk_target w' = wk_target w"
  by (auto simp: target_shutdown_def same_writes_def split: if_splits prod.splits)

lemma release_file_pending [simp]: "wk_pending (release_file_writer w) = wk_pending w"
  by (simp add: release_file_writer_def)

lemma connection_lost_same [simp]: "same_writes c (connection_lost env x c)"
  by (simp add: connection_lost_def)

lemma control_effect:
  assumes "\<forall>data. command \<noteq> WData data"
  shows "\<exists>going w' c'. handle_stream_writer_command env command w c = Some (going, w', c') \<and> same_writes c c'
    \<and> wk_pending w' = wk_pending w \<and> (going \<longrightarrow> wk_target w' = wk_target w)"
proof -
  have lost: "same_writes c (connection_lost env x c1)" if "target_shutdown how w c = (r, w1, c1)" for how r w1 c1 x
    using shutdown_same [OF that] same_writes_trans by fastforce
  show ?thesis
  proof (cases command)
    case (WData data)
    then show ?thesis using assms by simp
  next
    case WriteEof
    obtain r w1 c1 where s: "target_shutdown ShutWrite w c = (r, w1, c1)" by (metis prod_cases3)
    have "case handle_stream_write_eof env w c of (going, w', c') \<Rightarrow> same_writes c c' \<and> wk_pending w' = wk_pending w \<and> (going \<longrightarrow> wk_target w' = wk_target w)"
      using s lost [OF s] shutdown_same [OF s] by (simp add: handle_stream_write_eof_def report_writer_io_error_def split: sum.splits)
    then show ?thesis using WriteEof by (auto simp: handle_stream_writer_command_def split: prod.splits)
  next
    case WClose
    obtain r w1 c1 where s: "target_shutdown ShutWrite w c = (r, w1, c1)" by (metis prod_cases3)
    then show ?thesis
      using WClose lost [OF s] shutdown_same [OF s]
      by (intro exI [of _ False]) (simp add: handle_stream_writer_command_def report_writer_close_result_def)
  next
    case WAbort
    obtain r w1 c1 where s: "target_shutdown ShutBoth w c = (r, w1, c1)" by (metis prod_cases3)
    then show ?thesis
      using WAbort lost [OF s] shutdown_same [OF s]
      by (intro exI [of _ False]) (simp add: handle_stream_writer_command_def report_writer_close_result_def)
  next
    case WStop
    then show ?thesis by (intro exI [of _ False]) (simp add: handle_stream_writer_command_def)
  qed
qed

lemma command_effect:
  assumes "quiet_env env" "wk_target w \<noteq> WSink" "wk_pending w = None" "calm c0" "command_ok command"
    "c0 = c\<lparr>sc_queue := q\<rparr>" "queued c = bytes_of (command_tokens command) @ queued c0"
  shows "\<exists>going w' c'. handle_stream_writer_command env command w c0 = Some (going, w', c') \<and> worker_ok w'
    \<and> (going \<longrightarrow> wk_target w' = wk_target w \<and> writer_effect c False c')
    \<and> (\<not> going \<longrightarrow> writer_effect c True (c'\<lparr>sc_queue := receiver_drop (sc_queue c')\<rparr>))"
proof (cases "\<exists>data. command = WData data")
  case True
  then obtain data where d: "command = WData data" by blast
  obtain going w' c' where b: "write_stream_data_batch env data w c0 = Some (going, w', c')"
    "batch_end (ob_rest data @ queued c0) w c0 going w' c'"
    using write_data_batch_ok [OF assms(1-3), of c0 data] assms(4,5) d by (auto simp: calm_def)
  have b': "batch_end (queued c) w c0 going w' c'" using b(2) assms(7) d by simp
  have "worker_ok w'" "going \<longrightarrow> wk_target w' = wk_target w"
    using b(2) assms(3) by (cases going; auto simp: batch_end_def worker_ok_def)+
  then show ?thesis
    using b(1) d batch_effect [OF b' assms(6)]
    by (cases going) (intro exI [of _ going] exI [of _ w'] exI [of _ c']; simp add: handle_stream_writer_command_def)+
next
  case False
  then obtain going w' c' where h: "handle_stream_writer_command env command w c0 = Some (going, w', c')" "same_writes c0 c'"
    "wk_pending w' = wk_pending w" "going \<longrightarrow> wk_target w' = wk_target w"
    using control_effect [of command env w c0] by blast
  have "bytes_of (command_tokens command) = []" using False by (cases command) simp_all
  then have "queued c = queued c0" using assms(7) by simp
  then have "writer_effect c e x = writer_effect c0 e x" for e x
    using assms(6) by (simp add: writer_effect_def drained_def moved_def)
  then show ?thesis using h effect_same [OF h(2) assms(4)] assms(3) by (intro exI [of _ going] exI [of _ w'] exI [of _ c']) (simp add: worker_ok_def)
qed

lemma run_stream_writer_ok:
  assumes "quiet_env env" "wk_target w \<noteq> WSink" "worker_ok w" "calm c"
  shows "\<exists>ex w' c'. run_stream_writer env w c = Some (ex, w', c') \<and> worker_ok w' \<and> (ex \<noteq> WEnded \<longrightarrow> wk_target w' = wk_target w)
    \<and> writer_effect c (ex = WEnded) c'"
proof -
  let ?gone = "\<lambda>c1. c1\<lparr>sc_queue := receiver_drop (sc_queue c1)\<rparr>"
  have same: "same_writes c c" by simp
  have handle: "\<exists>ex w' c'. (case handle_stream_writer_command env command w1 c0 of None \<Rightarrow> None
      | Some (going, w2, c2) \<Rightarrow> Some (if going then (WGoOn, w2, c2) else (WEnded, w2, ?gone c2))) = Some (ex, w', c')
      \<and> worker_ok w' \<and> (ex \<noteq> WEnded \<longrightarrow> wk_target w' = wk_target w) \<and> writer_effect c (ex = WEnded) c'"
    if a: "wk_target w1 = wk_target w" "wk_pending w1 = None" "calm c0" "command_ok command" "c0 = c\<lparr>sc_queue := q\<rparr>"
      "queued c = bytes_of (command_tokens command) @ queued c0" for command w1 c0 q
  proof -
    obtain going w2 c2 where h: "handle_stream_writer_command env command w1 c0 = Some (going, w2, c2)" "worker_ok w2"
      "going \<longrightarrow> wk_target w2 = wk_target w1 \<and> writer_effect c False c2" "\<not> going \<longrightarrow> writer_effect c True (?gone c2)"
      using command_effect [OF assms(1) _ a(2-6)] a(1) assms(2) by auto
    then show ?thesis using a(1) by (cases going) auto
  qed
  consider (stop) "wk_stop w" | (pending) cmd where "\<not> wk_stop w" "wk_pending w = Some cmd"
    | (wait) "\<not> wk_stop w" "wk_pending w = None" "recv (sc_queue c) = None"
    | (gone) q where "\<not> wk_stop w" "wk_pending w = None" "recv (sc_queue c) = Some (Inl (), q)"
    | (got) cmd q where "\<not> wk_stop w" "wk_pending w = None" "recv (sc_queue c) = Some (Inr cmd, q)"
  proof (cases "wk_stop w \<or> wk_pending w \<noteq> None")
    case True
    then show ?thesis using stop pending by blast
  next
    case False
    show ?thesis
    proof (cases "recv (sc_queue c)")
      case None
      then show ?thesis using False wait by blast
    next
      case (Some r)
      then show ?thesis using False gone got by (cases r; cases "fst r") auto
    qed
  qed
  then show ?thesis
  proof cases
    case stop
    then show ?thesis using effect_same(2) [OF same assms(4)] assms(3) by (simp add: run_stream_writer_def)
  next
    case (pending cmd)
    have "calm (c\<lparr>sc_queue := sc_queue c\<rparr>)" "command_ok cmd" "queued c = bytes_of (command_tokens cmd) @ queued (c\<lparr>sc_queue := sc_queue c\<rparr>)"
      using assms(3,4) pending(2) by (simp_all add: worker_ok_def)
    from handle [OF _ _ this(1,2) refl this(3), of "w\<lparr>wk_pending := None\<rparr>"] show ?thesis
      using pending by (simp add: run_stream_writer_def)
  next
    case wait
    then show ?thesis using effect_same(1) [OF same assms(4)] assms(3) by (simp add: run_stream_writer_def)
  next
    case (gone q)
    have q: "q = sc_queue c" using gone(3) by (auto simp: recv_def try_dequeue_def split: list.splits if_splits)
    have c: "c\<lparr>sc_queue := sc_queue c\<rparr> = c" by simp
    show ?thesis
      using gone(1,2,3) effect_same(2) [OF connection_lost_same assms(4), of True env None] assms(3)
      by (simp add: run_stream_writer_def q c)
  next
    case (got cmd q)
    have q: "q_commands (sc_queue c) = cmd # q_commands q"
      using got(3) by (auto simp: recv_def try_dequeue_def split: list.splits if_splits)
    have "calm (c\<lparr>sc_queue := q\<rparr>)" "command_ok cmd" "queued c = bytes_of (command_tokens cmd) @ queued (c\<lparr>sc_queue := q\<rparr>)"
      using assms(4) q by (simp_all add: calm_def queue_ok_def queued_def)
    from handle [OF refl got(2) this(1,2) refl this(3)] show ?thesis using got by (simp add: run_stream_writer_def)
  qed
qed

subsection \<open>A transport and its worker\<close>

text \<open>
  The loop's thread writes and flushes, the worker's thread makes a pass of its loop; here a pass is not
  interrupted (what happens when it is comes last). A worker runs once it was started, until it has ended.
\<close>

record transport =
  tp_core :: stream_core
  tp_worker :: worker
  tp_ended :: bool

datatype write_op =
    OWrite bytes
  | OLines "bytes list"
  | OFlush
  | OWorker "(io_error + nat) list" "(io_error + bool \<times> bool) list" "io_error option list"

definition transport_step :: "stream_env \<Rightarrow> write_op \<Rightarrow> transport \<Rightarrow> ((bytes \<times> bool) list \<times> transport) option" where
  "transport_step env op t =
     (case op of
        OWrite d \<Rightarrow> map_option (\<lambda>(r, c). ([(d, \<not> isl r)], t\<lparr>tp_core := c\<rparr>)) (write_data env d (tp_core t))
      | OLines ds \<Rightarrow> map_option (\<lambda>(r, c). ([(concat ds, \<not> isl r)], t\<lparr>tp_core := c\<rparr>)) (writelines env ds (tp_core t))
      | OFlush \<Rightarrow> map_option (\<lambda>c. ([], t\<lparr>tp_core := c\<rparr>)) (flush_pending_direct_write env (tp_core t))
      | OWorker ws ps ds \<Rightarrow>
          if tp_ended t \<or> sc_lazy (tp_core t) then Some ([], t)
          else
            map_option (\<lambda>(ex, w, c). ([], t\<lparr>tp_core := c, tp_worker := w, tp_ended := (ex = WEnded)\<rparr>))
              (run_stream_writer env ((tp_worker t)\<lparr>wk_writes := ws, wk_polls := ps, wk_downs := ds\<rparr>) (tp_core t)))"

fun transport_run :: "stream_env \<Rightarrow> write_op list \<Rightarrow> transport \<Rightarrow> ((bytes \<times> bool) list \<times> transport) option" where
  "transport_run env [] t = Some ([], t)"
| "transport_run env (op # ops) t = do {
     (r, t1) \<leftarrow> transport_step env op t;
     (rs, t2) \<leftarrow> transport_run env ops t1;
     Some (r @ rs, t2)
   }"

definition worker_new :: "writer_target \<Rightarrow> worker" where
  "worker_new target = \<lparr>wk_target = target, wk_pending = None, wk_stop = False, wk_writes = [], wk_polls = [], wk_downs = []\<rparr>"

definition transport_new :: "state_config \<Rightarrow> bool \<Rightarrow> bool \<Rightarrow> bool \<Rightarrow> bool \<Rightarrow> writer_target \<Rightarrow> transport" where
  "transport_new config direct_writer lazy_writer server_side native_stream_reader target =
     \<lparr>tp_core = new_stream_transport_core (stream_transport_state_parts config) direct_writer lazy_writer server_side native_stream_reader,
      tp_worker = worker_new target, tp_ended = False\<rparr>"

text \<open>
  The worker died in the middle of the queue: everything written from now on goes to the queue, where it
  is refused.
\<close>

definition dead_core :: "stream_core \<Rightarrow> bool" where
  "dead_core c \<longleftrightarrow> calm c \<and> sc_pending_direct c = None \<and> (st_writer_registered (sc_st c) \<or> sc_direct c = None)"

definition wire_inv :: "bytes \<Rightarrow> transport \<Rightarrow> bool" where
  "wire_inv acc t \<longleftrightarrow>
     worker_ok (tp_worker t) \<and> (\<not> tp_ended t \<longrightarrow> wk_target (tp_worker t) \<noteq> WSink)
     \<and> (open_core (tp_core t) \<and> written (tp_core t) = acc
        \<or> tp_ended t \<and> dead_core (tp_core t) \<and> prefix (sc_wire (tp_core t)) acc
        \<or> closed_core (tp_core t) \<and> prefix (sc_wire (tp_core t)) acc
          \<and> (\<not> tp_ended t \<longrightarrow> prefix (sc_wire (tp_core t) @ queued (tp_core t)) acc))"

text \<open>From a dead or closing state nothing reaches the wire through the loop's side.\<close>

definition off_wire :: "stream_core \<Rightarrow> stream_core \<Rightarrow> bool" where
  "off_wire c c' \<longleftrightarrow> sc_wire c' = sc_wire c \<and> (closed_core c' \<or> dead_core c')"

lemma dead_queue_write:
  assumes "quiet_env env" "dead_core c" "ob_ok data"
  shows "\<exists>r c'. queue_write env data c = Some (r, c') \<and> off_wire c c'"
proof -
  obtain r c' where q: "queue_write env data c = Some (r, c')" "stopped (ob_rest data) c c' \<or>
     (case r of Inr _ \<Rightarrow> pushed (ob_rest data) (size_of c + length (ob_rest data)) c c' | Inl _ \<Rightarrow> same_writes c c')"
    using queue_write_ok [OF assms(1) _ assms(3)] assms(2) unfolding dead_core_def by blast
  have "off_wire c c'"
  proof (cases "stopped (ob_rest data) c c'")
    case True
    then show ?thesis by (simp add: off_wire_def stopped_def)
  next
    case False
    then show ?thesis
      using q(2) assms(2) by (cases r) (auto simp: off_wire_def dead_core_def calm_def pushed_def same_writes_def)
  qed
  then show ?thesis using q(1) by blast
qed

lemma dead_backpressure: "dead_core c \<Longrightarrow> sc_direct c = None \<or> write_backpressure_active c"
  by (auto simp: dead_core_def calm_def stream_flags_read)

lemma dead_batch:
  assumes "quiet_env env" "dead_core c" "list_all ob_ok bs"
  shows "\<exists>r c'. queue_write_batch env bs c = Some (r, c') \<and> off_wire c c'"
proof -
  let ?d = "concat (map ob_rest bs)" and ?c = "set_write_backpressure_active True c"
  obtain r c' where q: "queue_write_batch env bs c = Some (r, c')" "stopped ?d c c' \<or>
     (case r of Inr _ \<Rightarrow> pushed ?d (size_of c + length ?d) ?c c' | Inl _ \<Rightarrow> same_writes c c')"
    using queue_batch_effect [OF assms(1) _ assms(3) refl] assms(2) unfolding dead_core_def by blast
  have "off_wire c c'"
  proof (cases "stopped ?d c c'")
    case True
    then show ?thesis by (simp add: off_wire_def stopped_def)
  next
    case False
    then show ?thesis
      using q(2) assms(2)
      by (cases r) (auto simp: off_wire_def dead_core_def calm_def pushed_def same_writes_def set_write_backpressure_active_def)
  qed
  then show ?thesis using q(1) by blast
qed

lemma dead_buffer:
  assumes "quiet_env env" "dead_core c" "ob_ok data"
  shows "\<exists>r c'. try_write_buffer env data c = Some (r, c') \<and> off_wire c c'"
proof (cases "ob_rest data = []")
  case True
  have "off_wire c (drop_buffer data c)" using assms(2) by (simp add: off_wire_def dead_core_def calm_def)
  then show ?thesis using True assms(3) by (simp add: try_write_buffer_def)
next
  case False
  have "try_write_buffer env data c = queue_write env data c"
    using False assms(3) dead_backpressure [OF assms(2)] by (auto simp: try_write_buffer_def)
  then show ?thesis using dead_queue_write [OF assms] by simp
qed

lemma dead_bytes:
  assumes "quiet_env env" "dead_core c"
  shows "\<exists>r c'. try_write_bytes_with_status env d (write_backpressure_active c) c = Some (r, c') \<and> off_wire c c'"
proof -
  have "try_write_bytes_with_status env d (write_backpressure_active c) c = queue_write env (from_python d) c"
    using dead_backpressure [OF assms(2)] by (auto simp: try_write_bytes_with_status_def)
  then show ?thesis using dead_queue_write [OF assms, of "from_python d"] by simp
qed

lemma dead_segments:
  assumes "quiet_env env" "dead_core c"
  shows "\<exists>r c'. try_write_segments env ss len c = Some (r, c') \<and> off_wire c c'"
proof -
  have rest: "\<exists>r c'. write_rest env ss len 0 c = Some (r, c') \<and> off_wire c c'"
  proof (cases "len - 0 > DEFAULT_WRITE_BUFFER_HIGH_WATER \<and> length ss \<le> 16 \<and> \<not> sc_direct_scheduled c")
    case True
    then show ?thesis using dead_batch [OF assms, of "segment_buffers 0 ss"] segment_buffers_rest [of 0 ss] by (simp add: write_rest_def)
  next
    case False
    obtain b pool where b: "with_pooled_capacity (te_grow env) (len - 0) (sc_write_pool c) = Some (b, pool)" "ob_ok b"
      using with_pooled_capacity_ok by blast
    obtain j where j: "join_segments (te_grow env) 0 ss b = Some j" "ob_ok j" using join_segments_ok [OF b(2)] by blast
    have "dead_core (c\<lparr>sc_write_pool := pool\<rparr>)" using assms(2) by (simp add: dead_core_def calm_def)
    then obtain r c' where "try_write_buffer env j (c\<lparr>sc_write_pool := pool\<rparr>) = Some (r, c')" "off_wire (c\<lparr>sc_write_pool := pool\<rparr>) c'"
      using dead_buffer [OF assms(1) _ j(2)] by blast
    then show ?thesis using False b(1) j(1) by (auto simp: write_rest_def off_wire_def)
  qed
  have "off_wire c c" using assms(2) by (simp add: off_wire_def)
  moreover have "\<not> (sc_direct c \<noteq> None \<and> \<not> write_backpressure_active c)" using dead_backpressure [OF assms(2)] by auto
  ultimately show ?thesis
    using rest dead_bytes [OF assms, of "hd ss"] by (auto simp: try_write_segments_def try_write_bytes_def)
qed

subsection \<open>The bytes on the wire\<close>

text \<open>What a write contributed: all of its data if it was accepted, a prefix of them if it was refused.\<close>

definition contributed :: "bytes \<times> bool \<Rightarrow> bytes \<Rightarrow> bool" where
  "contributed r p \<longleftrightarrow> (if snd r then p = fst r else prefix p (fst r))"

lemma contributed_all [simp]: "contributed (d, ok) d"
  by (simp add: contributed_def)

lemma wire_inv_write:
  assumes "wire_inv acc t" "open_core (tp_core t)" "written (tp_core t) = acc" "outcome d (tp_core t) r c'"
  shows "\<exists>p. contributed (d, \<not> isl r) p \<and> wire_inv (acc @ p) (t\<lparr>tp_core := c'\<rparr>)"
proof (cases "closed_core c' \<and> prefix (sc_wire c' @ queued c') (acc @ d)")
  case True
  then have "prefix (sc_wire c') (acc @ d)" by (meson append_prefixD)
  then have "wire_inv (acc @ d) (t\<lparr>tp_core := c'\<rparr>)" using True assms(1) by (simp add: wire_inv_def)
  then show ?thesis by (intro exI [of _ d]) simp
next
  case False
  then have o: "open_core c'" "case r of Inr _ \<Rightarrow> written c' = acc @ d | Inl _ \<Rightarrow> \<exists>n. written c' = acc @ take n d"
    using assms(3,4) by (auto simp: outcome_def)
  then obtain p where "written c' = acc @ p" "contributed (d, \<not> isl r) p"
    by (cases r) (auto simp: contributed_def take_is_prefix)
  then show ?thesis using o(1) assms(1) by (intro exI [of _ p]) (simp add: wire_inv_def)
qed

lemma wire_inv_stays:
  assumes "wire_inv acc t" "\<not> (open_core (tp_core t) \<and> written (tp_core t) = acc)"
  shows "sc_pending_direct (tp_core t) = None" "wire_inv (acc @ p) t" "calm (tp_core t)"
    "off_wire (tp_core t) c' \<Longrightarrow> tp_ended t \<Longrightarrow> wire_inv (acc @ p) (t\<lparr>tp_core := c'\<rparr>)"
    "tp_ended t \<and> dead_core (tp_core t) \<or> closed_core (tp_core t)"
proof -
  from assms have c: "tp_ended t \<and> dead_core (tp_core t) \<and> prefix (sc_wire (tp_core t)) acc
      \<or> closed_core (tp_core t) \<and> prefix (sc_wire (tp_core t)) acc \<and> (\<not> tp_ended t \<longrightarrow> prefix (sc_wire (tp_core t) @ queued (tp_core t)) acc)"
    unfolding wire_inv_def by blast
  then show "sc_pending_direct (tp_core t) = None" "calm (tp_core t)" "tp_ended t \<and> dead_core (tp_core t) \<or> closed_core (tp_core t)"
    by (auto simp: dead_core_def closed_core_def calm_def)
  show "wire_inv (acc @ p) t" using c assms(1) by (auto simp: wire_inv_def)
  show "wire_inv (acc @ p) (t\<lparr>tp_core := c'\<rparr>)" if "off_wire (tp_core t) c'" "tp_ended t"
    using that c assms(1) by (auto simp: wire_inv_def off_wire_def)
qed

lemma wire_inv_OWrite:
  assumes "quiet_env env" "wire_inv acc t"
  shows "\<exists>r c' p. write_data env d (tp_core t) = Some (r, c') \<and> contributed (d, \<not> isl r) p \<and> wire_inv (acc @ p) (t\<lparr>tp_core := c'\<rparr>)"
proof -
  let ?c = "tp_core t"
  have coh: "sc_coherent ?c" "t\<lparr>tp_core := ?c\<rparr> = t" using assms(2) by (auto simp: wire_inv_def write_inv_def dead_core_def calm_def closed_core_def)
  have ws: "write_status ?c = (st_closing (sc_st ?c), st_writable (sc_st ?c), write_backpressure_active ?c)"
    using coh(1) by (simp add: stream_flags_read)
  consider (refuse) "\<not> st_closing (sc_st ?c)" "\<not> st_writable (sc_st ?c)"
    | (open_write) "\<not> st_closing (sc_st ?c)" "st_writable (sc_st ?c)" "open_core ?c \<and> written ?c = acc"
    | (closing) "st_closing (sc_st ?c)"
    | (dead) "\<not> st_closing (sc_st ?c)" "st_writable (sc_st ?c)" "\<not> (open_core ?c \<and> written ?c = acc)"
    by blast
  then show ?thesis
  proof cases
    case refuse
    then show ?thesis
      using ws assms(2) coh(2) by (intro exI [of _ "Inl None"] exI [of _ ?c] exI [of _ "[]"]) (simp add: write_data_def contributed_def)
  next
    case open_write
    then obtain r c' where w: "write_data env d ?c = Some (map_sum Some id r, c')" "outcome d ?c r c'"
      using write_data_ok [OF assms(1), of ?c d] by blast
    obtain p where "contributed (d, \<not> isl r) p" "wire_inv (acc @ p) (t\<lparr>tp_core := c'\<rparr>)"
      using wire_inv_write [OF assms(2) _ _ w(2)] open_write(3) by blast
    then show ?thesis using w(1) by (auto simp: isl_map_sum)
  next
    case closing
    then have "\<not> open_core ?c" by simp
    then have "wire_inv (acc @ d) t" using wire_inv_stays(2) [OF assms(2)] by blast
    then show ?thesis using closing ws coh(2) by (intro exI [of _ "Inr ()"] exI [of _ ?c] exI [of _ d]) (simp add: write_data_def)
  next
    case dead
    then have d: "dead_core ?c" "tp_ended t" using wire_inv_stays(5) [OF assms(2) dead(3)] by (auto simp: closed_core_def)
    obtain r c' where "try_write_bytes_with_status env d (write_backpressure_active ?c) ?c = Some (r, c')" "off_wire ?c c'"
      using dead_bytes [OF assms(1) d(1)] by blast
    then show ?thesis
      using wire_inv_stays(4) [OF assms(2) dead(3), of c' d] dead ws d(2)
      by (intro exI [of _ "map_sum Some id r"] exI [of _ c'] exI [of _ d]) (simp add: write_data_def)
  qed
qed

lemma wire_inv_OLines:
  assumes "quiet_env env" "wire_inv acc t"
  shows "\<exists>r c' p. writelines env ds (tp_core t) = Some (r, c') \<and> contributed (concat ds, \<not> isl r) p \<and> wire_inv (acc @ p) (t\<lparr>tp_core := c'\<rparr>)"
proof -
  let ?c = "tp_core t" and ?len = "sum_list (map length ds)" and ?d = "concat ds"
  have coh: "sc_coherent ?c" "t\<lparr>tp_core := ?c\<rparr> = t" using assms(2) by (auto simp: wire_inv_def write_inv_def dead_core_def calm_def closed_core_def)
  have ws: "write_status ?c = (st_closing (sc_st ?c), st_writable (sc_st ?c), write_backpressure_active ?c)"
    using coh(1) by (simp add: stream_flags_read)
  consider (refuse) "\<not> st_closing (sc_st ?c)" "\<not> st_writable (sc_st ?c) \<or> ?len > usize_max"
    | (open_write) "\<not> st_closing (sc_st ?c)" "st_writable (sc_st ?c)" "?len \<le> usize_max" "open_core ?c \<and> written ?c = acc"
    | (closing) "st_closing (sc_st ?c)"
    | (dead) "\<not> st_closing (sc_st ?c)" "st_writable (sc_st ?c)" "?len \<le> usize_max" "\<not> (open_core ?c \<and> written ?c = acc)"
    using linorder_not_less by blast
  then show ?thesis
  proof cases
    case refuse
    then show ?thesis
      using ws assms(2) coh(2) by (intro exI [of _ "Inl None"] exI [of _ ?c] exI [of _ "[]"]) (auto simp: writelines_def contributed_def Let_def)
  next
    case open_write
    then obtain r c' where w: "writelines env ds ?c = Some (map_sum Some id r, c')" "outcome ?d ?c r c'"
      using writelines_ok [OF assms(1), of ?c ds] by (auto simp: length_concat)
    obtain p where "contributed (?d, \<not> isl r) p" "wire_inv (acc @ p) (t\<lparr>tp_core := c'\<rparr>)"
      using wire_inv_write [OF assms(2) _ _ w(2)] open_write(4) by blast
    then show ?thesis using w(1) by (auto simp: isl_map_sum)
  next
    case closing
    then have "\<not> open_core ?c" by simp
    then have "wire_inv (acc @ ?d) t" using wire_inv_stays(2) [OF assms(2)] by blast
    then show ?thesis using closing ws coh(2) by (intro exI [of _ "Inr ()"] exI [of _ ?c] exI [of _ ?d]) (simp add: writelines_def)
  next
    case dead
    then have d: "dead_core ?c" "tp_ended t" using wire_inv_stays(5) [OF assms(2) dead(4)] by (auto simp: closed_core_def)
    obtain r c' where "try_write_segments env (filter (\<lambda>b. b \<noteq> []) ds) ?len ?c = Some (r, c')" "off_wire ?c c'"
      using dead_segments [OF assms(1) d(1)] by blast
    then show ?thesis
      using wire_inv_stays(4) [OF assms(2) dead(4), of c' ?d] dead ws d(2)
      by (intro exI [of _ "map_sum Some id r"] exI [of _ c'] exI [of _ ?d]) (simp add: writelines_def Let_def)
  qed
qed

lemma wire_inv_OFlush:
  assumes "quiet_env env" "wire_inv acc t"
  shows "\<exists>c'. flush_pending_direct_write env (tp_core t) = Some c' \<and> wire_inv acc (t\<lparr>tp_core := c'\<rparr>)"
proof (cases "open_core (tp_core t) \<and> written (tp_core t) = acc")
  case True
  obtain c' where f: "flush_pending_direct_write env (tp_core t) = Some c'" "outcome [] (tp_core t) (Inr ()) c'"
    using flush_ok [OF assms(1)] True by blast
  then show ?thesis using wire_inv_write [OF assms(2) _ _ f(2)] True by (auto simp: contributed_def)
next
  case False
  let ?c = "(tp_core t)\<lparr>sc_direct_scheduled := False\<rparr>"
  have "flush_pending_direct_write env (tp_core t) = Some ?c"
    using wire_inv_stays(1) [OF assms(2) False] by (simp add: flush_pending_direct_write_def)
  moreover have "wire_inv acc (t\<lparr>tp_core := ?c\<rparr>)"
    using assms(2) False by (auto simp: wire_inv_def dead_core_def calm_def closed_core_def queued_def)
  ultimately show ?thesis by blast
qed

lemma wire_inv_OWorker:
  assumes "quiet_env env" "wire_inv acc t" "\<not> tp_ended t"
  shows "\<exists>ex w c. run_stream_writer env ((tp_worker t)\<lparr>wk_writes := ws, wk_polls := ps, wk_downs := ds\<rparr>) (tp_core t) = Some (ex, w, c)
    \<and> wire_inv acc (t\<lparr>tp_core := c, tp_worker := w, tp_ended := (ex = WEnded)\<rparr>)"
proof -
  let ?c = "tp_core t" and ?w = "(tp_worker t)\<lparr>wk_writes := ws, wk_polls := ps, wk_downs := ds\<rparr>"
  have "worker_ok ?w" "wk_target ?w \<noteq> WSink" using assms(2,3) by (simp_all add: wire_inv_def worker_ok_def)
  moreover have "calm ?c" using assms(2,3) by (auto simp: wire_inv_def dead_core_def closed_calm intro: open_coreD(10))
  ultimately obtain ex w c where r: "run_stream_writer env ?w ?c = Some (ex, w, c)" "worker_ok w"
    "ex \<noteq> WEnded \<longrightarrow> wk_target w = wk_target ?w" "writer_effect ?c (ex = WEnded) c"
    using run_stream_writer_ok [OF assms(1)] by blast
  have tgt: "ex \<noteq> WEnded \<longrightarrow> wk_target w \<noteq> WSink" using r(3) \<open>wk_target ?w \<noteq> WSink\<close> by simp
  have "wire_inv acc (t\<lparr>tp_core := c, tp_worker := w, tp_ended := (ex = WEnded)\<rparr>)" (is ?goal)
  proof (cases "\<exists>x. drained x (queued ?c) ?c c
      \<and> (st_writer_registered (sc_st c) = st_writer_registered (sc_st ?c) \<or> queued c = [] \<and> \<not> st_writer_registered (sc_st c))")
    case True
    then obtain x where d: "drained x (queued ?c) ?c c"
      and b: "st_writer_registered (sc_st c) = st_writer_registered (sc_st ?c) \<or> queued c = [] \<and> \<not> st_writer_registered (sc_st c)"
      by blast
    have st: "staged c = staged ?c" using d by (simp add: drained_def moved_def staged_def)
    have q: "queued ?c = x @ queued c" using d by (simp add: drained_def)
    show ?goal
    proof (cases "open_core ?c \<and> written ?c = acc")
      case True
      have "size_of c = length (queued c) + length (staged c)" using d q st open_coreD(3) True by (simp add: drained_def)
      moreover have "written c = acc" using True d q st by (simp add: written_def drained_def moved_def)
      ultimately have "open_core c" "written c = acc"
        using True d b q by (auto simp: write_inv_def drained_def moved_def)
      then show ?goal using r(2) tgt by (simp add: wire_inv_def)
    next
      case False
      then have c: "closed_core ?c" "prefix (sc_wire ?c @ queued ?c) acc" using assms(2,3) by (auto simp: wire_inv_def)
      have "sc_wire ?c @ queued ?c = sc_wire c @ queued c" using d q by (simp add: drained_def moved_def)
      then have "prefix (sc_wire c @ queued c) acc" using c(2) by simp
      moreover from this have "prefix (sc_wire c) acc" by (rule append_prefixD)
      moreover have "closed_core c" using c(1) d by (simp add: closed_core_def drained_def moved_def)
      ultimately show ?goal using r(2) tgt by (simp add: wire_inv_def)
    qed
  next
    case False
    then obtain x where e: "ex = WEnded" and m: "moved x ?c c" and px: "prefix x (queued ?c)" and ne: "queued ?c \<noteq> []"
      and b: "st_writer_registered (sc_st c) = st_writer_registered (sc_st ?c)"
      using r(4) unfolding writer_effect_def by blast
    obtain y where y: "queued ?c = x @ y" using px by (auto simp: prefix_def)
    show ?goal
    proof (cases "open_core ?c \<and> written ?c = acc")
      case True
      have "st_writer_registered (sc_st ?c) \<or> sc_direct ?c = None" using True ne by (auto simp: write_inv_def)
      moreover from this have "sc_pending_direct ?c = None" using True by (auto simp: write_inv_def)
      ultimately have "dead_core c" using m b True by (auto simp: dead_core_def calm_def moved_def)
      moreover have "prefix (sc_wire c) acc" using True m y by (auto simp: written_def moved_def)
      ultimately show ?goal using r(2) e by (simp add: wire_inv_def)
    next
      case False
      then have c: "closed_core ?c" "prefix (sc_wire ?c @ queued ?c) acc" using assms(2,3) by (auto simp: wire_inv_def)
      have "prefix (sc_wire c) acc" using c(2) m y append_prefixD [of "sc_wire ?c @ x" y acc] by (simp add: moved_def)
      moreover have "closed_core c" using c(1) m by (simp add: closed_core_def moved_def)
      ultimately show ?goal using r(2) e by (simp add: wire_inv_def)
    qed
  qed
  then show ?thesis using r(1) by blast
qed

lemma transport_step_inv:
  assumes "quiet_env env" "wire_inv acc t"
  shows "\<exists>rs t' ps. transport_step env op t = Some (rs, t') \<and> list_all2 contributed rs ps \<and> wire_inv (acc @ concat ps) t'"
proof (cases op)
  case (OWrite d)
  obtain r c' p where "write_data env d (tp_core t) = Some (r, c')" "contributed (d, \<not> isl r) p" "wire_inv (acc @ p) (t\<lparr>tp_core := c'\<rparr>)"
    using wire_inv_OWrite [OF assms] by blast
  then show ?thesis using OWrite by (intro exI [of _ "[(d, \<not> isl r)]"] exI [of _ "t\<lparr>tp_core := c'\<rparr>"] exI [of _ "[p]"]) (simp add: transport_step_def)
next
  case (OLines ds)
  obtain r c' p where "writelines env ds (tp_core t) = Some (r, c')" "contributed (concat ds, \<not> isl r) p" "wire_inv (acc @ p) (t\<lparr>tp_core := c'\<rparr>)"
    using wire_inv_OLines [OF assms] by blast
  then show ?thesis using OLines by (intro exI [of _ "[(concat ds, \<not> isl r)]"] exI [of _ "t\<lparr>tp_core := c'\<rparr>"] exI [of _ "[p]"]) (simp add: transport_step_def)
next
  case OFlush
  obtain c' where "flush_pending_direct_write env (tp_core t) = Some c'" "wire_inv acc (t\<lparr>tp_core := c'\<rparr>)"
    using wire_inv_OFlush [OF assms] by blast
  then show ?thesis using OFlush by (intro exI [of _ "[]"] exI [of _ "t\<lparr>tp_core := c'\<rparr>"]) (simp add: transport_step_def)
next
  case (OWorker ws ps ds)
  show ?thesis
  proof (cases "tp_ended t \<or> sc_lazy (tp_core t)")
    case True
    then show ?thesis using OWorker assms(2) by (intro exI [of _ "[]"] exI [of _ t]) (simp add: transport_step_def)
  next
    case False
    obtain ex w c where "run_stream_writer env ((tp_worker t)\<lparr>wk_writes := ws, wk_polls := ps, wk_downs := ds\<rparr>) (tp_core t) = Some (ex, w, c)"
      "wire_inv acc (t\<lparr>tp_core := c, tp_worker := w, tp_ended := (ex = WEnded)\<rparr>)"
      using wire_inv_OWorker [OF assms, where ws = ws and ps = ps and ds = ds] False by blast
    then show ?thesis
      using OWorker False by (intro exI [of _ "[]"] exI [of _ "t\<lparr>tp_core := c, tp_worker := w, tp_ended := (ex = WEnded)\<rparr>"]) (simp add: transport_step_def)
  qed
qed

lemma transport_run_inv:
  assumes "quiet_env env" "wire_inv acc t"
  shows "\<exists>rs t' ps. transport_run env ops t = Some (rs, t') \<and> list_all2 contributed rs ps \<and> wire_inv (acc @ concat ps) t'"
  using assms(2)
proof (induction ops arbitrary: acc t)
  case (Cons op ops)
  obtain r t1 p where 1: "transport_step env op t = Some (r, t1)" "list_all2 contributed r p" "wire_inv (acc @ concat p) t1"
    using transport_step_inv [OF assms(1) Cons.prems] by blast
  obtain rs t' ps where 2: "transport_run env ops t1 = Some (rs, t')" "list_all2 contributed rs ps" "wire_inv ((acc @ concat p) @ concat ps) t'"
    using Cons.IH [OF 1(3)] by blast
  show ?case
    using 1(1,2) 2 by (intro exI [of _ "r @ rs"] exI [of _ t'] exI [of _ "p @ ps"]) (simp add: list_all2_appendI)
qed simp

lemma transport_new_inv:
  assumes "target \<noteq> WSink"
  shows "wire_inv [] (transport_new config direct lz server native target)"
proof -
  have "open_core (tp_core (transport_new config direct lz server native target))"
    by (simp add: transport_new_def new_stream_transport_core_def stream_transport_state_parts_def write_inv_def queued_def staged_def
        write_buffer_default_def)
  then show ?thesis
    using assms by (simp add: wire_inv_def transport_new_def worker_new_def worker_ok_def new_stream_transport_core_def written_def queued_def)
qed


lemma demo_quiet: "quiet_env demo_env"
  by (simp add: quiet_env_def demo_env_def)


subsection \<open>A pass of the worker that is interrupted\<close>

text \<open>
  The same thread, one access to the shared state at a time. \<open>PCommand\<close> is at the start of a command;
  in a batch, \<open>PTry\<close> is before a \<open>try_recv\<close>, \<open>PNext\<close> has received more data, and \<open>PClear\<close> has found the
  queue empty and not yet cleared the backpressure flag. The buffer the batch began with lives to its end.
\<close>

datatype writer_pc =
    PTop
  | PCommand writer_command
  | PTry owned_write_buffer
  | PNext owned_write_buffer owned_write_buffer
  | PClear owned_write_buffer
  | PEnded

definition writer_pc_step :: "stream_env \<Rightarrow> writer_pc \<times> worker \<times> stream_core \<Rightarrow> (writer_pc \<times> worker \<times> stream_core) option" where
  "writer_pc_step env s =
     (case s of (pc, w, c) \<Rightarrow>
        case pc of
          PTop \<Rightarrow>
            (case recv (sc_queue c) of
               Some (Inr command, q) \<Rightarrow> Some (PCommand command, w, c\<lparr>sc_queue := q\<rparr>)
             | _ \<Rightarrow> None)
        | PCommand (WData data) \<Rightarrow>
            (case write_one_stream_buffer env data w c of
               Some (ok, data1, w1, c1) \<Rightarrow> Some (if ok then (PTry data1, w1, c1) else (PEnded, w1, drop_buffer data1 c1))
             | None \<Rightarrow> None)
        | PTry held \<Rightarrow>
            (case try_recv (sc_queue c) of
               (Inr (WData data), q) \<Rightarrow> Some (PNext held data, w, c\<lparr>sc_queue := q\<rparr>)
             | (Inr command, q) \<Rightarrow> Some (PCommand command, w, drop_buffer held (c\<lparr>sc_queue := q\<rparr>))
             | (Inl RecvEmpty, q) \<Rightarrow> Some (PClear held, w, c\<lparr>sc_queue := q\<rparr>)
             | (Inl RecvDisconnected, q) \<Rightarrow>
                 Some (PEnded, release_file_writer w,
                       drop_buffer held (connection_lost env None (set_write_backpressure_active False (c\<lparr>sc_queue := q\<rparr>)))))
        | PNext held data \<Rightarrow>
            (case write_one_stream_buffer env data w c of
               Some (ok, data1, w1, c1) \<Rightarrow>
                 Some (if ok then (PTry held, w1, drop_buffer data1 c1) else (PEnded, w1, drop_buffer held (drop_buffer data1 c1)))
             | None \<Rightarrow> None)
        | PClear held \<Rightarrow>
            Some (PTop, w, drop_buffer held (set_write_backpressure_active False (set_write_backpressure_active False c)))
        | _ \<Rightarrow> None)"

fun writer_pc_run :: "stream_env \<Rightarrow> nat \<Rightarrow> writer_pc \<times> worker \<times> stream_core \<Rightarrow> (writer_pc \<times> worker \<times> stream_core) option" where
  "writer_pc_run env 0 s = Some s"
| "writer_pc_run env (Suc n) s = Option.bind (writer_pc_step env s) (writer_pc_run env n)"

text \<open>Uninterrupted, the steps are the batch.\<close>

definition after_batch :: "bool \<Rightarrow> worker \<Rightarrow> writer_pc" where
  "after_batch going w = (if \<not> going then PEnded else case wk_pending w of None \<Rightarrow> PTop | Some command \<Rightarrow> PCommand command)"

lemma pc_run_Suc: "writer_pc_step env s = Some s1 \<Longrightarrow> writer_pc_run env n s1 = r \<Longrightarrow> writer_pc_run env (Suc n) s = r"
  by simp

lemma pc_steps_are_loop:
  assumes "write_batch_loop env w c = Some (going, w', c')" "wk_pending w = None"
  shows "\<exists>n. writer_pc_run env n (PTry held, w, c) = Some (after_batch going w', w'\<lparr>wk_pending := None\<rparr>, drop_buffer held c')"
  using assms
proof (induction env w c arbitrary: w' c' rule: write_batch_loop.induct)
  case (1 env w c)
  obtain r q where t: "try_recv (sc_queue c) = (r, q)" by fastforce
  have keep: "x\<lparr>wk_pending := None\<rparr> = x" if "wk_pending x = None" for x :: worker using that by simp
  consider (data) data where "r = Inr (WData data)" | (cmd) command where "r = Inr command" "\<forall>data. command \<noteq> WData data"
    | (empty) "r = Inl RecvEmpty" | (gone) "r = Inl RecvDisconnected"
  proof (cases r)
    case (Inl e)
    then show ?thesis using empty gone by (cases e) blast+
  next
    case (Inr command)
    then show ?thesis using data cmd by blast
  qed
  then show ?case
  proof cases
    case (data data)
    obtain ok data1 w1 c1 where o: "write_one_stream_buffer env data w (c\<lparr>sc_queue := q\<rparr>) = Some (ok, data1, w1, c1)"
      using 1(2) t data by (subst (asm) write_batch_loop.simps) (auto split: option.splits)
    have p1: "wk_pending w1 = None"
      using o 1(3) by (auto simp: write_one_stream_buffer_def Let_def release_file_writer_def split: option.splits sum.splits)
    have s1: "writer_pc_step env (PTry held, w, c) = Some (PNext held data, w, c\<lparr>sc_queue := q\<rparr>)" using t data by (simp add: writer_pc_step_def)
    show ?thesis
    proof (cases ok)
      case True
      have l: "write_batch_loop env w1 (drop_buffer data1 c1) = Some (going, w', c')"
        using 1(2) t data o True by (subst (asm) write_batch_loop.simps) simp
      obtain n where "writer_pc_run env n (PTry held, w1, drop_buffer data1 c1) = Some (after_batch going w', w'\<lparr>wk_pending := None\<rparr>, drop_buffer held c')"
        using 1(1) [of r q "WData data" data "(ok, data1, w1, c1)" ok "(data1, w1, c1)" data1 "(w1, c1)" w1 c1 w' c'] t data o True l p1 by auto
      moreover have "writer_pc_step env (PNext held data, w, c\<lparr>sc_queue := q\<rparr>) = Some (PTry held, w1, drop_buffer data1 c1)"
        using o True by (simp add: writer_pc_step_def)
      ultimately show ?thesis by (intro exI [of _ "Suc (Suc n)"] pc_run_Suc [OF s1] pc_run_Suc) auto
    next
      case False
      have l: "\<not> going" "w' = w1" "c' = drop_buffer data1 c1"
        using 1(2) t data o False by (subst (asm) write_batch_loop.simps, simp)+
      have s2: "writer_pc_step env (PNext held data, w, c\<lparr>sc_queue := q\<rparr>) = Some (PEnded, w1, drop_buffer held (drop_buffer data1 c1))"
        using o False by (simp add: writer_pc_step_def)
      show ?thesis using l keep [OF p1] by (intro exI [of _ "Suc (Suc 0)"] pc_run_Suc [OF s1] pc_run_Suc [OF s2]) (simp add: after_batch_def)
    qed
  next
    case (cmd command)
    have l: "going" "w' = w\<lparr>wk_pending := Some command\<rparr>" "c' = c\<lparr>sc_queue := q\<rparr>"
      using 1(2) t cmd by (subst (asm) write_batch_loop.simps, cases command, simp_all)+
    have s1: "writer_pc_step env (PTry held, w, c) = Some (PCommand command, w, drop_buffer held (c\<lparr>sc_queue := q\<rparr>))"
      using t cmd by (cases command) (simp_all add: writer_pc_step_def)
    show ?thesis using l keep [OF 1(3)] by (intro exI [of _ "Suc 0"] pc_run_Suc [OF s1]) (simp add: after_batch_def)
  next
    case empty
    let ?c = "set_write_backpressure_active False (set_write_backpressure_active False (c\<lparr>sc_queue := q\<rparr>))"
    have l: "going" "w' = w" "c' = ?c"
      using 1(2,3) t empty by (subst (asm) write_batch_loop.simps, simp add: Let_def)+
    have s1: "writer_pc_step env (PTry held, w, c) = Some (PClear held, w, c\<lparr>sc_queue := q\<rparr>)" using t empty by (simp add: writer_pc_step_def)
    have s2: "writer_pc_step env (PClear held, w, c\<lparr>sc_queue := q\<rparr>) = Some (PTop, w, drop_buffer held ?c)" by (simp add: writer_pc_step_def)
    show ?thesis using l 1(3) keep [OF 1(3)] by (intro exI [of _ "Suc (Suc 0)"] pc_run_Suc [OF s1] pc_run_Suc [OF s2]) (simp add: after_batch_def)
  next
    case gone
    let ?c = "connection_lost env None (set_write_backpressure_active False (c\<lparr>sc_queue := q\<rparr>))"
    have l: "\<not> going" "w' = release_file_writer w" "c' = ?c" using 1(2) t gone by (subst (asm) write_batch_loop.simps, simp)+
    have s1: "writer_pc_step env (PTry held, w, c) = Some (PEnded, release_file_writer w, drop_buffer held ?c)" using t gone by (simp add: writer_pc_step_def)
    have "(release_file_writer w)\<lparr>wk_pending := None\<rparr> = release_file_writer w" using 1(3) by (intro keep) simp
    then show ?thesis using l by (intro exI [of _ "Suc 0"] pc_run_Suc [OF s1]) (simp add: after_batch_def)
  qed
qed

lemma pc_steps_are_batch:
  assumes "write_stream_data_batch env data w c = Some (going, w', c')" "wk_pending w = None"
  shows "\<exists>n. writer_pc_run env n (PCommand (WData data), w, c) = Some (after_batch going w', w'\<lparr>wk_pending := None\<rparr>, c')"
proof -
  obtain ok data1 w1 c1 where o: "write_one_stream_buffer env data w c = Some (ok, data1, w1, c1)"
    using assms(1) by (cases "write_one_stream_buffer env data w c") (auto simp: write_stream_data_batch_def)
  have p1: "wk_pending w1 = None"
    using o assms(2) by (auto simp: write_one_stream_buffer_def Let_def release_file_writer_def split: option.splits sum.splits)
  show ?thesis
  proof (cases ok)
    case True
    obtain c2 where l: "write_batch_loop env w1 c1 = Some (going, w', c2)" "c' = drop_buffer data1 c2"
      using assms(1) o True by (cases "write_batch_loop env w1 c1") (auto simp: write_stream_data_batch_def)
    obtain n where "writer_pc_run env n (PTry data1, w1, c1) = Some (after_batch going w', w'\<lparr>wk_pending := None\<rparr>, c')"
      using pc_steps_are_loop [OF l(1) p1, of data1] l(2) by auto
    then show ?thesis using o True by (intro exI [of _ "Suc n"] pc_run_Suc) (auto simp: writer_pc_step_def)
  next
    case False
    then show ?thesis
      using assms(1) o p1 by (intro exI [of _ "Suc 0"]) (auto simp: write_stream_data_batch_def writer_pc_step_def after_batch_def)
  qed
qed

text \<open>The states of the execution below.\<close>

definition demo_core :: "writer_command list \<Rightarrow> bytes \<Rightarrow> bool \<Rightarrow> nat \<Rightarrow> bool \<Rightarrow> stream_core" where
  "demo_core commands wire backpressure buffered lazy_writer =
     (let s = (stream_transport_state_parts demo_config)\<lparr>st_writer_registered := backpressure, st_write_buffer := write_buffer_default\<lparr>wb_size := buffered\<rparr>\<rparr>
      in (new_stream_transport_core s True lazy_writer False False)
           \<lparr>sc_queue := queue_new\<lparr>q_commands := commands\<rparr>, sc_wire := wire, sc_workers := of_bool (\<not> lazy_writer)\<rparr>)"

lemmas demo_core_defs = demo_core_def demo_env_def demo_config_def new_stream_transport_core_def stream_transport_state_parts_def
  write_buffer_default_def sm_new_def sc_update_def sm_update_def sg_drop_def sg_publish_def sg_deref_mut_def sm_lock_def stream_flags_def
  queue_new_def pool_state_new_def vec_empty_def from_python_def advance_def ob_len_def remaining_def ob_source_def
  DEFAULT_WRITE_BUFFER_HIGH_WATER_def DEFAULT_WRITE_BUFFER_LOW_WATER_def Let_def

lemmas demo_write_defs = write_data_def write_status_def try_write_bytes_with_status_def should_coalesce_small_write_def
  is_write_batch_candidate_def SMALL_WRITE_COALESCE_MIN_BYTES_def after_direct_def try_direct_tasked_write_def kernel_write_def
  io_err_def is_transient_write_backpressure_def is_no_buffer_space_code_def queue_write_def record_write_buffer_enqueued_def
  enqueue_write_buffer_def ensure_writer_worker_def writer_tx_send_def writer_send_def enqueue_def join_last_def
  set_write_backpressure_active_def drop_buffer_def write_buffer_drop_def

lemmas demo_worker_defs = writer_pc_step_def worker_new_def recv_def try_recv_def try_dequeue_def write_one_stream_buffer_def sent_def
  record_write_buffer_drained_def worker_env_def drain_write_buffer_def drop_buffer_def write_buffer_drop_def set_write_backpressure_active_def

abbreviation sending :: "bytes \<Rightarrow> writer_command" where
  "sending d \<equiv> WData (from_python d)"

lemma demo_blocked: "write_data demo_env [1] (demo_core [] [] False 0 True) = Some (Inr (), demo_core [sending [1]] [] True 1 False)"
  by (simp add: demo_core_defs demo_write_defs)

lemma demo_queued: "write_data demo_env [2] (demo_core [] [1] True 0 False) = Some (Inr (), demo_core [sending [2]] [1] True 1 False)"
  by (simp add: demo_core_defs demo_write_defs)

lemma demo_direct:
  "write_data demo_env [3] (demo_core [sending [2]] [1] False 1 False) = Some (Inr (), demo_core [sending [2]] [1, 3] False 1 False)"
  by (simp add: demo_core_defs demo_write_defs)

lemma demo_receive:
  "writer_pc_step demo_env (PTop, worker_new WTcp, demo_core [sending d] wire bp n False)
    = Some (PCommand (sending d), worker_new WTcp, demo_core [] wire bp n False)"
  by (simp add: demo_core_defs demo_worker_defs)

lemma demo_send:
  "writer_pc_step demo_env (PCommand (sending [b]), worker_new WTcp, demo_core [] wire bp 1 False)
    = Some (PTry (advance 1 (from_python [b])), worker_new WTcp, demo_core [] (wire @ [b]) bp 0 False)"
  by (simp add: demo_core_defs demo_worker_defs)

lemma demo_empty:
  "writer_pc_step demo_env (PTry (advance 1 (from_python [b])), worker_new WTcp, demo_core [] wire bp n False)
    = Some (PClear (advance 1 (from_python [b])), worker_new WTcp, demo_core [] wire bp n False)"
  by (simp add: demo_core_defs demo_worker_defs)

lemma demo_clear:
  "writer_pc_step demo_env (PClear (advance 1 (from_python [b])), worker_new WTcp, demo_core [sending [2]] [1] True 1 False)
    = Some (PTop, worker_new WTcp, demo_core [sending [2]] [1] False 1 False)"
  by (simp add: demo_core_defs demo_worker_defs)

lemma demo_start: "tp_core (transport_new demo_config True True False False WTcp) = demo_core [] [] False 0 True"
  by (simp add: transport_new_def demo_core_defs)

lemma demo_core_simps: "sc_wire (demo_core q wire bp n lz) = wire" "is_closing (demo_core q wire bp n lz) \<longleftrightarrow> False"
  by (simp_all add: is_closing_def demo_core_defs)

text \<open>C34. A write can overtake an earlier one. The worker finds the queue empty and clears the backpressure
  flag in two accesses; a write in between is queued (the flag is still set), the flag is then cleared
  with that data in the queue, and the next write goes straight to the socket. All three writes are
  accepted, in the order 1, 2, 3; the connection gets 1, 3, 2, and stays open.\<close>

theorem queued_write_is_overtaken:
  "do {
     let c0 = tp_core (transport_new demo_config True True False False WTcp);
     (r1, c1) \<leftarrow> write_data demo_env [1] c0;
     (pc2, w2, c2) \<leftarrow> writer_pc_run demo_env 3 (PTop, worker_new WTcp, c1);
     (r2, c3) \<leftarrow> write_data demo_env [2] c2;
     (pc4, w4, c4) \<leftarrow> writer_pc_run demo_env 1 (pc2, w2, c3);
     (r3, c5) \<leftarrow> write_data demo_env [3] c4;
     (pc6, w6, c6) \<leftarrow> writer_pc_run demo_env 2 (pc4, w4, c5);
     Some ([r1, r2, r3], sc_wire c6, is_closing c6)
   } = Some ([Inr (), Inr (), Inr ()], [1, 3, 2], False)"
  using demo_blocked demo_queued demo_direct demo_receive demo_send demo_empty demo_clear
  by (simp add: demo_start demo_core_simps numeral_3_eq_3 numeral_2_eq_2)

end
