(* ===== verification/Read_Events.thy ===== *)
theory Read_Events
  imports Write_Path
begin

section \<open>Delivering read events (transport/stream/core\_events.rs, core\_protocol.rs)\<close>

text \<open>
  The drain of the pending read events on the loop's thread: data is joined into larger chunks, handed to
  the protocol or to its stream reader, and everything else is delivered behind the data that came
  before it. The protocol is a parameter: each callback takes the transport's state, may change it
  (it may call the transport), and returns or raises; the exception is a string. The calls are recorded
  in \<open>sc_calls\<close>. While a drain runs it holds the lock of the drain queue, which is its local variable.
\<close>

definition MAX_PENDING_READ_COALESCE_BYTES :: nat where "MAX_PENDING_READ_COALESCE_BYTES = 256 * 1024"
definition MAX_READ_EVENTS_PER_DRAIN :: nat where "MAX_READ_EVENTS_PER_DRAIN = 16"
definition MAX_READ_BYTES_PER_DRAIN :: nat where "MAX_READ_BYTES_PER_DRAIN = 128 * 1024"

type_synonym 'a call = "stream_core \<Rightarrow> (string + 'a) \<times> stream_core"

record protocol_env =
  pr_fast :: bool
  pr_feed :: "vec \<Rightarrow> unit call"
  pr_feed_slice :: "bytes \<Rightarrow> unit call"
  pr_fast_eof :: "bool call"
  pr_fast_lost :: "string option \<Rightarrow> unit call"
  pr_data_received :: "(bytes \<Rightarrow> unit call) option"
  pr_get_buffer :: "(nat \<Rightarrow> nat call) option"
  pr_buffer_updated :: "(nat \<Rightarrow> unit call) option"
  pr_eof_received :: "bool call option"
  pr_connection_lost :: "string option \<Rightarrow> unit call"
  pr_pause_writing :: "unit call"
  pr_resume_writing :: "unit call"
  pr_handler :: "string \<Rightarrow> unit call"
  pr_server_lost :: "stream_core \<Rightarrow> stream_core"

definition log_call :: "protocol_call \<Rightarrow> stream_core \<Rightarrow> stream_core" where
  "log_call call c = c\<lparr>sc_calls := sc_calls c @ [call]\<rparr>"

subsection \<open>Calling the protocol\<close>

text \<open>
  A buffered protocol: \<open>get_buffer\<close> answers with the size of the buffer it exports, into which as much as
  fits is copied.
\<close>

function buffered_receive :: "(nat \<Rightarrow> nat call) \<Rightarrow> (nat \<Rightarrow> unit call) \<Rightarrow> bytes \<Rightarrow> unit call" where
  "buffered_receive get_buffer buffer_updated data c =
     (if data = [] then (Inr (), c)
      else
        (case get_buffer (length data) c of
           (Inl err, c1) \<Rightarrow> (Inl err, c1)
         | (Inr view_len, c1) \<Rightarrow>
             if view_len = 0 then (Inl ''get_buffer() returned an empty buffer'', c1)
             else
               let chunk_len = min (length data) view_len
               in (case buffer_updated chunk_len (log_call (CData (take chunk_len data)) c1) of
                     (Inl err, c2) \<Rightarrow> (Inl err, c2)
                   | (Inr _, c2) \<Rightarrow> buffered_receive get_buffer buffer_updated (drop chunk_len data) c2)))"
  by pat_completeness auto

termination
  by (relation "measure (\<lambda>(_, _, data, _). length data)") auto

declare buffered_receive.simps [simp del]

definition data_received_slow_path :: "protocol_env \<Rightarrow> bytes \<Rightarrow> unit call" where
  "data_received_slow_path pr data c =
     (if \<not> sc_callbacks c then (Inr (), c)
      else
        (case (pr_get_buffer pr, pr_buffer_updated pr) of
           (Some get_buffer, Some buffer_updated) \<Rightarrow> buffered_receive get_buffer buffer_updated data c
         | _ \<Rightarrow>
             (case pr_data_received pr of
                Some data_received \<Rightarrow> data_received data (log_call (CData data) c)
              | None \<Rightarrow> (Inr (), c))))"

definition report_error_with_py :: "protocol_env \<Rightarrow> string \<Rightarrow> unit call" where
  "report_error_with_py pr err c = pr_handler pr err c"

text \<open>Once the callbacks are cleared, pausing and resuming call Python's \<open>None\<close>.\<close>

definition pause_writing_with_py :: "protocol_env \<Rightarrow> unit call" where
  "pause_writing_with_py pr c =
     (case (if sc_callbacks c then pr_pause_writing pr (log_call CPause c) else (Inl ''TypeError'', c)) of
        (Inl err, c1) \<Rightarrow> report_error_with_py pr err c1
      | (Inr _, c1) \<Rightarrow> (Inr (), c1))"

definition resume_writing_with_py :: "protocol_env \<Rightarrow> unit call" where
  "resume_writing_with_py pr c =
     (case (if sc_callbacks c then pr_resume_writing pr (log_call CResume c) else (Inl ''TypeError'', c)) of
        (Inl err, c1) \<Rightarrow> report_error_with_py pr err c1
      | (Inr _, c1) \<Rightarrow> (Inr (), c1))"

definition eof_received_with_py :: "protocol_env \<Rightarrow> bool call" where
  "eof_received_with_py pr c =
     (if \<not> sc_callbacks c then (Inr False, c)
      else if pr_fast pr then pr_fast_eof pr (log_call CEof c)
      else
        (case pr_eof_received pr of
           None \<Rightarrow> (Inr False, c)
         | Some callback \<Rightarrow> callback (log_call CEof c)))"

definition connection_lost_with_py :: "protocol_env \<Rightarrow> string option \<Rightarrow> unit call" where
  "connection_lost_with_py pr exc c =
     (if sc_detached c then (Inr (), sc_update (\<lambda>s. s\<lparr>st_lost_called := True\<rparr>) c)
      else if st_lost_called (sc_st c) then (Inr (), c)
      else
        let c1 = sc_update (\<lambda>s. s\<lparr>st_lost_called := True, st_closing := True,
                   st_write_buffer := (st_write_buffer s)\<lparr>wb_size := 0, wb_protocol_paused := False\<rparr>\<rparr>) c;
            (result, c2) =
              (if \<not> sc_callbacks c then (Inl ''TypeError'', c1)
               else if pr_fast pr then pr_fast_lost pr exc (log_call (CLost exc) c1)
               else pr_connection_lost pr exc (log_call (CLost exc) c1));
            c3 = pr_server_lost pr (release_direct_writer c2)
        in (result, c3\<lparr>sc_callbacks := False\<rparr>))"

subsection \<open>The drain\<close>

definition can_coalesce_read_data :: "nat \<Rightarrow> nat \<Rightarrow> nat \<Rightarrow> bool" where
  "can_coalesce_read_data current incoming limit \<longleftrightarrow> incoming \<le> limit - current"

definition read_drain_budget_reached :: "nat \<Rightarrow> nat \<Rightarrow> nat \<Rightarrow> nat \<Rightarrow> bool" where
  "read_drain_budget_reached drained_events drained_bytes event_budget byte_budget \<longleftrightarrow>
     drained_events \<ge> event_budget \<or> drained_bytes \<ge> byte_budget"

text \<open>Dropping the joined data; the drain is the only user of the coalescing buffer.\<close>

definition drop_pending_data :: "pending_read_buffer \<Rightarrow> stream_core \<Rightarrow> stream_core" where
  "drop_pending_data data c =
     (case pb_drop True data (sc_coalesce c, sc_read_pool c) of (home, pool) \<Rightarrow> c\<lparr>sc_coalesce := home, sc_read_pool := pool\<rparr>)"

definition extend_pending_data :: "stream_env \<Rightarrow> bytes \<Rightarrow> pending_read_buffer \<Rightarrow> stream_core \<Rightarrow> pending_read_buffer \<times> stream_core" where
  "extend_pending_data env d data c =
     (case pb_extend (te_grow env) d data (sc_coalesce c, sc_read_pool c) of
        (data1, home, pool) \<Rightarrow> (data1, c\<lparr>sc_coalesce := home, sc_read_pool := pool\<rparr>))"

definition flush_pending_data_with_py :: "protocol_env \<Rightarrow> bool \<Rightarrow> pending_read_buffer option \<Rightarrow> unit call" where
  "flush_pending_data_with_py pr fast pending_data c =
     (case pending_data of
        None \<Rightarrow> (Inr (), c)
      | Some data \<Rightarrow>
          (case (if is_closing_or_lost c then (Inr (), c)
                 else if fast then pr_feed_slice pr (vec_data (pb_bytes data)) (log_call (CData (vec_data (pb_bytes data))) c)
                 else data_received_slow_path pr (vec_data (pb_bytes data)) c) of
             (r, c1) \<Rightarrow> (r, drop_pending_data data c1)))"

text \<open>A failed delivery: the error goes to the exception handler and the connection is lost.\<close>

definition abandon_reads :: "protocol_env \<Rightarrow> string \<Rightarrow> stream_core \<Rightarrow> stream_core" where
  "abandon_reads pr err c =
     (let c1 = snd (report_error_with_py pr err c); c2 = snd (connection_lost_with_py pr None c1)
      in c2\<lparr>sc_read_scheduled := False\<rparr>)"

text \<open>The rest of the drain queue goes back in front of what has arrived.\<close>

definition reschedule_pending_read_events ::
    "stream_env \<Rightarrow> pending_read_event list \<Rightarrow> stream_core \<Rightarrow> bool \<times> pending_read_event list \<times> stream_core" where
  "reschedule_pending_read_events env drained c =
     (if drained = [] \<and> sc_events c = [] then (False, drained, c)
      else
        let c1 = c\<lparr>sc_events := drained @ sc_events c\<rparr>
        in (True, [], if te_loop_send env c1 then c1\<lparr>sc_commands := sc_commands c1 @ [MStreamRead]\<rparr> else c1))"

text \<open>What one event does: go on with the joined data, or return from the drain.\<close>

datatype drain_flow = DGoOn "pending_read_buffer option" | DReturn "string + unit" "pending_read_event list"

definition close_writer :: "stream_env \<Rightarrow> stream_core \<Rightarrow> stream_core" where
  "close_writer env c = (case writer_tx_send env WClose c of Some (_, c1) \<Rightarrow> c1 | None \<Rightarrow> c)"

text \<open>Data: to the stream reader at once, or joined to what is pending.\<close>

definition drain_data ::
    "stream_env \<Rightarrow> protocol_env \<Rightarrow> bool \<Rightarrow> vec \<Rightarrow> pending_read_event list \<Rightarrow> pending_read_buffer option \<Rightarrow> stream_core \<Rightarrow> drain_flow \<times> stream_core" where
  "drain_data env pr fast data rest pending c =
     (if fast then
        (case pr_feed pr data (log_call (CData (vec_data data)) c) of
           (Inr _, c1) \<Rightarrow> (DGoOn pending, c1)
         | (Inl err, c1) \<Rightarrow> (DReturn (Inr ()) rest, abandon_reads pr err c1))
      else
        (case pending of
           None \<Rightarrow> (DGoOn (Some (pb_from_pooled data)), c)
         | Some buffer \<Rightarrow>
             if can_coalesce_read_data (length (vec_data (pb_bytes buffer))) (length (vec_data data)) MAX_PENDING_READ_COALESCE_BYTES
             then
               (case extend_pending_data env (vec_data data) buffer c of
                  (buffer1, c1) \<Rightarrow> (DGoOn (Some buffer1), c1\<lparr>sc_read_pool := snd (rb_release data (sc_read_pool c1))\<rparr>))
             else
               (case flush_pending_data_with_py pr fast pending c of
                  (Inl err, c1) \<Rightarrow> (DReturn (Inr ()) rest, abandon_reads pr err c1)
                | (Inr _, c1) \<Rightarrow> (DGoOn (Some (pb_from_pooled data)), c1))))"

definition drain_eof :: "stream_env \<Rightarrow> protocol_env \<Rightarrow> pending_read_event list \<Rightarrow> stream_core \<Rightarrow> drain_flow \<times> stream_core" where
  "drain_eof env pr rest c =
     (case eof_received_with_py pr c of
        (Inr True, c1) \<Rightarrow> (DGoOn None, c1)
      | (Inr False, c1) \<Rightarrow>
          (DReturn (Inr ()) rest,
           (snd (connection_lost_with_py pr None (close_writer env (set_closing c1))))\<lparr>sc_read_scheduled := False\<rparr>)
      | (Inl err, c1) \<Rightarrow> (DReturn (Inr ()) rest, abandon_reads pr err c1))"

text \<open>Every other event first delivers the joined data.\<close>

definition drain_control ::
    "stream_env \<Rightarrow> protocol_env \<Rightarrow> bool \<Rightarrow> pending_read_event \<Rightarrow> pending_read_event list \<Rightarrow> pending_read_buffer option \<Rightarrow> stream_core
      \<Rightarrow> drain_flow \<times> stream_core" where
  "drain_control env pr fast event rest pending c =
     (case flush_pending_data_with_py pr fast pending c of
        (Inl err, c1) \<Rightarrow> (DReturn (Inr ()) rest, abandon_reads pr err c1)
      | (Inr _, c1) \<Rightarrow>
          (case event of
             EEof \<Rightarrow> drain_eof env pr rest c1
           | ELost message \<Rightarrow>
               (DReturn (Inr ()) rest, (snd (connection_lost_with_py pr message c1))\<lparr>sc_read_scheduled := False\<rparr>)
           | EPause \<Rightarrow>
               (case pause_writing_with_py pr c1 of
                  (Inr _, c2) \<Rightarrow> (DGoOn None, c2)
                | (Inl err, c2) \<Rightarrow> (DReturn (Inl err) rest, c2))
           | EResume \<Rightarrow>
               (case resume_writing_with_py pr c1 of
                  (Inr _, c2) \<Rightarrow> (DGoOn None, c2)
                | (Inl err, c2) \<Rightarrow> (DReturn (Inl err) rest, c2))
           | EData _ \<Rightarrow> (DGoOn None, c1)))"

text \<open>The budget: a data event that reaches it returns the rest to the queue, delivers, and ends the drain.\<close>

definition drain_budget ::
    "stream_env \<Rightarrow> protocol_env \<Rightarrow> bool \<Rightarrow> nat \<Rightarrow> nat \<Rightarrow> pending_read_event list \<Rightarrow> drain_flow \<times> stream_core \<Rightarrow> drain_flow \<times> stream_core" where
  "drain_budget env pr fast drained_events drained_bytes rest s =
     (case s of
        (DGoOn pending, c) \<Rightarrow>
          if read_drain_budget_reached drained_events drained_bytes MAX_READ_EVENTS_PER_DRAIN MAX_READ_BYTES_PER_DRAIN
          then
            (case reschedule_pending_read_events env rest c of
               (True, rest1, c1) \<Rightarrow>
                 (case flush_pending_data_with_py pr fast pending c1 of (r, c2) \<Rightarrow> (DReturn r rest1, c2))
             | (False, _, c1) \<Rightarrow> (DGoOn pending, c1))
          else (DGoOn pending, c)
      | _ \<Rightarrow> s)"

text \<open>The inner loop; it leaves the counters for the next round.\<close>

fun drain_events ::
    "stream_env \<Rightarrow> protocol_env \<Rightarrow> bool \<Rightarrow> pending_read_event list \<Rightarrow> pending_read_buffer option \<Rightarrow> nat \<Rightarrow> nat \<Rightarrow> stream_core
      \<Rightarrow> (drain_flow \<times> stream_core) \<times> nat \<times> nat" where
  "drain_events env pr fast [] pending ne nb c = ((DGoOn pending, c), ne, nb)"
| "drain_events env pr fast (event # rest) pending ne nb c =
     (case event of
        EData data \<Rightarrow>
          let n = length (vec_data data);
              c1 = record_pending_read_drained n c;
              s = drain_budget env pr fast (ne + 1) (nb + n) rest (drain_data env pr fast data rest pending c1)
          in (case s of
                (DGoOn pending1, c2) \<Rightarrow> drain_events env pr fast rest pending1 (ne + 1) (nb + n) c2
              | (DReturn r rest1, c2) \<Rightarrow> (s, ne + 1, nb + n))
      | _ \<Rightarrow>
          (case drain_control env pr fast event rest pending c of
             (DGoOn pending1, c2) \<Rightarrow> drain_events env pr fast rest pending1 ne nb c2
           | s \<Rightarrow> (s, ne, nb)))"

text \<open>
  The outer loop swaps the two queues until there is nothing left; \<open>None\<close> when events keep coming for
  ever. The first swap hands back what a failed drain left behind.
\<close>

partial_function (option) drain_rounds ::
    "stream_env \<Rightarrow> protocol_env \<Rightarrow> bool \<Rightarrow> pending_read_event list \<Rightarrow> nat \<Rightarrow> nat \<Rightarrow> stream_core \<Rightarrow> ((string + unit) \<times> stream_core) option" where
  "drain_rounds env pr fast leftover ne nb c =
     (if sc_events c = [] then Some (Inr (), c\<lparr>sc_read_scheduled := False, sc_drain := leftover\<rparr>)
      else
        (case drain_events env pr fast (sc_events c) None ne nb (c\<lparr>sc_events := leftover\<rparr>) of
           ((DReturn r rest, c1), _, _) \<Rightarrow> Some (r, c1\<lparr>sc_drain := rest\<rparr>)
         | ((DGoOn pending, c1), ne1, nb1) \<Rightarrow>
             (case flush_pending_data_with_py pr fast pending c1 of
                (Inl err, c2) \<Rightarrow> Some (Inr (), (abandon_reads pr err c2)\<lparr>sc_drain := []\<rparr>)
              | (Inr _, c2) \<Rightarrow> drain_rounds env pr fast [] ne1 nb1 c2)))"

definition drain_pending_read_events_with_py :: "stream_env \<Rightarrow> protocol_env \<Rightarrow> stream_core \<Rightarrow> ((string + unit) \<times> stream_core) option" where
  "drain_pending_read_events_with_py env pr c =
     drain_rounds env pr (pr_fast pr \<and> sc_callbacks c) (sc_drain c) 0 0 (c\<lparr>sc_drain := []\<rparr>)"

subsection \<open>What the protocol is told\<close>

definition data_of :: "pending_read_event list \<Rightarrow> bytes" where
  "data_of events = concat (map (\<lambda>e. case e of EData v \<Rightarrow> vec_data v | _ \<Rightarrow> []) events)"

definition received :: "stream_core \<Rightarrow> bytes" where
  "received c = concat (map (\<lambda>call. case call of CData d \<Rightarrow> d | _ \<Rightarrow> []) (sc_calls c))"

definition call_kind :: "protocol_call \<Rightarrow> read_event_kind" where
  "call_kind call = (case call of CData _ \<Rightarrow> KData | CEof \<Rightarrow> KEof | CLost _ \<Rightarrow> KLost | CPause \<Rightarrow> KPause | CResume \<Rightarrow> KResume)"

text \<open>Calls and events obey the same automaton: no data after end of file, nothing after the loss.\<close>

fun gate_run :: "nat \<Rightarrow> read_event_kind list \<Rightarrow> nat option" where
  "gate_run s [] = Some s"
| "gate_run s (k # ks) = Option.bind (transition_read_event_state s k) (\<lambda>s1. gate_run s1 ks)"

definition call_state :: "stream_core \<Rightarrow> nat option" where
  "call_state c = gate_run READ_EVENT_OPEN (map call_kind (sc_calls c))"

definition read_commands :: "stream_core \<Rightarrow> nat" where
  "read_commands c = length (filter (\<lambda>m. m = MStreamRead) (sc_commands c))"

abbreviation lost :: "stream_core \<Rightarrow> bool" where
  "lost c \<equiv> st_lost_called (sc_st c)"

text \<open>
  What is assumed of a callback: it leaves the read side of the transport alone, except that it may
  close or abort the transport, which sets the closing flag and may queue the loss of the connection.
\<close>

definition events_grow :: "stream_core \<Rightarrow> stream_core \<Rightarrow> bool" where
  "events_grow c c' \<longleftrightarrow> sc_events c' = sc_events c \<and> sc_event_state c' = sc_event_state c
     \<or> (\<exists>x. sc_events c' = sc_events c @ [ELost x]) \<and> sc_event_state c \<noteq> READ_EVENT_LOST \<and> sc_event_state c' = READ_EVENT_LOST"

definition call_effect :: "stream_core \<Rightarrow> stream_core \<Rightarrow> bool" where
  "call_effect c c' \<longleftrightarrow> sc_calls c' = sc_calls c \<and> sc_callbacks c' = sc_callbacks c \<and> sc_detached c' = sc_detached c
     \<and> sc_pending_read_bytes c' = sc_pending_read_bytes c \<and> lost c' = lost c
     \<and> (st_closing (sc_st c) \<longrightarrow> st_closing (sc_st c')) \<and> (sc_coherent c \<longrightarrow> sc_coherent c')
     \<and> (sc_read_scheduled c \<longrightarrow> sc_read_scheduled c' \<and> read_commands c' = read_commands c)
     \<and> events_grow c c'"

definition quiet_protocol :: "protocol_env \<Rightarrow> bool" where
  "quiet_protocol pr \<longleftrightarrow>
     (\<forall>c v. call_effect c (snd (pr_feed pr v c))) \<and> (\<forall>c. call_effect c (snd (pr_fast_eof pr c)))
     \<and> (\<forall>c x. call_effect c (snd (pr_fast_lost pr x c)))
     \<and> (\<forall>f c d. pr_data_received pr = Some f \<longrightarrow> call_effect c (snd (f d c)))
     \<and> (\<forall>f c n. pr_get_buffer pr = Some f \<longrightarrow> call_effect c (snd (f n c)))
     \<and> (\<forall>f c n. pr_buffer_updated pr = Some f \<longrightarrow> call_effect c (snd (f n c)))
     \<and> (\<forall>f c. pr_eof_received pr = Some f \<longrightarrow> call_effect c (snd (f c)))
     \<and> (\<forall>c x. call_effect c (snd (pr_connection_lost pr x c)))
     \<and> (\<forall>c. call_effect c (snd (pr_pause_writing pr c))) \<and> (\<forall>c. call_effect c (snd (pr_resume_writing pr c)))
     \<and> (\<forall>c e. call_effect c (snd (pr_handler pr e c)) \<and> fst (pr_handler pr e c) = Inr ())
     \<and> (\<forall>c. call_effect c (pr_server_lost pr c))"

text \<open>A protocol that takes what it is given; a buffered one must not raise in the middle of a chunk.\<close>

definition takes_data :: "protocol_env \<Rightarrow> bool" where
  "takes_data pr \<longleftrightarrow> pr_fast pr \<or>
     (case (pr_get_buffer pr, pr_buffer_updated pr) of
        (Some get_buffer, Some buffer_updated) \<Rightarrow>
          (\<forall>n c. \<exists>k. fst (get_buffer n c) = Inr (Suc k)) \<and> (\<forall>n c. fst (buffer_updated n c) = Inr ())
      | _ \<Rightarrow> pr_data_received pr \<noteq> None)"

lemma data_of_simps [simp]:
  "data_of [] = []" "data_of (EData v # es) = vec_data v @ data_of es" "data_of (a @ b) = data_of a @ data_of b"
  "data_of (EEof # es) = data_of es" "data_of (ELost x # es) = data_of es" "data_of (EPause # es) = data_of es" "data_of (EResume # es) = data_of es"
  by (simp_all add: data_of_def)

lemma gate_run_append: "gate_run s (a @ b) = Option.bind (gate_run s a) (\<lambda>s1. gate_run s1 b)"
  by (induction a arbitrary: s) (simp_all split: Option.bind_split)

lemma log_call_simps [simp]:
  "sc_calls (log_call x c) = sc_calls c @ [x]" "sc_state (log_call x c) = sc_state c" "sc_events (log_call x c) = sc_events c"
  "sc_event_state (log_call x c) = sc_event_state c" "sc_callbacks (log_call x c) = sc_callbacks c" "sc_detached (log_call x c) = sc_detached c"
  "sc_pending_read_bytes (log_call x c) = sc_pending_read_bytes c" "sc_read_scheduled (log_call x c) = sc_read_scheduled c"
  "read_commands (log_call x c) = read_commands c" "received (log_call (CData d) c) = received c @ d"
  "received (log_call CEof c) = received c" "received (log_call (CLost m) c) = received c" "received (log_call CPause c) = received c"
  "received (log_call CResume c) = received c"
  "call_state (log_call x c) = Option.bind (call_state c) (\<lambda>s. transition_read_event_state s (call_kind x))"
  by (simp_all add: log_call_def received_def call_state_def read_commands_def gate_run_append split: Option.bind_split)

lemma events_grow_refl [simp]: "events_grow c c"
  by (simp add: events_grow_def)

lemma events_grow_trans: "events_grow a b \<Longrightarrow> events_grow b c \<Longrightarrow> events_grow a c"
  by (auto simp: events_grow_def)

lemma call_effect_refl [simp]: "call_effect c c"
  by (simp add: call_effect_def)

lemma call_effect_trans:
  assumes "call_effect a b" "call_effect b c"
  shows "call_effect a c"
proof -
  have "events_grow a c" using assms events_grow_trans unfolding call_effect_def by blast
  then show ?thesis using assms unfolding call_effect_def by simp
qed

subsection \<open>The state inside a drain\<close>

text \<open>
  \<open>shape\<close>: the counters, and that the calls made so far followed by what is still queued is a run of the
  automaton. \<open>exact\<close>: the bytes the protocol has got, those joined and those queued are all that was
  accepted. \<open>dropped\<close>: the connection is closing (for a stream reader: lost) and the rest is not delivered.
\<close>

definition shape :: "pending_read_event list \<Rightarrow> bool \<Rightarrow> stream_core \<Rightarrow> bool" where
  "shape drained joined c \<longleftrightarrow> sc_coherent c \<and> \<not> sc_detached c
     \<and> sc_pending_read_bytes c = length (data_of drained) + length (data_of (sc_events c))
     \<and> sc_callbacks c = (\<not> lost c) \<and> (lost c \<longrightarrow> st_closing (sc_st c) \<and> call_state c = Some READ_EVENT_LOST)
     \<and> (\<not> lost c \<longrightarrow> (\<exists>s. call_state c = Some s \<and> s \<noteq> READ_EVENT_LOST \<and> (joined \<longrightarrow> s = READ_EVENT_OPEN)
          \<and> gate_run s (map read_event_kind (drained @ sc_events c)) = Some (sc_event_state c)))"

definition exact :: "bytes \<Rightarrow> pending_read_event list \<Rightarrow> bytes \<Rightarrow> stream_core \<Rightarrow> bool" where
  "exact acc drained joined c \<longleftrightarrow> received c @ joined @ data_of drained @ data_of (sc_events c) = acc"

definition dropped :: "bytes \<Rightarrow> bool \<Rightarrow> stream_core \<Rightarrow> bool" where
  "dropped acc slow c \<longleftrightarrow> prefix (received c) acc \<and> (lost c \<or> slow \<and> st_closing (sc_st c))"

text \<open>\<open>p\<close> are the joined bytes, if any; \<open>n\<close> is the number of drain commands on their way.\<close>

definition opt_bytes :: "bytes option \<Rightarrow> bytes" where
  "opt_bytes p = (case p of None \<Rightarrow> [] | Some d \<Rightarrow> d)"

definition draining :: "nat \<Rightarrow> bytes \<Rightarrow> bool \<Rightarrow> pending_read_event list \<Rightarrow> bytes option \<Rightarrow> stream_core \<Rightarrow> bool" where
  "draining n acc slow drained p c \<longleftrightarrow> shape drained (p \<noteq> None) c \<and> sc_read_scheduled c \<and> read_commands c = n
     \<and> (exact acc drained (opt_bytes p) c \<or> dropped acc slow c)"

lemma opt_bytes_simps [simp]: "opt_bytes None = []" "opt_bytes (Some d) = d"
  by (simp_all add: opt_bytes_def)

lemma call_effect_bytes:
  assumes "call_effect c c'"
  shows "received c' = received c" "data_of (sc_events c') = data_of (sc_events c)" "call_state c' = call_state c"
  using assms by (auto simp: call_effect_def events_grow_def received_def call_state_def)

lemma gate_run_grow:
  assumes "events_grow c c'" "gate_run s (map read_event_kind (drained @ sc_events c)) = Some (sc_event_state c)"
  shows "gate_run s (map read_event_kind (drained @ sc_events c')) = Some (sc_event_state c')"
  using assms(1)
proof (cases "sc_events c' = sc_events c \<and> sc_event_state c' = sc_event_state c")
  case False
  then obtain x where "sc_events c' = sc_events c @ [ELost x]" "sc_event_state c \<noteq> READ_EVENT_LOST" "sc_event_state c' = READ_EVENT_LOST"
    using assms(1) by (auto simp: events_grow_def)
  moreover have "gate_run s (map read_event_kind ((drained @ sc_events c) @ [ELost x])) = Some READ_EVENT_LOST" if "sc_event_state c \<noteq> READ_EVENT_LOST"
    using assms(2) that unfolding map_append [of _ "drained @ sc_events c"] gate_run_append [of s "map read_event_kind (drained @ sc_events c)"]
    by (simp add: read_event_kind_def transition_read_event_state_def)
  ultimately show ?thesis by simp
qed (use assms(2) in simp)

lemma shape_call:
  assumes "shape drained j c" "call_effect c c'"
  shows "shape drained j c'"
proof -
  have e: "sc_callbacks c' = sc_callbacks c" "sc_detached c' = sc_detached c" "sc_pending_read_bytes c' = sc_pending_read_bytes c" "lost c' = lost c"
    "st_closing (sc_st c) \<longrightarrow> st_closing (sc_st c')" "sc_coherent c \<longrightarrow> sc_coherent c'" "events_grow c c'"
    using assms(2) by (simp_all add: call_effect_def)
  note b = call_effect_bytes [OF assms(2)]
  show ?thesis using assms(1) gate_run_grow [OF e(7)] e(5,6) unfolding shape_def e(1-4) b by blast
qed

lemma exact_call: "exact acc drained j c \<Longrightarrow> call_effect c c' \<Longrightarrow> exact acc drained j c'"
  by (simp add: exact_def call_effect_bytes)

lemma dropped_call:
  assumes "dropped acc slow c" "call_effect c c'"
  shows "dropped acc slow c'"
proof -
  have "lost c' = lost c" "st_closing (sc_st c) \<longrightarrow> st_closing (sc_st c')" using assms(2) by (simp_all add: call_effect_def)
  then show ?thesis using assms(1) call_effect_bytes(1) [OF assms(2)] unfolding dropped_def by metis
qed

lemma draining_call:
  assumes "draining n acc slow drained p c" "call_effect c c'"
  shows "draining n acc slow drained p c'"
proof -
  have "sc_read_scheduled c' \<and> read_commands c' = n" using assms by (simp add: draining_def call_effect_def)
  then show ?thesis
    using assms(1) shape_call [OF _ assms(2)] exact_call [OF _ assms(2)] dropped_call [OF _ assms(2)] unfolding draining_def by blast
qed

lemma exact_prefix: "exact acc drained j c \<Longrightarrow> prefix (received c) acc"
  by (auto simp: exact_def)

text \<open>What the drain itself does to the read side, apart from calling the protocol.\<close>

lemma frame_effects [simp]:
  "call_effect c (drop_pending_data b c)" "call_effect c (snd (extend_pending_data env d b c))" "call_effect c (c\<lparr>sc_read_pool := pool\<rparr>)"
  "call_effect c (release_direct_writer c)" "call_effect c (set_closing c)" "call_effect c (close_writer env c)"
proof -
  show "call_effect c (drop_pending_data b c)"
    by (cases "pb_drop True b (sc_coalesce c, sc_read_pool c)") (simp add: drop_pending_data_def call_effect_def events_grow_def read_commands_def)
  show "call_effect c (snd (extend_pending_data env d b c))"
    by (cases "pb_extend (te_grow env) d b (sc_coalesce c, sc_read_pool c)") (simp add: extend_pending_data_def call_effect_def events_grow_def read_commands_def)
  show "call_effect c (c\<lparr>sc_read_pool := pool\<rparr>)" "call_effect c (release_direct_writer c)" "call_effect c (set_closing c)"
    by (simp_all add: release_direct_writer_def set_closing_def sc_update_def call_effect_def events_grow_def read_commands_def Let_def)
  show "call_effect c (close_writer env c)"
    by (simp add: close_writer_def writer_tx_send_def writer_send_def enqueue_def join_last_def call_effect_def events_grow_def read_commands_def)
qed

lemma call_effect_lost: "call_effect c c' \<Longrightarrow> lost c' = lost c"
  by (simp add: call_effect_def)

lemma call_effect_grow: "call_effect c c' \<Longrightarrow> events_grow c c'"
  by (simp add: call_effect_def)

definition joined_of :: "pending_read_buffer option \<Rightarrow> bytes option" where
  "joined_of pending = map_option (\<lambda>b. vec_data (pb_bytes b)) pending"

text \<open>\<open>went c c'\<close>: the connection was not lost on the way, and other events may have been queued.\<close>

definition went :: "stream_core \<Rightarrow> stream_core \<Rightarrow> bool" where
  "went c c' \<longleftrightarrow> lost c' = lost c \<and> events_grow c c'"

lemma went_refl [simp]: "went c c"
  by (simp add: went_def)

lemma went_trans: "went a b \<Longrightarrow> went b c \<Longrightarrow> went a c"
  by (auto simp: went_def intro: events_grow_trans)

lemma call_went: "call_effect c c' \<Longrightarrow> went c c'"
  by (simp add: went_def call_effect_lost call_effect_grow)

lemma log_went [simp]: "went c (log_call x c)"
  by (simp add: went_def events_grow_def)

lemma draining_alive: "draining n acc slow drained p c \<Longrightarrow> \<not> lost c \<Longrightarrow> \<not> (slow \<and> st_closing (sc_st c)) \<Longrightarrow> exact acc drained (opt_bytes p) c"
  by (auto simp: draining_def dropped_def)

lemma draining_closed:
  assumes "draining n acc slow drained (Some d) c" "lost c \<or> slow \<and> st_closing (sc_st c)"
  shows "draining n acc slow drained q' c \<or> q' \<noteq> None" "draining n acc slow drained None c" "draining n acc slow drained (Some d') c"
proof -
  have "dropped acc slow c" using assms exact_prefix by (auto simp: draining_def dropped_def)
  then show "draining n acc slow drained None c" "draining n acc slow drained (Some d') c" "draining n acc slow drained q' c \<or> q' \<noteq> None"
    using assms(1) by (auto simp: draining_def shape_def)
qed

lemma draining_deliver:
  assumes "draining n acc slow drained (Some (d @ further)) c" "exact acc drained (d @ further) c" "\<not> lost c"
  shows "draining n acc slow drained (Some further) (log_call (CData d) c)" "exact acc drained further (log_call (CData d) c)"
proof -
  show e: "exact acc drained further (log_call (CData d) c)" using assms(2) by (simp add: exact_def)
  have "shape drained True (log_call (CData d) c)"
    using assms(1,3) by (auto simp: draining_def shape_def call_kind_def transition_read_event_state_def)
  then show "draining n acc slow drained (Some further) (log_call (CData d) c)" using assms(1) e by (simp add: draining_def)
qed

lemma draining_joined: "draining n acc slow drained (Some []) c \<Longrightarrow> draining n acc slow drained None c"
  by (auto simp: draining_def shape_def)

lemma buffered_ok:
  assumes "draining n acc slow drained (Some (data @ further)) c" "exact acc drained (data @ further) c" "\<not> lost c"
    "\<And>k c. call_effect c (snd (gb k c)) \<and> (\<exists>j. fst (gb k c) = Inr (Suc j))" "\<And>k c. call_effect c (snd (bu k c)) \<and> fst (bu k c) = Inr ()"
  shows "case buffered_receive gb bu data c of (r, c') \<Rightarrow> r = Inr () \<and> draining n acc slow drained (Some further) c' \<and> went c c'"
  using assms(1-3)
proof (induction "length data" arbitrary: data c rule: less_induct)
  case less
  show ?case
  proof (cases "data = []")
    case True
    then show ?thesis using less.prems by (simp add: buffered_receive.simps)
  next
    case False
    obtain j c1 where g: "gb (length data) c = (Inr (Suc j), c1)" "call_effect c c1" using assms(4) [of c "length data"] by (metis prod.collapse)
    let ?k = "min (length data) (Suc j)" and ?d = "take (min (length data) (Suc j)) data"
    obtain c2 where u: "bu ?k (log_call (CData ?d) c1) = (Inr (), c2)" "call_effect (log_call (CData ?d) c1) c2"
      using assms(5) [of "log_call (CData ?d) c1" ?k] by (metis prod.collapse)
    have l: "\<not> lost c1" "\<not> lost c2" using call_effect_lost [OF g(2)] call_effect_lost [OF u(2)] less.prems(3) by simp_all
    have data: "data @ further = ?d @ drop ?k data @ further" by simp
    have c1: "draining n acc slow drained (Some (?d @ drop ?k data @ further)) c1" "exact acc drained (?d @ drop ?k data @ further) c1"
      using draining_call [OF less.prems(1) g(2)] exact_call [OF less.prems(2) g(2)] data by simp_all
    note c2 = draining_call [OF draining_deliver(1) [OF c1 l(1)] u(2)] exact_call [OF draining_deliver(2) [OF c1 l(1)] u(2)]
    have w: "went c c2" by (rule went_trans [OF call_went [OF g(2)] went_trans [OF log_went call_went [OF u(2)]]])
    have "buffered_receive gb bu data c = buffered_receive gb bu (drop ?k data) c2"
      using False g(1) u(1) by (subst buffered_receive.simps) (simp add: Let_def)
    moreover have "case buffered_receive gb bu (drop ?k data) c2 of (r, c') \<Rightarrow> r = Inr () \<and> draining n acc slow drained (Some further) c' \<and> went c2 c'"
      using less.hyps [of "drop ?k data" c2] False c2 l(2) by simp
    ultimately show ?thesis using went_trans [OF w] by auto
  qed
qed

lemma slow_path_ok:
  assumes "quiet_protocol pr" "takes_data pr" "\<not> pr_fast pr" "draining n acc slow drained (Some (data @ further)) c" "exact acc drained (data @ further) c" "\<not> lost c"
  shows "case data_received_slow_path pr data c of (r, c') \<Rightarrow> draining n acc slow drained (Some further) c' \<and> went c c'"
proof -
  have cb: "sc_callbacks c" using assms(4,6) by (simp add: draining_def shape_def)
  show ?thesis
  proof (cases "\<exists>gb bu. pr_get_buffer pr = Some gb \<and> pr_buffer_updated pr = Some bu")
    case True
    then obtain gb bu where g: "pr_get_buffer pr = Some gb" "pr_buffer_updated pr = Some bu" by blast
    have "call_effect c (snd (gb k c)) \<and> (\<exists>j. fst (gb k c) = Inr (Suc j))" "call_effect c (snd (bu k c)) \<and> fst (bu k c) = Inr ()" for k c
      using assms(1-3) g by (simp_all add: quiet_protocol_def takes_data_def)
    from buffered_ok [OF assms(4-6), of gb bu] this show ?thesis using g cb by (auto simp: data_received_slow_path_def)
  next
    case False
    then obtain f where f: "pr_data_received pr = Some f"
      using assms(2,3) by (auto simp: takes_data_def split: option.splits)
    have e: "call_effect (log_call (CData data) c) (snd (f data (log_call (CData data) c)))" using assms(1) f by (simp add: quiet_protocol_def)
    have "data_received_slow_path pr data c = f data (log_call (CData data) c)"
      using False f cb by (auto simp: data_received_slow_path_def split: option.splits)
    moreover have "draining n acc slow drained (Some further) (snd (f data (log_call (CData data) c)))"
      by (rule draining_call [OF draining_deliver(1) [OF assms(4-6)] e])
    moreover have "went c (snd (f data (log_call (CData data) c)))" by (rule went_trans [OF log_went call_went [OF e]])
    ultimately show ?thesis by (simp add: split_beta)
  qed
qed

lemma flush_some_ok:
  assumes "quiet_protocol pr" "takes_data pr" "draining n acc slow drained (Some (vec_data (pb_bytes b) @ further)) c"
    "slow = (\<not> pr_fast pr)" "slow \<or> lost c"
  shows "case flush_pending_data_with_py pr False (Some b) c of (r, c') \<Rightarrow> draining n acc slow drained (Some further) c' \<and> went c c'"
proof (cases "is_closing_or_lost c")
  case True
  have "sc_coherent c" using assms(3) by (simp add: draining_def shape_def)
  then have "lost c \<or> slow \<and> st_closing (sc_st c)" using True assms(3,5) by (auto simp: stream_flags_read draining_def shape_def)
  from draining_closed(3) [OF assms(3) this] have "draining n acc slow drained (Some further) c" .
  then show ?thesis using True by (simp add: flush_pending_data_with_py_def draining_call call_went)
next
  case False
  have "sc_coherent c" using assms(3) by (simp add: draining_def shape_def)
  then have nl: "\<not> lost c" "\<not> st_closing (sc_st c)" using False by (auto simp: stream_flags_read)
  obtain r c1 where s: "data_received_slow_path pr (vec_data (pb_bytes b)) c = (r, c1)" by fastforce
  have "draining n acc slow drained (Some further) c1" "went c c1"
    using slow_path_ok [OF assms(1,2) _ assms(3) _ nl(1)] draining_alive [OF assms(3) nl(1)] nl assms(4,5) s by auto
  moreover have "call_effect c1 (drop_pending_data b c1)" by simp
  ultimately show ?thesis
    using False s went_trans [OF _ call_went, of c c1] by (simp add: flush_pending_data_with_py_def draining_call)
qed

lemma flush_pending_ok:
  assumes "quiet_protocol pr" "takes_data pr" "draining n acc slow drained (joined_of pending) c"
    "slow = (\<not> pr_fast pr)" "pending \<noteq> None \<longrightarrow> \<not> fast \<and> (slow \<or> lost c)"
  shows "case flush_pending_data_with_py pr fast pending c of (r, c') \<Rightarrow> draining n acc slow drained None c' \<and> went c c'"
proof (cases pending)
  case None
  then show ?thesis using assms(3) by (simp add: flush_pending_data_with_py_def joined_of_def)
next
  case (Some b)
  show ?thesis using flush_some_ok [of pr n acc slow drained b "[]" c] assms Some draining_joined by (auto simp: joined_of_def)
qed

subsection \<open>The end of a connection\<close>

text \<open>Between two drains.\<close>

definition resting :: "bytes \<Rightarrow> bool \<Rightarrow> stream_core \<Rightarrow> bool" where
  "resting acc slow c \<longleftrightarrow> shape (sc_drain c) False c \<and> read_commands c \<le> 1 \<and> (sc_drain c = [] \<or> lost c)
     \<and> (read_commands c = 1 \<longrightarrow> sc_read_scheduled c)
     \<and> (\<not> lost c \<and> (sc_events c \<noteq> [] \<or> sc_read_scheduled c) \<longrightarrow> sc_read_scheduled c \<and> read_commands c = 1)
     \<and> (exact acc (sc_drain c) [] c \<or> dropped acc slow c)"

lemma read_side_simps [simp]:
  "call_state (c\<lparr>sc_callbacks := b\<rparr>) = call_state c" "call_state (c\<lparr>sc_read_scheduled := b\<rparr>) = call_state c"
  "call_state (c\<lparr>sc_drain := l\<rparr>) = call_state c" "call_state (c\<lparr>sc_events := l\<rparr>) = call_state c"
  "call_state (c\<lparr>sc_pending_read_bytes := k\<rparr>) = call_state c" "call_state (c\<lparr>sc_commands := m\<rparr>) = call_state c"
  "received (c\<lparr>sc_callbacks := b\<rparr>) = received c" "received (c\<lparr>sc_read_scheduled := b\<rparr>) = received c"
  "received (c\<lparr>sc_drain := l\<rparr>) = received c" "received (c\<lparr>sc_events := l\<rparr>) = received c"
  "received (c\<lparr>sc_pending_read_bytes := k\<rparr>) = received c" "received (c\<lparr>sc_commands := m\<rparr>) = received c"
  "read_commands (c\<lparr>sc_callbacks := b\<rparr>) = read_commands c" "read_commands (c\<lparr>sc_read_scheduled := b\<rparr>) = read_commands c"
  "read_commands (c\<lparr>sc_drain := l\<rparr>) = read_commands c" "read_commands (c\<lparr>sc_events := l\<rparr>) = read_commands c"
  "read_commands (c\<lparr>sc_pending_read_bytes := k\<rparr>) = read_commands c"
  by (simp_all add: call_state_def received_def read_commands_def)

lemma draining_bytes: "draining n acc slow drained p c \<Longrightarrow> prefix (received c) acc"
  by (auto simp: draining_def dropped_def exact_prefix)

lemma draining_lost_shift:
  assumes "draining n acc slow drained p c" "lost c" "data_of drained = data_of rest"
  shows "draining n acc slow rest q c"
  using assms draining_bytes [OF assms(1)] by (simp add: draining_def dropped_def shape_def)

lemma lost_rests:
  assumes "draining 0 acc slow drained p c" "lost c" "data_of drained = data_of rest"
  shows "resting acc slow (c\<lparr>sc_read_scheduled := b, sc_drain := rest\<rparr>)"
proof -
  have "shape rest False (c\<lparr>sc_read_scheduled := b, sc_drain := rest\<rparr>)"
    using draining_lost_shift [OF assms, of None] assms(2) by (simp add: draining_def shape_def)
  moreover have "dropped acc slow (c\<lparr>sc_read_scheduled := b, sc_drain := rest\<rparr>)"
    using draining_bytes [OF assms(1)] assms(2) by (simp add: dropped_def)
  ultimately show ?thesis using assms(1,2) by (simp add: resting_def draining_def)
qed

lemma connection_lost_ok:
  assumes "quiet_protocol pr" "draining n acc slow drained p c"
  shows "case connection_lost_with_py pr exc c of (r, c') \<Rightarrow> draining n acc slow drained None c' \<and> lost c'"
proof (cases "lost c")
  case True
  moreover have "\<not> sc_detached c" using assms(2) by (simp add: draining_def shape_def)
  ultimately show ?thesis using draining_lost_shift [OF assms(2) True refl, of None] by (simp add: connection_lost_with_py_def)
next
  case False
  have d: "\<not> sc_detached c" "sc_callbacks c" "sc_coherent c" using assms(2) False by (simp_all add: draining_def shape_def)
  define c1 where "c1 = sc_update (\<lambda>s. s\<lparr>st_lost_called := True, st_closing := True,
                   st_write_buffer := (st_write_buffer s)\<lparr>wb_size := 0, wb_protocol_paused := False\<rparr>\<rparr>) c"
  define s2 where "s2 = (if pr_fast pr then pr_fast_lost pr exc (log_call (CLost exc) c1) else pr_connection_lost pr exc (log_call (CLost exc) c1))"
  define c3 where "c3 = pr_server_lost pr (release_direct_writer (snd s2))"
  have "call_effect (log_call (CLost exc) c1) (snd s2)" using assms(1) by (simp add: quiet_protocol_def s2_def)
  moreover have "call_effect (snd s2) (release_direct_writer (snd s2))" by simp
  moreover have "call_effect (release_direct_writer (snd s2)) c3" using assms(1) by (simp add: quiet_protocol_def c3_def)
  ultimately have e: "call_effect (log_call (CLost exc) c1) c3" using call_effect_trans by blast
  obtain s where s: "call_state c = Some s" "s \<noteq> READ_EVENT_LOST" using assms(2) False by (auto simp: draining_def shape_def)
  have l1: "lost c1" "st_closing (sc_st c1)" "sc_coherent c1" by (simp_all add: c1_def)
  have c1: "\<not> sc_detached c1" "sc_events c1 = sc_events c"
    "sc_pending_read_bytes c1 = sc_pending_read_bytes c" "call_state c1 = call_state c" "received c1 = received c"
    "sc_read_scheduled c1 = sc_read_scheduled c" "read_commands c1 = read_commands c"
    using d by (simp_all add: c1_def sc_update_def call_state_def received_def read_commands_def)
  have "call_state c3 = Some READ_EVENT_LOST"
    using call_effect_bytes(3) [OF e] c1 s by (simp add: call_kind_def transition_read_event_state_def)
  then have "draining n acc slow drained None (c3\<lparr>sc_callbacks := False\<rparr>) \<and> lost (c3\<lparr>sc_callbacks := False\<rparr>)"
    using e call_effect_bytes [OF e] c1 l1 assms(2) draining_bytes [OF assms(2)]
    by (simp add: draining_def shape_def dropped_def call_effect_def)
  moreover have "connection_lost_with_py pr exc c = (fst s2, c3\<lparr>sc_callbacks := False\<rparr>)"
    using False d by (cases "pr_fast pr") (simp_all add: connection_lost_with_py_def c3_def s2_def c1_def split_beta Let_def)
  ultimately show ?thesis by simp
qed

lemma abandon_ok:
  assumes "quiet_protocol pr" "draining 0 acc slow drained p c" "data_of drained = data_of rest"
  shows "resting acc slow ((abandon_reads pr err c)\<lparr>sc_drain := rest\<rparr>)"
proof -
  have "draining 0 acc slow drained p (snd (pr_handler pr err c))"
    using assms(1) by (intro draining_call [OF assms(2)]) (simp add: quiet_protocol_def)
  from connection_lost_ok [OF assms(1) this, of None]
  show ?thesis by (auto simp: abandon_reads_def report_error_with_py_def Let_def split_beta intro: lost_rests [OF _ _ assms(3)])
qed

subsection \<open>One event\<close>

text \<open>
  \<open>mode\<close>: a stream reader is fed at once and never has joined data; otherwise data is joined, for a
  protocol or for a connection that is lost already.
\<close>

definition mode :: "bool \<Rightarrow> bool \<Rightarrow> pending_read_buffer option \<Rightarrow> stream_core \<Rightarrow> bool" where
  "mode fast slow pending c \<longleftrightarrow> (if fast then \<not> slow \<and> \<not> lost c \<and> pending = None else slow \<or> lost c)"

definition step_ok :: "bytes \<Rightarrow> bool \<Rightarrow> bool \<Rightarrow> pending_read_event list \<Rightarrow> stream_core \<Rightarrow> drain_flow \<times> stream_core \<Rightarrow> bool" where
  "step_ok acc slow fast rest c s \<longleftrightarrow>
     (case s of
        (DGoOn pending, c') \<Rightarrow> draining 0 acc slow rest (joined_of pending) c' \<and> mode fast slow pending c' \<and> went c c'
      | (DReturn r rest', c') \<Rightarrow> resting acc slow (c'\<lparr>sc_drain := rest'\<rparr>))"

lemma step_ok_simps [simp]:
  "step_ok acc slow fast rest c (DGoOn pending, c') \<longleftrightarrow> draining 0 acc slow rest (joined_of pending) c' \<and> mode fast slow pending c' \<and> went c c'"
  "step_ok acc slow fast rest c (DReturn r rest', c') \<longleftrightarrow> resting acc slow (c'\<lparr>sc_drain := rest'\<rparr>)"
  by (simp_all add: step_ok_def)

lemma joined_of_simps [simp]: "joined_of None = None" "joined_of (Some b) = Some (vec_data (pb_bytes b))"
  by (simp_all add: joined_of_def)

lemma mode_went: "mode fast slow pending c \<Longrightarrow> went c c' \<Longrightarrow> (fast \<Longrightarrow> pending' = None) \<Longrightarrow> mode fast slow pending' c'"
  by (auto simp: mode_def went_def)

lemma record_effect:
  assumes "len \<le> sc_pending_read_bytes c"
  shows "call_effect (c\<lparr>sc_pending_read_bytes := sc_pending_read_bytes c - len\<rparr>) (record_pending_read_drained len c)"
proof -
  let ?c = "c\<lparr>sc_pending_read_bytes := sc_pending_read_bytes c - len\<rparr>"
    and ?f = "\<lambda>s. s\<lparr>st_read_backpressured := False, st_reading := \<not> st_read_paused s \<and> \<not> st_closing s\<rparr>"
  have 1: "record_pending_read_drained len c = ?c \<or> (\<exists>b. record_pending_read_drained len c = (sc_update ?f ?c)\<lparr>sc_reading := b\<rparr>)"
    using assms by (simp add: record_pending_read_drained_def fetch_sub_usize_def Let_def) blast
  have 2: "call_effect ?c ((sc_update ?f ?c)\<lparr>sc_reading := b\<rparr>)" for b
  proof -
    have "sc_coherent (sc_update ?f ?c)" "lost (sc_update ?f ?c) = lost ?c" "st_closing (sc_st (sc_update ?f ?c)) = st_closing (sc_st ?c)" by simp_all
    then show ?thesis by (simp add: call_effect_def events_grow_def read_commands_def sc_update_def)
  qed
  show ?thesis using 1 2 by (elim disjE exE) simp_all
qed

lemma record_ok:
  assumes "draining n acc slow (EData v # rest) p c"
  shows "draining n acc slow rest (Some (opt_bytes p @ vec_data v)) (record_pending_read_drained (length (vec_data v)) c)"
    "went c (record_pending_read_drained (length (vec_data v)) c)"
proof -
  let ?n = "length (vec_data v)"
  have k: "?n \<le> sc_pending_read_bytes c" using assms by (simp add: draining_def shape_def)
  have "shape rest True (c\<lparr>sc_pending_read_bytes := sc_pending_read_bytes c - ?n\<rparr>)"
    using assms by (auto simp: draining_def shape_def read_event_kind_def transition_read_event_state_def split: if_splits)
  then have "draining n acc slow rest (Some (opt_bytes p @ vec_data v)) (c\<lparr>sc_pending_read_bytes := sc_pending_read_bytes c - ?n\<rparr>)"
    using assms by (simp add: draining_def exact_def dropped_def)
  from draining_call [OF this record_effect [OF k]]
  show "draining n acc slow rest (Some (opt_bytes p @ vec_data v)) (record_pending_read_drained ?n c)" .
  have "went c (c\<lparr>sc_pending_read_bytes := sc_pending_read_bytes c - ?n\<rparr>)" by (simp add: went_def events_grow_def)
  from went_trans [OF this call_went [OF record_effect [OF k]]] show "went c (record_pending_read_drained ?n c)" .
qed

lemma pb_from_pooled_data [simp]: "vec_data (pb_bytes (pb_from_pooled v)) = vec_data v"
  by (simp add: pb_from_pooled_def)

lemma extend_pending_bytes: "vec_data (pb_bytes (fst (extend_pending_data env d b c))) = vec_data (pb_bytes b) @ d"
  by (simp add: extend_pending_data_def pb_extend_def split_beta Let_def)

lemma drain_data_ok:
  assumes "quiet_protocol pr" "takes_data pr" "slow = (\<not> pr_fast pr)" "mode fast slow pending c"
    "draining 0 acc slow rest (Some (opt_bytes (joined_of pending) @ vec_data v)) c"
  shows "step_ok acc slow fast rest c (drain_data env pr fast v rest pending c)"
proof (cases fast)
  case True
  then have m: "\<not> slow" "\<not> lost c" "pending = None" using assms(4) by (simp_all add: mode_def)
  let ?c = "log_call (CData (vec_data v)) c"
  have e: "exact acc rest (vec_data v @ []) c" "draining 0 acc slow rest (Some (vec_data v @ [])) c"
    using draining_alive [OF assms(5)] assms(5) m by simp_all
  obtain r c1 where f: "pr_feed pr v ?c = (r, c1)" by fastforce
  have ef: "call_effect ?c c1" using assms(1) f unfolding quiet_protocol_def by (metis snd_conv)
  have d: "draining 0 acc slow rest None c1"
    by (rule draining_joined [OF draining_call [OF draining_deliver(1) [OF e(2,1) m(2)] ef]])
  have w: "went c c1" by (rule went_trans [OF log_went call_went [OF ef]])
  show ?thesis
    using True m f d w abandon_ok [OF assms(1) d refl] mode_went [OF assms(4) w, of None] by (cases r) (simp_all add: drain_data_def)
next
  case False
  then have m: "slow \<or> lost c" using assms(4) by (simp add: mode_def)
  show ?thesis
  proof (cases pending)
    case None
    then show ?thesis using False m assms(5) by (simp add: drain_data_def mode_def)
  next
    case (Some b)
    obtain b1 c1 where x: "extend_pending_data env (vec_data v) b c = (b1, c1)" by fastforce
    let ?c2 = "c1\<lparr>sc_read_pool := snd (rb_release v (sc_read_pool c1))\<rparr>"
    have e: "call_effect c ?c2" using frame_effects(2,3) call_effect_trans x by (metis snd_conv)
    have b1: "vec_data (pb_bytes b1) = vec_data (pb_bytes b) @ vec_data v" using extend_pending_bytes x by (metis fst_conv)
    have "draining 0 acc slow rest (Some (vec_data (pb_bytes b1))) ?c2" using draining_call [OF assms(5) e] Some b1 by simp
    moreover have "mode fast slow (Some b1) ?c2" "went c ?c2" using mode_went [OF assms(4) call_went [OF e]] call_went [OF e] False by simp_all
    moreover obtain r c3 where f: "flush_pending_data_with_py pr False (Some b) c = (r, c3)" by fastforce
    moreover have s: "draining 0 acc slow rest (Some (vec_data v)) c3" "went c c3"
      using flush_some_ok [OF assms(1,2) _ assms(3) m, of 0 acc rest b "vec_data v"] assms(5) Some f by simp_all
    moreover have "resting acc slow ((abandon_reads pr err c3)\<lparr>sc_drain := rest\<rparr>)" for err by (rule abandon_ok [OF assms(1) s(1) refl])
    moreover have "mode fast slow (Some (pb_from_pooled v)) c3" using mode_went [OF assms(4) s(2)] False by simp
    ultimately show ?thesis using False Some x by (cases r) (simp_all add: drain_data_def)
  qed
qed

lemma kind_simps:
  "read_event_kind EEof = KEof" "read_event_kind (ELost x) = KLost" "read_event_kind EPause = KPause" "read_event_kind EResume = KResume"
  "call_kind CEof = KEof" "call_kind CPause = KPause" "call_kind CResume = KResume"
  by (simp_all add: read_event_kind_def call_kind_def)

text \<open>A call for a control event consumes it.\<close>

lemma draining_tell:
  assumes "draining n acc slow (event # rest) None c" "\<not> lost c" "call_kind x = read_event_kind event" "event = EEof \<or> event = EPause \<or> event = EResume"
    "x = CEof \<or> x = CPause \<or> x = CResume"
  shows "draining n acc slow rest None (log_call x c)"
proof -
  have d: "data_of (event # rest) = data_of rest" "received (log_call x c) = received c" using assms(4,5) by auto
  obtain s where s: "call_state c = Some s" "s \<noteq> READ_EVENT_LOST"
      "gate_run s (map read_event_kind ((event # rest) @ sc_events c)) = Some (sc_event_state c)"
    using assms(1,2) by (auto simp: draining_def shape_def)
  obtain s1 where s1: "transition_read_event_state s (read_event_kind event) = Some s1" "gate_run s1 (map read_event_kind (rest @ sc_events c)) = Some (sc_event_state c)"
    using s(3) by (auto split: Option.bind_splits)
  then have "s1 \<noteq> READ_EVENT_LOST" using assms(4) s(2) by (auto simp: kind_simps transition_read_event_state_def split: if_splits)
  then have "shape rest False (log_call x c)" using assms(1,2,3) s(1) s1 d by (simp add: draining_def shape_def)
  then show ?thesis using assms(1) d by (simp add: draining_def exact_def dropped_def)
qed

lemma lost_returns:
  assumes "quiet_protocol pr" "draining 0 acc slow drained p c" "data_of drained = data_of rest"
  shows "resting acc slow ((snd (connection_lost_with_py pr exc c))\<lparr>sc_read_scheduled := False, sc_drain := rest\<rparr>)"
  using connection_lost_ok [OF assms(1,2), of exc] lost_rests [OF _ _ assms(3)] by (auto simp: split_beta)

lemma eof_effect:
  assumes "quiet_protocol pr" "draining 0 acc slow (EEof # rest) None c"
  shows "case eof_received_with_py pr c of (r, c') \<Rightarrow> went c c' \<and> (draining 0 acc slow rest None c' \<or> r = Inr False \<and> draining 0 acc slow (EEof # rest) None c')"
proof (cases "sc_callbacks c \<and> (pr_fast pr \<or> pr_eof_received pr \<noteq> None)")
  case True
  then obtain s where s: "eof_received_with_py pr c = s" "call_effect (log_call CEof c) (snd s)"
    using assms(1) by (auto simp: eof_received_with_py_def quiet_protocol_def)
  have "\<not> lost c" using True assms(2) by (simp add: draining_def shape_def)
  from draining_call [OF draining_tell [OF assms(2) this, of CEof] s(2)] have "draining 0 acc slow rest None (snd s)" by (simp add: kind_simps)
  then show ?thesis using s went_trans [OF log_went call_went [OF s(2)]] by (simp add: split_beta)
next
  case False
  then have "eof_received_with_py pr c = (Inr False, c)" by (auto simp: eof_received_with_py_def)
  then show ?thesis using assms(2) by simp
qed

lemma drain_eof_ok:
  assumes "quiet_protocol pr" "draining 0 acc slow (EEof # rest) None c" "mode fast slow None c"
  shows "step_ok acc slow fast rest c (drain_eof env pr rest c)"
proof -
  obtain r c1 where r: "eof_received_with_py pr c = (r, c1)" by fastforce
  then obtain drained where d: "draining 0 acc slow drained None c1" "data_of drained = data_of rest" "went c c1" "r \<noteq> Inr False \<longrightarrow> drained = rest"
    using eof_effect [OF assms(1,2)] by auto
  have "draining 0 acc slow drained None (close_writer env (set_closing c1))"
    by (rule draining_call [OF draining_call [OF d(1) frame_effects(5)] frame_effects(6)])
  note l = lost_returns [OF assms(1) this d(2), of None]
  show ?thesis
  proof (cases r)
    case (Inl err)
    then show ?thesis using r abandon_ok [OF assms(1) d(1,2)] by (simp add: drain_eof_def)
  next
    case (Inr b)
    then show ?thesis using r l d mode_went [OF assms(3) d(3), of None] by (cases b) (simp_all add: drain_eof_def)
  qed
qed

lemma tell_ok:
  assumes "quiet_protocol pr" "draining 0 acc slow (event # rest) None c" "mode fast slow None c"
    "event = EPause \<and> x = CPause \<or> event = EResume \<and> x = CResume" "\<And>c. call_effect c (snd (f c))"
    "s = (case (if sc_callbacks c then f (log_call x c) else (Inl ''TypeError'', c)) of
        (Inl err, c1) \<Rightarrow> report_error_with_py pr err c1 | (Inr _, c1) \<Rightarrow> (Inr (), c1))"
  shows "fst s = Inr () \<and> step_ok acc slow fast rest c (DGoOn None, snd s)"
proof -
  obtain r c1 where r: "(if sc_callbacks c then f (log_call x c) else (Inl ''TypeError'', c)) = (r, c1)" by fastforce
  have 1: "draining 0 acc slow rest None c1" "went c c1"
  proof -
    show "draining 0 acc slow rest None c1"
    proof (cases "sc_callbacks c")
      case True
      then have "\<not> lost c" using assms(2) by (simp add: draining_def shape_def)
      from draining_tell [OF assms(2) this, of x] have "draining 0 acc slow rest None (log_call x c)" using assms(4) by (auto simp: kind_simps)
      from draining_call [OF this assms(5) [of "log_call x c"]] show ?thesis using True r by simp
    next
      case False
      then have "lost c" using assms(2) by (simp add: draining_def shape_def)
      from draining_lost_shift [OF assms(2) this, of rest None] show ?thesis using False r assms(4) by auto
    qed
    show "went c c1" using r went_trans [OF log_went call_went [OF assms(5) [of "log_call x c"]]] by (cases "sc_callbacks c") simp_all
  qed
  have h: "call_effect c1 (snd (pr_handler pr err c1))" "fst (pr_handler pr err c1) = Inr ()" for err
    using assms(1) by (simp_all add: quiet_protocol_def)
  have "draining 0 acc slow rest None (snd s) \<and> went c1 (snd s) \<and> fst s = Inr ()"
    using assms(6) r h 1 draining_call [OF 1(1) h(1)] call_went [OF h(1)] by (cases r) (simp_all add: report_error_with_py_def)
  then show ?thesis using went_trans [OF 1(2)] mode_went [OF assms(3), of "snd s" None] by simp
qed

lemma drain_control_ok:
  assumes "quiet_protocol pr" "takes_data pr" "slow = (\<not> pr_fast pr)" "mode fast slow pending c"
    "draining 0 acc slow (event # rest) (joined_of pending) c" "\<And>v. event \<noteq> EData v"
  shows "step_ok acc slow fast rest c (drain_control env pr fast event rest pending c)"
proof -
  obtain r c1 where r: "flush_pending_data_with_py pr fast pending c = (r, c1)" by fastforce
  have "pending \<noteq> None \<longrightarrow> \<not> fast \<and> (slow \<or> lost c)" using assms(4) by (auto simp: mode_def split: if_splits)
  then have d: "draining 0 acc slow (event # rest) None c1" "went c c1" using flush_pending_ok [OF assms(1,2,5,3), of fast] r by simp_all
  have m: "mode fast slow None c1" using mode_went [OF assms(4) d(2), of None] by simp
  have e: "data_of (event # rest) = data_of rest" using assms(6) by (cases event) auto
  have up: "step_ok acc slow fast rest c1 s \<Longrightarrow> step_ok acc slow fast rest c s" for s
    using went_trans [OF d(2)] by (auto simp: step_ok_def split: drain_flow.splits)
  have q: "\<And>c. call_effect c (snd (pr_pause_writing pr c))" "\<And>c. call_effect c (snd (pr_resume_writing pr c))"
    using assms(1) by (simp_all add: quiet_protocol_def)
  show ?thesis
  proof (cases r)
    case (Inl err)
    then show ?thesis using r abandon_ok [OF assms(1) d(1) e] by (simp add: drain_control_def)
  next
    case (Inr u)
    have "step_ok acc slow fast rest c1 (drain_control env pr fast event rest pending c)"
    proof (cases event)
      case EEof
      then show ?thesis using drain_eof_ok [OF assms(1) _ m] d(1) r Inr by (simp add: drain_control_def)
    next
      case (ELost x)
      then show ?thesis using lost_returns [OF assms(1) d(1) e] r Inr by (simp add: drain_control_def)
    next
      case EPause
      from tell_ok [OF assms(1) d(1) m _ q(1) pause_writing_with_py_def] show ?thesis
        using r Inr EPause by (cases "pause_writing_with_py pr c1") (simp add: drain_control_def)
    next
      case EResume
      from tell_ok [OF assms(1) d(1) m _ q(2) resume_writing_with_py_def] show ?thesis
        using r Inr EResume by (cases "resume_writing_with_py pr c1") (simp add: drain_control_def)
    qed (use assms(6) in simp)
    then show ?thesis by (rule up)
  qed
qed

subsection \<open>A whole drain\<close>

lemma drain_budget_ok:
  assumes "quiet_protocol pr" "takes_data pr" "slow = (\<not> pr_fast pr)" "\<And>c. te_loop_send env c" "step_ok acc slow fast rest c0 s"
  shows "step_ok acc slow fast rest c0 (drain_budget env pr fast ne nb rest s)"
proof (cases "\<exists>pending c. s = (DGoOn pending, c) \<and> read_drain_budget_reached ne nb MAX_READ_EVENTS_PER_DRAIN MAX_READ_BYTES_PER_DRAIN \<and> \<not> (rest = [] \<and> sc_events c = [])")
  case True
  then obtain pending c where s: "s = (DGoOn pending, c)" "read_drain_budget_reached ne nb MAX_READ_EVENTS_PER_DRAIN MAX_READ_BYTES_PER_DRAIN"
    "\<not> (rest = [] \<and> sc_events c = [])" by blast
  have d: "draining 0 acc slow rest (joined_of pending) c" "mode fast slow pending c" using assms(5) s(1) by simp_all
  define c1 where "c1 = c\<lparr>sc_events := rest @ sc_events c, sc_commands := sc_commands c @ [MStreamRead]\<rparr>"
  have "reschedule_pending_read_events env rest c = (True, [], c1)"
    using s(3) assms(4) by (simp add: reschedule_pending_read_events_def c1_def Let_def)
  moreover obtain r c2 where f: "flush_pending_data_with_py pr fast pending c1 = (r, c2)" by fastforce
  moreover have "resting acc slow (c2\<lparr>sc_drain := []\<rparr>)"
  proof -
    have "draining 1 acc slow [] (joined_of pending) c1"
      using d(1) by (simp add: c1_def draining_def shape_def exact_def dropped_def read_commands_def)
    moreover have "pending \<noteq> None \<longrightarrow> \<not> fast \<and> (slow \<or> lost c1)" using d(2) by (auto simp: mode_def c1_def split: if_splits)
    ultimately have "draining 1 acc slow [] None c2" using flush_pending_ok [OF assms(1,2) _ assms(3), of 1 acc "[]" pending c1 fast] f by simp
    then show ?thesis by (simp add: resting_def draining_def shape_def exact_def dropped_def)
  qed
  ultimately show ?thesis using s by (simp add: drain_budget_def)
next
  case False
  then have "drain_budget env pr fast ne nb rest s = s"
    by (auto simp: drain_budget_def reschedule_pending_read_events_def split: prod.splits drain_flow.splits)
  then show ?thesis using assms(5) by simp
qed

lemma step_ok_went: "went c0 c \<Longrightarrow> step_ok acc slow fast rest c s \<Longrightarrow> step_ok acc slow fast rest c0 s"
  using went_trans by (auto simp: step_ok_def split: drain_flow.splits)

lemma drain_events_ok:
  assumes "quiet_protocol pr" "takes_data pr" "slow = (\<not> pr_fast pr)" "\<And>c. te_loop_send env c"
    "draining 0 acc slow events (joined_of pending) c" "mode fast slow pending c"
  shows "step_ok acc slow fast [] c (fst (drain_events env pr fast events pending ne nb c))"
  using assms(5,6)
proof (induction events arbitrary: pending ne nb c)
  case Nil
  then show ?case by simp
next
  case (Cons event rest)
  have step: "step_ok acc slow fast [] c (fst (case s of (DGoOn pending1, c2) \<Rightarrow> drain_events env pr fast rest pending1 ne1 nb1 c2 | (DReturn r rest1, c2) \<Rightarrow> (s, ne1, nb1)))"
    if "step_ok acc slow fast rest c s" for s ne1 nb1
  proof (cases s)
    case (Pair x c2)
    show ?thesis
    proof (cases x)
      case (DGoOn pending1)
      then show ?thesis using that Pair Cons.IH [of pending1 c2 ne1 nb1] step_ok_went [of c c2] by simp
    next
      case (DReturn r rest1)
      then show ?thesis using that Pair by simp
    qed
  qed
  show ?case
  proof (cases "\<exists>v. event = EData v")
    case True
    then obtain v where v: "event = EData v" by blast
    let ?c1 = "record_pending_read_drained (length (vec_data v)) c"
    note r = record_ok [OF Cons.prems(1) [unfolded v]]
    have "step_ok acc slow fast rest ?c1 (drain_data env pr fast v rest pending ?c1)"
      by (rule drain_data_ok [OF assms(1-3) mode_went [OF Cons.prems(2) r(2)] r(1)]) (use Cons.prems(2) in \<open>simp add: mode_def\<close>)
    from drain_budget_ok [OF assms(1-4) step_ok_went [OF r(2) this]] show ?thesis using v by (simp add: Let_def step)
  next
    case False
    then have "step_ok acc slow fast rest c (drain_control env pr fast event rest pending c)"
      by (intro drain_control_ok [OF assms(1-3) Cons.prems(2,1)]) blast
    from step [OF this, of ne nb] False show ?thesis by (cases event) (auto split: prod.splits drain_flow.splits)
  qed
qed

lemma mode_prefix: "mode fast slow pending c \<Longrightarrow> pending \<noteq> None \<longrightarrow> \<not> fast \<and> (slow \<or> lost c)"
  by (auto simp: mode_def split: if_splits)

lemma drain_rounds_ok:
  assumes "quiet_protocol pr" "takes_data pr" "slow = (\<not> pr_fast pr)" "\<And>c. te_loop_send env c"
    "draining 0 acc slow leftover None c" "mode fast slow None c" "leftover = [] \<or> lost c"
  shows "\<exists>r c'. drain_rounds env pr fast leftover ne nb c = Some (r, c') \<and> resting acc slow c'"
  using assms(5-7)
proof (induction "(if leftover = [] then 0 else 4) + (if sc_event_state c = READ_EVENT_LOST then 0 else 2) + (if sc_events c = [] then 0 else 1 :: nat)"
    arbitrary: leftover ne nb c rule: less_induct)
  case less
  show ?case
  proof (cases "sc_events c = []")
    case True
    then have "resting acc slow (c\<lparr>sc_read_scheduled := False, sc_drain := leftover\<rparr>)"
      using less.prems by (auto simp: resting_def draining_def shape_def exact_def dropped_def)
    then show ?thesis using True by (subst drain_rounds.simps) simp
  next
    case False
    let ?c = "c\<lparr>sc_events := leftover\<rparr>"
    have "draining 0 acc slow (sc_events c) None ?c"
      using less.prems(1,3) draining_bytes [OF less.prems(1)] by (auto simp: draining_def shape_def exact_def dropped_def)
    moreover have "mode fast slow None ?c" using less.prems(2) by (simp add: mode_def)
    ultimately have e: "step_ok acc slow fast [] ?c (fst (drain_events env pr fast (sc_events c) None ne nb ?c))"
      by (intro drain_events_ok [OF assms(1-4)]) simp_all
    obtain x c1 ne1 nb1 where d: "drain_events env pr fast (sc_events c) None ne nb ?c = ((x, c1), ne1, nb1)" by (metis prod.collapse)
    show ?thesis
    proof (cases x)
      case (DReturn r rest)
      then show ?thesis using e d False by (subst drain_rounds.simps) simp
    next
      case (DGoOn pending)
      have s: "draining 0 acc slow [] (joined_of pending) c1" "mode fast slow pending c1" "went ?c c1" using e d DGoOn by simp_all
      obtain r c2 where f: "flush_pending_data_with_py pr fast pending c1 = (r, c2)" by fastforce
      have c2: "draining 0 acc slow [] None c2" "went c1 c2" using flush_pending_ok [OF assms(1,2) s(1) assms(3) mode_prefix [OF s(2)]] f by auto
      have m: "mode fast slow None c2" using mode_went [OF s(2) c2(2), of None] by simp
      have "events_grow ?c c2" using went_trans [OF s(3) c2(2)] by (simp add: went_def)
      then have small: "(if sc_event_state c2 = READ_EVENT_LOST then 0 else 2) + (if sc_events c2 = [] then 0 else 1 :: nat)
        < (if leftover = [] then 0 else 4) + (if sc_event_state c = READ_EVENT_LOST then 0 else 2) + (if sc_events c = [] then 0 else 1)"
        using False by (auto simp: events_grow_def)
      have ih: "\<exists>r c'. drain_rounds env pr fast [] ne1 nb1 c2 = Some (r, c') \<and> resting acc slow c'"
        by (rule less.hyps) (use small c2(1) m in simp_all)
      show ?thesis
      proof (cases r)
        case (Inl err)
        then show ?thesis using f d DGoOn False abandon_ok [OF assms(1) c2(1) refl] by (subst drain_rounds.simps) simp
      next
        case (Inr u)
        then show ?thesis using f d DGoOn False ih by (subst drain_rounds.simps) simp
      qed
    qed
  qed
qed

subsection \<open>Arrivals and drains\<close>

text \<open>The reader's threads queue events; the loop runs a drain for each command it takes from its queue.\<close>

datatype read_op = RArrive pending_read_event | RDrain

definition accepted :: "pending_read_event \<Rightarrow> stream_core \<Rightarrow> bytes" where
  "accepted event c = (if transition_read_event_state (sc_event_state c) (read_event_kind event) = None then [] else data_of [event])"

definition read_step :: "stream_env \<Rightarrow> protocol_env \<Rightarrow> read_op \<Rightarrow> stream_core \<Rightarrow> (bytes \<times> stream_core) option" where
  "read_step env pr op c =
     (case op of
        RArrive event \<Rightarrow> Some (accepted event c, enqueue_pending_read_event env event c)
      | RDrain \<Rightarrow>
          if MStreamRead \<in> set (sc_commands c)
          then map_option (\<lambda>(r, c'). ([], c')) (drain_pending_read_events_with_py env pr (c\<lparr>sc_commands := remove1 MStreamRead (sc_commands c)\<rparr>))
          else Some ([], c))"

fun read_run :: "stream_env \<Rightarrow> protocol_env \<Rightarrow> read_op list \<Rightarrow> stream_core \<Rightarrow> (bytes \<times> stream_core) option" where
  "read_run env pr [] c = Some ([], c)"
| "read_run env pr (op # ops) c =
     Option.bind (read_step env pr op c) (\<lambda>(d, c1). map_option (\<lambda>(ds, c2). (d @ ds, c2)) (read_run env pr ops c1))"

lemma backpressure_effect: "call_effect c (apply_pending_read_backpressure c)"
proof -
  let ?f = "\<lambda>s. s\<lparr>st_read_backpressured := True, st_reading := False\<rparr>"
  have "sc_coherent (sc_update ?f c)" "lost (sc_update ?f c) = lost c" "st_closing (sc_st (sc_update ?f c)) = st_closing (sc_st c)" by simp_all
  then have "call_effect c ((sc_update ?f c)\<lparr>sc_reading := False\<rparr>)"
    by (simp add: call_effect_def events_grow_def read_commands_def sc_update_def)
  then show ?thesis by (simp add: apply_pending_read_backpressure_def)
qed

lemma resting_shape: "resting acc slow c \<Longrightarrow> shape (sc_drain c) False c"
  by (simp add: resting_def)

definition steady :: "bytes \<Rightarrow> bool \<Rightarrow> stream_core \<Rightarrow> bool" where
  "steady acc slow c \<longleftrightarrow> shape (sc_drain c) False c \<and> read_commands c \<le> 1 \<and> (sc_drain c = [] \<or> lost c)
     \<and> (read_commands c = 1 \<longrightarrow> sc_read_scheduled c) \<and> (\<not> lost c \<and> sc_read_scheduled c \<longrightarrow> read_commands c = 1)
     \<and> (exact acc (sc_drain c) [] c \<or> dropped acc slow c)"

lemma resting_steady: "resting acc slow c \<longleftrightarrow> steady acc slow c \<and> (\<not> lost c \<and> sc_events c \<noteq> [] \<longrightarrow> sc_read_scheduled c)"
  by (auto simp: resting_def steady_def)

lemma steady_frame:
  assumes "steady acc slow c" "call_effect c c'" "sc_drain c' = sc_drain c" "sc_read_scheduled c' = sc_read_scheduled c" "read_commands c' = read_commands c"
  shows "steady acc slow c'"
proof -
  have "shape (sc_drain c) False c'" using shape_call [OF _ assms(2)] assms(1) by (simp add: steady_def)
  moreover have "exact acc (sc_drain c) [] c' \<or> dropped acc slow c'" using exact_call dropped_call assms(1,2) unfolding steady_def by blast
  ultimately show ?thesis using assms(1,3-5) call_effect_lost [OF assms(2)] by (simp add: steady_def)
qed

lemma steady_schedule:
  assumes "steady acc slow c" "\<And>c. te_loop_send env c"
  shows "resting acc slow (schedule_read_drain env c)"
proof (cases "sc_read_scheduled c")
  case True
  then show ?thesis using assms(1) by (simp add: schedule_read_drain_def resting_steady)
next
  case False
  then have "read_commands c = 0" using assms(1) by (auto simp: steady_def)
  then have "read_commands (c\<lparr>sc_read_scheduled := True, sc_commands := sc_commands c @ [MStreamRead]\<rparr>) = 1" by (simp add: read_commands_def)
  then show ?thesis using assms False by (simp add: schedule_read_drain_def resting_def steady_def shape_def exact_def dropped_def Let_def)
qed

lemma steady_accept:
  assumes "steady acc slow c" "transition_read_event_state (sc_event_state c) (read_event_kind event) = Some next_state"
  shows "steady (acc @ data_of [event]) slow (c\<lparr>sc_event_state := next_state, sc_pending_read_bytes := sc_pending_read_bytes c + event_len event,
           sc_events := sc_events c @ [event]\<rparr>)" (is "steady _ _ ?c")
proof -
  have len: "event_len event = length (data_of [event])" by (cases event) (simp_all add: event_len_def)
  have eq: "call_state ?c = call_state c" "received ?c = received c" "read_commands ?c = read_commands c"
    by (simp_all add: call_state_def received_def read_commands_def)
  have "gate_run s (map read_event_kind (sc_drain c @ sc_events c)) = Some (sc_event_state c)
      \<Longrightarrow> gate_run s (map read_event_kind (sc_drain c @ sc_events c @ [event])) = Some next_state" for s
    using assms(2) by (simp add: gate_run_append del: append_assoc add: append_assoc [symmetric])
  then have "shape (sc_drain c) False ?c" using assms(1) len eq by (auto simp: steady_def shape_def)
  moreover have "exact (acc @ data_of [event]) (sc_drain c) [] ?c \<or> dropped (acc @ data_of [event]) slow ?c"
    using assms(1) eq by (auto simp: steady_def exact_def dropped_def intro: prefix_prefix)
  ultimately show ?thesis using assms(1) eq by (simp add: steady_def)
qed

lemma enqueue_event_ok:
  assumes "resting acc slow c" "\<And>c. te_loop_send env c"
  shows "resting (acc @ accepted event c) slow (enqueue_pending_read_event env event c)"
proof -
  have d: "\<not> sc_detached c" using resting_shape [OF assms(1)] by (simp add: shape_def)
  show ?thesis
  proof (cases "transition_read_event_state (sc_event_state c) (read_event_kind event)")
    case None
    have "resting acc slow (c\<lparr>sc_read_pool := pool\<rparr>)" for pool
      using assms(1) by (simp add: resting_def shape_def exact_def dropped_def call_state_def received_def read_commands_def)
    then show ?thesis using None d assms(1) by (cases event) (simp_all add: accepted_def enqueue_pending_read_event_def release_event_def)
  next
    case (Some next_state)
    let ?c = "c\<lparr>sc_event_state := next_state, sc_pending_read_bytes := sc_pending_read_bytes c + event_len event, sc_events := sc_events c @ [event]\<rparr>"
    have 1: "steady (acc @ accepted event c) slow ?c"
      using steady_accept [OF _ Some] assms(1) Some by (simp add: resting_steady accepted_def)
    have "steady (acc @ accepted event c) slow (apply_pending_read_backpressure ?c)"
      by (rule steady_frame [OF 1 backpressure_effect]) (simp_all add: apply_pending_read_backpressure_def sc_update_def read_commands_def)
    then have "steady (acc @ accepted event c) slow (if event_len event > 0 then apply_pending_read_backpressure ?c else ?c)" using 1 by (cases "event_len event > 0") simp_all
    from steady_schedule [OF this assms(2)] show ?thesis using Some d by (simp add: enqueue_pending_read_event_def Let_def)
  qed
qed

lemma drain_ok:
  assumes "quiet_protocol pr" "takes_data pr" "slow = (\<not> pr_fast pr)" "\<And>c. te_loop_send env c" "resting acc slow c" "MStreamRead \<in> set (sc_commands c)"
  shows "\<exists>r c'. drain_pending_read_events_with_py env pr (c\<lparr>sc_commands := remove1 MStreamRead (sc_commands c)\<rparr>) = Some (r, c') \<and> resting acc slow c'"
proof -
  let ?c = "c\<lparr>sc_commands := remove1 MStreamRead (sc_commands c), sc_drain := []\<rparr>"
  have "read_commands c > 0" using assms(6) by (simp add: read_commands_def filter_empty_conv)
  then have n: "read_commands c = 1" "sc_read_scheduled c" using assms(5) by (auto simp: resting_def)
  moreover have "read_commands ?c = read_commands c - 1" using assms(6) by (simp add: read_commands_def filter_remove1 length_remove1)
  ultimately have "draining 0 acc slow (sc_drain c) None ?c"
    using assms(5) by (auto simp: resting_def draining_def shape_def exact_def dropped_def)
  moreover have "mode (pr_fast pr \<and> sc_callbacks c) slow None ?c" using assms(3) resting_shape [OF assms(5)] by (auto simp: mode_def shape_def)
  moreover have "sc_drain c = [] \<or> lost ?c" using assms(5) by (auto simp: resting_def)
  ultimately show ?thesis using drain_rounds_ok [OF assms(1-4)] by (simp add: drain_pending_read_events_with_py_def)
qed

lemma read_run_ok:
  assumes "quiet_protocol pr" "takes_data pr" "slow = (\<not> pr_fast pr)" "\<And>c. te_loop_send env c" "resting acc slow c"
  shows "\<exists>ds c'. read_run env pr ops c = Some (ds, c') \<and> resting (acc @ ds) slow c'"
  using assms(5)
proof (induction ops arbitrary: acc c)
  case Nil
  then show ?case by simp
next
  case (Cons op ops)
  have "\<exists>d c1. read_step env pr op c = Some (d, c1) \<and> resting (acc @ d) slow c1"
  proof (cases op)
    case (RArrive event)
    then show ?thesis using enqueue_event_ok [OF Cons.prems assms(4)] by (simp add: read_step_def)
  next
    case RDrain
    then show ?thesis using drain_ok [OF assms(1-4) Cons.prems] Cons.prems by (cases "MStreamRead \<in> set (sc_commands c)") (auto simp: read_step_def)
  qed
  then obtain d c1 where s: "read_step env pr op c = Some (d, c1)" "resting (acc @ d) slow c1" by blast
  then show ?case using Cons.IH [OF s(2)] by auto
qed

text \<open>C3. Reading. The threads that read queue events for the protocol (data, end of file, loss of the
  connection, pausing and resuming) in any interleaving with the drains that the loop runs. Whatever the
  order, with a protocol that takes what it is given and may close or abort the transport from any
  callback, every drain returns, and: the bytes the protocol has received are a prefix of the bytes the
  event gate accepted, and all of them except those still queued as long as the connection is open; the
  calls follow the gate's automaton (no data after end of file, nothing after the loss, which is reported
  at most once); the count of pending bytes is exact; and events that wait on a live connection always
  have exactly one drain on its way.
\<close>

theorem read_events_delivered_in_order:
  assumes "quiet_protocol pr" "takes_data pr" "\<forall>c. te_loop_send env c"
  shows "\<exists>acc c s. read_run env pr ops (new_stream_transport_core (stream_transport_state_parts config) direct lz server native) = Some (acc, c)
    \<and> prefix (received c) acc
    \<and> (\<not> lost c \<and> (is_closing c \<longrightarrow> pr_fast pr) \<longrightarrow> received c @ data_of (sc_events c) = acc)
    \<and> call_state c = Some s \<and> (lost c \<longleftrightarrow> s = READ_EVENT_LOST)
    \<and> sc_pending_read_bytes c = length (data_of (sc_drain c)) + length (data_of (sc_events c))
    \<and> (\<not> lost c \<and> sc_events c \<noteq> [] \<longrightarrow> sc_read_scheduled c \<and> read_commands c = 1)"
proof -
  let ?c = "new_stream_transport_core (stream_transport_state_parts config) direct lz server native" and ?slow = "\<not> pr_fast pr"
  have "resting [] ?slow ?c"
    by (simp add: resting_def shape_def exact_def new_stream_transport_core_def stream_transport_state_parts_def call_state_def received_def read_commands_def)
  then obtain acc c where r: "read_run env pr ops ?c = Some (acc, c)" "resting acc ?slow c"
    using read_run_ok [OF assms(1,2) refl] assms(3) by (metis append_Nil)
  obtain s where s: "call_state c = Some s" "lost c \<longleftrightarrow> s = READ_EVENT_LOST"
    using resting_shape [OF r(2)] by (cases "lost c") (auto simp: shape_def)
  have cl: "is_closing c = st_closing (sc_st c)" using resting_shape [OF r(2)] by (simp add: stream_flags_read shape_def)
  have "prefix (received c) acc" using r(2) exact_prefix by (auto simp: resting_def dropped_def)
  moreover have "received c @ data_of (sc_events c) = acc" if "\<not> lost c" "is_closing c \<longrightarrow> pr_fast pr"
    using r(2) that cl by (auto simp: resting_def dropped_def exact_def)
  moreover have "sc_pending_read_bytes c = length (data_of (sc_drain c)) + length (data_of (sc_events c))"
    using resting_shape [OF r(2)] by (simp add: shape_def)
  moreover have "sc_read_scheduled c \<and> read_commands c = 1" if "\<not> lost c" "sc_events c \<noteq> []" using r(2) that by (simp add: resting_def)
  ultimately show ?thesis using r(1) s by blast
qed

text \<open>A protocol that closes the transport when it gets a chunk that starts with 2.\<close>

definition demo_close :: "bytes \<Rightarrow> unit call" where
  "demo_close d c = (Inr (), if take 1 d = [2] then connection_lost demo_env None (set_closing c) else c)"

definition demo_protocol :: protocol_env where
  "demo_protocol = \<lparr>pr_fast = False, pr_feed = (\<lambda>_ c. (Inr (), c)), pr_feed_slice = (\<lambda>_ c. (Inr (), c)), pr_fast_eof = (\<lambda>c. (Inr True, c)), pr_fast_lost = (\<lambda>_ c. (Inr (), c)),
     pr_data_received = Some demo_close, pr_get_buffer = None, pr_buffer_updated = None, pr_eof_received = Some (\<lambda>c. (Inr True, c)),
     pr_connection_lost = (\<lambda>_ c. (Inr (), c)), pr_pause_writing = (\<lambda>c. (Inr (), c)), pr_resume_writing = (\<lambda>c. (Inr (), c)),
     pr_handler = (\<lambda>_ c. (Inr (), c)), pr_server_lost = id\<rparr>"

lemma abort_effect: "call_effect c (connection_lost env x (set_closing c))"
proof -
  let ?d = "set_closing c"
  have e: "call_effect ?d (connection_lost env x ?d)"
    by (simp add: connection_lost_def enqueue_pending_read_event_def schedule_read_drain_def release_event_def event_len_def kind_simps
        transition_read_event_state_def call_effect_def events_grow_def read_commands_def Let_def)
  show ?thesis by (rule call_effect_trans [OF frame_effects(5) e])
qed

lemma demo_protocol_quiet: "quiet_protocol demo_protocol" "takes_data demo_protocol"
  by (simp_all add: quiet_protocol_def takes_data_def demo_protocol_def demo_close_def abort_effect)

theorem read_events_delivered_in_order_witness:
  "quiet_protocol demo_protocol \<and> takes_data demo_protocol \<and> (\<forall>c. te_loop_send demo_env c) \<and>
   (\<exists>acc c s. read_run demo_env demo_protocol [RArrive (EData \<lparr>vec_cap = 1, vec_data = [1]\<rparr>), RDrain, RArrive (EData \<lparr>vec_cap = 1, vec_data = [2]\<rparr>),
       RArrive EEof, RDrain] (new_stream_transport_core (stream_transport_state_parts demo_config) True True False False) = Some (acc, c)
     \<and> prefix (received c) acc \<and> call_state c = Some s)"
proof -
  have "\<forall>c. te_loop_send demo_env c" by (simp add: demo_env_def)
  from read_events_delivered_in_order [OF demo_protocol_quiet this] demo_protocol_quiet this show ?thesis by blast
qed

subsection \<open>A delivery that fails\<close>

text \<open>A protocol whose \<open>data_received\<close> raises, and a transport on which \<open>n\<close> chunks of one byte wait.\<close>

definition raising_protocol :: protocol_env where
  "raising_protocol = demo_protocol\<lparr>pr_data_received := Some (\<lambda>_ c. (Inl ''ValueError'', c))\<rparr>"

abbreviation one_byte :: pending_read_event where
  "one_byte \<equiv> EData \<lparr>vec_cap = 1, vec_data = [1]\<rparr>"

definition waiting_core :: "nat \<Rightarrow> stream_core" where
  "waiting_core n = (new_stream_transport_core (stream_transport_state_parts demo_config) True True False False)
     \<lparr>sc_events := replicate n one_byte, sc_pending_read_bytes := n, sc_read_scheduled := True\<rparr>"

definition joining :: "stream_core \<Rightarrow> stream_core \<Rightarrow> bool" where
  "joining c c' \<longleftrightarrow> sc_state c' = sc_state c \<and> sc_events c' = sc_events c \<and> sc_calls c' = sc_calls c \<and> sc_callbacks c' = sc_callbacks c
     \<and> sc_detached c' = sc_detached c \<and> sc_commands c' = sc_commands c"

lemma joining_refl [simp]: "joining c c"
  by (simp add: joining_def)

lemma joining_frame:
  "\<not> st_read_backpressured (sc_st c) \<Longrightarrow> joining c (record_pending_read_drained n c)"
  "joining c (snd (extend_pending_data env d b c))" "joining c (c\<lparr>sc_read_pool := pool\<rparr>)" "joining c (drop_pending_data b c)"
  by (simp_all add: joining_def record_pending_read_drained_def Let_def extend_pending_data_def drop_pending_data_def split_beta)

lemma joining_trans: "joining a b \<Longrightarrow> joining b c \<Longrightarrow> joining a c"
  by (simp add: joining_def)

lemma first_chunk:
  assumes "\<not> st_read_backpressured (sc_st c)"
  shows "\<exists>c'. joining c c' \<and> drain_events env pr False (one_byte # rest) None 0 0 c = drain_events env pr False rest (Some (pb_from_pooled \<lparr>vec_cap = 1, vec_data = [1]\<rparr>)) 1 1 c'"
  using joining_frame(1) [OF assms, of 1]
  by (intro exI [of _ "record_pending_read_drained 1 c"])
    (simp add: drain_data_def drain_budget_def read_drain_budget_reached_def MAX_READ_EVENTS_PER_DRAIN_def MAX_READ_BYTES_PER_DRAIN_def)

lemma join_chunk:
  assumes "\<not> st_read_backpressured (sc_st c)" "vec_data (pb_bytes b) = replicate k 1" "k \<le> 20"
  shows "\<exists>b' c'. joining c c' \<and> vec_data (pb_bytes b') = replicate (Suc k) 1
    \<and> drain_events env pr False (one_byte # rest) (Some b) k k c
      = (case drain_budget env pr False (Suc k) (Suc k) rest (DGoOn (Some b'), c') of
           (DGoOn pending1, c2) \<Rightarrow> drain_events env pr False rest pending1 (Suc k) (Suc k) c2
         | (DReturn r rest1, c2) \<Rightarrow> ((DReturn r rest1, c2), Suc k, Suc k))"
proof -
  let ?c1 = "record_pending_read_drained 1 c"
  obtain b' c2 where x: "extend_pending_data env [1] b ?c1 = (b', c2)" by fastforce
  let ?c3 = "c2\<lparr>sc_read_pool := snd (rb_release \<lparr>vec_cap = 1, vec_data = [1]\<rparr> (sc_read_pool c2))\<rparr>"
  have "joining c ?c3" using joining_frame(1) [OF assms(1), of 1] joining_frame(2) [of ?c1 env "[1]" b] joining_frame(3) [of c2] x joining_trans by (metis snd_conv)
  moreover have "vec_data (pb_bytes b') = replicate (Suc k) 1"
    using extend_pending_bytes [of env "[1]" b ?c1] x assms(2) by (simp add: replicate_append_same)
  moreover have "can_coalesce_read_data k 1 MAX_PENDING_READ_COALESCE_BYTES"
    using assms(3) by (simp add: can_coalesce_read_data_def MAX_PENDING_READ_COALESCE_BYTES_def)
  then have "drain_data env pr False \<lparr>vec_cap = 1, vec_data = [1]\<rparr> rest (Some b) ?c1 = (DGoOn (Some b'), ?c3)"
    using x assms(2) by (simp add: drain_data_def)
  moreover obtain fl c4 where "drain_budget env pr False (Suc k) (Suc k) rest (DGoOn (Some b'), ?c3) = (fl, c4)" by fastforce
  ultimately show ?thesis by (intro exI [of _ b'] exI [of _ ?c3]) (cases fl; simp add: Let_def)
qed

lemma join_chunks:
  assumes "\<not> st_read_backpressured (sc_st c)" "k < 15"
  shows "\<exists>b c'. joining c c' \<and> vec_data (pb_bytes b) = replicate (Suc k) 1
    \<and> drain_events env pr False (replicate (Suc k) one_byte @ rest) None 0 0 c = drain_events env pr False rest (Some b) (Suc k) (Suc k) c'"
  using assms(2)
proof (induction k arbitrary: rest)
  case 0
  obtain c' where "joining c c'" "drain_events env pr False (one_byte # rest) None 0 0 c
    = drain_events env pr False rest (Some (pb_from_pooled \<lparr>vec_cap = 1, vec_data = [1]\<rparr>)) 1 1 c'"
    using first_chunk [OF assms(1)] by blast
  then show ?case by (intro exI [of _ "pb_from_pooled \<lparr>vec_cap = 1, vec_data = [1]\<rparr>"] exI [of _ c']) simp
next
  case (Suc k)
  obtain b c1 where 1: "joining c c1" "vec_data (pb_bytes b) = replicate (Suc k) 1"
      "drain_events env pr False (replicate (Suc k) one_byte @ one_byte # rest) None 0 0 c = drain_events env pr False (one_byte # rest) (Some b) (Suc k) (Suc k) c1"
    using Suc.IH [of "one_byte # rest"] Suc.prems by auto
  have "\<not> st_read_backpressured (sc_st c1)" using assms(1) 1(1) by (simp add: joining_def)
  then obtain b' c2 where 2: "joining c1 c2" "vec_data (pb_bytes b') = replicate (Suc (Suc k)) 1"
      "drain_events env pr False (one_byte # rest) (Some b) (Suc k) (Suc k) c1
      = (case drain_budget env pr False (Suc (Suc k)) (Suc (Suc k)) rest (DGoOn (Some b'), c2) of
           (DGoOn pending1, c2) \<Rightarrow> drain_events env pr False rest pending1 (Suc (Suc k)) (Suc (Suc k)) c2
         | (DReturn r rest1, c2) \<Rightarrow> ((DReturn r rest1, c2), Suc (Suc k), Suc (Suc k)))"
    using join_chunk [of c1 b "Suc k" env pr rest] 1(2) Suc.prems by auto
  have "drain_budget env pr False (Suc (Suc k)) (Suc (Suc k)) rest (DGoOn (Some b'), c2) = (DGoOn (Some b'), c2)"
    using Suc.prems by (simp add: drain_budget_def read_drain_budget_reached_def MAX_READ_EVENTS_PER_DRAIN_def MAX_READ_BYTES_PER_DRAIN_def)
  moreover have "replicate (Suc (Suc k)) one_byte @ rest = replicate (Suc k) one_byte @ one_byte # rest" by (simp add: replicate_app_Cons_same)
  ultimately show ?case using 1 2 joining_trans [OF 1(1) 2(1)] by (metis (no_types, lifting) case_prod_conv drain_flow.simps(5))
qed

lemma waiting_facts:
  "\<not> st_read_backpressured (sc_st (waiting_core n))" "sc_events (waiting_core n) = replicate n one_byte" "sc_drain (waiting_core n) = []"
  "sc_callbacks (waiting_core n)" "sc_calls (waiting_core n) = []" "\<not> lost (waiting_core n)" "\<not> st_closing (sc_st (waiting_core n))"
  "sc_coherent (waiting_core n)" "\<not> sc_detached (waiting_core n)" "sc_commands (waiting_core n) = []"
  by (simp_all add: waiting_core_def new_stream_transport_core_def stream_transport_state_parts_def)

lemma joined_chunks:
  assumes "sc_state c = sc_state (waiting_core n)" "0 < k" "k \<le> 15"
  shows "\<exists>b c'. joining c c' \<and> vec_data (pb_bytes b) = replicate k 1
    \<and> drain_events env pr False (replicate k one_byte @ rest) None 0 0 c = drain_events env pr False rest (Some b) k k c'"
proof -
  obtain j where j: "k = Suc j" using assms(2) by (cases k) auto
  have "\<not> st_read_backpressured (sc_st c)" using assms(1) waiting_facts(1) [of n] by simp
  from join_chunks [OF this, of j env pr rest] show ?thesis using assms(3) unfolding j by simp
qed

lemma raising_facts:
  "\<not> pr_fast raising_protocol" "pr_get_buffer raising_protocol = None" "pr_data_received raising_protocol = Some (\<lambda>_ c. (Inl ''ValueError'', c))"
  "pr_handler raising_protocol = (\<lambda>_ c. (Inr (), c))" "pr_connection_lost raising_protocol = (\<lambda>_ c. (Inr (), c))" "pr_server_lost raising_protocol = id"
  by (simp_all add: raising_protocol_def demo_protocol_def)

lemma raising_flush:
  assumes "sc_state c = sc_state (waiting_core n)" "sc_callbacks c"
  shows "\<exists>c'. flush_pending_data_with_py raising_protocol False (Some b) c = (Inl ''ValueError'', c') \<and> joining (log_call (CData (vec_data (pb_bytes b))) c) c'"
proof -
  have "\<not> is_closing_or_lost c" using assms waiting_facts(6-8) [of n] by (simp add: stream_flags_read)
  then show ?thesis using assms(2) joining_frame(4) raising_facts by (simp add: flush_pending_data_with_py_def data_received_slow_path_def)
qed

lemma raising_drain_starts:
  "drain_pending_read_events_with_py demo_env raising_protocol (waiting_core n)
    = drain_rounds demo_env raising_protocol False [] 0 0 (waiting_core n)"
proof -
  have e: "(waiting_core n)\<lparr>sc_drain := []\<rparr> = waiting_core n" by (simp add: waiting_core_def new_stream_transport_core_def)
  show ?thesis using raising_facts(1) unfolding drain_pending_read_events_with_py_def e waiting_facts(3) by simp
qed

lemma raising_within_budget:
  "\<exists>c. drain_pending_read_events_with_py demo_env raising_protocol (waiting_core 15) = Some (Inr (), c)
    \<and> lost c \<and> sc_calls c = [CData (replicate 15 1), CLost None]"
proof -
  let ?c = "(waiting_core 15)\<lparr>sc_events := []\<rparr>" and ?pr = raising_protocol
  obtain b c1 where d: "joining ?c c1" "vec_data (pb_bytes b) = replicate 15 1"
      "drain_events demo_env ?pr False (replicate 15 one_byte) None 0 0 ?c = ((DGoOn (Some b), c1), 15, 15)"
    using joined_chunks [where c = ?c and n = 15 and k = 15 and env = demo_env and pr = ?pr and rest = "[]"] by auto
  have c1: "sc_state c1 = sc_state (waiting_core 15)" "sc_callbacks c1" "sc_calls c1 = []" using d(1) waiting_facts [of 15] by (simp_all add: joining_def)
  obtain c2 where f: "flush_pending_data_with_py ?pr False (Some b) c1 = (Inl ''ValueError'', c2)" "joining (log_call (CData (replicate 15 1)) c1) c2"
    using raising_flush [OF c1(1,2), of b] d(2) by auto
  have c2: "\<not> lost c2" "\<not> sc_detached c2" "sc_callbacks c2" "sc_calls c2 = [CData (replicate 15 1)]"
    using f(2) c1 d(1) waiting_facts [of 15] by (simp_all add: joining_def)
  let ?c3 = "(abandon_reads ?pr ''ValueError'' c2)\<lparr>sc_drain := []\<rparr>"
  have "drain_rounds demo_env ?pr False [] 0 0 (waiting_core 15) = Some (Inr (), ?c3)"
    using d(3) f(1) waiting_facts(2) [of 15] by (subst drain_rounds.simps) simp
  moreover have "lost ?c3 \<and> sc_calls ?c3 = [CData (replicate 15 1), CLost None]"
    using c2 raising_facts by (simp add: abandon_reads_def report_error_with_py_def connection_lost_with_py_def release_direct_writer_def Let_def sc_update_def)
  ultimately show ?thesis unfolding raising_drain_starts by blast
qed

lemma raising_at_budget:
  "\<exists>c. drain_pending_read_events_with_py demo_env raising_protocol (waiting_core 17) = Some (Inl ''ValueError'', c)
    \<and> \<not> lost c \<and> \<not> is_closing c \<and> sc_calls c = [CData (replicate 16 1)] \<and> sc_events c = [one_byte] \<and> read_commands c = 1"
proof -
  let ?c = "(waiting_core 17)\<lparr>sc_events := []\<rparr>" and ?pr = raising_protocol
  have split: "replicate 17 one_byte = replicate 15 one_byte @ [one_byte, one_byte]" by (simp add: eval_nat_numeral)
  obtain b c1 where d: "joining ?c c1" "vec_data (pb_bytes b) = replicate 15 1"
      "drain_events demo_env ?pr False (replicate 17 one_byte) None 0 0 ?c = drain_events demo_env ?pr False [one_byte, one_byte] (Some b) 15 15 c1"
    using joined_chunks [where c = ?c and n = 17 and k = 15 and env = demo_env and pr = ?pr and rest = "[one_byte, one_byte]"] unfolding split by auto
  have "\<not> st_read_backpressured (sc_st c1)" using d(1) waiting_facts [of 17] by (simp add: joining_def)
  moreover have 16: "Suc 15 = 16" by simp
  ultimately
  obtain b' c2 where e: "joining c1 c2" "vec_data (pb_bytes b') = replicate 16 1"
      "drain_events demo_env ?pr False [one_byte, one_byte] (Some b) 15 15 c1
      = (case drain_budget demo_env ?pr False 16 16 [one_byte] (DGoOn (Some b'), c2) of
           (DGoOn pending1, c2) \<Rightarrow> drain_events demo_env ?pr False [one_byte] pending1 16 16 c2
         | (DReturn r rest1, c2) \<Rightarrow> ((DReturn r rest1, c2), 16, 16))"
    using join_chunk [of c1 b 15 demo_env ?pr "[one_byte]", unfolded 16] d(2) by (auto simp del: drain_events.simps)
  define c3 where "c3 = c2\<lparr>sc_events := [one_byte], sc_commands := [MStreamRead]\<rparr>"
  have c3: "sc_state c3 = sc_state (waiting_core 17)" "sc_callbacks c3" "sc_calls c3 = []" "sc_events c2 = []" "sc_commands c2 = []"
    using joining_trans [OF d(1) e(1)] waiting_facts [of 17] by (simp_all add: joining_def c3_def)
  obtain c4 where f: "flush_pending_data_with_py ?pr False (Some b') c3 = (Inl ''ValueError'', c4)" "joining (log_call (CData (replicate 16 1)) c3) c4"
    using raising_flush [OF c3(1,2), of b'] e(2) by auto
  have "drain_budget demo_env ?pr False 16 16 [one_byte] (DGoOn (Some b'), c2) = (DReturn (Inl ''ValueError'') [], c4)"
    using f(1) c3(4,5) unfolding c3_def
    by (simp add: drain_budget_def read_drain_budget_reached_def MAX_READ_EVENTS_PER_DRAIN_def reschedule_pending_read_events_def demo_env_def Let_def)
  then have "drain_rounds demo_env ?pr False [] 0 0 (waiting_core 17) = Some (Inl ''ValueError'', c4\<lparr>sc_drain := []\<rparr>)"
    using d(3) e(3) waiting_facts(2) [of 17] by (subst drain_rounds.simps) (simp del: drain_events.simps)
  moreover have "\<not> lost c4 \<and> \<not> is_closing (c4\<lparr>sc_drain := []\<rparr>) \<and> sc_calls c4 = [CData (replicate 16 1)] \<and> sc_events c4 = [one_byte] \<and> read_commands c4 = 1"
    using f(2) c3 waiting_facts [of 17] by (simp add: joining_def c3_def read_commands_def stream_flags_read log_call_def)
  ultimately show ?thesis unfolding raising_drain_starts by (intro exI [of _ "c4\<lparr>sc_drain := []\<rparr>"]) simp
qed

text \<open>C35. A defect of the read drain. An exception of \<open>data_received\<close> is reported and the connection is lost,
  except when the drain has used up its budget: sixteen chunks in one drain, with one more waiting, make
  the same exception leave the drain as its error, through \<open>?\<close>, to the event loop that called it; the
  connection stays open, is not closing, and the next drain delivers what follows.
\<close>

theorem failed_delivery_escapes_at_budget:
  "\<exists>c c'. drain_pending_read_events_with_py demo_env raising_protocol (waiting_core 15) = Some (Inr (), c)
    \<and> lost c \<and> sc_calls c = [CData (replicate 15 1), CLost None]
    \<and> drain_pending_read_events_with_py demo_env raising_protocol (waiting_core 17) = Some (Inl ''ValueError'', c')
    \<and> \<not> lost c' \<and> \<not> is_closing c' \<and> sc_calls c' = [CData (replicate 16 1)] \<and> sc_events c' = [one_byte] \<and> read_commands c' = 1"
  using raising_within_budget raising_at_budget by blast

end
