(* ===== verification/Read_Buffer.thy ===== *)
theory Read_Buffer
  imports Stream_Buffers "HOL-Library.Sublist"
begin

section \<open>The buffer of a stream reader and the search for separators (transport/stream/fast.rs)\<close>

text \<open>
  \<open>ReadBuffer\<close> is the sliding buffer of the native stream reader; a buffer it drops goes back to the
  pool of the transport when it came from there. \<open>UntilReadState\<close> is one \<open>readuntil\<close>: it looks for the
  earliest separator and remembers, over further arrivals, how far it has looked. The two searches of the
  memchr crate are parameters.
\<close>

subsection \<open>The sliding buffer\<close>

record read_buffer =
  sb_bytes :: owned_read_buffer
  sb_start :: nat
  sb_baseline_capacity :: nat
  sb_max_retained_capacity :: nat

abbreviation sb_vec :: "read_buffer \<Rightarrow> vec" where
  "sb_vec b \<equiv> or_bytes (sb_bytes b)"

definition sb_with_capacity :: "(nat \<Rightarrow> nat \<Rightarrow> nat) \<Rightarrow> nat \<Rightarrow> read_buffer" where
  "sb_with_capacity grow capacity =
     \<lparr>sb_bytes = or_with_capacity grow capacity, sb_start = 0, sb_baseline_capacity = capacity,
      sb_max_retained_capacity = MAX_STREAM_READ_BUFFER_SIZE\<rparr>"

definition sb_len :: "read_buffer \<Rightarrow> nat" where
  "sb_len b = length (vec_data (sb_vec b)) - sb_start b"

definition sb_is_empty :: "read_buffer \<Rightarrow> bool" where
  "sb_is_empty b \<longleftrightarrow> sb_len b = 0"

text \<open>The slice from the cursor, which \<open>sb_ok\<close> below keeps in range.\<close>

definition sb_unread :: "read_buffer \<Rightarrow> bytes" where
  "sb_unread b = drop (sb_start b) (vec_data (sb_vec b))"

definition compact_if_needed :: "(nat \<Rightarrow> nat \<Rightarrow> nat) \<Rightarrow> read_buffer \<times> read_buffer_pool \<Rightarrow> read_buffer \<times> read_buffer_pool" where
  "compact_if_needed grow s =
     (case s of (b, pool) \<Rightarrow>
        let len = length (vec_data (sb_vec b)) in
        if sb_start b = 0 then (b, pool)
        else if sb_start b = len then
          (if or_pool (sb_bytes b) then
             (b\<lparr>sb_bytes := or_with_capacity grow 0, sb_start := 0\<rparr>, read_buffer_drop (sb_bytes b) pool)
           else if vec_cap (sb_vec b) > sb_max_retained_capacity b then
             (b\<lparr>sb_bytes := or_with_capacity grow (sb_baseline_capacity b), sb_start := 0\<rparr>, read_buffer_drop (sb_bytes b) pool)
           else (b\<lparr>sb_bytes := (sb_bytes b)\<lparr>or_bytes := vec_clear (sb_vec b)\<rparr>, sb_start := 0\<rparr>, pool))
        else if sb_start b \<ge> 4096 \<and> sb_start b * 2 \<ge> len then
          (b\<lparr>sb_bytes := (sb_bytes b)\<lparr>or_bytes := (sb_vec b)\<lparr>vec_data := sb_unread b\<rparr>\<rparr>, sb_start := 0\<rparr>, pool)
        else (b, pool))"

definition sb_extend :: "(nat \<Rightarrow> nat \<Rightarrow> nat) \<Rightarrow> bytes \<Rightarrow> read_buffer \<times> read_buffer_pool \<Rightarrow> read_buffer \<times> read_buffer_pool" where
  "sb_extend grow data s =
     (if data = [] then s
      else
        (case (if length data > vec_cap (sb_vec (fst s)) - length (vec_data (sb_vec (fst s))) then compact_if_needed grow s else s) of
           (b, pool) \<Rightarrow> (b\<lparr>sb_bytes := (sb_bytes b)\<lparr>or_bytes := vec_extend grow data (sb_vec b)\<rparr>\<rparr>, pool)))"

text \<open>The buffer returned to the caller is dropped by it at once.\<close>

definition sb_extend_owned ::
    "(nat \<Rightarrow> nat \<Rightarrow> nat) \<Rightarrow> owned_read_buffer \<Rightarrow> read_buffer \<times> read_buffer_pool \<Rightarrow> read_buffer \<times> read_buffer_pool" where
  "sb_extend_owned grow data s =
     (case s of (b, pool) \<Rightarrow>
        if vec_data (or_bytes data) = [] then (b, read_buffer_drop data pool)
        else if sb_is_empty b then (b\<lparr>sb_bytes := data, sb_start := 0\<rparr>, read_buffer_drop (sb_bytes b) pool)
        else (case sb_extend grow (vec_data (or_bytes data)) (b, pool) of (b1, pool1) \<Rightarrow> (b1, read_buffer_drop data pool1)))"

text \<open>The sum saturates, above every length.\<close>

definition sb_consume :: "(nat \<Rightarrow> nat \<Rightarrow> nat) \<Rightarrow> nat \<Rightarrow> read_buffer \<times> read_buffer_pool \<Rightarrow> read_buffer \<times> read_buffer_pool" where
  "sb_consume grow n s =
     (case s of (b, pool) \<Rightarrow>
        let len = length (vec_data (sb_vec b)); b1 = b\<lparr>sb_start := min (sb_start b + n) len\<rparr>
        in if sb_start b1 = len then compact_if_needed grow (b1, pool) else (b1, pool))"

definition sb_consume_all :: "(nat \<Rightarrow> nat \<Rightarrow> nat) \<Rightarrow> read_buffer \<times> read_buffer_pool \<Rightarrow> read_buffer \<times> read_buffer_pool" where
  "sb_consume_all grow s =
     (case s of (b, pool) \<Rightarrow> compact_if_needed grow (b\<lparr>sb_start := length (vec_data (sb_vec b))\<rparr>, pool))"

definition sb_prepend :: "(nat \<Rightarrow> nat \<Rightarrow> nat) \<Rightarrow> bytes \<Rightarrow> read_buffer \<times> read_buffer_pool \<Rightarrow> read_buffer \<times> read_buffer_pool" where
  "sb_prepend grow data s =
     (case s of (b, pool) \<Rightarrow>
        if data = [] then s
        else
          let fresh = or_with_capacity grow (length data + sb_len b);
              bytes = fresh\<lparr>or_bytes := vec_extend grow (sb_unread b) (vec_extend grow data (or_bytes fresh))\<rparr>
          in (b\<lparr>sb_bytes := bytes, sb_start := 0\<rparr>, read_buffer_drop (sb_bytes b) pool))"

definition sb_replace :: "(nat \<Rightarrow> nat \<Rightarrow> nat) \<Rightarrow> bytes \<Rightarrow> read_buffer \<Rightarrow> read_buffer" where
  "sb_replace grow data b =
     b\<lparr>sb_bytes := (sb_bytes b)\<lparr>or_bytes := vec_extend grow data (vec_clear (sb_vec b))\<rparr>, sb_start := 0\<rparr>"

subsection \<open>Searching\<close>

record search_env =
  se_memchr :: "8 word \<Rightarrow> bytes \<Rightarrow> nat option"
  se_memmem :: "bytes \<Rightarrow> bytes \<Rightarrow> nat option"

definition find_from :: "search_env \<Rightarrow> bytes \<Rightarrow> bytes \<Rightarrow> nat \<Rightarrow> nat option" where
  "find_from se haystack needle start =
     (if start > length haystack then None
      else
        let hay = drop start haystack;
            found = (case needle of
                       [] \<Rightarrow> Some 0
                     | [byte] \<Rightarrow> se_memchr se byte hay
                     | _ \<Rightarrow> se_memmem se hay needle)
        in map_option (\<lambda>index. index + start) found)"

datatype until_scan = SFound nat nat | SNeedMore | SOverLimit nat

definition is_pending :: "bool \<Rightarrow> until_scan \<Rightarrow> bool" where
  "is_pending eof s \<longleftrightarrow> s = SNeedMore \<and> \<not> eof"

definition INLINE_SEPARATOR_LEN :: nat where "INLINE_SEPARATOR_LEN = 8"

datatype separators = Inline bytes nat | Heap "bytes list"

definition single :: "bytes \<Rightarrow> separators" where
  "single b =
     (if length b > INLINE_SEPARATOR_LEN then Heap [b]
      else Inline (b @ replicate (INLINE_SEPARATOR_LEN - length b) 0) (length b))"

definition from_list :: "bytes list \<Rightarrow> separators" where
  "from_list l = (case l of [only] \<Rightarrow> single only | _ \<Rightarrow> Heap l)"

definition sort_by_length :: "separators \<Rightarrow> separators" where
  "sort_by_length s = (case s of Heap l \<Rightarrow> Heap (sort_key length l) | _ \<Rightarrow> s)"

definition shortest :: "separators \<Rightarrow> bytes option" where
  "shortest s = (case s of Inline b len \<Rightarrow> Some (take len b) | Heap [] \<Rightarrow> None | Heap (x # _) \<Rightarrow> Some x)"

definition longest_len :: "separators \<Rightarrow> nat" where
  "longest_len s = (case s of Inline _ len \<Rightarrow> len | Heap l \<Rightarrow> if l = [] then 0 else length (last l))"

definition separator_match_replaces :: "(nat \<times> nat) option \<Rightarrow> nat \<Rightarrow> bool" where
  "separator_match_replaces best candidate_end \<longleftrightarrow> (case best of None \<Rightarrow> True | Some (_, best_end) \<Rightarrow> candidate_end < best_end)"

record until_state =
  us_separators :: separators
  us_min_seplen :: nat
  us_max_seplen :: nat
  us_offset :: nat
  us_line_mode :: bool

definition until_new :: "separators \<Rightarrow> bool \<Rightarrow> string + until_state" where
  "until_new seps line_mode =
     (let seps1 = sort_by_length seps in
      case shortest seps1 of
        None \<Rightarrow> Inl ''Separator should contain at least one element''
      | Some x \<Rightarrow>
          if length x = 0 then Inl ''Separator should be at least one-byte string''
          else Inr \<lparr>us_separators = seps1, us_min_seplen = length x, us_max_seplen = longest_len seps1, us_offset = 0, us_line_mode = line_mode\<rparr>)"

definition consider_separator :: "search_env \<Rightarrow> bytes \<Rightarrow> nat \<Rightarrow> bytes \<Rightarrow> (nat \<times> nat) option \<Rightarrow> (nat \<times> nat) option" where
  "consider_separator se buffer offset separator best =
     (case find_from se buffer separator offset of
        None \<Rightarrow> best
      | Some match_start \<Rightarrow>
          let match_end = match_start + length separator
          in if separator_match_replaces best match_end then Some (match_start, match_end) else best)"

definition scan :: "search_env \<Rightarrow> bytes \<Rightarrow> nat \<Rightarrow> until_state \<Rightarrow> until_scan \<times> until_state" where
  "scan se buffer limit s =
     (let buflen = length buffer in
      if buflen - us_offset s < us_min_seplen s then (SNeedMore, s)
      else
        let best = (case us_separators s of
                      Inline b len \<Rightarrow> consider_separator se buffer (us_offset s) (take len b) None
                    | Heap l \<Rightarrow> fold (consider_separator se buffer (us_offset s)) l None)
        in (case best of
              Some (match_start, match_end) \<Rightarrow> (SFound match_start match_end, s)
            | None \<Rightarrow>
                let s1 = s\<lparr>us_offset := buflen + 1 - us_max_seplen s\<rparr>
                in if us_offset s1 > limit then (SOverLimit (us_offset s1), s1) else (SNeedMore, s1)))"

subsection \<open>The buffer is a list of bytes\<close>

text \<open>The cursor is in range, and a buffer of the pool is held only while it has unread bytes.\<close>

definition sb_ok :: "read_buffer \<Rightarrow> bool" where
  "sb_ok b \<longleftrightarrow> sb_start b \<le> length (vec_data (sb_vec b)) \<and> (or_pool (sb_bytes b) \<longrightarrow> sb_start b < length (vec_data (sb_vec b)))"

lemma sb_len_unread: "sb_len b = length (sb_unread b)"
  by (simp add: sb_len_def sb_unread_def)

lemma sb_is_empty_unread: "sb_is_empty b \<longleftrightarrow> sb_unread b = []"
  by (simp add: sb_is_empty_def sb_len_unread)

lemma sb_new_ok: "sb_ok (sb_with_capacity grow n)" "sb_unread (sb_with_capacity grow n) = []"
  by (simp_all add: sb_ok_def sb_with_capacity_def or_with_capacity_def sb_unread_def)

lemma compact_ok:
  assumes "sb_start b \<le> length (vec_data (sb_vec b))" "or_pool (sb_bytes b) \<longrightarrow> vec_data (sb_vec b) \<noteq> []"
  shows "case compact_if_needed grow (b, pool) of (b', pool') \<Rightarrow> sb_unread b' = sb_unread b \<and> sb_ok b'"
  using assms by (simp add: compact_if_needed_def sb_unread_def sb_ok_def or_with_capacity_def Let_def)

lemma sb_extend_ok:
  assumes "sb_ok b"
  shows "case sb_extend grow data (b, pool) of (b', pool') \<Rightarrow> sb_unread b' = sb_unread b @ data \<and> sb_ok b'"
proof (cases "data = []")
  case False
  obtain b1 pool1 where s: "(if length data > vec_cap (sb_vec b) - length (vec_data (sb_vec b)) then compact_if_needed grow (b, pool) else (b, pool)) = (b1, pool1)"
    by fastforce
  have "or_pool (sb_bytes b) \<longrightarrow> vec_data (sb_vec b) \<noteq> []" using assms by (auto simp: sb_ok_def)
  then have "sb_unread b1 = sb_unread b \<and> sb_ok b1"
    using compact_ok [where b = b and grow = grow and pool = pool] assms s by (auto simp: sb_ok_def split: if_splits)
  then show ?thesis using False s by (auto simp: sb_extend_def sb_unread_def sb_ok_def)
qed (use assms in \<open>simp add: sb_extend_def\<close>)

lemma sb_extend_owned_ok:
  assumes "sb_ok b"
  shows "case sb_extend_owned grow data (b, pool) of (b', pool') \<Rightarrow> sb_unread b' = sb_unread b @ vec_data (or_bytes data) \<and> sb_ok b'"
proof -
  obtain b1 pool1 where "sb_extend grow (vec_data (or_bytes data)) (b, pool) = (b1, pool1)" by fastforce
  then show ?thesis
    using sb_extend_ok [OF assms, where grow = grow and data = "vec_data (or_bytes data)" and pool = pool] assms
    by (auto simp: sb_extend_owned_def sb_is_empty_unread) (simp_all add: sb_unread_def sb_ok_def)
qed

lemma sb_consume_ok:
  assumes "sb_ok b"
  shows "case sb_consume grow n (b, pool) of (b', pool') \<Rightarrow> sb_unread b' = drop n (sb_unread b) \<and> sb_ok b'"
proof -
  let ?b = "b\<lparr>sb_start := min (sb_start b + n) (length (vec_data (sb_vec b)))\<rparr>"
  have u: "sb_unread ?b = drop n (sb_unread b)" by (simp add: sb_unread_def min_def add.commute)
  have "or_pool (sb_bytes b) \<longrightarrow> vec_data (sb_vec b) \<noteq> []" using assms by (auto simp: sb_ok_def)
  then have "case compact_if_needed grow (?b, pool) of (b', pool') \<Rightarrow> sb_unread b' = sb_unread ?b \<and> sb_ok b'" by (intro compact_ok) simp_all
  then show ?thesis using u assms by (auto simp: sb_consume_def Let_def sb_ok_def)
qed

lemma sb_consume_all_ok:
  assumes "sb_ok b"
  shows "case sb_consume_all grow (b, pool) of (b', pool') \<Rightarrow> sb_unread b' = [] \<and> sb_ok b'"
proof -
  let ?b = "b\<lparr>sb_start := length (vec_data (sb_vec b))\<rparr>"
  have "or_pool (sb_bytes b) \<longrightarrow> vec_data (sb_vec b) \<noteq> []" using assms by (auto simp: sb_ok_def)
  then have "case compact_if_needed grow (?b, pool) of (b', pool') \<Rightarrow> sb_unread b' = sb_unread ?b \<and> sb_ok b'" by (intro compact_ok) simp_all
  then show ?thesis by (auto simp: sb_consume_all_def sb_unread_def)
qed

lemma sb_prepend_ok:
  assumes "sb_ok b"
  shows "case sb_prepend grow data (b, pool) of (b', pool') \<Rightarrow> sb_unread b' = data @ sb_unread b \<and> sb_ok b'"
  using assms by (auto simp: sb_prepend_def Let_def sb_ok_def or_with_capacity_def) (simp_all add: sb_unread_def)

subsection \<open>What the search finds\<close>

definition occurs :: "bytes \<Rightarrow> nat \<Rightarrow> bytes \<Rightarrow> bool" where
  "occurs sep i b \<longleftrightarrow> i + length sep \<le> length b \<and> take (length sep) (drop i b) = sep"

text \<open>The documented behaviour of the two searches: the first occurrence.\<close>

definition first_occurrence :: "bytes \<Rightarrow> bytes \<Rightarrow> nat option \<Rightarrow> bool" where
  "first_occurrence sep b r \<longleftrightarrow>
     (case r of None \<Rightarrow> \<forall>i. \<not> occurs sep i b | Some i \<Rightarrow> occurs sep i b \<and> (\<forall>j<i. \<not> occurs sep j b))"

definition search_ok :: "search_env \<Rightarrow> bool" where
  "search_ok se \<longleftrightarrow> (\<forall>x b. first_occurrence [x] b (se_memchr se x b)) \<and> (\<forall>sep b. first_occurrence sep b (se_memmem se b sep))"

lemma occurs_drop: "n \<le> length b \<Longrightarrow> occurs sep i (drop n b) = occurs sep (i + n) b"
  by (auto simp: occurs_def add.commute)

lemma occurs_append: "i + length sep \<le> length b \<Longrightarrow> occurs sep i (b @ c) = occurs sep i b"
  by (simp add: occurs_def)

lemma find_from_ok:
  assumes "search_ok se" "sep \<noteq> []"
  shows "case find_from se b sep n of
      None \<Rightarrow> \<forall>i\<ge>n. \<not> occurs sep i b
    | Some i \<Rightarrow> n \<le> i \<and> occurs sep i b \<and> (\<forall>j. n \<le> j \<and> j < i \<longrightarrow> \<not> occurs sep j b)"
proof (cases "length b < n")
  case True
  then show ?thesis by (auto simp: find_from_def occurs_def)
next
  case False
  let ?hay = "drop n b" and ?found = "case sep of [] \<Rightarrow> Some 0 | [x] \<Rightarrow> se_memchr se x (drop n b) | _ \<Rightarrow> se_memmem se (drop n b) sep"
  have f: "first_occurrence sep ?hay ?found"
    using assms by (cases sep) (auto simp: search_ok_def split: list.splits)
  have shift: "occurs sep i ?hay = occurs sep (i + n) b" for i using False by (simp add: occurs_drop)
  have e: "find_from se b sep n = map_option (\<lambda>i. i + n) ?found" using False by (simp add: find_from_def Let_def)
  show ?thesis
  proof (cases ?found)
    case None
    have "\<not> occurs sep i b" if "n \<le> i" for i using f None shift [of "i - n"] that by (simp add: first_occurrence_def)
    then show ?thesis using e None by simp
  next
    case (Some k)
    have "occurs sep (k + n) b" using f Some shift by (simp add: first_occurrence_def)
    moreover have "\<not> occurs sep j b" if "n \<le> j" "j < k + n" for j
    proof -
      have "j - n < k" "j - n + n = j" using that by auto
      then show ?thesis using f Some shift [of "j - n"] by (simp add: first_occurrence_def)
    qed
    ultimately show ?thesis using e Some by simp
  qed
qed

subsection \<open>The scan finds the earliest separator\<close>

definition seps_of :: "separators \<Rightarrow> bytes list" where
  "seps_of s = (case s of Inline b len \<Rightarrow> [take len b] | Heap l \<Rightarrow> l)"

text \<open>Of the separators that occur, the one that ends first; of those that end there, the shortest.\<close>

definition earliest :: "bytes list \<Rightarrow> bytes \<Rightarrow> nat \<Rightarrow> nat \<Rightarrow> bool" where
  "earliest seps b s e \<longleftrightarrow> (\<exists>sep\<in>set seps. occurs sep s b \<and> e = s + length sep)
     \<and> (\<forall>sep\<in>set seps. \<forall>i. occurs sep i b \<longrightarrow> e < i + length sep \<or> e = i + length sep \<and> i \<le> s)"

definition absent :: "bytes list \<Rightarrow> bytes \<Rightarrow> bool" where
  "absent seps b \<longleftrightarrow> (\<forall>sep\<in>set seps. \<forall>i. \<not> occurs sep i b)"

definition best_from :: "bytes list \<Rightarrow> bytes \<Rightarrow> nat \<Rightarrow> (nat \<times> nat) option \<Rightarrow> bool" where
  "best_from seps b n r \<longleftrightarrow>
     (case r of
        None \<Rightarrow> \<forall>sep\<in>set seps. \<forall>i\<ge>n. \<not> occurs sep i b
      | Some (s, e) \<Rightarrow> (\<exists>sep\<in>set seps. occurs sep s b \<and> n \<le> s \<and> e = s + length sep)
          \<and> (\<forall>sep\<in>set seps. \<forall>i\<ge>n. occurs sep i b \<longrightarrow> e < i + length sep \<or> e = i + length sep \<and> i \<le> s))"

lemma best_from_step:
  assumes "search_ok se" "x \<noteq> []" "\<forall>sep\<in>set seps. length sep \<le> length x" "best_from seps b n r"
  shows "best_from (seps @ [x]) b n (consider_separator se b n x r)"
proof (cases "find_from se b x n")
  case None
  have "\<forall>i\<ge>n. \<not> occurs x i b" using find_from_ok [OF assms(1,2), where b = b and n = n] None by simp
  then have "best_from (seps @ [x]) b n r" using assms(4) by (cases r) (auto simp: best_from_def)
  then show ?thesis using None by (simp add: consider_separator_def)
next
  case (Some k)
  have k: "n \<le> k" "occurs x k b" "\<And>j. n \<le> j \<Longrightarrow> j < k \<Longrightarrow> \<not> occurs x j b" using find_from_ok [OF assms(1,2), where b = b and n = n] Some by auto
  have x: "k \<le> i" if "n \<le> i" "occurs x i b" for i using k(3) that by (meson not_le)
  show ?thesis
  proof (cases r)
    case None
    then show ?thesis using assms(4) Some k x by (force simp: consider_separator_def separator_match_replaces_def best_from_def)
  next
    case (Some p)
    obtain s e where p: "p = (s, e)" by fastforce
    obtain sep where sep: "sep \<in> set seps" "occurs sep s b" "n \<le> s" "e = s + length sep" using assms(4) Some p by (auto simp: best_from_def)
    have all: "e < i + length sep' \<or> e = i + length sep' \<and> i \<le> s" if "sep' \<in> set seps" "n \<le> i" "occurs sep' i b" for sep' i
      using assms(4) Some p that by (auto simp: best_from_def)
    show ?thesis
    proof (cases "k + length x < e")
      case True
      have "k + length x < i + length sep' \<or> k + length x = i + length sep' \<and> i \<le> k" if "sep' \<in> set seps \<or> sep' = x" "n \<le> i" "occurs sep' i b" for sep' i
        using that
      proof (elim disjE)
        assume "sep' \<in> set seps"
        then show ?thesis using all [of sep' i] that True by linarith
      next
        assume "sep' = x"
        then have "k \<le> i" using x that by blast
        then show ?thesis using \<open>sep' = x\<close> by auto
      qed
      then have "\<forall>sep'\<in>set (seps @ [x]). \<forall>i\<ge>n. occurs sep' i b \<longrightarrow> k + length x < i + length sep' \<or> k + length x = i + length sep' \<and> i \<le> k"
        unfolding set_append list.set by blast
      then have "best_from (seps @ [x]) b n (Some (k, k + length x))"
        unfolding best_from_def option.case prod.case using k(1,2) by (intro conjI bexI [of _ x]) simp_all
      then show ?thesis using True Some p \<open>find_from se b x n = Some k\<close> by (simp add: consider_separator_def separator_match_replaces_def)
    next
      case False
      have "e < i + length sep' \<or> e = i + length sep' \<and> i \<le> s" if "sep' \<in> set seps \<or> sep' = x" "n \<le> i" "occurs sep' i b" for sep' i
        using that
      proof (elim disjE)
        assume "sep' = x"
        then have "k \<le> i" using x that by blast
        moreover have "length sep \<le> length x" using assms(3) sep(1) by blast
        ultimately show ?thesis using False sep(4) unfolding \<open>sep' = x\<close> by linarith
      qed (use all in blast)
      then show ?thesis using False Some p sep \<open>find_from se b x n = Some k\<close>
        by (auto simp: consider_separator_def separator_match_replaces_def best_from_def)
    qed
  qed
qed

lemma best_from_fold:
  assumes "search_ok se" "\<forall>sep\<in>set seps. sep \<noteq> []" "sorted (map length seps)"
  shows "best_from seps b n (fold (consider_separator se b n) seps None)"
  using assms(2,3)
proof (induction seps rule: rev_induct)
  case Nil
  then show ?case by (simp add: best_from_def)
next
  case (snoc x seps)
  have "best_from seps b n (fold (consider_separator se b n) seps None)" using snoc by (simp add: sorted_append)
  moreover have "\<forall>sep\<in>set seps. length sep \<le> length x" using snoc.prems(2) by (simp add: sorted_append)
  ultimately show ?case using best_from_step [OF assms(1)] snoc.prems(1) by simp
qed

text \<open>A scan in progress: no separator begins before the offset.\<close>

definition until_ok :: "bytes list \<Rightarrow> until_state \<Rightarrow> bytes \<Rightarrow> bool" where
  "until_ok seps st b \<longleftrightarrow> seps_of (us_separators st) = seps \<and> sorted (map length seps) \<and> seps \<noteq> [] \<and> (\<forall>sep\<in>set seps. sep \<noteq> [])
     \<and> us_min_seplen st = length (hd seps) \<and> us_max_seplen st = length (last seps)
     \<and> (\<forall>sep\<in>set seps. \<forall>i<us_offset st. i + length sep \<le> length b \<and> \<not> occurs sep i b)"

lemma until_ok_append: "until_ok seps st b \<Longrightarrow> until_ok seps st (b @ c)"
  by (auto simp: until_ok_def occurs_append intro: trans_le_add1)

lemma sorted_length_bounds:
  assumes "sorted (map length seps)" "sep \<in> set seps"
  shows "length (hd seps) \<le> length sep" "length sep \<le> length (last seps)"
proof -
  show "length (hd seps) \<le> length sep" using assms by (cases seps) auto
  show "length sep \<le> length (last seps)" using assms by (cases seps rule: rev_cases) (auto simp: sorted_append)
qed

lemma seps_of_from_list: "seps_of (from_list seps) = seps"
  by (cases seps rule: remdups_adj.cases) (simp_all add: from_list_def single_def seps_of_def)

lemma until_new_ok:
  assumes "until_new (from_list seps) line_mode = Inr st"
  shows "until_ok (sort_key length seps) st b" "us_line_mode st = line_mode" "us_offset st = 0"
proof -
  let ?s = "sort_by_length (from_list seps)"
  have wf: "?s = Heap (sort_key length seps) \<or> (\<exists>x. ?s = Inline (x @ replicate (INLINE_SEPARATOR_LEN - length x) 0) (length x) \<and> seps = [x])"
    by (cases seps rule: remdups_adj.cases) (simp_all add: from_list_def single_def sort_by_length_def)
  have new: "shortest ?s \<noteq> None" "length (the (shortest ?s)) \<noteq> 0"
      "st = \<lparr>us_separators = ?s, us_min_seplen = length (the (shortest ?s)), us_max_seplen = longest_len ?s, us_offset = 0, us_line_mode = line_mode\<rparr>"
    using assms by (auto simp: until_new_def Let_def split: option.splits if_splits)
  have s: "seps_of ?s = sort_key length seps \<and> sort_key length seps \<noteq> [] \<and> the (shortest ?s) = hd (sort_key length seps) \<and> longest_len ?s = length (last (sort_key length seps))"
    using wf
  proof (elim disjE exE conjE)
    assume h: "?s = Heap (sort_key length seps)"
    have ne: "sort_key length seps \<noteq> []" using new(1) h by (auto simp: shortest_def split: list.splits)
    then have "the (shortest ?s) = hd (sort_key length seps)" using h by (auto simp: shortest_def split: list.splits)
    then show ?thesis using h ne by (simp add: seps_of_def longest_len_def)
  next
    fix x assume "?s = Inline (x @ replicate (INLINE_SEPARATOR_LEN - length x) 0) (length x)" "seps = [x]"
    then show ?thesis by (simp add: seps_of_def shortest_def longest_len_def)
  qed
  have sorted: "sorted (map length (sort_key length seps))" by (rule sorted_sort_key)
  have "sep \<noteq> []" if "sep \<in> set (sort_key length seps)" for sep
    using sorted_length_bounds(1) [OF sorted that] new(2) s by auto
  then show "until_ok (sort_key length seps) st b" "us_line_mode st = line_mode" "us_offset st = 0"
    using new(3) s sorted by (auto simp: until_ok_def)
qed

lemma scan_best: "(case us_separators s of Inline b len \<Rightarrow> consider_separator se buffer n (take len b) None
    | Heap l \<Rightarrow> fold (consider_separator se buffer n) l None) = fold (consider_separator se buffer n) (seps_of (us_separators s)) None"
  by (simp add: seps_of_def split: separators.split)

lemma scan_ok:
  assumes "search_ok se" "until_ok seps st b"
  shows "case scan se b limit st of
      (SFound s e, st') \<Rightarrow> earliest seps b s e \<and> st' = st
    | (SNeedMore, st') \<Rightarrow> absent seps b \<and> until_ok seps st' b \<and> us_line_mode st' = us_line_mode st
    | (SOverLimit n, st') \<Rightarrow> absent seps b \<and> n = length b + 1 - length (last seps) \<and> limit < n"
proof -
  let ?n = "us_offset st" and ?r = "fold (consider_separator se b (us_offset st)) seps None"
  have st: "seps_of (us_separators st) = seps" "sorted (map length seps)" "seps \<noteq> []" "\<forall>sep\<in>set seps. sep \<noteq> []"
      "us_min_seplen st = length (hd seps)" "us_max_seplen st = length (last seps)"
    and early: "\<And>sep i. sep \<in> set seps \<Longrightarrow> i < ?n \<Longrightarrow> \<not> occurs sep i b"
    using assms(2) by (auto simp: until_ok_def)
  have best: "best_from seps b ?n ?r" by (rule best_from_fold [OF assms(1) st(4,2)])
  have none: "absent seps b" if "\<And>sep i. sep \<in> set seps \<Longrightarrow> ?n \<le> i \<Longrightarrow> \<not> occurs sep i b"
    using that early by (meson absent_def not_le)
  show ?thesis
  proof (cases "length b - ?n < us_min_seplen st")
    case True
    have "\<not> occurs sep i b" if "sep \<in> set seps" "?n \<le> i" for sep i
      using sorted_length_bounds(1) [OF st(2) that(1)] st(4,5) that True by (auto simp: occurs_def)
    then show ?thesis using True none assms(2) by (simp add: scan_def)
  next
    case False
    show ?thesis
    proof (cases ?r)
      case None
      then have a: "absent seps b" using best none by (auto simp: best_from_def)
      let ?st = "st\<lparr>us_offset := length b + 1 - us_max_seplen st\<rparr>"
      have "i + length sep \<le> length b" if "sep \<in> set seps" "i < us_offset ?st" for sep i
        using sorted_length_bounds(2) [OF st(2) that(1)] that(2) st(6) by simp
      then have "until_ok seps ?st b" using assms(2) a by (auto simp: until_ok_def absent_def)
      then show ?thesis using False None a st(1,6) by (simp add: scan_def scan_best Let_def)
    next
      case (Some p)
      obtain s e where p: "p = (s, e)" by fastforce
      have "earliest seps b s e" using best Some p early unfolding best_from_def earliest_def by (simp, meson not_le)
      then show ?thesis using False Some p st(1) by (simp add: scan_def scan_best Let_def)
    qed
  qed
qed

text \<open>One \<open>readuntil\<close> over arriving chunks, until its scan settles.\<close>

fun scan_feeds :: "search_env \<Rightarrow> nat \<Rightarrow> until_state \<Rightarrow> bytes \<Rightarrow> bytes list \<Rightarrow> until_scan \<times> bytes" where
  "scan_feeds se limit st b [] = (fst (scan se b limit st), b)"
| "scan_feeds se limit st b (c # cs) =
     (case scan se b limit st of
        (SNeedMore, st1) \<Rightarrow> scan_feeds se limit st1 (b @ c) cs
      | (r, _) \<Rightarrow> (r, b))"

lemma scan_feeds_ok:
  assumes "search_ok se" "until_ok seps st b"
  shows "case scan_feeds se limit st b cs of
      (SFound s e, b') \<Rightarrow> prefix b' (b @ concat cs) \<and> earliest seps b' s e
    | (SNeedMore, b') \<Rightarrow> b' = b @ concat cs \<and> absent seps b'
    | (SOverLimit n, b') \<Rightarrow> prefix b' (b @ concat cs) \<and> absent seps b' \<and> n = length b' + 1 - length (last seps) \<and> limit < n"
  using assms(2)
proof (induction cs arbitrary: st b)
  case Nil
  obtain r st1 where "scan se b limit st = (r, st1)" by fastforce
  then show ?case using scan_ok [OF assms(1) Nil, of limit] by (cases r) simp_all
next
  case (Cons c cs)
  obtain r st1 where s: "scan se b limit st = (r, st1)" by fastforce
  show ?case
  proof (cases r)
    case SNeedMore
    then have "until_ok seps st1 (b @ c)" using scan_ok [OF assms(1) Cons.prems, of limit] s until_ok_append by simp
    from Cons.IH [OF this] show ?thesis using SNeedMore s unfolding concat.simps append_assoc by simp
  qed (use scan_ok [OF assms(1) Cons.prems, of limit] s in simp_all)
qed

text \<open>C15. \<open>readuntil\<close>. For any non-empty list of non-empty separators and any way the bytes arrive in
  chunks, the scan that carries its offset from chunk to chunk settles on what one look at the whole
  buffer would find: the separator that ends first, the shortest one where several end there; it asks
  for more only while no separator is in the buffer, and reports an overrun only when none is and the
  part that cannot begin one is longer than the limit.\<close>

theorem incremental_scan_finds_earliest:
  assumes "search_ok se" "until_new (from_list seps) line_mode = Inr st"
  shows "case scan_feeds se limit st b cs of
      (SFound s e, b') \<Rightarrow> prefix b' (b @ concat cs) \<and> earliest seps b' s e
    | (SNeedMore, b') \<Rightarrow> b' = b @ concat cs \<and> absent seps b'
    | (SOverLimit n, b') \<Rightarrow> prefix b' (b @ concat cs) \<and> absent seps b' \<and> n = length b' + 1 - length (last (sort_key length seps)) \<and> limit < n"
proof -
  have e: "earliest (sort_key length seps) = earliest seps" "absent (sort_key length seps) = absent seps"
    by (simp_all add: fun_eq_iff earliest_def absent_def)
  show ?thesis using scan_feeds_ok [OF assms(1) until_new_ok(1) [OF assms(2)], where limit = limit and b = b and cs = cs] unfolding e .
qed

definition ref_find :: "bytes \<Rightarrow> bytes \<Rightarrow> nat option" where
  "ref_find sep b = List.find (\<lambda>i. occurs sep i b) [0..<Suc (length b)]"

definition ref_search :: search_env where
  "ref_search = \<lparr>se_memchr = (\<lambda>x b. ref_find [x] b), se_memmem = (\<lambda>b sep. ref_find sep b)\<rparr>"

lemma ref_search_ok: "search_ok ref_search"
proof -
  have "first_occurrence sep b (ref_find sep b)" for sep b
  proof (cases "ref_find sep b")
    case None
    then have "\<not> occurs sep i b" if "i \<le> length b" for i using that by (auto simp: ref_find_def find_None_iff less_Suc_eq_le simp del: upt_Suc)
    then show ?thesis using None by (auto simp: first_occurrence_def occurs_def)
  next
    case (Some i)
    then obtain k where k: "k < Suc (length b)" "i = [0..<Suc (length b)] ! k" "occurs sep ([0..<Suc (length b)] ! k) b"
        "\<forall>j<k. \<not> occurs sep ([0..<Suc (length b)] ! j) b" by (auto simp: ref_find_def find_Some_iff simp del: upt_Suc)
    then have "occurs sep i b" "\<forall>j<i. \<not> occurs sep j b" by (auto simp del: upt_Suc)
    then show ?thesis using Some by (simp add: first_occurrence_def)
  qed
  then show ?thesis by (simp add: search_ok_def ref_search_def)
qed

theorem incremental_scan_finds_earliest_witness:
  "\<exists>st. until_new (from_list [[13, 10], [10]]) False = Inr st
    \<and> scan_feeds ref_search 100 st [65, 13] [[10, 66]] = (SFound 2 3, [65, 13, 10, 66]) \<and> earliest [[13, 10], [10]] [65, 13, 10, 66] 2 3"
proof -
  define st where "st = \<lparr>us_separators = Heap [[10], [13, 10]], us_min_seplen = 1, us_max_seplen = 2, us_offset = 0, us_line_mode = False\<rparr>"
  have n: "until_new (from_list [[13, 10], [10]]) False = Inr st"
    by (simp add: until_new_def from_list_def sort_by_length_def shortest_def longest_len_def st_def)
  have "scan_feeds ref_search 100 st [65, 13] [[10, 66]] = (SFound 2 3, [65, 13, 10, 66])"
    unfolding st_def by code_simp
  then show ?thesis using incremental_scan_finds_earliest [OF ref_search_ok n, where limit = 100 and b = "[65, 13]" and cs = "[[10, 66]]"] n by auto
qed

end
