(* ===== verification/Stream_Reader.thy ===== *)
theory Stream_Reader
  imports Read_Buffer
begin

section \<open>The native stream reader and its protocol (transport/stream/fast.rs)\<close>

text \<open>
  \<open>PyFastStreamReader\<close> with its reads (\<open>read\<close>, \<open>readexactly\<close>, \<open>readuntil\<close>, \<open>readline\<close>), the feeds of the
  transport, cancellation, and pausing of the transport; and \<open>PyFastStreamProtocol\<close> with its drain waiters.
  Futures are numbered; the list of their states is the loop's. A method borrows the reader exclusively,
  so that nothing the called Python code does can reach it. \<open>fr_out\<close> records, in order, what the callers
  got: it is not part of the program.
\<close>

subsection \<open>Futures and errors\<close>

datatype rd_error =
    EIncomplete bytes "nat option"
  | ELimitOverrun string nat
  | EValueError string
  | EOverflow
  | EMemory
  | EConnectionReset
  | EInvalidState
  | EPanic
  | EPython string

datatype fut = FPending | FResult bytes | FNone | FException rd_error | FCancelled

datatype out = OValue bytes | OFuture nat fut | ODiscard bytes

datatype pause_result = POk | PNotImplemented | PRaise rd_error

subsection \<open>The reader\<close>

datatype read_wait_kind = WAny nat | WExact nat | WAll | WUntil

text \<open>The initialised prefix of the bytes object that is being filled.\<close>

record exact_read =
  ea_data :: bytes
  ea_expected :: nat

record read_waiter =
  rw_future :: nat
  rw_kind :: read_wait_kind
  rw_exact :: "exact_read option"
  rw_until :: "until_state option"

record fast_reader =
  fr_limit :: nat
  fr_buffer :: read_buffer
  fr_pool :: read_buffer_pool
  fr_waiter :: "read_waiter option"
  fr_transport :: bool
  fr_paused :: bool
  fr_eof :: bool
  fr_exception :: "rd_error option"
  fr_futures :: "fut list"
  fr_out :: "out list"

text \<open>
  What the reader calls: the growth of a vector, the two searches, the allocation of a bytes object, and
  the transport's \<open>pause_reading\<close> and \<open>resume_reading\<close>.
\<close>

record reader_env =
  re_grow :: "nat \<Rightarrow> nat \<Rightarrow> nat"
  re_search :: search_env
  re_alloc :: "nat \<Rightarrow> bool"
  re_pause :: "fast_reader \<Rightarrow> pause_result"
  re_resume :: "fast_reader \<Rightarrow> rd_error option"

type_synonym 'a rd = "fast_reader \<Rightarrow> (rd_error + 'a) \<times> fast_reader"

text \<open>The \<open>?\<close> operator.\<close>

definition rd_bind :: "'a rd \<Rightarrow> ('a \<Rightarrow> 'b rd) \<Rightarrow> 'b rd" where
  "rd_bind m f r = (case m r of (Inl e, r1) \<Rightarrow> (Inl e, r1) | (Inr x, r1) \<Rightarrow> f x r1)"

definition reader_new :: "reader_env \<Rightarrow> nat \<Rightarrow> rd_error + fast_reader" where
  "reader_new env limit =
     (if limit = 0 then Inl (EValueError ''Limit cannot be <= 0'')
      else Inr \<lparr>fr_limit = limit, fr_buffer = sb_with_capacity (re_grow env) (min limit 4096), fr_pool = read_buffer_pool_new,
                fr_waiter = None, fr_transport = False, fr_paused = False, fr_eof = False, fr_exception = None,
                fr_futures = [], fr_out = []\<rparr>)"

definition on_buffer :: "(read_buffer \<times> read_buffer_pool \<Rightarrow> read_buffer \<times> read_buffer_pool) \<Rightarrow> fast_reader \<Rightarrow> fast_reader" where
  "on_buffer f r = (case f (fr_buffer r, fr_pool r) of (b, pool) \<Rightarrow> r\<lparr>fr_buffer := b, fr_pool := pool\<rparr>)"

definition create_future :: "nat rd" where
  "create_future r = (Inr (length (fr_futures r)), r\<lparr>fr_futures := fr_futures r @ [FPending]\<rparr>)"

text \<open>\<open>set_result\<close> and \<open>set_exception\<close> of a future.\<close>

definition future_set :: "nat \<Rightarrow> fut \<Rightarrow> unit rd" where
  "future_set i v r =
     (if i < length (fr_futures r) \<and> fr_futures r ! i = FPending
      then (Inr (), r\<lparr>fr_futures := (fr_futures r)[i := v], fr_out := fr_out r @ [OFuture i v]\<rparr>)
      else (Inl EInvalidState, r))"

definition future_cancelled :: "nat \<Rightarrow> fast_reader \<Rightarrow> bool" where
  "future_cancelled i r \<longleftrightarrow> i < length (fr_futures r) \<and> fr_futures r ! i = FCancelled"

definition set_future_or_ignore_cancelled :: "nat \<Rightarrow> fut \<Rightarrow> unit rd" where
  "set_future_or_ignore_cancelled i v r =
     (case future_set i v r of
        (Inr _, r1) \<Rightarrow> (Inr (), r1)
      | (Inl err, r1) \<Rightarrow> if future_cancelled i r1 then (Inr (), r1) else (Inl err, r1))"

subsection \<open>Pausing the transport\<close>

definition maybe_resume_transport :: "reader_env \<Rightarrow> unit rd" where
  "maybe_resume_transport env r =
     (if fr_paused r \<and> sb_len (fr_buffer r) \<le> fr_limit r \<and> fr_transport r
      then let r1 = r\<lparr>fr_paused := False\<rparr> in (case re_resume env r1 of Some err \<Rightarrow> (Inl err, r1) | None \<Rightarrow> (Inr (), r1))
      else (Inr (), r))"

text \<open>The product wraps in a release build.\<close>

definition maybe_pause_transport :: "reader_env \<Rightarrow> unit rd" where
  "maybe_pause_transport env r =
     (if fr_waiter r = None \<and> fr_transport r \<and> \<not> fr_paused r \<and> sb_len (fr_buffer r) > (2 * fr_limit r) mod 2 ^ 64
      then
        (case re_pause env r of
           POk \<Rightarrow> (Inr (), r\<lparr>fr_paused := True\<rparr>)
         | PNotImplemented \<Rightarrow> (Inr (), r\<lparr>fr_transport := False\<rparr>)
         | PRaise err \<Rightarrow> (Inl err, r))
      else (Inr (), r))"

definition clear_cancelled_waiter :: "reader_env \<Rightarrow> unit rd" where
  "clear_cancelled_waiter env r =
     (case fr_waiter r of
        None \<Rightarrow> (Inr (), r)
      | Some waiter \<Rightarrow>
          if \<not> future_cancelled (rw_future waiter) r then (Inr (), r)
          else
            let r1 = r\<lparr>fr_waiter := None\<rparr>;
                r2 = (case rw_exact waiter of Some exact \<Rightarrow> on_buffer (sb_prepend (re_grow env) (ea_data exact)) r1 | None \<Rightarrow> r1)
            in maybe_pause_transport env r2)"

subsection \<open>Taking data\<close>

definition ready_result_awaitable :: "bytes \<Rightarrow> fast_reader \<Rightarrow> fast_reader" where
  "ready_result_awaitable value r = r\<lparr>fr_out := fr_out r @ [OValue value]\<rparr>"

definition ready_exception_future :: "rd_error \<Rightarrow> unit rd" where
  "ready_exception_future exc = rd_bind create_future (\<lambda>future. future_set future (FException exc))"

definition unread_bytes_object :: "reader_env \<Rightarrow> nat \<Rightarrow> fast_reader \<Rightarrow> bytes \<times> fast_reader" where
  "unread_bytes_object env n r =
     (let len = min (sb_len (fr_buffer r)) n
      in (take len (sb_unread (fr_buffer r)), on_buffer (sb_consume (re_grow env) len) r))"

definition unread_all_bytes_object :: "reader_env \<Rightarrow> fast_reader \<Rightarrow> bytes \<times> fast_reader" where
  "unread_all_bytes_object env r = (sb_unread (fr_buffer r), on_buffer (sb_consume_all (re_grow env)) r)"

definition exact_fill_amount :: "nat \<Rightarrow> nat \<Rightarrow> nat \<Rightarrow> nat" where
  "exact_fill_amount buffer_len filled expected = min buffer_len (expected - filled)"

definition exact_new :: "reader_env \<Rightarrow> nat \<Rightarrow> rd_error + exact_read" where
  "exact_new env expected =
     (if expected > 2 ^ 63 - 1 then Inl EOverflow
      else if \<not> re_alloc env expected then Inl EMemory
      else Inr \<lparr>ea_data = [], ea_expected = expected\<rparr>)"

definition fill_from_slice :: "bytes \<Rightarrow> exact_read \<Rightarrow> nat \<times> exact_read" where
  "fill_from_slice data exact =
     (let amount = exact_fill_amount (length data) (length (ea_data exact)) (ea_expected exact)
      in (amount, exact\<lparr>ea_data := ea_data exact @ take amount data\<rparr>))"

text \<open>\<open>fill_from\<close> on the waiter's accumulator, if it has one.\<close>

definition fill_waiter :: "reader_env \<Rightarrow> fast_reader \<Rightarrow> fast_reader" where
  "fill_waiter env r =
     (case fr_waiter r of
        Some waiter \<Rightarrow>
          (case rw_exact waiter of
             Some exact \<Rightarrow>
               (case fill_from_slice (sb_unread (fr_buffer r)) exact of
                  (amount, exact1) \<Rightarrow> on_buffer (sb_consume (re_grow env) amount) (r\<lparr>fr_waiter := Some (waiter\<lparr>rw_exact := Some exact1\<rparr>)\<rparr>))
           | None \<Rightarrow> r)
      | None \<Rightarrow> r)"

subsection \<open>Resolving a search\<close>

definition until_limit_overrun :: "reader_env \<Rightarrow> string \<Rightarrow> nat \<Rightarrow> bool \<Rightarrow> fut rd" where
  "until_limit_overrun env message consumed line_mode r =
     (if \<not> line_mode then (Inr (FException (ELimitOverrun message consumed)), r)
      else
        let unread = sb_unread (fr_buffer r);
            newline = (length unread > consumed \<and> unread ! consumed = 10);
            r1 = (if newline then on_buffer (sb_consume (re_grow env) (consumed + 1)) r else on_buffer (sb_consume_all (re_grow env)) r);
            r2 = r1\<lparr>fr_out := fr_out r1 @ [ODiscard (if newline then take (consumed + 1) unread else unread)]\<rparr>
        in rd_bind (maybe_resume_transport env) (\<lambda>_ r. (Inr (FException (EValueError message)), r)) r2)"

definition resolve_until_scan :: "reader_env \<Rightarrow> until_scan \<Rightarrow> bool \<Rightarrow> fut rd" where
  "resolve_until_scan env s line_mode r =
     (case s of
        SFound match_start match_end \<Rightarrow>
          if match_start > fr_limit r
          then until_limit_overrun env ''Separator is found, but chunk is longer than limit'' match_start line_mode r
          else
            let value = take match_end (sb_unread (fr_buffer r));
                r1 = on_buffer (sb_consume (re_grow env) match_end) r
            in rd_bind (maybe_resume_transport env) (\<lambda>_ r. (Inr (FResult value), r)) r1
      | SOverLimit consumed \<Rightarrow>
          until_limit_overrun env ''Separator is not found, and chunk exceed the limit'' consumed line_mode r
      | SNeedMore \<Rightarrow>
          (case unread_all_bytes_object env r of
             (partial, r1) \<Rightarrow>
               if line_mode then (Inr (FResult partial), r1) else (Inr (FException (EIncomplete partial None)), r1)))"

subsection \<open>Completing a waiter\<close>

definition complete_any :: "reader_env \<Rightarrow> nat \<Rightarrow> nat \<Rightarrow> unit rd" where
  "complete_any env future n r =
     (if sb_is_empty (fr_buffer r) \<and> \<not> fr_eof r then (Inr (), r)
      else
        (case unread_bytes_object env n (r\<lparr>fr_waiter := None\<rparr>) of
           (data, r1) \<Rightarrow> rd_bind (maybe_resume_transport env) (\<lambda>_. set_future_or_ignore_cancelled future (FResult data)) r1))"

definition complete_exact :: "reader_env \<Rightarrow> nat \<Rightarrow> nat \<Rightarrow> read_waiter \<Rightarrow> unit rd" where
  "complete_exact env future n waiter r =
     (case rw_exact waiter of
        None \<Rightarrow> (Inl EPanic, r)
      | Some exact \<Rightarrow>
          if length (ea_data exact) \<ge> n
          then rd_bind (maybe_resume_transport env) (\<lambda>_. set_future_or_ignore_cancelled future (FResult (ea_data exact))) (r\<lparr>fr_waiter := None\<rparr>)
          else if \<not> fr_eof r then (Inr (), r)
          else set_future_or_ignore_cancelled future (FException (EIncomplete (ea_data exact) (Some n))) (r\<lparr>fr_waiter := None\<rparr>))"

definition complete_all :: "reader_env \<Rightarrow> nat \<Rightarrow> unit rd" where
  "complete_all env future r =
     (if \<not> fr_eof r then (Inr (), r)
      else
        (case unread_all_bytes_object env (r\<lparr>fr_waiter := None\<rparr>) of
           (data, r1) \<Rightarrow> set_future_or_ignore_cancelled future (FResult data) r1))"

definition complete_until :: "reader_env \<Rightarrow> nat \<Rightarrow> read_waiter \<Rightarrow> unit rd" where
  "complete_until env future waiter r =
     (case rw_until waiter of
        None \<Rightarrow> (Inr (), r)
      | Some state \<Rightarrow>
          (case scan (re_search env) (sb_unread (fr_buffer r)) (fr_limit r) state of
             (found, state1) \<Rightarrow>
               if is_pending (fr_eof r) found then (Inr (), r\<lparr>fr_waiter := Some (waiter\<lparr>rw_until := Some state1\<rparr>)\<rparr>)
               else
                 rd_bind (resolve_until_scan env found (us_line_mode state1)) (\<lambda>outcome. set_future_or_ignore_cancelled future outcome)
                   (r\<lparr>fr_waiter := None\<rparr>)))"

definition complete_kind :: "reader_env \<Rightarrow> unit rd" where
  "complete_kind env r =
     (case fr_waiter r of
        None \<Rightarrow> (Inr (), r)
      | Some waiter \<Rightarrow>
          let future = rw_future waiter in
          (case rw_kind waiter of
             WAny n \<Rightarrow> complete_any env future n r
           | WExact n \<Rightarrow> complete_exact env future n waiter r
           | WAll \<Rightarrow> complete_all env future r
           | WUntil \<Rightarrow> complete_until env future waiter r))"

definition maybe_complete_waiter :: "reader_env \<Rightarrow> unit rd" where
  "maybe_complete_waiter env =
     rd_bind (clear_cancelled_waiter env) (\<lambda>_ r.
       case fr_waiter r of
         None \<Rightarrow> (Inr (), r)
       | Some waiter \<Rightarrow>
           (case fr_exception r of
              Some exc \<Rightarrow> set_future_or_ignore_cancelled (rw_future waiter) (FException exc) (r\<lparr>fr_waiter := None\<rparr>)
            | None \<Rightarrow> complete_kind env (fill_waiter env r)))"

definition start_waiter :: "reader_env \<Rightarrow> string \<Rightarrow> read_wait_kind \<Rightarrow> until_state option \<Rightarrow> unit rd" where
  "start_waiter env func_name kind until r =
     (if fr_waiter r \<noteq> None then (Inl (EValueError func_name), r)
      else
        rd_bind (\<lambda>r. if fr_paused r \<and> fr_transport r
                     then let r1 = r\<lparr>fr_paused := False\<rparr> in (case re_resume env r1 of Some err \<Rightarrow> (Inl err, r1) | None \<Rightarrow> (Inr (), r1))
                     else (Inr (), r))
          (\<lambda>_. rd_bind create_future (\<lambda>future r.
             case (case kind of WExact expected \<Rightarrow> map_sum id Some (exact_new env expected) | _ \<Rightarrow> Inr None) of
               Inl err \<Rightarrow> (Inl err, r)
             | Inr exact \<Rightarrow>
                 (Inr (), fill_waiter env (r\<lparr>fr_waiter := Some \<lparr>rw_future = future, rw_kind = kind, rw_exact = exact, rw_until = until\<rparr>\<rparr>)))) r)"

subsection \<open>Feeding\<close>

definition set_transport_obj :: "reader_env \<Rightarrow> bool \<Rightarrow> unit rd" where
  "set_transport_obj env transport r = maybe_resume_transport env (r\<lparr>fr_transport := transport\<rparr>)"

definition fill_exact_from_incoming :: "reader_env \<Rightarrow> bytes \<Rightarrow> nat rd" where
  "fill_exact_from_incoming env data =
     rd_bind (clear_cancelled_waiter env) (\<lambda>_ r.
       case fr_waiter r of
         Some waiter \<Rightarrow>
           (case rw_exact waiter of
              Some exact \<Rightarrow>
                if fr_exception r = None \<and> sb_is_empty (fr_buffer r)
                then (case fill_from_slice data exact of
                        (amount, exact1) \<Rightarrow> (Inr amount, r\<lparr>fr_waiter := Some (waiter\<lparr>rw_exact := Some exact1\<rparr>)\<rparr>))
                else (Inr 0, r)
            | None \<Rightarrow> (Inr 0, r))
       | None \<Rightarrow> (Inr 0, r))"

definition feed_data_internal :: "reader_env \<Rightarrow> bytes \<Rightarrow> unit rd" where
  "feed_data_internal env data r =
     (if fr_eof r then (Inl (EValueError ''feed_data after feed_eof''), r)
      else
        rd_bind (fill_exact_from_incoming env data)
          (\<lambda>consumed r1. rd_bind (maybe_complete_waiter env) (\<lambda>_. maybe_pause_transport env)
             (on_buffer (sb_extend (re_grow env) (drop consumed data)) r1)) r)"

text \<open>A buffer of the pool goes back when the call is over, unless the reader has taken it.\<close>

definition drop_into_pool :: "vec \<Rightarrow> fast_reader \<Rightarrow> fast_reader" where
  "drop_into_pool v r = r\<lparr>fr_pool := read_buffer_drop (or_from_pooled v) (fr_pool r)\<rparr>"

definition feed_owned_data_internal :: "reader_env \<Rightarrow> vec \<Rightarrow> unit rd" where
  "feed_owned_data_internal env v r =
     (if fr_eof r then (Inl (EValueError ''feed_data after feed_eof''), drop_into_pool v r)
      else
        (case fill_exact_from_incoming env (vec_data v) r of
           (Inl err, r1) \<Rightarrow> (Inl err, drop_into_pool v r1)
         | (Inr consumed, r1) \<Rightarrow>
             let finish = rd_bind (maybe_complete_waiter env) (\<lambda>_. maybe_pause_transport env) in
             if consumed = 0 then finish (on_buffer (sb_extend_owned (re_grow env) (or_from_pooled v)) r1)
             else (case finish (on_buffer (sb_extend (re_grow env) (drop consumed (vec_data v))) r1) of (x, r2) \<Rightarrow> (x, drop_into_pool v r2))))"

definition feed_eof_internal :: "reader_env \<Rightarrow> unit rd" where
  "feed_eof_internal env r = maybe_complete_waiter env (r\<lparr>fr_eof := True\<rparr>)"

definition set_exception_internal :: "reader_env \<Rightarrow> rd_error \<Rightarrow> unit rd" where
  "set_exception_internal env exc r = maybe_complete_waiter env (r\<lparr>fr_exception := Some exc\<rparr>)"

definition reader_waiter_done :: "reader_env \<Rightarrow> nat \<Rightarrow> unit rd" where
  "reader_waiter_done env future r =
     (case fr_waiter r of
        Some waiter \<Rightarrow> if rw_future waiter = future then clear_cancelled_waiter env r else (Inr (), r)
      | None \<Rightarrow> (Inr (), r))"

definition at_eof :: "fast_reader \<Rightarrow> bool" where
  "at_eof r \<longleftrightarrow> fr_eof r \<and> sb_is_empty (fr_buffer r)"

subsection \<open>Reading\<close>

text \<open>A result that is there already, after the transport was perhaps resumed.\<close>

definition ready_bytes :: "reader_env \<Rightarrow> nat \<Rightarrow> unit rd" where
  "ready_bytes env n r =
     (case unread_bytes_object env n r of
        (data, r1) \<Rightarrow> rd_bind (maybe_resume_transport env) (\<lambda>_ r. (Inr (), ready_result_awaitable data r)) r1)"

definition build_read_future :: "reader_env \<Rightarrow> int \<Rightarrow> unit rd" where
  "build_read_future env n =
     rd_bind (clear_cancelled_waiter env) (\<lambda>_ r.
       case fr_exception r of
         Some exc \<Rightarrow> ready_exception_future exc r
       | None \<Rightarrow>
           if n = 0 then (Inr (), ready_result_awaitable [] r)
           else if n < 0 then
             (if fr_eof r then (case unread_all_bytes_object env r of (data, r1) \<Rightarrow> (Inr (), ready_result_awaitable data r1))
              else start_waiter env ''read'' WAll None r)
           else if \<not> sb_is_empty (fr_buffer r) \<or> fr_eof r then ready_bytes env (nat n) r
           else start_waiter env ''read'' (WAny (nat n)) None r)"

definition build_readexactly_future :: "reader_env \<Rightarrow> nat \<Rightarrow> unit rd" where
  "build_readexactly_future env n =
     rd_bind (clear_cancelled_waiter env) (\<lambda>_ r.
       case fr_exception r of
         Some exc \<Rightarrow> ready_exception_future exc r
       | None \<Rightarrow>
           if n = 0 then (Inr (), ready_result_awaitable [] r)
           else if sb_len (fr_buffer r) \<ge> n then ready_bytes env n r
           else if fr_eof r then
             ready_exception_future (EIncomplete (sb_unread (fr_buffer r)) (Some n)) (on_buffer (sb_consume_all (re_grow env)) r)
           else start_waiter env ''readexactly'' (WExact n) None r)"

definition build_until_future :: "reader_env \<Rightarrow> string \<Rightarrow> until_state \<Rightarrow> unit rd" where
  "build_until_future env func_name state r =
     (case fr_exception r of
        Some exc \<Rightarrow> ready_exception_future exc r
      | None \<Rightarrow>
          rd_bind (clear_cancelled_waiter env) (\<lambda>_ r.
            case scan (re_search env) (sb_unread (fr_buffer r)) (fr_limit r) state of
              (found, state1) \<Rightarrow>
                if is_pending (fr_eof r) found then start_waiter env func_name WUntil (Some state1) r
                else
                  rd_bind (resolve_until_scan env found (us_line_mode state1))
                    (\<lambda>outcome r. case outcome of
                       FException exc \<Rightarrow> ready_exception_future exc r
                     | FResult value \<Rightarrow> (Inr (), ready_result_awaitable value r)
                     | _ \<Rightarrow> (Inl EPanic, r)) r) r)"

definition readexactly :: "reader_env \<Rightarrow> int \<Rightarrow> unit rd" where
  "readexactly env n r =
     (if n < 0 then ready_exception_future (EValueError ''readexactly size can not be less than zero'') r
      else if n \<ge> 2 ^ 64 then (Inl EOverflow, r)
      else build_readexactly_future env (nat n) r)"

definition readuntil :: "reader_env \<Rightarrow> bytes list \<Rightarrow> unit rd" where
  "readuntil env seps r =
     (case until_new (from_list seps) False of
        Inl err \<Rightarrow> ready_exception_future (EValueError err) r
      | Inr state \<Rightarrow> build_until_future env ''readuntil'' state r)"

definition readline :: "reader_env \<Rightarrow> unit rd" where
  "readline env r =
     (case until_new (single [10]) True of
        Inl err \<Rightarrow> (Inl (EValueError err), r)
      | Inr state \<Rightarrow> build_until_future env ''readline'' state r)"

subsection \<open>The protocol\<close>

text \<open>Its futures are numbered apart from those of the reader.\<close>

record fast_protocol =
  fp_reader :: fast_reader
  fp_paused :: bool
  fp_drain_waiters :: "nat list"
  fp_connection_lost :: bool
  fp_over_ssl :: bool
  fp_transport :: bool
  fp_closed :: nat
  fp_ready_none :: nat
  fp_futures :: "fut list"

type_synonym 'a fp = "fast_protocol \<Rightarrow> (rd_error + 'a) \<times> fast_protocol"

definition on_reader :: "'a rd \<Rightarrow> 'a fp" where
  "on_reader f p = (case f (fp_reader p) of (x, r) \<Rightarrow> (x, p\<lparr>fp_reader := r\<rparr>))"

definition fp_bind :: "'a fp \<Rightarrow> ('a \<Rightarrow> 'b fp) \<Rightarrow> 'b fp" where
  "fp_bind m f p = (case m p of (Inl e, p1) \<Rightarrow> (Inl e, p1) | (Inr x, p1) \<Rightarrow> f x p1)"

definition fp_create_future :: "nat fp" where
  "fp_create_future p = (Inr (length (fp_futures p)), p\<lparr>fp_futures := fp_futures p @ [FPending]\<rparr>)"

definition fp_future_set :: "nat \<Rightarrow> fut \<Rightarrow> unit fp" where
  "fp_future_set i v p =
     (if i < length (fp_futures p) \<and> fp_futures p ! i = FPending then (Inr (), p\<lparr>fp_futures := (fp_futures p)[i := v]\<rparr>)
      else (Inl EInvalidState, p))"

definition future_done :: "nat \<Rightarrow> fast_protocol \<Rightarrow> bool" where
  "future_done i p \<longleftrightarrow> i < length (fp_futures p) \<and> fp_futures p ! i \<noteq> FPending"

definition protocol_new :: "fast_reader \<Rightarrow> fast_protocol" where
  "protocol_new r =
     \<lparr>fp_reader = r, fp_paused = False, fp_drain_waiters = [], fp_connection_lost = False, fp_over_ssl = False, fp_transport = False,
      fp_closed = 0, fp_ready_none = 1, fp_futures = [FPending, FNone]\<rparr>"

definition push_drain_waiter :: "nat fp" where
  "push_drain_waiter =
     fp_bind fp_create_future (\<lambda>future p. (Inr future, p\<lparr>fp_drain_waiters := fp_drain_waiters p @ [future]\<rparr>))"

text \<open>\<open>drain(..)\<close> empties the list even when an error leaves the loop.\<close>

fun resolve_each :: "fut \<Rightarrow> nat list \<Rightarrow> unit fp" where
  "resolve_each v [] p = (Inr (), p)"
| "resolve_each v (i # is) p =
     (if future_done i p then resolve_each v is p else fp_bind (fp_future_set i v) (\<lambda>_. resolve_each v is) p)"

definition resolve_drain_waiters :: "rd_error option \<Rightarrow> unit fp" where
  "resolve_drain_waiters exc p =
     resolve_each (case exc of Some e \<Rightarrow> FException e | None \<Rightarrow> FNone) (fp_drain_waiters p) (p\<lparr>fp_drain_waiters := []\<rparr>)"

text \<open>The future a drain returns.\<close>

definition fp_exception_future :: "rd_error \<Rightarrow> nat fp" where
  "fp_exception_future exc =
     fp_bind fp_create_future (\<lambda>future. fp_bind (fp_future_set future (FException exc)) (\<lambda>_ p. (Inr future, p)))"

definition build_drain_future :: "rd_error option \<Rightarrow> nat fp" where
  "build_drain_future reader_exception p =
     (case reader_exception of
        Some exc \<Rightarrow> fp_exception_future exc p
      | None \<Rightarrow>
          if fp_connection_lost p then fp_exception_future EConnectionReset p
          else if \<not> fp_paused p then (Inr (fp_ready_none p), p)
          else push_drain_waiter p)"

definition drain_waiter_done :: "nat \<Rightarrow> fast_protocol \<Rightarrow> fast_protocol" where
  "drain_waiter_done future p = p\<lparr>fp_drain_waiters := filter (\<lambda>i. i \<noteq> future) (fp_drain_waiters p)\<rparr>"

text \<open>\<open>PyFastStreamWriter.drain\<close>; on a closing transport it returns a coroutine that drains later (\<open>None\<close>).\<close>

definition writer_drain :: "bool \<Rightarrow> nat option fp" where
  "writer_drain closing p =
     (let reader_exception = fr_exception (fp_reader p)
      in if reader_exception = None \<and> closing then (Inr None, p)
         else fp_bind (build_drain_future reader_exception) (\<lambda>future p. (Inr (Some future), p)) p)"

text \<open>The part of \<open>handle_connection_made\<close> before the application's callback runs; \<open>None\<close> asks for an abort.\<close>

definition handle_connection_made :: "reader_env \<Rightarrow> bool \<Rightarrow> bool option fp" where
  "handle_connection_made env over_ssl p =
     (if fp_connection_lost p then (Inr None, p)
      else
        let replacing_transport = fp_transport p; p1 = p\<lparr>fp_over_ssl := over_ssl, fp_transport := True\<rparr>
        in fp_bind (on_reader (set_transport_obj env True)) (\<lambda>_ p. (Inr (Some (\<not> replacing_transport)), p)) p1)"

definition settle_closed :: "fut \<Rightarrow> unit fp" where
  "settle_closed v p = (if future_done (fp_closed p) p then (Inr (), p) else fp_future_set (fp_closed p) v p)"

definition handle_connection_lost :: "reader_env \<Rightarrow> rd_error option \<Rightarrow> unit fp" where
  "handle_connection_lost env exc p =
     (let p1 = p\<lparr>fp_connection_lost := True\<rparr>;
          settle =
            (case exc of
               Some e \<Rightarrow>
                 fp_bind (on_reader (set_exception_internal env e)) (\<lambda>_. fp_bind (settle_closed (FException e)) (\<lambda>_. resolve_drain_waiters (Some e)))
             | None \<Rightarrow>
                 fp_bind (on_reader (feed_eof_internal env)) (\<lambda>_. fp_bind (settle_closed FNone) (\<lambda>_. resolve_drain_waiters None)))
      in fp_bind settle (\<lambda>_ p. (Inr (), p\<lparr>fp_reader := (fp_reader p)\<lparr>fr_transport := False, fr_paused := False\<rparr>, fp_transport := False\<rparr>)) p1)"

definition protocol_pause_writing :: "fast_protocol \<Rightarrow> fast_protocol" where
  "protocol_pause_writing p = p\<lparr>fp_paused := True\<rparr>"

definition protocol_resume_writing :: "unit fp" where
  "protocol_resume_writing p = resolve_drain_waiters None (p\<lparr>fp_paused := False\<rparr>)"

definition protocol_eof_received :: "reader_env \<Rightarrow> bool fp" where
  "protocol_eof_received env = fp_bind (on_reader (feed_eof_internal env)) (\<lambda>_ p. (Inr (\<not> fp_over_ssl p), p))"

subsection \<open>Where the bytes are\<close>

definition out_bytes :: "fut \<Rightarrow> bytes" where
  "out_bytes v = (case v of FResult d \<Rightarrow> d | FException (EIncomplete d _) \<Rightarrow> d | _ \<Rightarrow> [])"

definition taken :: "out list \<Rightarrow> bytes" where
  "taken os = concat (map (\<lambda>x. case x of OValue d \<Rightarrow> d | ODiscard d \<Rightarrow> d | OFuture _ v \<Rightarrow> out_bytes v) os)"

definition partial_of :: "read_waiter option \<Rightarrow> bytes" where
  "partial_of w = (case w of Some x \<Rightarrow> (case rw_exact x of Some e \<Rightarrow> ea_data e | None \<Rightarrow> []) | None \<Rightarrow> [])"

abbreviation unread :: "fast_reader \<Rightarrow> bytes" where
  "unread r \<equiv> sb_unread (fr_buffer r)"

text \<open>Everything the reader was fed, in order: handed out, in the accumulator of a waiting read, in the buffer.\<close>

definition content :: "fast_reader \<Rightarrow> bytes" where
  "content r = taken (fr_out r) @ partial_of (fr_waiter r) @ unread r"

definition wf_waiter :: "read_waiter \<Rightarrow> bool" where
  "wf_waiter w \<longleftrightarrow>
     (case rw_kind w of
        WExact n \<Rightarrow> n > 0 \<and> (\<exists>e. rw_exact w = Some e \<and> ea_expected e = n \<and> length (ea_data e) \<le> n)
      | WAny n \<Rightarrow> n > 0 \<and> rw_exact w = None
      | WAll \<Rightarrow> rw_exact w = None
      | WUntil \<Rightarrow> rw_exact w = None \<and> rw_until w \<noteq> None)"

text \<open>
  The invariant inside an operation: the waiter's future is pending or cancelled, a paused transport is
  there, and nobody waits while it is paused.
\<close>

definition base :: "fast_reader \<Rightarrow> bool" where
  "base r \<longleftrightarrow> sb_ok (fr_buffer r) \<and> (fr_paused r \<longrightarrow> fr_transport r \<and> fr_waiter r = None)
     \<and> (\<forall>w. fr_waiter r = Some w \<longrightarrow> wf_waiter w \<and> rw_future w < length (fr_futures r) \<and> fr_futures r ! rw_future w \<in> {FPending, FCancelled})"

definition calm_calls :: "reader_env \<Rightarrow> bool" where
  "calm_calls env \<longleftrightarrow> (\<forall>r. re_resume env r = None) \<and> (\<forall>r e. re_pause env r \<noteq> PRaise e)"

definition same_flags :: "fast_reader \<Rightarrow> fast_reader \<Rightarrow> bool" where
  "same_flags r r' \<longleftrightarrow> fr_eof r' = fr_eof r \<and> fr_exception r' = fr_exception r \<and> fr_limit r' = fr_limit r"

definition kept :: "fast_reader \<Rightarrow> fast_reader \<Rightarrow> bool" where
  "kept r r' \<longleftrightarrow> base r' \<and> same_flags r r' \<and> (fr_exception r = None \<longrightarrow> content r' = content r)"

lemma kept_refl [simp]: "base r \<Longrightarrow> kept r r"
  by (simp add: kept_def same_flags_def)

lemma kept_trans: "kept a b \<Longrightarrow> kept b c \<Longrightarrow> kept a c"
  by (simp add: kept_def same_flags_def)

lemma kept_base: "kept r r' \<Longrightarrow> base r'"
  by (simp add: kept_def)

lemma taken_simps [simp]:
  "taken [] = []" "taken (xs @ ys) = taken xs @ taken ys" "taken [OValue d] = d" "taken [ODiscard d] = d"
  "taken [OFuture i v] = out_bytes v" "out_bytes (FResult d) = d" "out_bytes (FException (EIncomplete d n)) = d" "out_bytes FNone = []"
  by (simp_all add: taken_def out_bytes_def)

lemma partial_of_None [simp]: "partial_of None = []"
  by (simp add: partial_of_def)

lemma on_buffer_fields [simp]:
  "fr_limit (on_buffer f r) = fr_limit r" "fr_waiter (on_buffer f r) = fr_waiter r" "fr_transport (on_buffer f r) = fr_transport r"
  "fr_paused (on_buffer f r) = fr_paused r" "fr_eof (on_buffer f r) = fr_eof r" "fr_exception (on_buffer f r) = fr_exception r"
  "fr_futures (on_buffer f r) = fr_futures r" "fr_out (on_buffer f r) = fr_out r" "fr_buffer (on_buffer f r) = fst (f (fr_buffer r, fr_pool r))"
  by (simp_all add: on_buffer_def split_beta)

lemma buffer_steps [simp]:
  assumes "sb_ok b"
  shows "sb_ok (fst (sb_extend g d (b, p)))" "sb_unread (fst (sb_extend g d (b, p))) = sb_unread b @ d"
    "sb_ok (fst (sb_extend_owned g ow (b, p)))" "sb_unread (fst (sb_extend_owned g ow (b, p))) = sb_unread b @ vec_data (or_bytes ow)"
    "sb_ok (fst (sb_consume g n (b, p)))" "sb_unread (fst (sb_consume g n (b, p))) = drop n (sb_unread b)"
    "sb_ok (fst (sb_consume_all g (b, p)))" "sb_unread (fst (sb_consume_all g (b, p))) = []"
    "sb_ok (fst (sb_prepend g d (b, p)))" "sb_unread (fst (sb_prepend g d (b, p))) = d @ sb_unread b"
  using sb_extend_ok [OF assms, where grow = g and data = d and pool = p] sb_extend_owned_ok [OF assms, where grow = g and data = ow and pool = p]
    sb_consume_ok [OF assms, where grow = g and n = n and pool = p] sb_consume_all_ok [OF assms, where grow = g and pool = p]
    sb_prepend_ok [OF assms, where grow = g and data = d and pool = p]
  by (auto split: prod.splits)

lemma base_ok [simp]: "base r \<Longrightarrow> sb_ok (fr_buffer r)"
  by (simp add: base_def)

subsection \<open>Each step keeps them\<close>

lemma resume_kept:
  assumes "calm_calls env" "base r"
  shows "\<exists>r'. maybe_resume_transport env r = (Inr (), r') \<and> kept r r'
    \<and> fr_waiter r' = fr_waiter r \<and> fr_buffer r' = fr_buffer r \<and> fr_futures r' = fr_futures r \<and> fr_out r' = fr_out r"
proof -
  have "kept r (r\<lparr>fr_paused := False\<rparr>)" using assms(2) by (simp add: kept_def same_flags_def base_def content_def)
  then show ?thesis using assms by (auto simp: maybe_resume_transport_def calm_calls_def Let_def)
qed

lemma pause_kept:
  assumes "calm_calls env" "base r"
  shows "\<exists>r'. maybe_pause_transport env r = (Inr (), r') \<and> kept r r' \<and> fr_waiter r' = fr_waiter r \<and> fr_buffer r' = fr_buffer r"
proof -
  have "kept r (r\<lparr>fr_paused := True\<rparr>)" if "fr_waiter r = None" "fr_transport r" using assms(2) that by (simp add: kept_def same_flags_def base_def content_def)
  moreover have "kept r (r\<lparr>fr_transport := False\<rparr>)" if "\<not> fr_paused r" using assms(2) that by (simp add: kept_def same_flags_def base_def content_def)
  ultimately show ?thesis using assms by (auto simp: maybe_pause_transport_def calm_calls_def split: pause_result.splits)
qed

lemma clear_kept:
  assumes "calm_calls env" "base r"
  shows "\<exists>r'. clear_cancelled_waiter env r = (Inr (), r') \<and> kept r r'
    \<and> (fr_waiter r' = None \<or> fr_waiter r' = fr_waiter r \<and> fr_buffer r' = fr_buffer r \<and> (\<forall>w. fr_waiter r = Some w \<longrightarrow> fr_futures r' ! rw_future w = FPending))"
proof (cases "fr_waiter r")
  case None
  then show ?thesis using assms by (simp add: clear_cancelled_waiter_def)
next
  case (Some w)
  show ?thesis
  proof (cases "future_cancelled (rw_future w) r")
    case True
    let ?r1 = "r\<lparr>fr_waiter := None\<rparr>"
    let ?r2 = "case rw_exact w of Some exact \<Rightarrow> on_buffer (sb_prepend (re_grow env) (ea_data exact)) ?r1 | None \<Rightarrow> ?r1"
    have "kept r ?r2 \<and> fr_waiter ?r2 = None"
      using assms(2) Some by (cases "rw_exact w") (auto simp: kept_def same_flags_def base_def content_def partial_of_def)
    moreover from this obtain r' where "maybe_pause_transport env ?r2 = (Inr (), r')" "kept ?r2 r'" "fr_waiter r' = fr_waiter ?r2"
      using pause_kept [OF assms(1), of ?r2] kept_base by blast
    ultimately show ?thesis using Some True kept_trans by (auto simp: clear_cancelled_waiter_def Let_def)
  next
    case False
    then have "fr_futures r ! rw_future w = FPending" using assms(2) Some by (auto simp: base_def future_cancelled_def)
    then show ?thesis using assms(2) Some False by (simp add: clear_cancelled_waiter_def)
  qed
qed

lemma settle_kept:
  assumes "base r" "fr_waiter r = None" "i < length (fr_futures r)" "fr_futures r ! i = FPending"
  shows "\<exists>r'. set_future_or_ignore_cancelled i v r = (Inr (), r') \<and> base r' \<and> same_flags r r' \<and> fr_waiter r' = None
    \<and> content r' = taken (fr_out r) @ out_bytes v @ unread r"
  using assms by (auto simp: set_future_or_ignore_cancelled_def future_set_def base_def same_flags_def content_def)

text \<open>A waiter that no longer waits: \<open>v\<close> is its outcome, after the buffer gave what it holds.\<close>

lemma resume_settle_kept:
  assumes "calm_calls env" "base r" "fr_waiter r = None" "i < length (fr_futures r)" "fr_futures r ! i = FPending"
  shows "\<exists>r'. rd_bind (maybe_resume_transport env) (\<lambda>_. set_future_or_ignore_cancelled i v) r = (Inr (), r') \<and> base r' \<and> same_flags r r'
    \<and> fr_waiter r' = None \<and> content r' = taken (fr_out r) @ out_bytes v @ unread r"
proof -
  obtain r1 where r1: "maybe_resume_transport env r = (Inr (), r1)" "kept r r1" "fr_waiter r1 = fr_waiter r" "fr_buffer r1 = fr_buffer r"
      "fr_futures r1 = fr_futures r" "fr_out r1 = fr_out r"
    using resume_kept [OF assms(1,2)] by blast
  obtain r2 where "set_future_or_ignore_cancelled i v r1 = (Inr (), r2)" "base r2" "same_flags r1 r2" "fr_waiter r2 = None"
      "content r2 = taken (fr_out r1) @ out_bytes v @ unread r1"
    using settle_kept [of r1 i v] r1 assms(3-5) kept_base by auto
  then show ?thesis using r1 by (simp add: rd_bind_def kept_def same_flags_def)
qed

fun hungry :: "read_wait_kind \<Rightarrow> bytes \<Rightarrow> bytes \<Rightarrow> bool" where
  "hungry (WAny _) u p \<longleftrightarrow> u = []"
| "hungry (WExact n) u p \<longleftrightarrow> u = [] \<and> length p < n"
| "hungry WAll u p \<longleftrightarrow> True"
| "hungry WUntil u p \<longleftrightarrow> True"

text \<open>Between operations: whoever waits still has reason to.\<close>

definition settled :: "fast_reader \<Rightarrow> bool" where
  "settled r \<longleftrightarrow> (\<forall>w. fr_waiter r = Some w \<longrightarrow> fr_exception r = None \<and> \<not> fr_eof r
     \<and> hungry (rw_kind w) (unread r) (partial_of (Some w)))"

definition finishes :: "fast_reader \<Rightarrow> (rd_error + unit) \<times> fast_reader \<Rightarrow> bool" where
  "finishes r s \<longleftrightarrow> fst s = Inr () \<and> kept r (snd s) \<and> (fr_exception r = None \<longrightarrow> settled (snd s))"

lemma settled_None [simp]: "fr_waiter r = None \<Longrightarrow> settled r"
  by (simp add: settled_def)

lemma waiter_gone: "base r \<Longrightarrow> base (r\<lparr>fr_waiter := None\<rparr>)"
  by (simp add: base_def)

lemma finishes_done:
  assumes "\<exists>r'. s = (Inr (), r') \<and> base r' \<and> same_flags r r' \<and> fr_waiter r' = None \<and> content r' = content r"
  shows "finishes r s"
  using assms by (auto simp: finishes_def kept_def)

lemma complete_any_ok:
  assumes "calm_calls env" "base r" "fr_waiter r = Some w" "rw_kind w = WAny n" "fr_futures r ! rw_future w = FPending" "fr_exception r = None"
  shows "finishes r (complete_any env (rw_future w) n r)"
proof (cases "sb_is_empty (fr_buffer r) \<and> \<not> fr_eof r")
  case True
  then show ?thesis using assms by (simp add: complete_any_def finishes_def settled_def sb_is_empty_unread)
next
  case False
  have w: "rw_exact w = None" "rw_future w < length (fr_futures r)" using assms(2,3,4) by (auto simp: base_def wf_waiter_def)
  let ?len = "min (sb_len (fr_buffer r)) n" and ?r = "r\<lparr>fr_waiter := None\<rparr>"
  let ?r1 = "on_buffer (sb_consume (re_grow env) ?len) ?r"
  have "base ?r1" using waiter_gone [OF assms(2)] by (simp add: base_def)
  from resume_settle_kept [OF assms(1) this, of "rw_future w" "FResult (take ?len (unread r))"]
  have "\<exists>r'. rd_bind (maybe_resume_transport env) (\<lambda>_. set_future_or_ignore_cancelled (rw_future w) (FResult (take ?len (unread r)))) ?r1 = (Inr (), r')
      \<and> base r' \<and> same_flags r r' \<and> fr_waiter r' = None \<and> content r' = content r"
    using w assms(2,3,5) by (simp add: same_flags_def content_def partial_of_def)
  then show ?thesis using False by (intro finishes_done) (auto simp: complete_any_def unread_bytes_object_def Let_def)
qed

lemma complete_exact_ok:
  assumes "calm_calls env" "base r" "fr_waiter r = Some w" "rw_kind w = WExact n" "fr_futures r ! rw_future w = FPending" "fr_exception r = None"
    "length (partial_of (Some w)) < n \<longrightarrow> unread r = []"
  shows "finishes r (complete_exact env (rw_future w) n w r)"
proof -
  obtain e where e: "rw_exact w = Some e" "length (ea_data e) \<le> n" and i: "rw_future w < length (fr_futures r)"
    using assms(2,3,4) by (auto simp: base_def wf_waiter_def)
  have p: "partial_of (Some w) = ea_data e" using e by (simp add: partial_of_def)
  let ?r = "r\<lparr>fr_waiter := None\<rparr>"
  note b = waiter_gone [OF assms(2)]
  have ends: "\<exists>r'. s = (Inr (), r') \<and> base r' \<and> same_flags ?r r' \<and> fr_waiter r' = None \<and> content r' = taken (fr_out ?r) @ ea_data e @ unread ?r \<Longrightarrow> finishes r s" for s
    using assms(3) p by (intro finishes_done) (auto simp: same_flags_def content_def)
  consider (full) "length (ea_data e) \<ge> n" | (wait) "length (ea_data e) < n" "\<not> fr_eof r" | (eof) "length (ea_data e) < n" "fr_eof r" by linarith
  then show ?thesis
  proof cases
    case full
    have "finishes r (rd_bind (maybe_resume_transport env) (\<lambda>_. set_future_or_ignore_cancelled (rw_future w) (FResult (ea_data e))) ?r)"
      using resume_settle_kept [OF assms(1) b, of "rw_future w" "FResult (ea_data e)"] i assms(5) by (intro ends) simp
    then show ?thesis using full e by (simp add: complete_exact_def)
  next
    case wait
    then show ?thesis using assms e p by (simp add: complete_exact_def finishes_def settled_def)
  next
    case eof
    have "finishes r (set_future_or_ignore_cancelled (rw_future w) (FException (EIncomplete (ea_data e) (Some n))) ?r)"
      using settle_kept [OF b, of "rw_future w" "FException (EIncomplete (ea_data e) (Some n))"] i assms(5) by (intro ends) simp
    then show ?thesis using eof e by (simp add: complete_exact_def)
  qed
qed

lemma complete_all_ok:
  assumes "base r" "fr_waiter r = Some w" "rw_kind w = WAll" "fr_futures r ! rw_future w = FPending" "fr_exception r = None"
  shows "finishes r (complete_all env (rw_future w) r)"
proof (cases "fr_eof r")
  case False
  then show ?thesis using assms by (simp add: complete_all_def finishes_def settled_def)
next
  case True
  have w: "rw_exact w = None" "rw_future w < length (fr_futures r)" using assms(1-3) by (auto simp: base_def wf_waiter_def)
  let ?r1 = "on_buffer (sb_consume_all (re_grow env)) (r\<lparr>fr_waiter := None\<rparr>)"
  have "base ?r1" using waiter_gone [OF assms(1)] by (simp add: base_def)
  from settle_kept [OF this, of "rw_future w" "FResult (unread r)"]
  have "\<exists>r'. set_future_or_ignore_cancelled (rw_future w) (FResult (unread r)) ?r1 = (Inr (), r')
      \<and> base r' \<and> same_flags r r' \<and> fr_waiter r' = None \<and> content r' = content r"
    using w assms by (simp add: same_flags_def content_def partial_of_def)
  then show ?thesis using True by (intro finishes_done) (auto simp: complete_all_def unread_all_bytes_object_def Let_def)
qed

text \<open>The outcome of a search, and what it takes from the buffer.\<close>

definition resolved :: "fast_reader \<Rightarrow> (rd_error + fut) \<times> fast_reader \<Rightarrow> bool" where
  "resolved r s \<longleftrightarrow> (\<exists>v r'. s = (Inr v, r') \<and> base r' \<and> same_flags r r' \<and> fr_waiter r' = fr_waiter r \<and> fr_futures r' = fr_futures r
     \<and> taken (fr_out r') @ out_bytes v @ unread r' = taken (fr_out r) @ unread r \<and> ((\<exists>d. v = FResult d) \<or> (\<exists>e. v = FException e)))"

lemma resume_resolved:
  assumes "calm_calls env" "base r1" "same_flags r r1" "fr_waiter r1 = fr_waiter r" "fr_futures r1 = fr_futures r"
    "taken (fr_out r1) @ out_bytes v @ unread r1 = taken (fr_out r) @ unread r" "(\<exists>d. v = FResult d) \<or> (\<exists>e. v = FException e)"
  shows "resolved r (rd_bind (maybe_resume_transport env) (\<lambda>_ r. (Inr v, r)) r1)"
proof -
  obtain r2 where "maybe_resume_transport env r1 = (Inr (), r2)" "kept r1 r2" "fr_waiter r2 = fr_waiter r1" "fr_buffer r2 = fr_buffer r1"
      "fr_futures r2 = fr_futures r1" "fr_out r2 = fr_out r1"
    using resume_kept [OF assms(1,2)] by blast
  then show ?thesis using assms by (simp add: resolved_def rd_bind_def kept_def same_flags_def)
qed

lemma overrun_resolved:
  assumes "calm_calls env" "base r"
  shows "resolved r (until_limit_overrun env message consumed line_mode r)"
proof (cases line_mode)
  case False
  then show ?thesis using assms(2) by (simp add: resolved_def until_limit_overrun_def out_bytes_def same_flags_def)
next
  case True
  let ?nl = "length (unread r) > consumed \<and> unread r ! consumed = 10"
  let ?r1 = "if ?nl then on_buffer (sb_consume (re_grow env) (consumed + 1)) r else on_buffer (sb_consume_all (re_grow env)) r"
  let ?d = "if ?nl then take (consumed + 1) (unread r) else unread r"
  let ?r2 = "?r1\<lparr>fr_out := fr_out ?r1 @ [ODiscard ?d]\<rparr>"
  have "base ?r2 \<and> same_flags r ?r2 \<and> fr_waiter ?r2 = fr_waiter r \<and> fr_futures ?r2 = fr_futures r \<and> taken (fr_out ?r2) @ unread ?r2 = taken (fr_out r) @ unread r"
    using assms(2) by (cases ?nl) (auto simp: base_def same_flags_def)
  then have "resolved r (rd_bind (maybe_resume_transport env) (\<lambda>_ r. (Inr (FException (EValueError message)), r)) ?r2)"
    by (intro resume_resolved [OF assms(1)]) (simp_all add: out_bytes_def)
  then show ?thesis using True by (simp add: until_limit_overrun_def Let_def)
qed

lemma resolve_resolved:
  assumes "calm_calls env" "base r"
  shows "resolved r (resolve_until_scan env s line_mode r)"
proof (cases s)
  case (SFound a b)
  let ?r1 = "on_buffer (sb_consume (re_grow env) b) r"
  have "resolved r (rd_bind (maybe_resume_transport env) (\<lambda>_ r'. (Inr (FResult (take b (unread r))), r')) ?r1)"
    using assms(2) by (intro resume_resolved [OF assms(1)]) (simp_all add: base_def same_flags_def)
  then show ?thesis using SFound overrun_resolved [OF assms] by (simp add: resolve_until_scan_def Let_def)
next
  case SNeedMore
  have "base (on_buffer (sb_consume_all (re_grow env)) r)" using assms(2) by (simp add: base_def)
  then show ?thesis using SNeedMore assms(2)
    by (simp add: resolve_until_scan_def unread_all_bytes_object_def resolved_def same_flags_def)
next
  case (SOverLimit n)
  then show ?thesis using overrun_resolved [OF assms] by (simp add: resolve_until_scan_def)
qed

lemma complete_until_ok:
  assumes "calm_calls env" "base r" "fr_waiter r = Some w" "rw_kind w = WUntil" "fr_futures r ! rw_future w = FPending" "fr_exception r = None"
  shows "finishes r (complete_until env (rw_future w) w r)"
proof -
  have w: "rw_exact w = None" "rw_future w < length (fr_futures r)" using assms(2-4) by (auto simp: base_def wf_waiter_def)
  obtain st where st: "rw_until w = Some st" using assms(2-4) by (auto simp: base_def wf_waiter_def)
  obtain found st1 where sc: "scan (re_search env) (unread r) (fr_limit r) st = (found, st1)" by fastforce
  show ?thesis
  proof (cases "is_pending (fr_eof r) found")
    case True
    let ?r = "r\<lparr>fr_waiter := Some (w\<lparr>rw_until := Some st1\<rparr>)\<rparr>"
    have "finishes r (Inr (), ?r)"
      using True assms w by (auto simp: finishes_def kept_def same_flags_def base_def wf_waiter_def content_def partial_of_def settled_def is_pending_def)
    then show ?thesis using True sc st by (simp add: complete_until_def)
  next
    case False
    let ?r = "r\<lparr>fr_waiter := None\<rparr>"
    obtain v r1 where r1: "resolve_until_scan env found (us_line_mode st1) ?r = (Inr v, r1)" "base r1" "same_flags ?r r1" "fr_waiter r1 = None"
        "fr_futures r1 = fr_futures r" "taken (fr_out r1) @ out_bytes v @ unread r1 = taken (fr_out r) @ unread r"
      using resolve_resolved [OF assms(1) waiter_gone [OF assms(2)]] by (fastforce simp: resolved_def)
    have "\<exists>r'. set_future_or_ignore_cancelled (rw_future w) v r1 = (Inr (), r') \<and> base r' \<and> same_flags r r' \<and> fr_waiter r' = None \<and> content r' = content r"
      using settle_kept [OF r1(2,4), of "rw_future w" v] w assms(3,5) r1 by (auto simp: content_def partial_of_def same_flags_def)
    then show ?thesis using False sc st r1(1) by (intro finishes_done) (simp add: complete_until_def rd_bind_def)
  qed
qed

lemma fill_waiter_ok:
  assumes "base r"
  shows "kept r (fill_waiter env r)" "fr_futures (fill_waiter env r) = fr_futures r"
    "fr_waiter r = Some w \<Longrightarrow> \<exists>w'. fr_waiter (fill_waiter env r) = Some w' \<and> rw_kind w' = rw_kind w \<and> rw_future w' = rw_future w
       \<and> (\<forall>n. rw_kind w = WExact n \<longrightarrow> length (partial_of (Some w')) < n \<longrightarrow> unread (fill_waiter env r) = [])"
    "fr_waiter r = None \<Longrightarrow> fill_waiter env r = r"
proof -
  show "fr_waiter r = None \<Longrightarrow> fill_waiter env r = r" by (simp add: fill_waiter_def)
  show "fr_futures (fill_waiter env r) = fr_futures r"
    by (simp add: fill_waiter_def fill_from_slice_def Let_def split: option.split)
  have main: "kept r (fill_waiter env r) \<and> (\<exists>w'. fr_waiter (fill_waiter env r) = Some w' \<and> rw_kind w' = rw_kind w \<and> rw_future w' = rw_future w
       \<and> (\<forall>n. rw_kind w = WExact n \<longrightarrow> length (partial_of (Some w')) < n \<longrightarrow> unread (fill_waiter env r) = []))" if w: "fr_waiter r = Some w" for w
  proof (cases "rw_exact w")
    case None
    then show ?thesis using assms w by (auto simp: fill_waiter_def base_def wf_waiter_def)
  next
    case (Some e)
    let ?a = "min (length (unread r)) (ea_expected e - length (ea_data e))"
    let ?e = "e\<lparr>ea_data := ea_data e @ take ?a (unread r)\<rparr>"
    let ?r = "on_buffer (sb_consume (re_grow env) ?a) (r\<lparr>fr_waiter := Some (w\<lparr>rw_exact := Some ?e\<rparr>)\<rparr>)"
    have f: "fill_waiter env r = ?r" using w Some by (simp add: fill_waiter_def fill_from_slice_def exact_fill_amount_def Let_def)
    have "wf_waiter w" using assms w by (simp add: base_def)
    then have "\<exists>n. rw_kind w = WExact n \<and> n > 0 \<and> ea_expected e = n \<and> length (ea_data e) \<le> n"
      using Some by (cases "rw_kind w") (simp_all add: wf_waiter_def)
    then obtain n where n: "rw_kind w = WExact n" "n > 0" "ea_expected e = n" "length (ea_data e) \<le> n" by blast
    have wf: "wf_waiter (w\<lparr>rw_exact := Some ?e\<rparr>)" using n by (simp add: wf_waiter_def)
    have "kept r ?r" using assms w Some wf by (simp add: kept_def same_flags_def base_def content_def partial_of_def)
    moreover have "unread ?r = []" if "length (ea_data ?e) < n"
    proof -
      have "?a = length (unread r)" using that n by auto
      then show ?thesis using assms by simp
    qed
    ultimately show ?thesis unfolding f using n(1)
      by (intro conjI exI [of _ "w\<lparr>rw_exact := Some ?e\<rparr>"]) (simp_all add: partial_of_def)
  qed
  show "kept r (fill_waiter env r)" using main assms by (cases "fr_waiter r") (auto simp: fill_waiter_def)
  show "fr_waiter r = Some w \<Longrightarrow> \<exists>w'. fr_waiter (fill_waiter env r) = Some w' \<and> rw_kind w' = rw_kind w \<and> rw_future w' = rw_future w
       \<and> (\<forall>n. rw_kind w = WExact n \<longrightarrow> length (partial_of (Some w')) < n \<longrightarrow> unread (fill_waiter env r) = [])" using main by blast
qed

lemma complete_kind_ok:
  assumes "calm_calls env" "base r" "fr_exception r = None" "\<forall>w. fr_waiter r = Some w \<longrightarrow> fr_futures r ! rw_future w = FPending
     \<and> (\<forall>n. rw_kind w = WExact n \<longrightarrow> length (partial_of (Some w)) < n \<longrightarrow> unread r = [])"
  shows "finishes r (complete_kind env r)"
proof (cases "fr_waiter r")
  case None
  then show ?thesis using assms by (simp add: complete_kind_def finishes_def)
next
  case (Some w)
  have p: "fr_futures r ! rw_future w = FPending" "\<And>n. rw_kind w = WExact n \<Longrightarrow> length (partial_of (Some w)) < n \<longrightarrow> unread r = []"
    using assms(4) Some by auto
  show ?thesis
  proof (cases "rw_kind w")
    case (WAny n)
    then show ?thesis using complete_any_ok [OF assms(1,2) Some WAny p(1) assms(3)] Some by (simp add: complete_kind_def Let_def)
  next
    case (WExact n)
    then show ?thesis using complete_exact_ok [OF assms(1,2) Some WExact p(1) assms(3) p(2) [OF WExact]] Some by (simp add: complete_kind_def Let_def)
  next
    case WAll
    then show ?thesis using complete_all_ok [OF assms(2) Some WAll p(1) assms(3)] Some by (simp add: complete_kind_def Let_def)
  next
    case WUntil
    then show ?thesis using complete_until_ok [OF assms(1,2) Some WUntil p(1) assms(3)] Some by (simp add: complete_kind_def Let_def)
  qed
qed

lemma finishes_kept: "kept a b \<Longrightarrow> finishes b s \<Longrightarrow> finishes a s"
  using kept_trans by (auto simp: finishes_def kept_def same_flags_def)

lemma maybe_complete_ok:
  assumes "calm_calls env" "base r"
  shows "finishes r (maybe_complete_waiter env r) \<and> settled (snd (maybe_complete_waiter env r))"
proof -
  obtain r1 where r1: "clear_cancelled_waiter env r = (Inr (), r1)" "kept r r1" "\<And>w. fr_waiter r1 = Some w \<Longrightarrow> fr_futures r1 ! rw_future w = FPending"
    using clear_kept [OF assms] by auto
  note b = kept_base [OF r1(2)]
  show ?thesis
  proof (cases "fr_waiter r1")
    case None
    then show ?thesis using r1 by (simp add: maybe_complete_waiter_def rd_bind_def finishes_def)
  next
    case (Some w)
    show ?thesis
    proof (cases "fr_exception r1")
      case None
      let ?r2 = "fill_waiter env r1"
      obtain w' where w': "fr_waiter ?r2 = Some w'" "rw_future w' = rw_future w" "rw_kind w' = rw_kind w"
          "\<forall>n. rw_kind w = WExact n \<longrightarrow> length (partial_of (Some w')) < n \<longrightarrow> unread ?r2 = []"
        using fill_waiter_ok(3) [OF b Some] by blast
      have k: "kept r1 ?r2" by (rule fill_waiter_ok(1) [OF b])
      then have "fr_exception ?r2 = None" using None by (simp add: kept_def same_flags_def)
      then have "finishes ?r2 (complete_kind env ?r2)"
        using w' r1(3) [OF Some] fill_waiter_ok(2) [OF b] by (intro complete_kind_ok [OF assms(1) kept_base [OF k]]) auto
      from finishes_kept [OF kept_trans [OF r1(2) k] this] this \<open>fr_exception ?r2 = None\<close>
      show ?thesis using Some None r1(1) by (simp add: maybe_complete_waiter_def rd_bind_def finishes_def)
    next
      case (Some exc)
      have "rw_future w < length (fr_futures r1)" using b \<open>fr_waiter r1 = Some w\<close> by (simp add: base_def)
      then obtain r2 where r2: "set_future_or_ignore_cancelled (rw_future w) (FException exc) (r1\<lparr>fr_waiter := None\<rparr>) = (Inr (), r2)" "base r2"
          "same_flags (r1\<lparr>fr_waiter := None\<rparr>) r2" "fr_waiter r2 = None"
        using settle_kept [OF waiter_gone [OF b], of "rw_future w" "FException exc"] r1(3) \<open>fr_waiter r1 = Some w\<close> by auto
      have "kept r r2" using r2 r1(2) Some by (auto simp: kept_def same_flags_def)
      then show ?thesis using Some \<open>fr_waiter r1 = Some w\<close> r1(1) r2 by (simp add: maybe_complete_waiter_def rd_bind_def finishes_def)
    qed
  qed
qed

subsection \<open>Operations of the reader\<close>

text \<open>What an operation that was fed \<open>d\<close> leaves behind; \<open>EPanic\<close> is not among its results.\<close>

definition op_ok :: "fast_reader \<Rightarrow> bytes \<Rightarrow> (rd_error + unit) \<times> fast_reader \<Rightarrow> bool" where
  "op_ok r d s \<longleftrightarrow> base (snd s) \<and> settled (snd s) \<and> fst s \<noteq> Inl EPanic \<and> (fr_eof r \<longrightarrow> fr_eof (snd s))
     \<and> (fr_exception (snd s) = None \<longrightarrow> fr_exception r = None \<and> content (snd s) = content r @ d)"

lemma op_ok_finishes: "finishes r s \<Longrightarrow> settled (snd s) \<Longrightarrow> op_ok r [] s"
  by (simp add: op_ok_def finishes_def kept_def same_flags_def)

lemma op_ok_kept: "kept r r1 \<Longrightarrow> op_ok r1 d s \<Longrightarrow> op_ok r d s"
  by (auto simp: op_ok_def kept_def same_flags_def)

lemma kept_settled: "kept r r' \<Longrightarrow> fr_waiter r' = fr_waiter r \<Longrightarrow> fr_buffer r' = fr_buffer r \<Longrightarrow> settled r \<Longrightarrow> settled r'"
  by (simp add: settled_def kept_def same_flags_def)

lemma clear_settled:
  assumes "calm_calls env" "base r" "settled r"
  shows "\<exists>r'. clear_cancelled_waiter env r = (Inr (), r') \<and> kept r r' \<and> settled r'"
proof -
  obtain r' where r': "clear_cancelled_waiter env r = (Inr (), r')" "kept r r'" "fr_waiter r' = None \<or> fr_waiter r' = fr_waiter r \<and> fr_buffer r' = fr_buffer r"
    using clear_kept [OF assms(1,2)] by blast
  then have "settled r'" using kept_settled [OF r'(2)] assms(3) by auto
  then show ?thesis using r' by blast
qed

lemma waiting_split:
  assumes "base r" "settled r"
  shows "partial_of (fr_waiter r) = [] \<or> unread r = []"
proof (cases "fr_waiter r")
  case (Some w)
  then have "wf_waiter w" using assms(1) by (simp add: base_def)
  then show ?thesis using assms(2) Some by (cases "rw_kind w") (simp_all add: settled_def wf_waiter_def partial_of_def)
qed simp

lemma start_ok:
  assumes "calm_calls env" "base r" "settled r" "fr_exception r = None" "\<not> fr_eof r"
    "case kind of WAny n \<Rightarrow> n > 0 \<and> unread r = [] | WExact n \<Rightarrow> length (unread r) < n | WAll \<Rightarrow> True | WUntil \<Rightarrow> until \<noteq> None"
  shows "op_ok r [] (start_waiter env name kind until r)"
proof (cases "fr_waiter r")
  case (Some w)
  then show ?thesis using assms by (simp add: start_waiter_def op_ok_def)
next
  case None
  define r1 where "r1 = (if fr_paused r then r\<lparr>fr_paused := False\<rparr> else r)\<lparr>fr_futures := fr_futures r @ [FPending]\<rparr>"
  let ?i = "length (fr_futures r)"
  let ?ex = "case kind of WExact expected \<Rightarrow> map_sum id Some (exact_new env expected) | _ \<Rightarrow> Inr None"
  have paused: "fr_paused r \<Longrightarrow> fr_transport r" using assms(2) by (simp add: base_def)
  have start: "start_waiter env name kind until r = (case ?ex of Inl err \<Rightarrow> (Inl err, r1)
      | Inr exact \<Rightarrow> (Inr (), fill_waiter env (r1\<lparr>fr_waiter := Some \<lparr>rw_future = ?i, rw_kind = kind, rw_exact = exact, rw_until = until\<rparr>\<rparr>)))"
    using None paused assms(1) unfolding r1_def by (cases "fr_paused r"; cases ?ex) (simp_all add: start_waiter_def rd_bind_def create_future_def calm_calls_def)
  have k1: "kept r r1" using assms(2) None by (simp add: kept_def same_flags_def base_def content_def r1_def)
  have r1: "fr_waiter r1 = None" "fr_exception r1 = None" "\<not> fr_eof r1" "unread r1 = unread r" "fr_futures r1 ! ?i = FPending" "?i < length (fr_futures r1)" "\<not> fr_paused r1"
    using None assms(4,5) by (simp_all add: r1_def)
  show ?thesis
  proof (cases ?ex)
    case (Inl err)
    then have "err \<noteq> EPanic" by (auto simp: exact_new_def split: read_wait_kind.splits if_splits)
    then show ?thesis using Inl start k1 r1(1) by (intro op_ok_kept [OF k1]) (simp add: op_ok_def kept_base)
  next
    case (Inr exact)
    define w where "w = \<lparr>rw_future = ?i, rw_kind = kind, rw_exact = exact, rw_until = until\<rparr>"
    define r2 where "r2 = r1\<lparr>fr_waiter := Some w\<rparr>"
    have ex: "(\<exists>n. kind = WExact n \<and> exact = Some \<lparr>ea_data = [], ea_expected = n\<rparr>) \<or> (\<forall>n. kind \<noteq> WExact n) \<and> exact = None"
      using Inr by (auto simp: exact_new_def split: read_wait_kind.splits if_splits)
    have wf: "wf_waiter w" using ex assms(6) by (auto simp: w_def wf_waiter_def split: read_wait_kind.splits)
    have p: "partial_of (Some w) = []" using ex by (auto simp: w_def partial_of_def)
    have k2: "kept r1 r2" using kept_base [OF k1] r1 wf p by (simp add: kept_def same_flags_def base_def content_def r2_def w_def)
    note b2 = kept_base [OF k2]
    have k3: "kept r2 (fill_waiter env r2)" by (rule fill_waiter_ok(1) [OF b2])
    obtain w' where w': "fr_waiter (fill_waiter env r2) = Some w'" "rw_kind w' = kind"
        "\<forall>n. kind = WExact n \<longrightarrow> length (partial_of (Some w')) < n \<longrightarrow> unread (fill_waiter env r2) = []"
      using fill_waiter_ok(3) [OF b2, of w] by (auto simp: r2_def w_def)
    have c: "partial_of (Some w') @ unread (fill_waiter env r2) = unread r"
    proof -
      have o: "fr_out (fill_waiter env r2) = fr_out r2" by (simp add: fill_waiter_def fill_from_slice_def Let_def split: option.split)
      have "content (fill_waiter env r2) = content r2" using k3 r1(2) by (simp add: kept_def r2_def)
      then show ?thesis using w'(1) p o r1(4) by (simp add: content_def r2_def)
    qed
    have fl: "fr_exception (fill_waiter env r2) = None" "\<not> fr_eof (fill_waiter env r2)" using k3 r1 by (simp_all add: kept_def same_flags_def r2_def)
    have "settled (fill_waiter env r2)"
    proof -
      have "unread (fill_waiter env r2) = []" if "kind = WAny n" for n using c assms(6) that by simp
      moreover have "length (partial_of (Some w')) < n" if "kind = WExact n" for n
        using arg_cong [OF c, of length] assms(6) that by simp
      ultimately show ?thesis using w' fl by (cases kind) (simp_all add: settled_def)
    qed
    then have "op_ok r2 [] (Inr (), fill_waiter env r2)" using k3 by (simp add: op_ok_def kept_def same_flags_def)
    from op_ok_kept [OF kept_trans [OF k1 k2] this] show ?thesis using start Inr by (simp add: r2_def w_def)
  qed
qed

lemma pause_ok:
  assumes "calm_calls env" "op_ok r d s" "fst s = Inr ()"
  shows "op_ok r d (maybe_pause_transport env (snd s)) \<and> fst (maybe_pause_transport env (snd s)) = Inr ()"
proof -
  obtain r' where r': "maybe_pause_transport env (snd s) = (Inr (), r')" "kept (snd s) r'" "fr_waiter r' = fr_waiter (snd s)" "fr_buffer r' = fr_buffer (snd s)"
    using pause_kept [OF assms(1), of "snd s"] assms(2) by (auto simp: op_ok_def)
  have "settled r'" using kept_settled [OF r'(2-4)] assms(2) by (simp add: op_ok_def)
  then show ?thesis using r'(1,2) assms(2) by (auto simp: op_ok_def kept_def same_flags_def)
qed

lemma finish_feed_ok:
  assumes "calm_calls env" "base r"
  shows "op_ok r [] (rd_bind (maybe_complete_waiter env) (\<lambda>_. maybe_pause_transport env) r)"
    "fst (rd_bind (maybe_complete_waiter env) (\<lambda>_. maybe_pause_transport env) r) = Inr ()"
proof -
  have f: "finishes r (maybe_complete_waiter env r)" "settled (snd (maybe_complete_waiter env r))" using maybe_complete_ok [OF assms] by simp_all
  then have "fst (maybe_complete_waiter env r) = Inr ()" by (simp add: finishes_def)
  from pause_ok [OF assms(1) op_ok_finishes [OF f] this] this
  show "op_ok r [] (rd_bind (maybe_complete_waiter env) (\<lambda>_. maybe_pause_transport env) r)"
    "fst (rd_bind (maybe_complete_waiter env) (\<lambda>_. maybe_pause_transport env) r) = Inr ()"
    by (cases "maybe_complete_waiter env r"; simp add: rd_bind_def)+
qed

lemma fill_incoming_ok:
  assumes "calm_calls env" "base r" "settled r"
  shows "\<exists>k r'. fill_exact_from_incoming env data r = (Inr k, r') \<and> base r' \<and> same_flags r r' \<and> (fr_exception r = None \<longrightarrow> content r' = content r @ take k data)"
proof -
  obtain r1 where r1: "clear_cancelled_waiter env r = (Inr (), r1)" "kept r r1" using clear_kept [OF assms(1,2)] by blast
  have z: "\<exists>k r'. (Inr 0, r1) = (Inr k, r') \<and> base r' \<and> same_flags r r' \<and> (fr_exception r = None \<longrightarrow> content r' = content r @ take k data)"
    using r1(2) by (auto simp: kept_def)
  show ?thesis
  proof (cases "\<exists>w e. fr_waiter r1 = Some w \<and> rw_exact w = Some e \<and> fr_exception r1 = None \<and> sb_is_empty (fr_buffer r1)")
    case True
    then obtain w e where w: "fr_waiter r1 = Some w" "rw_exact w = Some e" "fr_exception r1 = None" "unread r1 = []" by (auto simp: sb_is_empty_unread)
    have "wf_waiter w" using kept_base [OF r1(2)] w(1) by (simp add: base_def)
    then obtain n where n: "rw_kind w = WExact n" "n > 0" "ea_expected e = n" "length (ea_data e) \<le> n"
      using w(2) by (cases "rw_kind w") (auto simp: wf_waiter_def)
    let ?k = "min (length data) (n - length (ea_data e))"
    let ?r = "r1\<lparr>fr_waiter := Some (w\<lparr>rw_exact := Some (e\<lparr>ea_data := ea_data e @ take ?k data\<rparr>)\<rparr>)\<rparr>"
    have "base ?r" using kept_base [OF r1(2)] w n by (simp add: base_def wf_waiter_def)
    moreover have "content ?r = content r1 @ take ?k data" using w by (simp add: content_def partial_of_def)
    moreover have "fill_exact_from_incoming env data r = (Inr ?k, ?r)"
      using r1(1) w n by (simp add: fill_exact_from_incoming_def rd_bind_def fill_from_slice_def exact_fill_amount_def sb_is_empty_unread Let_def)
    ultimately show ?thesis using r1(2) w(3) by (auto simp: kept_def same_flags_def)
  next
    case False
    then have "fill_exact_from_incoming env data r = (Inr 0, r1)"
      using r1(1) by (auto simp: fill_exact_from_incoming_def rd_bind_def split: option.splits)
    then show ?thesis using z by simp
  qed
qed

lemma feed_data_ok:
  assumes "calm_calls env" "base r" "settled r"
  shows "op_ok r (if fr_eof r then [] else data) (feed_data_internal env data r) \<and> (fst (feed_data_internal env data r) = Inr () \<longleftrightarrow> \<not> fr_eof r)"
proof (cases "fr_eof r")
  case True
  then show ?thesis using assms by (simp add: feed_data_internal_def op_ok_def)
next
  case False
  obtain k r1 where r1: "fill_exact_from_incoming env data r = (Inr k, r1)" "base r1" "same_flags r r1" "fr_exception r = None \<longrightarrow> content r1 = content r @ take k data"
    using fill_incoming_ok [OF assms] by blast
  let ?r2 = "on_buffer (sb_extend (re_grow env) (drop k data)) r1"
  have b: "base ?r2" using r1(2) by (simp add: base_def)
  have "content ?r2 = content r1 @ drop k data" using r1(2) by (simp add: content_def)
  then have "fr_exception r = None \<longrightarrow> content ?r2 = content r @ data" using r1(4) by simp
  then have "op_ok r data (rd_bind (maybe_complete_waiter env) (\<lambda>_. maybe_pause_transport env) ?r2)"
    using finish_feed_ok(1) [OF assms(1) b] r1(3) by (auto simp: op_ok_def same_flags_def)
  then show ?thesis using False r1(1) finish_feed_ok(2) [OF assms(1) b] by (simp add: feed_data_internal_def rd_bind_def [of "fill_exact_from_incoming env data"])
qed

lemma drop_into_pool_ok: "op_ok r d (x, r1) \<Longrightarrow> op_ok r d (x, drop_into_pool v r1)"
  by (simp add: op_ok_def drop_into_pool_def base_def settled_def content_def)

lemma feed_owned_ok:
  assumes "calm_calls env" "base r" "settled r"
  shows "op_ok r (if fr_eof r then [] else vec_data v) (feed_owned_data_internal env v r) \<and> (fst (feed_owned_data_internal env v r) = Inr () \<longleftrightarrow> \<not> fr_eof r)"
proof (cases "fr_eof r")
  case True
  have "op_ok r [] (Inl (EValueError ''feed_data after feed_eof''), r)" using assms by (simp add: op_ok_def)
  then show ?thesis using True drop_into_pool_ok by (simp add: feed_owned_data_internal_def)
next
  case False
  let ?fin = "rd_bind (maybe_complete_waiter env) (\<lambda>_. maybe_pause_transport env)"
  obtain k r1 where r1: "fill_exact_from_incoming env (vec_data v) r = (Inr k, r1)" "base r1" "same_flags r r1"
      "fr_exception r = None \<longrightarrow> content r1 = content r @ take k (vec_data v)"
    using fill_incoming_ok [OF assms] by blast
  have step: "op_ok r (vec_data v) (?fin r2) \<and> fst (?fin r2) = Inr ()"
    if "base r2" "same_flags r1 r2" "content r2 = content r1 @ drop k (vec_data v)" for r2
    using finish_feed_ok [OF assms(1) that(1)] that r1(3,4) by (auto simp: op_ok_def same_flags_def)
  show ?thesis
  proof (cases "k = 0")
    case True
    have "op_ok r (vec_data v) (?fin (on_buffer (sb_extend_owned (re_grow env) (or_from_pooled v)) r1))
        \<and> fst (?fin (on_buffer (sb_extend_owned (re_grow env) (or_from_pooled v)) r1)) = Inr ()"
      using r1(2) True by (intro step) (simp_all add: base_def same_flags_def content_def or_from_pooled_def)
    then show ?thesis using False r1(1) True by (simp add: feed_owned_data_internal_def Let_def)
  next
    case k: False
    have "op_ok r (vec_data v) (?fin (on_buffer (sb_extend (re_grow env) (drop k (vec_data v))) r1))
        \<and> fst (?fin (on_buffer (sb_extend (re_grow env) (drop k (vec_data v))) r1)) = Inr ()"
      using r1(2) by (intro step) (simp_all add: base_def same_flags_def content_def)
    then show ?thesis using False r1(1) k drop_into_pool_ok
      by (cases "?fin (on_buffer (sb_extend (re_grow env) (drop k (vec_data v))) r1)") (simp add: feed_owned_data_internal_def Let_def)
  qed
qed

lemma eof_ok:
  assumes "calm_calls env" "base r"
  shows "op_ok r [] (feed_eof_internal env r) \<and> fst (feed_eof_internal env r) = Inr () \<and> fr_waiter (snd (feed_eof_internal env r)) = None
    \<and> fr_eof (snd (feed_eof_internal env r))"
proof -
  have "base (r\<lparr>fr_eof := True\<rparr>)" using assms(2) by (simp add: base_def)
  from maybe_complete_ok [OF assms(1) this]
  have m: "finishes (r\<lparr>fr_eof := True\<rparr>) (feed_eof_internal env r)" "settled (snd (feed_eof_internal env r))" by (simp_all add: feed_eof_internal_def)
  then have "fr_eof (snd (feed_eof_internal env r))" by (simp add: finishes_def kept_def same_flags_def)
  then have "fr_waiter (snd (feed_eof_internal env r)) = None" using m(2) by (cases "fr_waiter (snd (feed_eof_internal env r))") (auto simp: settled_def)
  then show ?thesis using m by (auto simp: finishes_def op_ok_def kept_def same_flags_def content_def)
qed

lemma exception_ok:
  assumes "calm_calls env" "base r"
  shows "op_ok r [] (set_exception_internal env e r) \<and> fst (set_exception_internal env e r) = Inr () \<and> fr_waiter (snd (set_exception_internal env e r)) = None
    \<and> fr_exception (snd (set_exception_internal env e r)) = Some e"
proof -
  have "base (r\<lparr>fr_exception := Some e\<rparr>)" using assms(2) by (simp add: base_def)
  from maybe_complete_ok [OF assms(1) this]
  have m: "finishes (r\<lparr>fr_exception := Some e\<rparr>) (set_exception_internal env e r)" "settled (snd (set_exception_internal env e r))"
    by (simp_all add: set_exception_internal_def)
  then have x: "fr_exception (snd (set_exception_internal env e r)) = Some e" by (simp add: finishes_def kept_def same_flags_def)
  then have "fr_waiter (snd (set_exception_internal env e r)) = None"
    using m(2) by (cases "fr_waiter (snd (set_exception_internal env e r))") (auto simp: settled_def)
  then show ?thesis using m x by (simp add: finishes_def op_ok_def kept_def same_flags_def)
qed

lemma exception_future_eq:
  "ready_exception_future e r = (Inr (), r\<lparr>fr_futures := fr_futures r @ [FException e], fr_out := fr_out r @ [OFuture (length (fr_futures r)) (FException e)]\<rparr>)"
  by (simp add: ready_exception_future_def rd_bind_def create_future_def future_set_def)

lemma exception_future_ok:
  assumes "base r" "settled r" "fr_eof r0 \<longrightarrow> fr_eof r"
    "fr_exception r = None \<longrightarrow> fr_exception r0 = None \<and> taken (fr_out r) @ out_bytes (FException e) @ partial_of (fr_waiter r) @ unread r = content r0"
  shows "op_ok r0 [] (ready_exception_future e r)"
proof -
  let ?r = "r\<lparr>fr_futures := fr_futures r @ [FException e], fr_out := fr_out r @ [OFuture (length (fr_futures r)) (FException e)]\<rparr>"
  have "base ?r" using assms(1) by (auto simp: base_def nth_append)
  moreover have "settled ?r" using assms(2) by (simp add: settled_def)
  moreover have "fr_exception ?r = None \<longrightarrow> fr_exception r0 = None \<and> content ?r = content r0 @ []" using assms(4) by (simp add: content_def)
  ultimately show ?thesis using assms(3) unfolding exception_future_eq op_ok_def by simp
qed

lemma value_ok:
  assumes "base r" "settled r" "fr_eof r0 \<longrightarrow> fr_eof r"
    "fr_exception r = None \<longrightarrow> fr_exception r0 = None \<and> taken (fr_out r) @ d @ partial_of (fr_waiter r) @ unread r = content r0"
  shows "op_ok r0 [] (Inr (), ready_result_awaitable d r)"
proof -
  have "base (ready_result_awaitable d r)" "settled (ready_result_awaitable d r)"
    using assms(1,2) by (simp_all add: base_def settled_def ready_result_awaitable_def)
  then show ?thesis using assms(3,4) by (simp add: op_ok_def content_def ready_result_awaitable_def)
qed

lemma settled_consume:
  assumes "base r" "settled r"
  shows "base (on_buffer (sb_consume g n) r)" "settled (on_buffer (sb_consume g n) r)"
    "base (on_buffer (sb_consume_all g) r)" "settled (on_buffer (sb_consume_all g) r)"
proof -
  show "base (on_buffer (sb_consume g n) r)" "base (on_buffer (sb_consume_all g) r)" using assms(1) by (simp_all add: base_def)
  have "hungry k u p \<Longrightarrow> hungry k (drop n u) p" "hungry k u p \<Longrightarrow> hungry k [] p" for k u p by (cases k; simp)+
  then show "settled (on_buffer (sb_consume g n) r)" "settled (on_buffer (sb_consume_all g) r)" using assms by (auto simp: settled_def)
qed

text \<open>Whatever is taken from the buffer while somebody waits comes before nothing.\<close>

lemma taken_first: "base r \<Longrightarrow> settled r \<Longrightarrow> take k (unread r) @ partial_of (fr_waiter r) @ drop k (unread r) = partial_of (fr_waiter r) @ unread r"
  using waiting_split by fastforce

lemma ready_bytes_ok:
  assumes "calm_calls env" "base r" "settled r"
  shows "op_ok r [] (ready_bytes env n r)"
proof -
  let ?k = "min (sb_len (fr_buffer r)) n"
  let ?r1 = "on_buffer (sb_consume (re_grow env) ?k) r"
  note c = settled_consume(1,2) [OF assms(2,3), of "re_grow env" ?k]
  obtain r2 where r2: "maybe_resume_transport env ?r1 = (Inr (), r2)" "kept ?r1 r2" "fr_waiter r2 = fr_waiter ?r1" "fr_buffer r2 = fr_buffer ?r1" "fr_out r2 = fr_out ?r1"
    using resume_kept [OF assms(1) c(1)] by blast
  have "op_ok r [] (Inr (), ready_result_awaitable (take ?k (unread r)) r2)"
    using kept_base [OF r2(2)] kept_settled [OF r2(2-4) c(2)] r2 taken_first [OF assms(2,3), of ?k] assms(2)
    by (intro value_ok) (auto simp: kept_def same_flags_def content_def)
  then show ?thesis using r2(1) by (simp add: ready_bytes_def unread_bytes_object_def rd_bind_def Let_def)
qed

lemma read_ok:
  assumes "calm_calls env" "base r" "settled r"
  shows "op_ok r [] (build_read_future env n r)"
proof -
  obtain r1 where r1: "clear_cancelled_waiter env r = (Inr (), r1)" "kept r r1" "settled r1" using clear_settled [OF assms] by blast
  note b = kept_base [OF r1(2)]
  let ?body = "case fr_exception r1 of Some exc \<Rightarrow> ready_exception_future exc r1
       | None \<Rightarrow>
           if n = 0 then (Inr (), ready_result_awaitable [] r1)
           else if n < 0 then
             (if fr_eof r1 then (case unread_all_bytes_object env r1 of (data, r1) \<Rightarrow> (Inr (), ready_result_awaitable data r1))
              else start_waiter env ''read'' WAll None r1)
           else if \<not> sb_is_empty (fr_buffer r1) \<or> fr_eof r1 then ready_bytes env (nat n) r1
           else start_waiter env ''read'' (WAny (nat n)) None r1"
  have "op_ok r1 [] ?body"
  proof (cases "fr_exception r1")
    case (Some exc)
    then show ?thesis using exception_future_ok [OF b r1(3), of r1 exc] by simp
  next
    case None
    have 1: "op_ok r1 [] (Inr (), ready_result_awaitable [] r1)" by (rule value_ok [OF b r1(3)]) (simp_all add: content_def)
    have 2: "op_ok r1 [] (Inr (), ready_result_awaitable (unread r1) (on_buffer (sb_consume_all (re_grow env)) r1))"
      using taken_first [OF b r1(3), of "length (unread r1)"] b settled_consume(3,4) [OF b r1(3)]
      by (intro value_ok) (simp_all add: content_def)
    have 3: "op_ok r1 [] (start_waiter env ''read'' WAll None r1)" if "\<not> fr_eof r1"
      using that None by (intro start_ok [OF assms(1) b r1(3)]) simp_all
    have 4: "op_ok r1 [] (start_waiter env ''read'' (WAny (nat n)) None r1)" if "\<not> fr_eof r1" "sb_is_empty (fr_buffer r1)" "n > 0"
      using that None by (intro start_ok [OF assms(1) b r1(3)]) (simp_all add: sb_is_empty_unread)
    show ?thesis using None 1 2 3 4 ready_bytes_ok [OF assms(1) b r1(3)] by (simp add: unread_all_bytes_object_def)
  qed
  then show ?thesis using op_ok_kept [OF r1(2)] r1(1) by (simp add: build_read_future_def rd_bind_def)
qed

lemma readexactly_ok:
  assumes "calm_calls env" "base r" "settled r"
  shows "op_ok r [] (build_readexactly_future env n r)"
proof -
  obtain r1 where r1: "clear_cancelled_waiter env r = (Inr (), r1)" "kept r r1" "settled r1" using clear_settled [OF assms] by blast
  note b = kept_base [OF r1(2)]
  let ?body = "case fr_exception r1 of Some exc \<Rightarrow> ready_exception_future exc r1
       | None \<Rightarrow>
           if n = 0 then (Inr (), ready_result_awaitable [] r1)
           else if sb_len (fr_buffer r1) \<ge> n then ready_bytes env n r1
           else if fr_eof r1 then
             ready_exception_future (EIncomplete (sb_unread (fr_buffer r1)) (Some n)) (on_buffer (sb_consume_all (re_grow env)) r1)
           else start_waiter env ''readexactly'' (WExact n) None r1"
  have "op_ok r1 [] ?body"
  proof (cases "fr_exception r1")
    case (Some exc)
    then show ?thesis using exception_future_ok [OF b r1(3), of r1 exc] by simp
  next
    case None
    have 1: "op_ok r1 [] (Inr (), ready_result_awaitable [] r1)" by (rule value_ok [OF b r1(3)]) (simp_all add: content_def)
    have 2: "op_ok r1 [] (ready_exception_future (EIncomplete (unread r1) (Some n)) (on_buffer (sb_consume_all (re_grow env)) r1))"
      using taken_first [OF b r1(3), of "length (unread r1)"] b settled_consume(3,4) [OF b r1(3)]
      by (intro exception_future_ok) (simp_all add: content_def)
    have 3: "op_ok r1 [] (start_waiter env ''readexactly'' (WExact n) None r1)" if "\<not> fr_eof r1" "sb_len (fr_buffer r1) < n"
      using that None by (intro start_ok [OF assms(1) b r1(3)]) (simp_all add: sb_len_unread)
    show ?thesis using None 1 2 3 ready_bytes_ok [OF assms(1) b r1(3)] by simp
  qed
  then show ?thesis using op_ok_kept [OF r1(2)] r1(1) by (simp add: build_readexactly_future_def rd_bind_def)
qed

lemma scan_empty: "us_min_seplen st > 0 \<Longrightarrow> scan se [] limit st = (SNeedMore, st)"
  by (simp add: scan_def)

lemma until_ok_op:
  assumes "calm_calls env" "base r" "settled r" "us_min_seplen st > 0"
  shows "op_ok r [] (build_until_future env name st r)"
proof (cases "fr_exception r")
  case (Some exc)
  then show ?thesis using exception_future_ok [OF assms(2,3), of r exc] by (simp add: build_until_future_def)
next
  case None
  obtain r1 where r1: "clear_cancelled_waiter env r = (Inr (), r1)" "kept r r1" "settled r1" using clear_settled [OF assms(1-3)] by blast
  note b = kept_base [OF r1(2)]
  have n1: "fr_exception r1 = None" using r1(2) None by (simp add: kept_def same_flags_def)
  obtain found st1 where sc: "scan (re_search env) (unread r1) (fr_limit r1) st = (found, st1)" by fastforce
  let ?body = "if is_pending (fr_eof r1) found then start_waiter env name WUntil (Some st1) r1
      else rd_bind (resolve_until_scan env found (us_line_mode st1))
        (\<lambda>outcome r. case outcome of FException exc \<Rightarrow> ready_exception_future exc r | FResult value \<Rightarrow> (Inr (), ready_result_awaitable value r) | _ \<Rightarrow> (Inl EPanic, r)) r1"
  have "op_ok r1 [] ?body"
  proof (cases "is_pending (fr_eof r1) found")
    case True
    then show ?thesis using start_ok [OF assms(1) b r1(3) n1, where kind = WUntil and until = "Some st1" and name = name] by (simp add: is_pending_def)
  next
    case False
    have u: "unread r1 \<noteq> []" if "fr_waiter r1 = Some w" for w
    proof
      assume "unread r1 = []"
      then have "found = SNeedMore" using sc scan_empty [OF assms(4)] by simp
      then show False using False r1(3) that by (simp add: is_pending_def settled_def)
    qed
    then have p: "partial_of (fr_waiter r1) = []" using waiting_split [OF b r1(3)] by (cases "fr_waiter r1") auto
    obtain v r2 where r2: "resolve_until_scan env found (us_line_mode st1) r1 = (Inr v, r2)" "base r2" "same_flags r1 r2" "fr_waiter r2 = fr_waiter r1"
        "taken (fr_out r2) @ out_bytes v @ unread r2 = taken (fr_out r1) @ unread r1" "(\<exists>d. v = FResult d) \<or> (\<exists>e. v = FException e)"
      using resolve_resolved [OF assms(1) b] by (fastforce simp: resolved_def)
    have "hungry (rw_kind w) (unread r2) (partial_of (Some w))" if "fr_waiter r1 = Some w" for w
      using u [OF that] r1(3) that by (cases "rw_kind w") (simp_all add: settled_def)
    then have s2: "settled r2" using r1(3) r2(3,4) by (simp add: settled_def same_flags_def)
    have c: "fr_exception r2 = None \<longrightarrow> fr_exception r1 = None \<and> taken (fr_out r2) @ out_bytes v @ partial_of (fr_waiter r2) @ unread r2 = content r1"
      using r2 p n1 by (simp add: content_def)
    show ?thesis using r2(6)
    proof (elim disjE exE)
      fix d assume "v = FResult d"
      then show ?thesis using False r2(1) value_ok [OF r2(2) s2, of r1 d] c r2(3) by (simp add: rd_bind_def same_flags_def)
    next
      fix e assume "v = FException e"
      then show ?thesis using False r2(1) exception_future_ok [OF r2(2) s2, of r1 e] c r2(3) by (simp add: rd_bind_def same_flags_def)
    qed
  qed
  then show ?thesis using op_ok_kept [OF r1(2)] r1(1) None sc by (simp add: build_until_future_def rd_bind_def [of "clear_cancelled_waiter env"])
qed

subsection \<open>Runs of the reader\<close>

datatype reader_op =
    ROFeed bytes | ROFeedOwned vec | ROEof | ROException rd_error | RORead int | ROExactly int | ROUntil "bytes list" | ROLine
  | ROCancel nat | ROWaiterDone nat | ROTransport

definition cancel_future :: "nat \<Rightarrow> fast_reader \<Rightarrow> fast_reader" where
  "cancel_future i r = (if i < length (fr_futures r) \<and> fr_futures r ! i = FPending then r\<lparr>fr_futures := (fr_futures r)[i := FCancelled]\<rparr> else r)"

definition reader_step :: "reader_env \<Rightarrow> reader_op \<Rightarrow> unit rd" where
  "reader_step env op r =
     (case op of
        ROFeed d \<Rightarrow> feed_data_internal env d r
      | ROFeedOwned v \<Rightarrow> feed_owned_data_internal env v r
      | ROEof \<Rightarrow> feed_eof_internal env r
      | ROException e \<Rightarrow> set_exception_internal env e r
      | RORead n \<Rightarrow> build_read_future env n r
      | ROExactly n \<Rightarrow> readexactly env n r
      | ROUntil seps \<Rightarrow> readuntil env seps r
      | ROLine \<Rightarrow> readline env r
      | ROCancel i \<Rightarrow> (Inr (), cancel_future i r)
      | ROWaiterDone i \<Rightarrow> reader_waiter_done env i r
      | ROTransport \<Rightarrow> set_transport_obj env True r)"

definition fed_by :: "reader_op \<Rightarrow> rd_error + unit \<Rightarrow> bytes" where
  "fed_by op x = (if x = Inr () then (case op of ROFeed d \<Rightarrow> d | ROFeedOwned v \<Rightarrow> vec_data v | _ \<Rightarrow> []) else [])"

fun reader_run :: "reader_env \<Rightarrow> reader_op list \<Rightarrow> fast_reader \<Rightarrow> bytes \<times> (rd_error + unit) list \<times> fast_reader" where
  "reader_run env [] r = ([], [], r)"
| "reader_run env (op # ops) r =
     (case reader_step env op r of (x, r1) \<Rightarrow>
        case reader_run env ops r1 of (d, xs, r2) \<Rightarrow> (fed_by op x @ d, x # xs, r2))"

lemma cancel_ok: "base r \<Longrightarrow> settled r \<Longrightarrow> op_ok r [] (Inr (), cancel_future i r)"
  by (auto simp: op_ok_def cancel_future_def base_def settled_def content_def nth_list_update)

lemma until_new_min: "until_new seps line_mode = Inr st \<Longrightarrow> us_min_seplen st > 0"
  by (auto simp: until_new_def Let_def split: option.splits if_splits)

lemma plain_exception_ok: "base r \<Longrightarrow> settled r \<Longrightarrow> out_bytes (FException e) = [] \<Longrightarrow> op_ok r [] (ready_exception_future e r)"
  by (rule exception_future_ok) (simp_all add: content_def)

lemma reader_step_ok:
  assumes "calm_calls env" "base r" "settled r"
  shows "op_ok r (fed_by op (fst (reader_step env op r))) (reader_step env op r)"
proof (cases op)
  case (ROFeed d)
  then show ?thesis using feed_data_ok [OF assms, of d] by (auto simp: reader_step_def fed_by_def split: if_splits)
next
  case (ROFeedOwned v)
  then show ?thesis using feed_owned_ok [OF assms, of v] by (auto simp: reader_step_def fed_by_def split: if_splits)
next
  case ROEof
  then show ?thesis using eof_ok [OF assms(1,2)] by (simp add: reader_step_def fed_by_def)
next
  case (ROException e)
  then show ?thesis using exception_ok [OF assms(1,2), of e] by (simp add: reader_step_def fed_by_def)
next
  case (RORead n)
  then show ?thesis using read_ok [OF assms, of n] by (simp add: reader_step_def fed_by_def)
next
  case (ROExactly n)
  have "op_ok r [] (readexactly env n r)"
    using readexactly_ok [OF assms, of "nat n"] plain_exception_ok [OF assms(2,3)] assms(2,3)
    by (simp add: readexactly_def out_bytes_def) (simp add: op_ok_def)
  then show ?thesis using ROExactly by (simp add: reader_step_def fed_by_def)
next
  case (ROUntil seps)
  have "op_ok r [] (readuntil env seps r)"
    using until_ok_op [OF assms until_new_min] plain_exception_ok [OF assms(2,3)]
    by (cases "until_new (from_list seps) False") (simp_all add: readuntil_def out_bytes_def)
  then show ?thesis using ROUntil by (simp add: reader_step_def fed_by_def)
next
  case ROLine
  obtain st where "until_new (single [10]) True = Inr st" by (simp add: until_new_def single_def INLINE_SEPARATOR_LEN_def sort_by_length_def shortest_def Let_def)
  then have "op_ok r [] (readline env r)" using until_ok_op [OF assms until_new_min] by (simp add: readline_def)
  then show ?thesis using ROLine by (simp add: reader_step_def fed_by_def)
next
  case (ROCancel i)
  then show ?thesis using cancel_ok [OF assms(2,3)] by (simp add: reader_step_def fed_by_def)
next
  case (ROWaiterDone i)
  obtain r1 where r1: "clear_cancelled_waiter env r = (Inr (), r1)" "kept r r1" "settled r1" using clear_settled [OF assms] by blast
  have "op_ok r [] (Inr (), r1)" "op_ok r [] (Inr (), r)" using r1 assms by (simp_all add: op_ok_def kept_def same_flags_def)
  then have "op_ok r [] (reader_waiter_done env i r)" using r1(1) by (auto simp: reader_waiter_done_def split: option.split)
  then show ?thesis using ROWaiterDone by (simp add: reader_step_def fed_by_def)
next
  case ROTransport
  let ?r = "r\<lparr>fr_transport := True\<rparr>"
  have b: "base ?r" "settled ?r" using assms by (simp_all add: base_def settled_def)
  obtain r1 where r1: "maybe_resume_transport env ?r = (Inr (), r1)" "kept ?r r1" "fr_waiter r1 = fr_waiter ?r" "fr_buffer r1 = fr_buffer ?r"
    using resume_kept [OF assms(1) b(1)] by blast
  have "op_ok ?r [] (Inr (), r1)" using r1 kept_settled [OF r1(2-4) b(2)] by (simp add: op_ok_def kept_def same_flags_def)
  then have "op_ok r [] (Inr (), r1)" by (simp add: op_ok_def content_def)
  then show ?thesis using ROTransport r1(1) by (simp add: reader_step_def fed_by_def set_transport_obj_def)
qed

lemma reader_run_ok:
  assumes "calm_calls env" "base r" "settled r" "reader_run env ops r = (d, xs, r')"
  shows "base r' \<and> settled r' \<and> Inl EPanic \<notin> set xs \<and> (fr_exception r' = None \<longrightarrow> fr_exception r = None \<and> content r' = content r @ d)"
  using assms(2-4)
proof (induction ops arbitrary: r d xs)
  case Nil
  then show ?case by simp
next
  case (Cons op ops)
  obtain x r1 where s: "reader_step env op r = (x, r1)" by fastforce
  obtain d2 xs2 where t: "reader_run env ops r1 = (d2, xs2, r')" "d = fed_by op x @ d2" "xs = x # xs2"
    using Cons.prems(3) s by (auto split: prod.splits)
  have o: "op_ok r (fed_by op x) (x, r1)" using reader_step_ok [OF assms(1) Cons.prems(1,2), of op] s by simp
  then have "base r'  \<and> settled r' \<and> Inl EPanic \<notin> set xs2 \<and> (fr_exception r' = None \<longrightarrow> fr_exception r1 = None \<and> content r' = content r1 @ d2)"
    using Cons.IH [OF _ _ t(1)] by (simp add: op_ok_def)
  then show ?case using o t by (auto simp: op_ok_def)
qed


definition demo_reader_env :: reader_env where
  "demo_reader_env = \<lparr>re_grow = (\<lambda>_ n. n), re_search = ref_search, re_alloc = (\<lambda>_. True), re_pause = (\<lambda>_. POk), re_resume = (\<lambda>_. None)\<rparr>"


subsection \<open>Runs of the protocol\<close>

datatype protocol_op =
    PReader reader_op | PMade bool | PPause | PResume | PDrain bool | PHelper | PCancel nat | PDone nat | PLost "rd_error option"

text \<open>The drain futures an operation hands out. The loop calls the done callback of a future that is done.\<close>

definition drain_result :: "(rd_error + nat option) \<times> fast_protocol \<Rightarrow> nat list \<times> fast_protocol" where
  "drain_result s = (case s of (Inr (Some i), p) \<Rightarrow> ([i], p) | (_, p) \<Rightarrow> ([], p))"

definition protocol_step :: "reader_env \<Rightarrow> protocol_op \<Rightarrow> fast_protocol \<Rightarrow> nat list \<times> fast_protocol" where
  "protocol_step env op p =
     (case op of
        PReader rop \<Rightarrow> ([], snd (on_reader (reader_step env rop) p))
      | PMade ssl \<Rightarrow> ([], snd (handle_connection_made env ssl p))
      | PPause \<Rightarrow> ([], protocol_pause_writing p)
      | PResume \<Rightarrow> ([], snd (protocol_resume_writing p))
      | PDrain closing \<Rightarrow> drain_result (writer_drain closing p)
      | PHelper \<Rightarrow> drain_result (fp_bind (build_drain_future None) (\<lambda>i p. (Inr (Some i), p)) p)
      | PCancel i \<Rightarrow> ([], if i < length (fp_futures p) \<and> fp_futures p ! i = FPending then p\<lparr>fp_futures := (fp_futures p)[i := FCancelled]\<rparr> else p)
      | PDone i \<Rightarrow> ([], if future_done i p then drain_waiter_done i p else p)
      | PLost exc \<Rightarrow> ([], snd (handle_connection_lost env exc p)))"

fun protocol_run :: "reader_env \<Rightarrow> protocol_op list \<Rightarrow> fast_protocol \<Rightarrow> nat list \<times> fast_protocol" where
  "protocol_run env [] p = ([], p)"
| "protocol_run env (op # ops) p =
     (case protocol_step env op p of (ds, p1) \<Rightarrow> case protocol_run env ops p1 of (ds2, p2) \<Rightarrow> (ds @ ds2, p2))"

text \<open>
  \<open>ds\<close> are the drain futures handed out so far: those still pending are in the list of waiters, which is
  empty unless writing is paused on a live connection.
\<close>

definition futs_ok :: "nat list \<Rightarrow> nat list \<Rightarrow> nat \<Rightarrow> nat \<Rightarrow> fut list \<Rightarrow> bool" where
  "futs_ok ds ws closed ready fs \<longleftrightarrow> (\<forall>i\<in>set ds. i < length fs \<and> (fs ! i = FPending \<longrightarrow> i \<in> set ws))
     \<and> (\<forall>i\<in>set ws. i < length fs \<and> i \<noteq> closed) \<and> closed < length fs \<and> ready < length fs \<and> fs ! ready = FNone
     \<and> closed \<notin> set ds \<and> closed \<noteq> ready"

lemma futs_ready: "futs_ok ds ws c r fs \<Longrightarrow> futs_ok (ds @ [r]) ws c r fs"
  by (auto simp: futs_ok_def)

lemma futs_push: "futs_ok ds ws c r fs \<Longrightarrow> futs_ok (ds @ [length fs]) (ws @ [length fs]) c r (fs @ [FPending])"
  by (auto simp: futs_ok_def nth_append less_Suc_eq)

lemma futs_exception: "futs_ok ds ws c r fs \<Longrightarrow> futs_ok (ds @ [length fs]) ws c r (fs @ [FException e])"
  by (auto simp: futs_ok_def nth_append less_Suc_eq)

lemma futs_cancel: "futs_ok ds ws c r fs \<Longrightarrow> i < length fs \<Longrightarrow> fs ! i = FPending \<Longrightarrow> futs_ok ds ws c r (fs[i := FCancelled])"
  by (auto simp: futs_ok_def nth_list_update)

lemma futs_done: "futs_ok ds ws c r fs \<Longrightarrow> fs ! i \<noteq> FPending \<Longrightarrow> futs_ok ds (filter (\<lambda>j. j \<noteq> i) ws) c r fs"
  by (auto simp: futs_ok_def)

lemma futs_closed: "futs_ok ds ws c r fs \<Longrightarrow> futs_ok ds ws c r (fs[c := v])"
  by (auto simp: futs_ok_def nth_list_update)

lemma futs_resolved:
  assumes "futs_ok ds ws c r fs" "length fs' = length fs" "\<forall>j<length fs'. fs' ! j = FPending \<longleftrightarrow> fs ! j = FPending \<and> j \<notin> set ws"
    "\<forall>j<length fs'. fs ! j \<noteq> FPending \<longrightarrow> fs' ! j = fs ! j"
  shows "futs_ok ds [] c r fs'"
  using assms by (auto simp: futs_ok_def)

definition proto_inv :: "nat list \<Rightarrow> fast_protocol \<Rightarrow> bool" where
  "proto_inv ds p \<longleftrightarrow> base (fp_reader p) \<and> settled (fp_reader p)
     \<and> futs_ok ds (fp_drain_waiters p) (fp_closed p) (fp_ready_none p) (fp_futures p)
     \<and> (fp_drain_waiters p \<noteq> [] \<longrightarrow> fp_paused p \<and> \<not> fp_connection_lost p)
     \<and> (fp_connection_lost p \<longrightarrow> (fr_eof (fp_reader p) \<or> fr_exception (fp_reader p) \<noteq> None) \<and> fp_futures p ! fp_closed p \<noteq> FPending)"

lemma resolve_each_ok:
  assumes "\<forall>i\<in>set is. i < length (fp_futures p)" "v \<noteq> FPending"
  shows "\<exists>fs. resolve_each v is p = (Inr (), p\<lparr>fp_futures := fs\<rparr>) \<and> length fs = length (fp_futures p)
    \<and> (\<forall>j<length fs. fs ! j = FPending \<longleftrightarrow> fp_futures p ! j = FPending \<and> j \<notin> set is)
    \<and> (\<forall>j<length fs. fp_futures p ! j \<noteq> FPending \<longrightarrow> fs ! j = fp_futures p ! j)"
  using assms(1)
proof (induction "is" arbitrary: p)
  case Nil
  have "p = p\<lparr>fp_futures := fp_futures p\<rparr>" by simp
  then show ?case by (intro exI [of _ "fp_futures p"]) simp
next
  case (Cons i "is")
  show ?case
  proof (cases "fp_futures p ! i = FPending")
    case False
    then show ?thesis using Cons.IH [of p] Cons.prems by (auto simp: future_done_def)
  next
    case True
    let ?p = "p\<lparr>fp_futures := (fp_futures p)[i := v]\<rparr>"
    obtain fs where "resolve_each v is ?p = (Inr (), ?p\<lparr>fp_futures := fs\<rparr>)" "length fs = length (fp_futures p)"
        "\<forall>j<length fs. fs ! j = FPending \<longleftrightarrow> fp_futures ?p ! j = FPending \<and> j \<notin> set is"
        "\<forall>j<length fs. fp_futures ?p ! j \<noteq> FPending \<longrightarrow> fs ! j = fp_futures ?p ! j"
      using Cons.IH [of ?p] Cons.prems by auto
    then show ?thesis using True Cons.prems assms(2)
      by (intro exI [of _ fs]) (auto simp: future_done_def fp_bind_def fp_future_set_def nth_list_update)
  qed
qed

lemma resolve_waiters:
  assumes "futs_ok ds (fp_drain_waiters p) (fp_closed p) (fp_ready_none p) (fp_futures p)"
  shows "\<exists>fs. resolve_drain_waiters exc p = (Inr (), p\<lparr>fp_drain_waiters := [], fp_futures := fs\<rparr>)
    \<and> futs_ok ds [] (fp_closed p) (fp_ready_none p) fs \<and> (fp_futures p ! fp_closed p \<noteq> FPending \<longrightarrow> fs ! fp_closed p \<noteq> FPending)"
proof -
  let ?v = "case exc of Some e \<Rightarrow> FException e | None \<Rightarrow> FNone" and ?p = "p\<lparr>fp_drain_waiters := []\<rparr>"
  have "?v \<noteq> FPending" by (simp split: option.split)
  moreover have "\<forall>i\<in>set (fp_drain_waiters p). i < length (fp_futures ?p)" using assms by (simp add: futs_ok_def)
  ultimately obtain fs where f: "resolve_each ?v (fp_drain_waiters p) ?p = (Inr (), ?p\<lparr>fp_futures := fs\<rparr>)" "length fs = length (fp_futures p)"
      "\<forall>j<length fs. fs ! j = FPending \<longleftrightarrow> fp_futures p ! j = FPending \<and> j \<notin> set (fp_drain_waiters p)"
      "\<forall>j<length fs. fp_futures p ! j \<noteq> FPending \<longrightarrow> fs ! j = fp_futures p ! j"
    using resolve_each_ok [of "fp_drain_waiters p" ?p ?v] by auto
  moreover have "fp_closed p < length fs" using assms f(2) by (simp add: futs_ok_def)
  ultimately show ?thesis using futs_resolved [OF assms f(2-4)] by (intro exI [of _ fs]) (simp add: resolve_drain_waiters_def)
qed

lemma drain_inv:
  assumes "proto_inv ds p"
  shows "\<exists>i p'. build_drain_future exc p = (Inr i, p') \<and> proto_inv (ds @ [i]) p'"
proof -
  note f = futs_push futs_exception futs_ready
  have c: "fp_closed p < length (fp_futures p)" using assms by (simp add: proto_inv_def futs_ok_def)
  have e: "\<exists>i p'. fp_exception_future e p = (Inr i, p') \<and> proto_inv (ds @ [i]) p'" for e
    using assms c f(2) by (simp add: fp_exception_future_def fp_bind_def fp_create_future_def fp_future_set_def proto_inv_def nth_append)
  have "\<exists>i p'. push_drain_waiter p = (Inr i, p') \<and> proto_inv (ds @ [i]) p'" if "fp_paused p" "\<not> fp_connection_lost p"
    using assms that f(1) by (simp add: push_drain_waiter_def fp_bind_def fp_create_future_def proto_inv_def)
  moreover have "proto_inv (ds @ [fp_ready_none p]) p" using assms f(3) by (simp add: proto_inv_def)
  ultimately show ?thesis using e by (auto simp: build_drain_future_def split: option.split)
qed

lemma reader_inv:
  assumes "calm_calls env" "proto_inv ds p"
  shows "proto_inv ds (snd (on_reader (reader_step env op) p))"
proof -
  have "op_ok (fp_reader p) (fed_by op (fst (reader_step env op (fp_reader p)))) (reader_step env op (fp_reader p))"
    using reader_step_ok [OF assms(1)] assms(2) by (simp add: proto_inv_def)
  then show ?thesis using assms(2) by (auto simp: proto_inv_def on_reader_def op_ok_def split_beta)
qed

lemma lost_inv:
  assumes "calm_calls env" "proto_inv ds p"
  shows "\<exists>p'. handle_connection_lost env exc p = (Inr (), p') \<and> proto_inv ds p' \<and> fp_connection_lost p'"
proof -
  define rs where "rs = (case exc of Some e \<Rightarrow> set_exception_internal env e (fp_reader p) | None \<Rightarrow> feed_eof_internal env (fp_reader p))"
  have b: "base (fp_reader p)" using assms(2) by (simp add: proto_inv_def)
  have rs: "op_ok (fp_reader p) [] rs" "fst rs = Inr ()" "fr_waiter (snd rs) = None"
      "fr_eof (snd rs) \<or> fr_exception (snd rs) \<noteq> None"
    using eof_ok [OF assms(1) b] exception_ok [OF assms(1) b] by (simp_all add: rs_def split: option.split)
  let ?v = "case exc of Some e \<Rightarrow> FException e | None \<Rightarrow> FNone"
  define p1 where "p1 = p\<lparr>fp_connection_lost := True, fp_reader := snd rs\<rparr>"
  define p2 where "p2 = (if future_done (fp_closed p) p then p1 else p1\<lparr>fp_futures := (fp_futures p)[fp_closed p := ?v]\<rparr>)"
  have inv: "futs_ok ds (fp_drain_waiters p) (fp_closed p) (fp_ready_none p) (fp_futures p)" "fp_closed p < length (fp_futures p)"
    using assms(2) by (simp_all add: proto_inv_def futs_ok_def)
  have v: "?v \<noteq> FPending" by (simp split: option.split)
  have p2: "futs_ok ds (fp_drain_waiters p2) (fp_closed p2) (fp_ready_none p2) (fp_futures p2)" "fp_futures p2 ! fp_closed p2 \<noteq> FPending"
      "fp_reader p2 = snd rs" "fp_connection_lost p2" "fp_closed p2 = fp_closed p"
    using inv futs_closed [OF inv(1)] v by (auto simp: p2_def p1_def future_done_def)
  have settle: "settle_closed ?v p1 = (Inr (), p2)"
    using inv(2) by (auto simp: settle_closed_def p2_def p1_def future_done_def fp_future_set_def)
  obtain fs where fs: "resolve_drain_waiters exc p2 = (Inr (), p2\<lparr>fp_drain_waiters := [], fp_futures := fs\<rparr>)"
      "futs_ok ds [] (fp_closed p2) (fp_ready_none p2) fs" "fs ! fp_closed p2 \<noteq> FPending"
    using resolve_waiters [OF p2(1), of exc] p2(2) by blast
  let ?p3 = "p2\<lparr>fp_drain_waiters := [], fp_futures := fs\<rparr>"
  let ?p4 = "?p3\<lparr>fp_reader := (fp_reader ?p3)\<lparr>fr_transport := False, fr_paused := False\<rparr>, fp_transport := False\<rparr>"
  have r: "base ((snd rs)\<lparr>fr_transport := False, fr_paused := False\<rparr>)" "settled ((snd rs)\<lparr>fr_transport := False, fr_paused := False\<rparr>)"
    using rs(1,3) by (simp_all add: op_ok_def base_def)
  have "proto_inv ds ?p4" using r rs(4) fs(2,3) p2(3) by (simp add: proto_inv_def)
  moreover have "handle_connection_lost env exc p = (Inr (), ?p4)"
    using rs(2) settle fs(1) by (cases exc; cases rs) (simp_all add: handle_connection_lost_def fp_bind_def on_reader_def rs_def p1_def)
  ultimately show ?thesis using p2(4) by simp
qed

lemma drain_lost: "fp_connection_lost p \<longrightarrow> fp_connection_lost (snd (build_drain_future exc p))"
  by (simp add: build_drain_future_def fp_exception_future_def push_drain_waiter_def fp_bind_def fp_create_future_def fp_future_set_def split: option.split)

lemma protocol_step_inv:
  assumes "calm_calls env" "proto_inv ds p" "protocol_step env op p = (is, p')"
  shows "proto_inv (ds @ is) p' \<and> (fp_connection_lost p \<or> (\<exists>exc. op = PLost exc) \<longrightarrow> fp_connection_lost p')"
proof (cases op)
  case (PReader rop)
  then show ?thesis using assms reader_inv [OF assms(1,2), of rop] by (auto simp: protocol_step_def on_reader_def split_beta)
next
  case (PMade ssl)
  show ?thesis
  proof (cases "fp_connection_lost p")
    case True
    then show ?thesis using PMade assms by (auto simp: protocol_step_def handle_connection_made_def)
  next
    case False
    let ?p = "p\<lparr>fp_over_ssl := ssl, fp_transport := True\<rparr>"
    have "proto_inv ds ?p" using assms(2) by (simp add: proto_inv_def)
    from reader_inv [OF assms(1) this, of ROTransport] have "proto_inv ds (snd (on_reader (set_transport_obj env True) ?p))"
      by (simp add: on_reader_def reader_step_def)
    moreover have "snd (handle_connection_made env ssl p) = snd (on_reader (set_transport_obj env True) ?p)"
      using False by (simp add: handle_connection_made_def fp_bind_def Let_def split: prod.split sum.split)
    ultimately show ?thesis using PMade assms(3) False by (auto simp: protocol_step_def)
  qed
next
  case PPause
  then show ?thesis using assms by (auto simp: protocol_step_def protocol_pause_writing_def proto_inv_def)
next
  case PResume
  let ?p = "p\<lparr>fp_paused := False\<rparr>"
  obtain fs where fs: "resolve_drain_waiters None ?p = (Inr (), ?p\<lparr>fp_drain_waiters := [], fp_futures := fs\<rparr>)"
      "futs_ok ds [] (fp_closed p) (fp_ready_none p) fs" "fp_futures p ! fp_closed p \<noteq> FPending \<longrightarrow> fs ! fp_closed p \<noteq> FPending"
    using resolve_waiters [of ds ?p None] assms(2) by (auto simp: proto_inv_def)
  then show ?thesis using PResume assms(2,3) by (auto simp: protocol_step_def protocol_resume_writing_def proto_inv_def)
next
  case (PDrain closing)
  obtain i p1 where d: "build_drain_future (fr_exception (fp_reader p)) p = (Inr i, p1)" "proto_inv (ds @ [i]) p1" using drain_inv [OF assms(2)] by blast
  have "fp_connection_lost p \<longrightarrow> fp_connection_lost p1" using drain_lost [of p "fr_exception (fp_reader p)"] d(1) by simp
  then show ?thesis using PDrain assms(2,3) d by (auto simp: protocol_step_def writer_drain_def drain_result_def fp_bind_def Let_def split: if_splits)
next
  case PHelper
  obtain i p1 where d: "build_drain_future None p = (Inr i, p1)" "proto_inv (ds @ [i]) p1" using drain_inv [OF assms(2)] by blast
  have "fp_connection_lost p \<longrightarrow> fp_connection_lost p1" using drain_lost [of p None] d(1) by simp
  then show ?thesis using PHelper assms(2,3) d by (auto simp: protocol_step_def drain_result_def fp_bind_def)
next
  case (PCancel i)
  have "proto_inv ds (p\<lparr>fp_futures := (fp_futures p)[i := FCancelled]\<rparr>)" if h: "i < length (fp_futures p)" "fp_futures p ! i = FPending"
  proof -
    have "(fp_futures p)[i := FCancelled] ! fp_closed p \<noteq> FPending" if "fp_futures p ! fp_closed p \<noteq> FPending"
      using that h by (cases "i = fp_closed p") auto
    then show ?thesis using assms(2) futs_cancel [OF _ h] by (auto simp: proto_inv_def)
  qed
  then show ?thesis using PCancel assms(2,3) by (auto simp: protocol_step_def split: if_splits)
next
  case (PDone i)
  have "proto_inv ds (drain_waiter_done i p)" if "future_done i p"
    using assms(2) that futs_done [of ds "fp_drain_waiters p" "fp_closed p" "fp_ready_none p" "fp_futures p" i]
    by (auto simp: proto_inv_def drain_waiter_done_def future_done_def)
  then show ?thesis using PDone assms(2,3) by (auto simp: protocol_step_def drain_waiter_done_def split: if_splits)
next
  case (PLost exc)
  then show ?thesis using lost_inv [OF assms(1,2), of exc] assms(3) by (auto simp: protocol_step_def)
qed

lemma protocol_run_inv:
  assumes "calm_calls env" "proto_inv ds p" "protocol_run env ops p = (is, p')"
  shows "proto_inv (ds @ is) p' \<and> (fp_connection_lost p \<or> (\<exists>exc. PLost exc \<in> set ops) \<longrightarrow> fp_connection_lost p')"
  using assms(2,3)
proof (induction ops arbitrary: ds p "is")
  case Nil
  then show ?case by simp
next
  case (Cons op ops)
  obtain is1 p1 where s: "protocol_step env op p = (is1, p1)" by fastforce
  obtain is2 where t: "protocol_run env ops p1 = (is2, p')" "is = is1 @ is2" using Cons.prems(2) s by (auto split: prod.splits)
  note i = protocol_step_inv [OF assms(1) Cons.prems(1) s]
  show ?case using i Cons.IH [OF conjunct1 [OF i] t(1)] t(2) by auto
qed

text \<open>C14. Nobody who waits for a stream is forgotten. Over every sequence of connection, pausing and resuming
  of writing, drains, cancellations, reads, feeds and loss of the connection: a drain that is still
  pending is one the protocol knows of, writing is then paused and the connection is there, so that
  resuming or losing it resolves it; and once the connection is lost, with or without an error, no read
  waits, every drain ever handed out is done, and so is the future that \<open>wait_closed\<close> waits for.\<close>

theorem stream_waiters_are_released:
  assumes "calm_calls env" "reader_new env limit = Inr r0" "protocol_run env ops (protocol_new r0) = (drains, p)"
  shows "(\<forall>i\<in>set drains. fp_futures p ! i = FPending \<longrightarrow> i \<in> set (fp_drain_waiters p) \<and> fp_paused p \<and> \<not> fp_connection_lost p)
    \<and> ((\<exists>exc. PLost exc \<in> set ops) \<longrightarrow> fp_connection_lost p)
    \<and> (fp_connection_lost p \<longrightarrow> fr_waiter (fp_reader p) = None \<and> fp_futures p ! fp_closed p \<noteq> FPending \<and> (\<forall>i\<in>set drains. fp_futures p ! i \<noteq> FPending))"
proof -
  have "base r0" "settled r0" using assms(2) by (auto simp: reader_new_def base_def sb_new_ok split: if_splits)
  then have "proto_inv [] (protocol_new r0)" by (simp add: proto_inv_def protocol_new_def futs_ok_def)
  from protocol_run_inv [OF assms(1) this assms(3)]
  have i: "proto_inv drains p" "(\<exists>exc. PLost exc \<in> set ops) \<longrightarrow> fp_connection_lost p" by auto
  have d: "\<forall>i\<in>set drains. fp_futures p ! i = FPending \<longrightarrow> i \<in> set (fp_drain_waiters p) \<and> fp_paused p \<and> \<not> fp_connection_lost p"
    using i(1) by (auto simp: proto_inv_def futs_ok_def)
  have "fr_waiter (fp_reader p) = None" if "fp_connection_lost p"
    using i(1) that by (cases "fr_waiter (fp_reader p)") (auto simp: proto_inv_def settled_def)
  then show ?thesis using i d by (auto simp: proto_inv_def)
qed

theorem stream_waiters_are_released_witness:
  "calm_calls demo_reader_env \<and> (\<exists>r0 drains p. reader_new demo_reader_env 2 = Inr r0
    \<and> protocol_run demo_reader_env [PMade False, PReader (ROExactly 4), PPause, PDrain False, PDrain False, PCancel 2, PLost None] (protocol_new r0) = (drains, p)
    \<and> fp_connection_lost p \<and> fr_waiter (fp_reader p) = None \<and> (\<forall>i\<in>set drains. fp_futures p ! i \<noteq> FPending))"
proof -
  have c: "calm_calls demo_reader_env" by (simp add: calm_calls_def demo_reader_env_def)
  obtain r0 where n: "reader_new demo_reader_env 2 = Inr r0" by (simp add: reader_new_def)
  let ?ops = "[PMade False, PReader (ROExactly 4), PPause, PDrain False, PDrain False, PCancel 2, PLost None]"
  obtain drains p where R: "protocol_run demo_reader_env ?ops (protocol_new r0) = (drains, p)" by (metis prod.collapse)
  have "PLost None \<in> set ?ops" by simp
  then have "fp_connection_lost p" "fr_waiter (fp_reader p) = None" "\<forall>i\<in>set drains. fp_futures p ! i \<noteq> FPending"
    using stream_waiters_are_released [OF c n R] by blast+
  then show ?thesis using c n R by blast
qed

end
