(* ===== verification/Executor.thy ===== *)
theory Executor
  imports Vibeio_Timer
begin

section \<open>The task executor (vibeio/executor.rs, vibeio/task.rs)\<close>

text \<open>
  The single-threaded runtime: tasks and their wakers, the local and the remote ready queue, joining
  and cancelling, one bounded turn (\<open>poll_once\<close>) and the loop that drives a root future (\<open>drive\<close>).

  \<^item> A task is identified by a number that stands for its allocation (\<open>Rc<Task>\<close> and the
    \<open>Arc<TaskWake>\<close> it owns, compared with \<open>ptr_eq\<close> in the source); \<open>rt_tasks\<close> holds every task ever
    made. The slab maps tokens to tasks; which vacant token it hands out is the parameter \<open>vacant\<close>.
  \<^item> User code (the poll of a future, a destructor, a completion the driver dispatches) is a list of
    \<open>action\<close>s: the calls it makes on the runtime, and wakes other threads make meanwhile. A destructor
    that runs inside an operation is an argument of that operation.
  \<^item> A panic of user code is a value: the operations return whether they unwound. The panic of
    \<open>Slab::remove\<close> on a vacant token is one too.
  \<^item> \<open>rt_dropped\<close>, \<open>rt_polled\<close> and \<open>rt_other\<close> record the futures destroyed, the tasks whose future was
    polled and the foreign wakers woken.
\<close>

datatype waker = TaskWaker nat | RootWaker | OtherWaker nat

datatype 'u boxed = Detached 'u | SpawnFuture nat 'u

fun boxed_inner :: "'u boxed \<Rightarrow> 'u" where
  "boxed_inner (Detached u) = u"
| "boxed_inner (SpawnFuture j u) = u"

record 'u task =
  tk_future :: "'u boxed option"
  tk_queued :: bool
  tk_token :: nat

record 'o join_state =
  js_output :: "'o option"
  js_waker :: "waker option"
  js_canceled :: bool
  js_task :: "nat option"

record remote_wake =
  rw_queue :: "nat list"
  rw_waiting :: bool
  rw_interrupt_pending :: bool
  rw_interrupts :: nat

datatype current_runtime = NoRuntime | ThisRuntime | OtherRuntime

record ('u, 'o) runtime =
  rt_queue :: "nat list"
  rt_next_task :: "nat option"
  rt_remote_wake :: remote_wake
  rt_remote_live :: bool
  rt_token_to_task :: "nat \<rightharpoonup> nat"
  rt_root_ready :: bool
  rt_timer :: "waker timer option"
  rt_current :: current_runtime
  rt_held :: "nat list"
  rt_tasks :: "nat \<rightharpoonup> 'u task"
  rt_task_count :: nat
  rt_joins :: "nat \<rightharpoonup> 'o join_state"
  rt_join_count :: nat
  rt_dropped :: "'u list"
  rt_polled :: "nat list"
  rt_other :: "nat list"

definition task_batch_size :: nat where
  "task_batch_size = 256"

definition timer_poll_threshold :: nat where
  "timer_poll_threshold = 64"

definition remote_wake_new :: remote_wake where
  "remote_wake_new = \<lparr>rw_queue = [], rw_waiting = False, rw_interrupt_pending = False, rw_interrupts = 0\<rparr>"

definition runtime_with_options :: "bool \<Rightarrow> current_runtime \<Rightarrow> ('u, 'o) runtime" where
  "runtime_with_options enable_timer current =
     \<lparr>rt_queue = [], rt_next_task = None, rt_remote_wake = remote_wake_new, rt_remote_live = True,
      rt_token_to_task = Map.empty, rt_root_ready = True,
      rt_timer = (if enable_timer then Some timer_new else None), rt_current = current, rt_held = [],
      rt_tasks = Map.empty, rt_task_count = 0, rt_joins = Map.empty, rt_join_count = 0,
      rt_dropped = [], rt_polled = [], rt_other = []\<rparr>"

subsection \<open>Wakers\<close>

text \<open>
  \<open>here\<close> says whether the calling thread is the runtime's own. Every other thread has another
  \<open>CURRENT_RUNTIME\<close>. Borrows of the cells are held only between statements that run no user code, so
  the failing \<open>try_borrow\<close> branches do not occur.
\<close>

definition update_task :: "nat \<Rightarrow> ('u task \<Rightarrow> 'u task) \<Rightarrow> ('u, 'o) runtime \<Rightarrow> ('u, 'o) runtime" where
  "update_task t f s = s\<lparr>rt_tasks := (rt_tasks s)(t := map_option f (rt_tasks s t))\<rparr>"

definition task_queued :: "nat \<Rightarrow> ('u, 'o) runtime \<Rightarrow> bool" where
  "task_queued t s = (case rt_tasks s t of None \<Rightarrow> True | Some k \<Rightarrow> tk_queued k)"

definition mark_dequeued :: "nat \<Rightarrow> ('u, 'o) runtime \<Rightarrow> ('u, 'o) runtime" where
  "mark_dequeued t s = update_task t (tk_queued_update (\<lambda>_. False)) s"

definition swap_queued :: "nat \<Rightarrow> ('u, 'o) runtime \<Rightarrow> bool \<times> ('u, 'o) runtime" where
  "swap_queued t s = (task_queued t s, update_task t (tk_queued_update (\<lambda>_. True)) s)"

definition in_slab :: "nat \<Rightarrow> ('u, 'o) runtime \<Rightarrow> bool" where
  "in_slab t s = (case rt_tasks s t of None \<Rightarrow> False | Some k \<Rightarrow> rt_token_to_task s (tk_token k) = Some t)"

definition rt_enqueue :: "nat \<Rightarrow> ('u, 'o) runtime \<Rightarrow> ('u, 'o) runtime" where
  "rt_enqueue t s = s\<lparr>rt_queue := rt_queue s @ [t]\<rparr>"

definition enqueue_local_wake :: "bool \<Rightarrow> nat \<Rightarrow> ('u, 'o) runtime \<Rightarrow> bool \<times> ('u, 'o) runtime" where
  "enqueue_local_wake here t s =
     (if \<not> here \<or> rt_current s \<noteq> ThisRuntime then (False, s)
      else if \<not> in_slab t s then (True, s)
      else if rt_next_task s = None then (True, s\<lparr>rt_next_task := Some t\<rparr>)
      else (True, rt_enqueue t s))"

definition rw_signal :: "remote_wake \<Rightarrow> remote_wake" where
  "rw_signal r =
     (if rw_waiting r \<and> \<not> rw_interrupt_pending r
      then r\<lparr>rw_interrupt_pending := True, rw_interrupts := Suc (rw_interrupts r)\<rparr> else r)"

definition rw_push :: "nat \<Rightarrow> remote_wake \<Rightarrow> remote_wake" where
  "rw_push t r = r\<lparr>rw_queue := rw_queue r @ [t]\<rparr>"

definition enqueue_if_needed :: "bool \<Rightarrow> nat \<Rightarrow> ('u, 'o) runtime \<Rightarrow> ('u, 'o) runtime" where
  "enqueue_if_needed here t s =
     (let (was_queued, s1) = swap_queued t s;
          (handled, s2) = (if was_queued then (False, s1) else enqueue_local_wake here t s1)
      in if handled then s2
         else if \<not> rt_remote_live s2 then s2
         else let r = rt_remote_wake s2;
                  r1 = (if was_queued then r else rw_push t r)
              in s2\<lparr>rt_remote_wake := rw_signal r1\<rparr>)"

definition root_notify :: "bool \<Rightarrow> ('u, 'o) runtime \<Rightarrow> ('u, 'o) runtime" where
  "root_notify here s =
     (let s1 = s\<lparr>rt_root_ready := True\<rparr>
      in if here then s1 else s1\<lparr>rt_remote_wake := rw_signal (rt_remote_wake s1)\<rparr>)"

fun rt_wake :: "bool \<Rightarrow> waker \<Rightarrow> ('u, 'o) runtime \<Rightarrow> ('u, 'o) runtime" where
  "rt_wake here (TaskWaker t) s = enqueue_if_needed here t s"
| "rt_wake here RootWaker s = root_notify here s"
| "rt_wake here (OtherWaker n) s = s\<lparr>rt_other := rt_other s @ [n]\<rparr>"

subsection \<open>Spawning\<close>

definition new_task :: "((nat \<rightharpoonup> nat) \<Rightarrow> nat) \<Rightarrow> 'u boxed \<Rightarrow> ('u, 'o) runtime \<Rightarrow> nat \<times> ('u, 'o) runtime" where
  "new_task vacant f s =
     (let t = rt_task_count s;
          token = vacant (rt_token_to_task s)
      in (t, s\<lparr>rt_tasks := (rt_tasks s)(t \<mapsto> \<lparr>tk_future = Some f, tk_queued = True, tk_token = token\<rparr>),
               rt_task_count := Suc t, rt_token_to_task := (rt_token_to_task s)(token \<mapsto> t)\<rparr>))"

definition spawn_detached :: "((nat \<rightharpoonup> nat) \<Rightarrow> nat) \<Rightarrow> 'u \<Rightarrow> ('u, 'o) runtime \<Rightarrow> ('u, 'o) runtime" where
  "spawn_detached vacant u s = (let (t, s1) = new_task vacant (Detached u) s in rt_enqueue t s1)"

definition rt_spawn :: "((nat \<rightharpoonup> nat) \<Rightarrow> nat) \<Rightarrow> 'u \<Rightarrow> ('u, 'o) runtime \<Rightarrow> nat \<times> ('u, 'o) runtime" where
  "rt_spawn vacant u s =
     (let j = rt_join_count s;
          (t, s1) = new_task vacant (SpawnFuture j u) (s\<lparr>rt_join_count := Suc j\<rparr>);
          s2 = s1\<lparr>rt_joins := (rt_joins s1)(j \<mapsto>
                 \<lparr>js_output = None, js_waker = None, js_canceled = False, js_task = Some t\<rparr>)\<rparr>
      in (j, rt_enqueue t s2))"

text \<open>The free function \<open>spawn\<close>: \<open>None\<close> is its panic outside a runtime.\<close>

definition spawn_current :: "((nat \<rightharpoonup> nat) \<Rightarrow> nat) \<Rightarrow> 'u \<Rightarrow> ('u, 'o) runtime \<Rightarrow> (nat \<times> ('u, 'o) runtime) option" where
  "spawn_current vacant u s = (if rt_current s = ThisRuntime then Some (rt_spawn vacant u s) else None)"

subsection \<open>Joining, cancelling and other user code\<close>

definition take_future :: "nat \<Rightarrow> ('u, 'o) runtime \<Rightarrow> 'u boxed option \<times> ('u, 'o) runtime" where
  "take_future t s =
     ((case rt_tasks s t of None \<Rightarrow> None | Some k \<Rightarrow> tk_future k),
      update_task t (tk_future_update (\<lambda>_. None)) s)"

definition put_future :: "nat \<Rightarrow> 'u boxed \<Rightarrow> ('u, 'o) runtime \<Rightarrow> ('u, 'o) runtime" where
  "put_future t f s = update_task t (tk_future_update (\<lambda>_. Some f)) s"

definition drop_future :: "'u boxed \<Rightarrow> ('u, 'o) runtime \<Rightarrow> ('u, 'o) runtime" where
  "drop_future f s = s\<lparr>rt_dropped := rt_dropped s @ [boxed_inner f]\<rparr>"

text \<open>\<open>Weak<Task>::upgrade\<close>: the slab, the queues and the batch being polled hold strong references.\<close>

definition task_alive :: "nat \<Rightarrow> ('u, 'o) runtime \<Rightarrow> bool" where
  "task_alive t s \<longleftrightarrow> in_slab t s \<or> t \<in> set (rt_queue s) \<or> rt_next_task s = Some t \<or> t \<in> set (rt_held s)"

definition update_join :: "nat \<Rightarrow> ('o join_state \<Rightarrow> 'o join_state) \<Rightarrow> ('u, 'o) runtime \<Rightarrow> ('u, 'o) runtime" where
  "update_join j f s = s\<lparr>rt_joins := (rt_joins s)(j := map_option f (rt_joins s j))\<rparr>"

definition join_canceled :: "nat \<Rightarrow> ('u, 'o) runtime \<Rightarrow> bool" where
  "join_canceled j s = (case rt_joins s j of None \<Rightarrow> False | Some js \<Rightarrow> js_canceled js)"

definition join_task :: "nat \<Rightarrow> ('u, 'o) runtime \<Rightarrow> nat option" where
  "join_task j s =
     (case rt_joins s j of None \<Rightarrow> None
      | Some js \<Rightarrow> (case js_task js of None \<Rightarrow> None | Some t \<Rightarrow> if task_alive t s then Some t else None))"

datatype 'u action =
    Wake bool waker
  | Spawn 'u
  | SpawnDetached 'u
  | Cancel nat "'u action list"
  | JoinPoll nat waker "'u action list"
  | UpdateTimer "waker timer \<Rightarrow> waker timer"

fun act :: "((nat \<rightharpoonup> nat) \<Rightarrow> nat) \<Rightarrow> 'u action \<Rightarrow> ('u, 'o) runtime \<Rightarrow> ('u, 'o) runtime"
  and acts :: "((nat \<rightharpoonup> nat) \<Rightarrow> nat) \<Rightarrow> 'u action list \<Rightarrow> ('u, 'o) runtime \<Rightarrow> ('u, 'o) runtime" where
  "act vacant (Wake here w) s = rt_wake here w s"
| "act vacant (Spawn u) s = snd (rt_spawn vacant u s)"
| "act vacant (SpawnDetached u) s = spawn_detached vacant u s"
| "act vacant (Cancel j destructor) s =
     (let s1 = update_join j (js_canceled_update (\<lambda>_. True)) s
      in case join_task j s1 of
           None \<Rightarrow> s1
         | Some t \<Rightarrow>
             let (future, s2) = take_future t s1;
                 s3 = (case future of None \<Rightarrow> s2 | Some f \<Rightarrow> acts vacant destructor (drop_future f s2))
             in rt_wake True (TaskWaker t) s3)"
| "act vacant (JoinPoll j w clone) s =
     (case rt_joins s j of
        None \<Rightarrow> s
      | Some js \<Rightarrow>
          if js_output js \<noteq> None then update_join j (js_output_update (\<lambda>_. None)) s
          else if js_waker js = Some w then s
          else
            let s1 = acts vacant clone s
            in case rt_joins s1 j of
                 None \<Rightarrow> s1
               | Some js1 \<Rightarrow>
                   if js_output js1 \<noteq> None then update_join j (js_output_update (\<lambda>_. None)) s1
                   else update_join j (js_waker_update (\<lambda>_. Some w)) s1)"
| "act vacant (UpdateTimer f) s = s\<lparr>rt_timer := map_option f (rt_timer s)\<rparr>"
| "acts vacant [] s = s"
| "acts vacant (a # as) s = acts vacant as (act vacant a s)"

subsection \<open>Polling a task\<close>

datatype 'o poll_result = PollReady 'o | PollPending | PollPanic

datatype boxed_result = BoxedReady | BoxedPending | BoxedPanic

record ('u, 'o) poll_script =
  ps_acts :: "'u action list"
  ps_result :: "'o poll_result"
  ps_destructor :: "'u action list"

definition log_poll :: "nat \<Rightarrow> ('u, 'o) runtime \<Rightarrow> ('u, 'o) runtime" where
  "log_poll t s = s\<lparr>rt_polled := rt_polled s @ [t]\<rparr>"

text \<open>\<open>SpawnFuture::poll\<close>, and the poll of a detached future.\<close>

definition spawn_future_poll ::
    "((nat \<rightharpoonup> nat) \<Rightarrow> nat) \<Rightarrow> nat \<Rightarrow> nat \<Rightarrow> ('u, 'o) poll_script \<Rightarrow> ('u, 'o) runtime \<Rightarrow> boxed_result \<times> ('u, 'o) runtime" where
  "spawn_future_poll vacant t j p s =
     (if join_canceled j s then (BoxedReady, s)
      else
        let s1 = acts vacant (ps_acts p) (log_poll t s)
        in case ps_result p of
             PollPanic \<Rightarrow> (BoxedPanic, s1)
           | PollReady v \<Rightarrow>
               let w = (case rt_joins s1 j of None \<Rightarrow> None | Some js \<Rightarrow> js_waker js);
                   s2 = update_join j (\<lambda>js. js\<lparr>js_output := Some v, js_waker := None\<rparr>) s1
               in (BoxedReady, case w of None \<Rightarrow> s2 | Some k \<Rightarrow> rt_wake True k s2)
           | PollPending \<Rightarrow> (if join_canceled j s1 then BoxedReady else BoxedPending, s1))"

definition detached_poll ::
    "((nat \<rightharpoonup> nat) \<Rightarrow> nat) \<Rightarrow> nat \<Rightarrow> ('u, 'o) poll_script \<Rightarrow> ('u, 'o) runtime \<Rightarrow> boxed_result \<times> ('u, 'o) runtime" where
  "detached_poll vacant t p s =
     ((case ps_result p of PollPanic \<Rightarrow> BoxedPanic | PollReady v \<Rightarrow> BoxedReady | PollPending \<Rightarrow> BoxedPending),
      acts vacant (ps_acts p) (log_poll t s))"

fun boxed_poll ::
    "((nat \<rightharpoonup> nat) \<Rightarrow> nat) \<Rightarrow> nat \<Rightarrow> 'u boxed \<Rightarrow> ('u, 'o) poll_script \<Rightarrow> ('u, 'o) runtime \<Rightarrow> boxed_result \<times> ('u, 'o) runtime" where
  "boxed_poll vacant t (Detached u) p s = detached_poll vacant t p s"
| "boxed_poll vacant t (SpawnFuture j u) p s = spawn_future_poll vacant t j p s"

text \<open>\<open>Slab::remove\<close> of the task's token, whoever owns it: \<open>None\<close> is its panic on a vacant token.\<close>

definition slab_take :: "nat \<Rightarrow> ('u, 'o) runtime \<Rightarrow> ('u, 'o) runtime option" where
  "slab_take t s =
     (case rt_tasks s t of
        None \<Rightarrow> None
      | Some k \<Rightarrow>
          if rt_token_to_task s (tk_token k) = None then None
          else Some (s\<lparr>rt_token_to_task := (rt_token_to_task s)(tk_token k := None)\<rparr>))"

definition poll_task ::
    "((nat \<rightharpoonup> nat) \<Rightarrow> nat) \<Rightarrow> nat \<Rightarrow> ('u, 'o) poll_script \<Rightarrow> ('u, 'o) runtime \<Rightarrow> bool \<times> ('u, 'o) runtime" where
  "poll_task vacant t p s =
     (let (slot, s1) = take_future t s
      in case slot of
           Some f \<Rightarrow>
             (let (r, s2) = boxed_poll vacant t f p s1
              in case r of
                   BoxedPending \<Rightarrow> (False, put_future t f s2)
                 | BoxedReady \<Rightarrow>
                     (case slab_take t s2 of
                        None \<Rightarrow> (True, acts vacant (ps_destructor p) (drop_future f s2))
                      | Some s3 \<Rightarrow> (False, acts vacant (ps_destructor p) (drop_future f s3)))
                 | BoxedPanic \<Rightarrow> (True, acts vacant (ps_destructor p) (drop_future f s2)))
         | None \<Rightarrow>
             if in_slab t s1 then
               (case slab_take t s1 of None \<Rightarrow> (True, s1) | Some s2 \<Rightarrow> (False, s2))
             else (False, s1))"

subsection \<open>Filling and polling a batch\<close>

definition rw_pop :: "('u, 'o) runtime \<Rightarrow> ('u, 'o) runtime" where
  "rw_pop s = s\<lparr>rt_remote_wake := (rt_remote_wake s)\<lparr>rw_queue := tl (rw_queue (rt_remote_wake s))\<rparr>\<rparr>"

definition queue_pop :: "('u, 'o) runtime \<Rightarrow> ('u, 'o) runtime" where
  "queue_pop s = s\<lparr>rt_queue := tl (rt_queue s)\<rparr>"

lemma rw_queue_mark_dequeued [simp]: "rt_remote_wake (mark_dequeued t s) = rt_remote_wake s"
  by (simp add: mark_dequeued_def update_task_def)

lemma rt_queue_mark_dequeued [simp]: "rt_queue (mark_dequeued t s) = rt_queue s"
  by (simp add: mark_dequeued_def update_task_def)

function drain_remote :: "nat \<Rightarrow> ('u, 'o) runtime \<Rightarrow> nat list \<times> nat \<times> ('u, 'o) runtime" where
  "drain_remote budget s =
     (if budget = 0 then ([], 0, s)
      else case rw_queue (rt_remote_wake s) of
             [] \<Rightarrow> ([], budget, s)
           | t # rest \<Rightarrow>
               let s1 = rw_pop s
               in if in_slab t s1
                  then let (ts, b, s2) = drain_remote (budget - 1) (mark_dequeued t s1) in (t # ts, b, s2)
                  else drain_remote budget s1)"
  by pat_completeness auto
termination
  by (relation "measure (\<lambda>(b, s). length (rw_queue (rt_remote_wake s)))") (auto simp: rw_pop_def)

function drain_queue :: "nat \<Rightarrow> ('u, 'o) runtime \<Rightarrow> nat list \<times> ('u, 'o) runtime" where
  "drain_queue budget s =
     (if budget = 0 then ([], s)
      else case rt_queue s of
             [] \<Rightarrow> ([], s)
           | t # rest \<Rightarrow>
               let (ts, s1) = drain_queue (budget - 1) (mark_dequeued t (queue_pop s)) in (t # ts, s1))"
  by pat_completeness auto
termination
  by (relation "measure fst") auto

declare drain_remote.simps [simp del] drain_queue.simps [simp del]

definition drain_ready_with :: "nat \<Rightarrow> ('u, 'o) runtime \<Rightarrow> nat list \<times> ('u, 'o) runtime" where
  "drain_ready_with budget s =
     (let (remote, left, s1) = drain_remote budget s;
          (queued, s2) = drain_queue left s1
      in (remote @ queued, s2))"

definition take_next_task :: "('u, 'o) runtime \<Rightarrow> nat option \<times> ('u, 'o) runtime" where
  "take_next_task s =
     (let s1 = s\<lparr>rt_next_task := None\<rparr>
      in case rt_next_task s of None \<Rightarrow> (None, s1) | Some t \<Rightarrow> (Some t, mark_dequeued t s1))"

definition should_skip_wait :: "('u, 'o) runtime \<Rightarrow> bool" where
  "should_skip_wait s \<longleftrightarrow> rt_next_task s \<noteq> None \<or> rw_queue (rt_remote_wake s) \<noteq> [] \<or> rt_queue s \<noteq> []"

definition stop_waiting :: "('u, 'o) runtime \<Rightarrow> ('u, 'o) runtime" where
  "stop_waiting s =
     s\<lparr>rt_remote_wake := (rt_remote_wake s)\<lparr>rw_waiting := False, rw_interrupt_pending := False\<rparr>\<rparr>"

definition fill_batch :: "('u, 'o) runtime \<Rightarrow> nat list \<times> ('u, 'o) runtime" where
  "fill_batch s =
     (let (first, s1) = take_next_task s;
          batch = (case first of None \<Rightarrow> [] | Some t \<Rightarrow> [t]);
          budget = task_batch_size - length batch;
          (rest, s2) = drain_ready_with budget s1
      in (batch @ rest, s2))"

fun poll_batch ::
    "((nat \<rightharpoonup> nat) \<Rightarrow> nat) \<Rightarrow> (nat \<Rightarrow> ('u, 'o) poll_script) \<Rightarrow> nat list \<Rightarrow> ('u, 'o) runtime \<Rightarrow> bool \<times> ('u, 'o) runtime" where
  "poll_batch vacant p [] s = (False, s\<lparr>rt_held := []\<rparr>)"
| "poll_batch vacant p (t # ts) s =
     (let (panicked, s1) = poll_task vacant t (p 0) (s\<lparr>rt_held := t # ts\<rparr>)
      in if panicked then (True, s1\<lparr>rt_held := []\<rparr>)
         else poll_batch vacant (\<lambda>i. p (Suc i)) ts s1)"

text \<open>
  One spin of the timer, when the runtime has one: the delay to the next deadline and whether a waker
  was woken. \<open>None\<close> is a panic of the timer, which \<open>Vibeio_Timer\<close> excludes.
\<close>

record spin_clock =
  sp_now :: instant
  sp_later :: instant
  sp_keep :: bool

definition spin_timer ::
    "spin_clock \<Rightarrow> ('u, 'o) runtime \<Rightarrow> ((nat option \<times> bool) \<times> ('u, 'o) runtime) option" where
  "spin_timer c s =
     (case rt_timer s of
        None \<Rightarrow> Some ((None, False), s)
      | Some tm \<Rightarrow> do {
          (r, s1, tm1) \<leftarrow> spin_and_get_deadline (\<lambda>w (x, y). (rt_wake True w x, y))
             (sp_now c) (sp_later c) (sp_keep c) (s, tm);
          Some (r, s1\<lparr>rt_timer := Some tm1\<rparr>)
        })"

definition enter_runtime :: "('u, 'o) runtime \<Rightarrow> ('u, 'o) runtime option" where
  "enter_runtime s = (if rt_current s = NoRuntime then Some (s\<lparr>rt_current := ThisRuntime\<rparr>) else None)"

definition leave_runtime :: "('u, 'o) runtime \<Rightarrow> ('u, 'o) runtime" where
  "leave_runtime s = s\<lparr>rt_current := NoRuntime\<rparr>"

text \<open>
  What surrounds one turn: the readiness the driver dispatches, the clock of each spin, the polls of the
  batch, and what a final \<open>flush\<close> dispatches (\<open>None\<close>: the driver has nothing to flush).
\<close>

record ('u, 'o) turn_script =
  tn_wait :: "'u action list"
  tn_spin :: spin_clock
  tn_batch_spin :: spin_clock
  tn_polls :: "nat \<Rightarrow> ('u, 'o) poll_script"
  tn_flush :: "'u action list option"

definition run_batch ::
    "((nat \<rightharpoonup> nat) \<Rightarrow> nat) \<Rightarrow> ('u, 'o, 'z) turn_script_scheme \<Rightarrow> nat list \<Rightarrow> ('u, 'o) runtime \<Rightarrow> bool \<times> ('u, 'o) runtime" where
  "run_batch vacant c batch s =
     (case (if length batch > timer_poll_threshold
            then map_option snd (spin_timer (tn_batch_spin c) (s\<lparr>rt_held := batch\<rparr>)) else Some s) of
        None \<Rightarrow> (True, s)
      | Some s1 \<Rightarrow>
          let (panicked, s2) = poll_batch vacant (tn_polls c) batch s1
          in if panicked then (True, s2)
             else (False, case tn_flush c of None \<Rightarrow> s2 | Some as \<Rightarrow> acts vacant as s2))"

definition poll_once ::
    "((nat \<rightharpoonup> nat) \<Rightarrow> nat) \<Rightarrow> ('u, 'o) turn_script \<Rightarrow> ('u, 'o) runtime \<Rightarrow> bool \<times> ('u, 'o) runtime" where
  "poll_once vacant c s =
     (let s0 = acts vacant (tn_wait c) s
      in case spin_timer (tn_spin c) s0 of
           None \<Rightarrow> (True, s0)
         | Some (_, s1) \<Rightarrow>
             (case enter_runtime s1 of
                None \<Rightarrow> (True, s1)
              | Some s2 \<Rightarrow>
                  if \<not> should_skip_wait s2 then (False, leave_runtime s2)
                  else
                    let (batch, s3) = fill_batch s2
                    in if batch = [] then (False, leave_runtime s3)
                       else let (panicked, s4) = run_batch vacant c batch s3
                            in (panicked, leave_runtime s4)))"

subsection \<open>Driving a root future\<close>

text \<open>
  One iteration of the loop of \<open>drive\<close>: the root's poll (when it is due), the clock readings, the
  wakes of other threads at the points where the loop thread reads what they write, and the turn.
\<close>

datatype 'o root_poll = RootReady 'o | RootPending | RootPanic

record ('u, 'o) drive_script = "('u, 'o) turn_script" +
  dr_root_acts :: "'u action list"
  dr_root :: "'o root_poll"
  dr_now :: instant
  dr_between :: "'u action list"
  dr_after_flag :: "'u action list"
  dr_now2 :: instant
  dr_timer_spin :: spin_clock

datatype 'o drive_result = DriveReady 'o | DriveExpired | DrivePanic

definition wait_deadline :: "instant option \<Rightarrow> instant \<Rightarrow> nat option \<Rightarrow> nat option" where
  "wait_deadline root_deadline now deadline =
     (case root_deadline of
        None \<Rightarrow> deadline
      | Some root \<Rightarrow>
          let remaining = root - now
          in Some (case deadline of None \<Rightarrow> remaining | Some d \<Rightarrow> min d remaining))"

definition set_waiting :: "('u, 'o) runtime \<Rightarrow> ('u, 'o) runtime" where
  "set_waiting s = s\<lparr>rt_remote_wake := (rt_remote_wake s)\<lparr>rw_interrupt_pending := False, rw_waiting := True\<rparr>\<rparr>"

text \<open>
  The branch of an empty batch: park unless there is work. The timeout handed to \<open>driver.wait\<close> is the
  first component (\<open>None\<close>: it did not wait).
\<close>

definition drive_idle ::
    "((nat \<rightharpoonup> nat) \<Rightarrow> nat) \<Rightarrow> instant option \<Rightarrow> ('u, 'o) drive_script \<Rightarrow> ('u, 'o) runtime
      \<Rightarrow> (nat option option \<times> ('u, 'o) runtime) option" where
  "drive_idle vacant root_deadline c s =
     (if rt_root_ready s then Some (None, s)
      else
        let s1 = acts vacant (dr_after_flag c) (set_waiting s)
        in if rt_root_ready s1 \<or> should_skip_wait s1 then Some (None, stop_waiting s1)
           else do {
             ((deadline, woken_up), s2) \<leftarrow> spin_timer (dr_timer_spin c) s1;
             if woken_up then Some (None, stop_waiting s2)
             else
               let timeout = wait_deadline root_deadline (dr_now2 c) deadline
               in Some (Some timeout, stop_waiting (acts vacant (tn_wait c) s2))
           })"

fun drive_loop ::
    "((nat \<rightharpoonup> nat) \<Rightarrow> nat) \<Rightarrow> instant option \<Rightarrow> ('u, 'o) drive_script list \<Rightarrow> ('u, 'o) runtime
      \<Rightarrow> 'o drive_result option \<times> ('u, 'o) runtime" where
  "drive_loop vacant root_deadline [] s = (None, s)"
| "drive_loop vacant root_deadline (c # cs) s =
     (let (root, s1) =
            (if rt_root_ready s then (dr_root c, acts vacant (dr_root_acts c) (s\<lparr>rt_root_ready := False\<rparr>))
             else (RootPending, s))
      in case root of
           RootReady v \<Rightarrow> (Some (DriveReady v), s1)
         | RootPanic \<Rightarrow> (Some DrivePanic, s1)
         | RootPending \<Rightarrow>
             if (case root_deadline of None \<Rightarrow> False | Some d \<Rightarrow> d \<le> dr_now c) then (Some DriveExpired, s1)
             else
               let (batch, s2) = fill_batch s1
               in if batch = [] then
                    (case drive_idle vacant root_deadline c (acts vacant (dr_between c) s2) of
                       None \<Rightarrow> (Some DrivePanic, s2)
                     | Some (_, s3) \<Rightarrow> drive_loop vacant root_deadline cs s3)
                  else
                    let (panicked, s3) = run_batch vacant c batch s2
                    in if panicked then (Some DrivePanic, s3)
                       else drive_loop vacant root_deadline cs s3)"

text \<open>
  \<open>drive\<close>: the loop under the runtime guard; the root future is destroyed (\<open>destructor\<close>) before the
  guard is left. The result is \<open>None\<close> while the loop is still running at the end of the script.
\<close>

definition drive ::
    "((nat \<rightharpoonup> nat) \<Rightarrow> nat) \<Rightarrow> instant option \<Rightarrow> 'u action list \<Rightarrow> ('u, 'o) drive_script list \<Rightarrow> ('u, 'o) runtime
      \<Rightarrow> 'o drive_result option \<times> ('u, 'o) runtime" where
  "drive vacant root_deadline destructor cs s =
     (case enter_runtime s of
        None \<Rightarrow> (Some DrivePanic, s)
      | Some s1 \<Rightarrow>
          let (r, s2) = drive_loop vacant root_deadline cs (s1\<lparr>rt_root_ready := True\<rparr>)
          in (r, case r of None \<Rightarrow> s2 | Some _ \<Rightarrow> leave_runtime (acts vacant destructor s2)))"

definition block_on ::
    "((nat \<rightharpoonup> nat) \<Rightarrow> nat) \<Rightarrow> 'u action list \<Rightarrow> ('u, 'o) drive_script list \<Rightarrow> ('u, 'o) runtime
      \<Rightarrow> 'o drive_result option \<times> ('u, 'o) runtime" where
  "block_on vacant destructor cs s =
     (let (r, s1) = drive vacant None destructor cs s
      in (case r of Some DriveExpired \<Rightarrow> Some DrivePanic | _ \<Rightarrow> r, s1))"

definition block_on_until ::
    "((nat \<rightharpoonup> nat) \<Rightarrow> nat) \<Rightarrow> instant \<Rightarrow> 'u action list \<Rightarrow> ('u, 'o) drive_script list \<Rightarrow> ('u, 'o) runtime
      \<Rightarrow> 'o drive_result option \<times> ('u, 'o) runtime" where
  "block_on_until vacant deadline destructor cs s = drive vacant (Some deadline) destructor cs s"

text \<open>
  Dropping the runtime: \<open>tasks\<close> are the entries of the detached slab, by token, \<open>destructors\<close> what the
  destructor of each future does, and \<open>retained\<close> whether a clone of the root waker outlives the runtime.
\<close>

fun drop_tasks ::
    "((nat \<rightharpoonup> nat) \<Rightarrow> nat) \<Rightarrow> (nat \<Rightarrow> 'u action list) \<Rightarrow> nat list \<Rightarrow> ('u, 'o) runtime \<Rightarrow> ('u, 'o) runtime" where
  "drop_tasks vacant destructors [] s = s"
| "drop_tasks vacant destructors (t # ts) s =
     (let (slot, s1) = take_future t s
      in drop_tasks vacant destructors ts
           (case slot of None \<Rightarrow> s1 | Some f \<Rightarrow> acts vacant (destructors t) (drop_future f s1)))"

definition runtime_drop ::
    "((nat \<rightharpoonup> nat) \<Rightarrow> nat) \<Rightarrow> (nat \<Rightarrow> 'u action list) \<Rightarrow> nat list \<Rightarrow> bool \<Rightarrow> ('u, 'o) runtime \<Rightarrow> bool \<times> ('u, 'o) runtime" where
  "runtime_drop vacant destructors tasks retained s =
     (case enter_runtime s of
        None \<Rightarrow> (True, s)
      | Some s1 \<Rightarrow>
          let s2 = (leave_runtime s1)\<lparr>rt_token_to_task := Map.empty\<rparr>;
              s3 = drop_tasks vacant destructors tasks s2
          in (False, s3\<lparr>rt_queue := [], rt_next_task := None, rt_remote_live := retained\<rparr>))"

subsection \<open>Well-formed runtimes\<close>

definition vacant_ok :: "((nat \<rightharpoonup> nat) \<Rightarrow> nat) \<Rightarrow> bool" where
  "vacant_ok vacant \<longleftrightarrow> (\<forall>m. finite (dom m) \<longrightarrow> m (vacant m) = None)"

definition slab_ok :: "('u, 'o) runtime \<Rightarrow> bool" where
  "slab_ok s \<longleftrightarrow> finite (dom (rt_token_to_task s))
     \<and> (\<forall>k t. rt_token_to_task s k = Some t \<longrightarrow> (\<exists>x. rt_tasks s t = Some x \<and> tk_token x = k))"

definition ids_ok :: "('u, 'o) runtime \<Rightarrow> bool" where
  "ids_ok s \<longleftrightarrow> dom (rt_tasks s) = {..<rt_task_count s} \<and> dom (rt_joins s) = {..<rt_join_count s}"

definition joins_ok :: "('u, 'o) runtime \<Rightarrow> bool" where
  "joins_ok s \<longleftrightarrow> (\<forall>j js. rt_joins s j = Some js \<longrightarrow> (\<exists>t. js_task js = Some t \<and> t < rt_task_count s))"

definition slot_ok :: "nat \<Rightarrow> ('u, 'o) runtime \<Rightarrow> 'u boxed \<Rightarrow> bool" where
  "slot_ok t s f \<longleftrightarrow> in_slab t s
     \<and> (\<forall>j u. f = SpawnFuture j u \<longrightarrow> (\<exists>js. rt_joins s j = Some js \<and> js_task js = Some t))"

definition task_slots_ok :: "('u, 'o) runtime \<Rightarrow> bool" where
  "task_slots_ok s \<longleftrightarrow> (\<forall>t x f. rt_tasks s t = Some x \<and> tk_future x = Some f \<longrightarrow> slot_ok t s f)"

definition rt_timer_ok :: "('u, 'o) runtime \<Rightarrow> bool" where
  "rt_timer_ok s \<longleftrightarrow> (\<forall>tm. rt_timer s = Some tm \<longrightarrow> timer_inv tm)"

text \<open>The ready entries of a runtime; the flag \<open>queued\<close> of a live task is exact.\<close>

definition entries :: "('u, 'o) runtime \<Rightarrow> nat list" where
  "entries s = (case rt_next_task s of None \<Rightarrow> [] | Some t \<Rightarrow> [t]) @ rt_queue s @ rw_queue (rt_remote_wake s)"

definition entries_ok :: "('u, 'o) runtime \<Rightarrow> bool" where
  "entries_ok s \<longleftrightarrow> (\<forall>t. count_list (entries s) t \<le> of_bool (task_queued t s \<and> t < rt_task_count s)
     \<and> (in_slab t s \<longrightarrow> count_list (entries s) t = of_bool (task_queued t s)))"

definition rt_core :: "('u, 'o) runtime \<Rightarrow> bool" where
  "rt_core s \<longleftrightarrow> slab_ok s \<and> ids_ok s \<and> joins_ok s \<and> task_slots_ok s \<and> rt_timer_ok s"

definition rt_wf :: "('u, 'o) runtime \<Rightarrow> bool" where
  "rt_wf s \<longleftrightarrow> rt_core s \<and> entries_ok s \<and> rt_remote_live s"

lemmas core_defs = rt_core_def slab_ok_def ids_ok_def joins_ok_def task_slots_ok_def rt_timer_ok_def slot_ok_def

lemma update_task_frame [simp]:
  "rt_queue (update_task t f s) = rt_queue s" "rt_next_task (update_task t f s) = rt_next_task s"
  "rt_remote_wake (update_task t f s) = rt_remote_wake s" "rt_remote_live (update_task t f s) = rt_remote_live s"
  "rt_token_to_task (update_task t f s) = rt_token_to_task s" "rt_root_ready (update_task t f s) = rt_root_ready s"
  "rt_timer (update_task t f s) = rt_timer s" "rt_current (update_task t f s) = rt_current s"
  "rt_held (update_task t f s) = rt_held s" "rt_task_count (update_task t f s) = rt_task_count s"
  "rt_joins (update_task t f s) = rt_joins s" "rt_join_count (update_task t f s) = rt_join_count s"
  "rt_dropped (update_task t f s) = rt_dropped s" "rt_polled (update_task t f s) = rt_polled s"
  "rt_other (update_task t f s) = rt_other s"
  "rt_tasks (update_task t f s) = (rt_tasks s)(t := map_option f (rt_tasks s t))"
  by (simp_all add: update_task_def)

lemma update_join_frame [simp]:
  "rt_queue (update_join j f s) = rt_queue s" "rt_next_task (update_join j f s) = rt_next_task s"
  "rt_remote_wake (update_join j f s) = rt_remote_wake s" "rt_remote_live (update_join j f s) = rt_remote_live s"
  "rt_token_to_task (update_join j f s) = rt_token_to_task s" "rt_root_ready (update_join j f s) = rt_root_ready s"
  "rt_timer (update_join j f s) = rt_timer s" "rt_current (update_join j f s) = rt_current s"
  "rt_held (update_join j f s) = rt_held s" "rt_task_count (update_join j f s) = rt_task_count s"
  "rt_tasks (update_join j f s) = rt_tasks s" "rt_join_count (update_join j f s) = rt_join_count s"
  "rt_dropped (update_join j f s) = rt_dropped s" "rt_polled (update_join j f s) = rt_polled s"
  "rt_other (update_join j f s) = rt_other s"
  "rt_joins (update_join j f s) = (rt_joins s)(j := map_option f (rt_joins s j))"
  by (simp_all add: update_join_def)

text \<open>Changes that keep the identity of tasks keep who is in the slab.\<close>

lemma in_slab_cong:
  assumes "rt_token_to_task s' = rt_token_to_task s"
    and "map_option tk_token (rt_tasks s' t) = map_option tk_token (rt_tasks s t)"
  shows "in_slab t s' = in_slab t s"
  using assms by (auto simp: in_slab_def split: option.splits)

lemma in_slab_update_task [simp]:
  "(\<And>k. tk_token (f k) = tk_token k) \<Longrightarrow> in_slab u (update_task t f s) = in_slab u s"
  by (rule in_slab_cong) (auto simp: option.map_comp comp_def)

lemma in_slab_update_join [simp]: "in_slab u (update_join j f s) = in_slab u s"
  by (rule in_slab_cong) simp_all

lemma task_queued_update_join [simp]: "task_queued u (update_join j f s) = task_queued u s"
  by (simp add: task_queued_def)

lemma entries_update [simp]:
  "entries (update_task t f s) = entries s" "entries (update_join j g s) = entries s"
  by (simp_all add: entries_def)

definition task_shape :: "('u, 'o) runtime \<Rightarrow> nat \<Rightarrow> (nat \<times> 'u boxed option) option" where
  "task_shape s t = map_option (\<lambda>k. (tk_token k, tk_future k)) (rt_tasks s t)"

definition join_shape :: "('u, 'o) runtime \<Rightarrow> nat \<Rightarrow> nat option option" where
  "join_shape s j = map_option js_task (rt_joins s j)"

lemma shape_iff:
  "task_shape s t = Some (k, f) \<longleftrightarrow> (\<exists>x. rt_tasks s t = Some x \<and> tk_token x = k \<and> tk_future x = f)"
  "join_shape s j = Some v \<longleftrightarrow> (\<exists>x. rt_joins s j = Some x \<and> js_task x = v)"
  by (auto simp: task_shape_def join_shape_def)

lemma in_slab_shape: "in_slab t s \<longleftrightarrow> (\<exists>k f. task_shape s t = Some (k, f) \<and> rt_token_to_task s k = Some t)"
  by (auto simp: in_slab_def task_shape_def split: option.splits)

lemma rt_core_shape:
  "rt_core s \<longleftrightarrow> finite (dom (rt_token_to_task s))
     \<and> (\<forall>k t. rt_token_to_task s k = Some t \<longrightarrow> (\<exists>f. task_shape s t = Some (k, f)))
     \<and> dom (task_shape s) = {..<rt_task_count s} \<and> dom (join_shape s) = {..<rt_join_count s}
     \<and> (\<forall>j v. join_shape s j = Some v \<longrightarrow> (\<exists>t < rt_task_count s. v = Some t))
     \<and> (\<forall>t k f. task_shape s t = Some (k, Some f) \<longrightarrow> rt_token_to_task s k = Some t
           \<and> (\<forall>j u. f = SpawnFuture j u \<longrightarrow> join_shape s j = Some (Some t)))
     \<and> rt_timer_ok s"
  (is "_ \<longleftrightarrow> ?R")
proof -
  have d: "dom (task_shape s) = dom (rt_tasks s)" "dom (join_shape s) = dom (rt_joins s)"
    by (auto simp: task_shape_def join_shape_def)
  have 1: "slab_ok s \<longleftrightarrow> finite (dom (rt_token_to_task s))
     \<and> (\<forall>k t. rt_token_to_task s k = Some t \<longrightarrow> (\<exists>f. task_shape s t = Some (k, f)))"
    by (auto simp: slab_ok_def shape_iff)
  have 2: "joins_ok s \<longleftrightarrow> (\<forall>j v. join_shape s j = Some v \<longrightarrow> (\<exists>t < rt_task_count s. v = Some t))"
    by (auto simp: joins_ok_def shape_iff)
  have 3: "task_slots_ok s \<longleftrightarrow> (\<forall>t k f. task_shape s t = Some (k, Some f) \<longrightarrow> rt_token_to_task s k = Some t
           \<and> (\<forall>j u. f = SpawnFuture j u \<longrightarrow> join_shape s j = Some (Some t)))"
    unfolding task_slots_ok_def slot_ok_def shape_iff by (auto simp: in_slab_def)
  show ?thesis unfolding rt_core_def 1 2 3 ids_ok_def d by blast
qed

lemma rt_core_cong:
  assumes "rt_token_to_task s' = rt_token_to_task s" "task_shape s' = task_shape s" "join_shape s' = join_shape s"
    and "rt_task_count s' = rt_task_count s" "rt_join_count s' = rt_join_count s" "rt_timer s' = rt_timer s"
  shows "rt_core s' = rt_core s"
  unfolding rt_core_shape rt_timer_ok_def assms ..

lemma shape_update_queued [simp]:
  "task_shape (update_task t (tk_queued_update g) s) = task_shape s"
  "join_shape (update_task t f s) = join_shape s" "task_shape (update_join j h s) = task_shape s"
  by (auto simp: task_shape_def join_shape_def option.map_comp comp_def)

lemma join_shape_update_join [simp]:
  "(\<And>x. js_task (h x) = js_task x) \<Longrightarrow> join_shape (update_join j h s) = join_shape s"
  by (auto simp: join_shape_def option.map_comp comp_def)

definition same_tasks :: "('u, 'o) runtime \<Rightarrow> ('u, 'o) runtime \<Rightarrow> bool" where
  "same_tasks s s' \<longleftrightarrow> rt_token_to_task s' = rt_token_to_task s \<and> task_shape s' = task_shape s
     \<and> join_shape s' = join_shape s \<and> rt_task_count s' = rt_task_count s \<and> rt_join_count s' = rt_join_count s
     \<and> rt_timer s' = rt_timer s \<and> rt_remote_live s' = rt_remote_live s \<and> rt_current s' = rt_current s
     \<and> rt_held s' = rt_held s \<and> rt_joins s' = rt_joins s \<and> rt_dropped s' = rt_dropped s
     \<and> rt_polled s' = rt_polled s"

lemma same_tasks_core: "same_tasks s s' \<Longrightarrow> rt_core s' = rt_core s"
  by (rule rt_core_cong) (simp_all add: same_tasks_def)

lemma same_tasks_in_slab: "same_tasks s s' \<Longrightarrow> in_slab t s' = in_slab t s"
  by (simp add: same_tasks_def in_slab_shape)

lemma task_queued_swap:
  "task_queued u (update_task t (tk_queued_update (\<lambda>_. b)) s) = (if u = t \<and> rt_tasks s t \<noteq> None then b else task_queued u s)"
  by (auto simp: task_queued_def split: option.splits)

lemma task_queued_frame [simp]:
  "task_queued u (s\<lparr>rt_remote_wake := r\<rparr>) = task_queued u s" "task_queued u (s\<lparr>rt_next_task := n\<rparr>) = task_queued u s"
  "task_queued u (rt_enqueue t s) = task_queued u s" "task_queued u (s\<lparr>rt_queue := q\<rparr>) = task_queued u s"
  by (simp_all add: task_queued_def rt_enqueue_def)

lemma in_slab_frame [simp]:
  "in_slab u (s\<lparr>rt_remote_wake := r\<rparr>) = in_slab u s" "in_slab u (s\<lparr>rt_next_task := n\<rparr>) = in_slab u s"
  "in_slab u (rt_enqueue t s) = in_slab u s" "in_slab u (s\<lparr>rt_queue := q\<rparr>) = in_slab u s"
  "in_slab u (s\<lparr>rt_dropped := ds\<rparr>) = in_slab u s" "in_slab u (s\<lparr>rt_timer := tm\<rparr>) = in_slab u s"
  "in_slab u (s\<lparr>rt_polled := d\<rparr>) = in_slab u s" "in_slab u (s\<lparr>rt_held := d\<rparr>) = in_slab u s"
  "in_slab u (s\<lparr>rt_root_ready := b\<rparr>) = in_slab u s" "in_slab u (s\<lparr>rt_current := c\<rparr>) = in_slab u s"
  by (simp_all add: in_slab_def rt_enqueue_def split: option.split)

lemma rw_signal_queue [simp]: "rw_queue (rw_signal r) = rw_queue r"
  by (simp add: rw_signal_def)

lemma enqueue_if_needed_same: "same_tasks s (enqueue_if_needed here t s)"
  by (simp add: same_tasks_def enqueue_if_needed_def swap_queued_def enqueue_local_wake_def rt_enqueue_def
      Let_def task_shape_def join_shape_def fun_eq_iff option.map_comp comp_def)

lemma enqueue_if_needed_queued:
  "task_queued u (enqueue_if_needed here t s) = (task_queued u s \<or> u = t)"
  by (cases "rt_tasks s t")
    (auto simp: enqueue_if_needed_def swap_queued_def enqueue_local_wake_def task_queued_swap Let_def,
     auto simp: task_queued_def)

lemma enqueue_if_needed_entries:
  "count_list (entries (enqueue_if_needed here t s)) u
     = count_list (entries s) u
       + of_bool (u = t \<and> \<not> task_queued t s
           \<and> (if here \<and> rt_current s = ThisRuntime then in_slab t s else rt_remote_live s))"
  by (simp add: enqueue_if_needed_def swap_queued_def enqueue_local_wake_def entries_def rt_enqueue_def rw_push_def Let_def
      split: option.split)

lemma not_queued_allocated: "\<not> task_queued t s \<Longrightarrow> rt_core s \<Longrightarrow> t < rt_task_count s"
  by (auto simp: task_queued_def rt_core_def ids_ok_def split: option.splits)

lemma enqueue_if_needed_wf: "rt_wf s \<Longrightarrow> rt_wf (enqueue_if_needed here t s)"
proof -
  assume wf: "rt_wf s"
  let ?s = "enqueue_if_needed here t s"
  have same: "same_tasks s ?s" by (rule enqueue_if_needed_same)
  have "entries_ok ?s"
    unfolding entries_ok_def
  proof (intro allI conjI impI)
    fix u
    have e: "count_list (entries s) u \<le> of_bool (task_queued u s \<and> u < rt_task_count s)"
      "in_slab u s \<Longrightarrow> count_list (entries s) u = of_bool (task_queued u s)"
      using wf by (auto simp: rt_wf_def entries_ok_def)
    have c: "rt_task_count ?s = rt_task_count s" and live: "rt_remote_live s"
      using same wf by (auto simp: same_tasks_def rt_wf_def)
    have a: "\<not> task_queued t s \<Longrightarrow> t < rt_task_count s" using not_queued_allocated wf by (auto simp: rt_wf_def)
    show "count_list (entries ?s) u \<le> of_bool (task_queued u ?s \<and> u < rt_task_count ?s)"
      using e(1) a by (auto simp: enqueue_if_needed_entries enqueue_if_needed_queued c of_bool_def split: if_splits)
    assume "in_slab u ?s"
    then have "in_slab u s" using same_tasks_in_slab [OF same] by simp
    then show "count_list (entries ?s) u = of_bool (task_queued u ?s)"
      using e(2) live by (auto simp: enqueue_if_needed_entries enqueue_if_needed_queued)
  qed
  then show ?thesis using wf same same_tasks_core [OF same] by (simp add: rt_wf_def same_tasks_def)
qed

lemma rt_wake_same: "same_tasks s (rt_wake here w s)"
  by (cases w) (simp_all add: enqueue_if_needed_same,
    simp_all add: same_tasks_def root_notify_def task_shape_def join_shape_def Let_def fun_eq_iff)

lemma rt_wake_entries:
  "w \<noteq> TaskWaker t \<Longrightarrow> count_list (entries (rt_wake here w s)) t = count_list (entries s) t"
  "w \<noteq> TaskWaker t \<Longrightarrow> task_queued t (rt_wake here w s) = task_queued t s"
  by (cases w; simp add: enqueue_if_needed_entries root_notify_def; simp add: entries_def Let_def)
    (cases w; simp add: enqueue_if_needed_queued root_notify_def; simp add: task_queued_def Let_def)

lemma rt_wake_wf: "rt_wf s \<Longrightarrow> rt_wf (rt_wake here w s)"
proof (cases "\<exists>t. w = TaskWaker t")
  case False
  assume wf: "rt_wf s"
  have same: "same_tasks s (rt_wake here w s)" by (rule rt_wake_same)
  have "entries_ok (rt_wake here w s)"
    using wf False same_tasks_in_slab [OF same] same
    by (auto simp: rt_wf_def entries_ok_def rt_wake_entries same_tasks_def)
  then show ?thesis using wf same same_tasks_core [OF same] by (simp add: rt_wf_def same_tasks_def)
qed (auto simp: enqueue_if_needed_wf)

lemma update_join_wf: "(\<And>x. js_task (h x) = js_task x) \<Longrightarrow> rt_wf s \<Longrightarrow> rt_wf (update_join j h s)"
  using rt_core_cong [of "update_join j h s" s] by (simp add: rt_wf_def entries_ok_def)

lemma take_future_wf: "rt_wf s \<Longrightarrow> rt_wf (snd (take_future t s))"
proof -
  assume wf: "rt_wf s"
  let ?s = "snd (take_future t s)"
  have "task_shape ?s = (task_shape s)(t := map_option (\<lambda>(k, f). (k, None)) (task_shape s t))"
    by (auto simp: take_future_def task_shape_def option.map_comp comp_def)
  moreover have "join_shape ?s = join_shape s" by (simp add: take_future_def)
  ultimately have "rt_core ?s"
    using wf unfolding rt_wf_def rt_core_shape
    by (auto simp: take_future_def rt_timer_ok_def split: if_splits; blast)
  moreover have "task_queued u ?s = task_queued u s" for u
    by (auto simp: take_future_def task_queued_def split: option.splits)
  ultimately show ?thesis using wf by (simp add: rt_wf_def entries_ok_def take_future_def)
qed

lemma rt_wf_cong:
  assumes eq: "rt_token_to_task s' = rt_token_to_task s" "rt_tasks s' = rt_tasks s" "rt_joins s' = rt_joins s"
    "rt_task_count s' = rt_task_count s" "rt_join_count s' = rt_join_count s" "rt_remote_live s' = rt_remote_live s"
    "rt_next_task s' = rt_next_task s" "rt_queue s' = rt_queue s"
    "rw_queue (rt_remote_wake s') = rw_queue (rt_remote_wake s)"
    and timer: "rt_timer_ok s'" and wf: "rt_wf s"
  shows "rt_wf s'"
proof -
  have slab: "in_slab t s' = in_slab t s" for t by (rule in_slab_cong) (simp_all add: eq)
  have "slot_ok t s' f = slot_ok t s f" for t f by (simp add: slot_ok_def slab eq)
  then have "rt_core s'"
    using wf timer by (simp add: rt_wf_def rt_core_def slab_ok_def ids_ok_def joins_ok_def task_slots_ok_def eq) blast
  moreover have "entries s' = entries s" "task_queued t s' = task_queued t s" for t
    by (simp_all add: entries_def task_queued_def eq)
  ultimately show ?thesis using wf by (simp add: rt_wf_def entries_ok_def slab eq)
qed

lemma wf_frame:
  assumes "rt_wf s"
  shows "rt_wf (s\<lparr>rt_dropped := d\<rparr>)" "rt_wf (s\<lparr>rt_polled := p\<rparr>)" "rt_wf (s\<lparr>rt_held := l\<rparr>)"
    "rt_wf (s\<lparr>rt_current := c\<rparr>)" "rt_wf (s\<lparr>rt_root_ready := b\<rparr>)"
    "rw_queue r = rw_queue (rt_remote_wake s) \<Longrightarrow> rt_wf (s\<lparr>rt_remote_wake := r\<rparr>)"
    "(\<And>tm. tmo = Some tm \<Longrightarrow> timer_inv tm) \<Longrightarrow> rt_wf (s\<lparr>rt_timer := tmo\<rparr>)"
  using assms by (rule_tac [!] rt_wf_cong [OF _ _ _ _ _ _ _ _ _ _ assms]) (simp_all add: rt_wf_def rt_core_def rt_timer_ok_def)

lemma wf_new_task:
  assumes wf: "rt_wf s" and v: "vacant_ok vacant"
    and j: "f = Detached u \<and> js = rt_joins s \<and> n = rt_join_count s
      \<or> f = SpawnFuture (rt_join_count s) u \<and> n = Suc (rt_join_count s)
        \<and> js = (rt_joins s)(rt_join_count s \<mapsto> x) \<and> js_task x = Some (rt_task_count s)"
    and s': "s' = s\<lparr>rt_tasks := (rt_tasks s)(rt_task_count s \<mapsto>
        \<lparr>tk_future = Some f, tk_queued = True, tk_token = vacant (rt_token_to_task s)\<rparr>),
      rt_task_count := Suc (rt_task_count s), rt_joins := js, rt_join_count := n,
      rt_token_to_task := (rt_token_to_task s)(vacant (rt_token_to_task s) \<mapsto> rt_task_count s),
      rt_queue := rt_queue s @ [rt_task_count s]\<rparr>"
  shows "rt_wf s'" "\<And>t. in_slab t s \<Longrightarrow> in_slab t s'" "\<And>k. k < rt_join_count s \<Longrightarrow> rt_joins s' k = rt_joins s k"
proof -
  let ?t = "rt_task_count s" and ?k = "vacant (rt_token_to_task s)"
  have core: "rt_core s" and live: "rt_remote_live s" and ent: "entries_ok s" using wf by (auto simp: rt_wf_def)
  have fin: "finite (dom (rt_token_to_task s))" using core by (simp add: rt_core_def slab_ok_def)
  then have free: "rt_token_to_task s ?k = None" using v by (simp add: vacant_ok_def)
  have new: "rt_tasks s ?t = None" "rt_joins s (rt_join_count s) = None"
    using core by (auto simp: rt_core_def ids_ok_def domIff [symmetric])
  have old: "rt_token_to_task s k \<noteq> Some ?t" for k using core new unfolding rt_core_def slab_ok_def by (metis option.distinct(1))
  have ts: "task_shape s' = (task_shape s)(?t \<mapsto> (?k, Some f))" by (auto simp: s' task_shape_def)
  have slab: "in_slab t s' \<longleftrightarrow> t = ?t \<or> in_slab t s" for t
    using free new old by (auto simp: in_slab_def s' split: option.splits)
  then show "\<And>t. in_slab t s \<Longrightarrow> in_slab t s'" by simp
  show "\<And>k. k < rt_join_count s \<Longrightarrow> rt_joins s' k = rt_joins s k" using j by (auto simp: s')
  have shapes: "dom (task_shape s) = {..<?t}" "dom (join_shape s) = {..<rt_join_count s}"
    using core by (simp_all add: rt_core_shape)
  have js: "join_shape s' = (if f = Detached u then join_shape s else (join_shape s)(rt_join_count s \<mapsto> Some ?t))"
    using j by (auto simp: s' join_shape_def)
  have nn: "rt_join_count s' = (if f = Detached u then rt_join_count s else Suc (rt_join_count s))"
    using j by (auto simp: s')
  have sf: "f = SpawnFuture a b \<Longrightarrow> a = rt_join_count s" for a b using j by auto
  have tok: "rt_token_to_task s' = (rt_token_to_task s)(?k \<mapsto> ?t)" and cnt: "rt_task_count s' = Suc ?t"
    by (simp_all add: s')
  have "rt_core s'"
    unfolding rt_core_shape
  proof (intro conjI)
    show "finite (dom (rt_token_to_task s'))" using fin by (simp add: tok)
    show "dom (task_shape s') = {..<rt_task_count s'}" using shapes by (auto simp: ts tok cnt)
    show "dom (join_shape s') = {..<rt_join_count s'}" using shapes by (auto simp: js nn)
    show "rt_timer_ok s'" using core by (simp add: rt_core_def rt_timer_ok_def s')
    show "\<forall>k t. rt_token_to_task s' k = Some t \<longrightarrow> (\<exists>f. task_shape s' t = Some (k, f))"
      using core old unfolding rt_core_shape by (auto simp: tok ts)
    show "\<forall>j v. join_shape s' j = Some v \<longrightarrow> (\<exists>t < rt_task_count s'. v = Some t)"
      using core unfolding rt_core_shape by (auto simp: js cnt split: if_splits) (metis less_SucI)+
    show "\<forall>t k g. task_shape s' t = Some (k, Some g) \<longrightarrow> rt_token_to_task s' k = Some t
        \<and> (\<forall>j u. g = SpawnFuture j u \<longrightarrow> join_shape s' j = Some (Some t))"
    proof (intro allI impI)
      fix t k g assume a: "task_shape s' t = Some (k, Some g)"
      show "rt_token_to_task s' k = Some t \<and> (\<forall>j u. g = SpawnFuture j u \<longrightarrow> join_shape s' j = Some (Some t))"
      proof (cases "t = ?t")
        case True
        then show ?thesis using a sf by (auto simp: ts js tok)
      next
        case False
        then have b: "task_shape s t = Some (k, Some g)" using a by (simp add: ts)
        then have c: "rt_token_to_task s k = Some t" "\<forall>j u. g = SpawnFuture j u \<longrightarrow> join_shape s j = Some (Some t)"
          using core unfolding rt_core_shape by blast+
        then have "k \<noteq> ?k" using free by auto
        moreover have "join_shape s (rt_join_count s) = None" using new by (simp add: join_shape_def)
        ultimately show ?thesis using c by (auto simp: js tok)
      qed
    qed
  qed
  moreover have "entries_ok s'"
    unfolding entries_ok_def
  proof (intro allI)
    fix t
    have q: "task_queued u s' = (u = ?t \<or> task_queued u s)" for u by (simp add: task_queued_def s')
    have c: "count_list (entries s') u = count_list (entries s) u + of_bool (u = ?t)" for u
      by (simp add: entries_def s' split: option.split)
    have e: "count_list (entries s) u \<le> of_bool (task_queued u s \<and> u < ?t)"
      "in_slab u s \<Longrightarrow> count_list (entries s) u = of_bool (task_queued u s)" for u
      using ent by (auto simp: entries_ok_def)
    have z: "count_list (entries s) ?t = 0" using e(1) [of ?t] by simp
    have n: "\<not> in_slab ?t s" using new by (simp add: in_slab_def)
    show "count_list (entries s') t \<le> of_bool (task_queued t s' \<and> t < rt_task_count s') \<and>
        (in_slab t s' \<longrightarrow> count_list (entries s') t = of_bool (task_queued t s'))"
      using e [of t] z n by (cases "t = ?t") (auto simp: q c slab cnt of_bool_def split: if_splits)
  qed
  ultimately show "rt_wf s'" using live by (simp add: rt_wf_def s')
qed

lemma spawn_detached_eq:
  "spawn_detached vacant u s = s\<lparr>rt_tasks := (rt_tasks s)(rt_task_count s \<mapsto>
        \<lparr>tk_future = Some (Detached u), tk_queued = True, tk_token = vacant (rt_token_to_task s)\<rparr>),
      rt_task_count := Suc (rt_task_count s), rt_joins := rt_joins s, rt_join_count := rt_join_count s,
      rt_token_to_task := (rt_token_to_task s)(vacant (rt_token_to_task s) \<mapsto> rt_task_count s),
      rt_queue := rt_queue s @ [rt_task_count s]\<rparr>"
  by (simp add: spawn_detached_def new_task_def rt_enqueue_def Let_def)

lemma rt_spawn_eq:
  "snd (rt_spawn vacant u s) = s\<lparr>rt_tasks := (rt_tasks s)(rt_task_count s \<mapsto>
        \<lparr>tk_future = Some (SpawnFuture (rt_join_count s) u), tk_queued = True, tk_token = vacant (rt_token_to_task s)\<rparr>),
      rt_task_count := Suc (rt_task_count s),
      rt_joins := (rt_joins s)(rt_join_count s \<mapsto>
        \<lparr>js_output = None, js_waker = None, js_canceled = False, js_task = Some (rt_task_count s)\<rparr>),
      rt_join_count := Suc (rt_join_count s),
      rt_token_to_task := (rt_token_to_task s)(vacant (rt_token_to_task s) \<mapsto> rt_task_count s),
      rt_queue := rt_queue s @ [rt_task_count s]\<rparr>"
  by (simp add: rt_spawn_def new_task_def rt_enqueue_def Let_def)

lemma rt_spawn_wf:
  assumes "rt_wf s" "vacant_ok vacant"
  shows "rt_wf (snd (rt_spawn vacant u s))" "in_slab t s \<Longrightarrow> in_slab t (snd (rt_spawn vacant u s))"
    "j < rt_join_count s \<Longrightarrow> rt_joins (snd (rt_spawn vacant u s)) j = rt_joins s j"
  using wf_new_task [OF assms disjI2 [OF conjI [OF HOL.refl conjI [OF HOL.refl conjI [OF HOL.refl]]]] rt_spawn_eq [of vacant u s]]
  by simp_all

lemma spawn_detached_wf:
  assumes "rt_wf s" "vacant_ok vacant"
  shows "rt_wf (spawn_detached vacant u s)" "in_slab t s \<Longrightarrow> in_slab t (spawn_detached vacant u s)"
    "rt_joins (spawn_detached vacant u s) = rt_joins s"
  using wf_new_task [OF assms disjI1 [OF conjI [OF HOL.refl conjI [OF HOL.refl HOL.refl]]] spawn_detached_eq [of vacant u s]]
  by (simp_all add: spawn_detached_eq)

subsection \<open>What user code keeps\<close>

text \<open>
  User code reaches the runtime only through the operations above. A property of runtimes that each of
  them keeps is kept by every list of actions, however destructors and wakers nest. The one hypothesis
  on the code itself is that its timer operations keep the timer's invariant.
\<close>

fun action_ok :: "'u action \<Rightarrow> bool" where
  "action_ok (Cancel j as) = list_all action_ok as"
| "action_ok (JoinPoll j w as) = list_all action_ok as"
| "action_ok (UpdateTimer f) = (\<forall>tm. timer_inv tm \<longrightarrow> timer_inv (f tm))"
| "action_ok _ = True"

locale user_code =
  fixes vacant :: "(nat \<rightharpoonup> nat) \<Rightarrow> nat"
    and P :: "('u, 'o) runtime \<Rightarrow> bool"
  assumes keep_wake: "P s \<Longrightarrow> P (rt_wake here w s)"
    and keep_spawn: "P s \<Longrightarrow> P (snd (rt_spawn vacant u s))"
    and keep_spawn_detached: "P s \<Longrightarrow> P (spawn_detached vacant u s)"
    and keep_join: "P s \<Longrightarrow> g \<in> {js_canceled_update (\<lambda>_. True), js_output_update (\<lambda>_. None), js_waker_update (\<lambda>_. wo)}
      \<Longrightarrow> P (update_join j g s)"
    and keep_take: "P s \<Longrightarrow> P (snd (take_future t s))"
    and keep_drop: "P s \<Longrightarrow> P (drop_future f s)"
    and keep_timer: "P s \<Longrightarrow> (\<And>tm. timer_inv tm \<Longrightarrow> timer_inv (h tm)) \<Longrightarrow> P (s\<lparr>rt_timer := map_option h (rt_timer s)\<rparr>)"
begin

lemma acts_if: "(\<And>a s. a \<in> set as \<Longrightarrow> P s \<Longrightarrow> P (act vacant a s)) \<Longrightarrow> P s \<Longrightarrow> P (acts vacant as s)"
  by (induction as arbitrary: s) auto

lemma act_P: "P s \<Longrightarrow> action_ok a \<Longrightarrow> P (act vacant a s)"
proof (induction a arbitrary: s)
  case (Cancel j as)
  let ?s1 = "update_join j (js_canceled_update (\<lambda>_. True)) s"
  have p1: "P ?s1" by (rule keep_join [OF Cancel(2)]) simp
  have as: "P s \<Longrightarrow> P (acts vacant as s)" for s using Cancel(1,3) by (intro acts_if) (auto simp: list_all_iff)
  show ?case
  proof (cases "join_task j ?s1")
    case None
    then show ?thesis using p1 by simp
  next
    case (Some t)
    have "P (snd (take_future t ?s1))" by (rule keep_take [OF p1])
    then show ?thesis
      using Some keep_wake keep_drop as by (auto simp: case_prod_beta Let_def simp del: rt_wake.simps split: option.split)
  qed
next
  case (JoinPoll j w as)
  have as: "P (acts vacant as s)" using JoinPoll by (intro acts_if) (auto simp: list_all_iff)
  show ?case
    using as JoinPoll(2) keep_join by (auto simp: Let_def split: option.split)
qed (auto simp: keep_wake keep_spawn keep_spawn_detached keep_timer simp del: rt_wake.simps)

lemma acts_P: "P s \<Longrightarrow> list_all action_ok as \<Longrightarrow> P (acts vacant as s)"
  by (rule acts_if) (auto simp: list_all_iff act_P)

end

lemma keep_timer_ok:
  assumes "rt_wf s" "\<And>tm. timer_inv tm \<Longrightarrow> timer_inv (h tm)"
  shows "rt_wf (s\<lparr>rt_timer := map_option h (rt_timer s)\<rparr>)"
  using assms by (intro wf_frame(7)) (auto simp: rt_wf_def rt_core_def rt_timer_ok_def)

text \<open>A task whose future is being polled keeps its place, and its slot stays empty.\<close>

definition slot_empty :: "nat \<Rightarrow> ('u, 'o) runtime \<Rightarrow> bool" where
  "slot_empty t s \<longleftrightarrow> (\<exists>k. task_shape s t = Some (k, None))"

lemma slot_empty_frame [simp]:
  "slot_empty t (update_join j g s) = slot_empty t s" "slot_empty t (s\<lparr>rt_timer := tm\<rparr>) = slot_empty t s"
  "slot_empty t (drop_future f s) = slot_empty t s"
  "slot_empty t s \<Longrightarrow> slot_empty t (snd (take_future u s))" "same_tasks s s' \<Longrightarrow> slot_empty t s' = slot_empty t s"
  by (auto simp: slot_empty_def task_shape_def drop_future_def take_future_def same_tasks_def)

lemma slot_empty_spawn:
  assumes "rt_wf s" "slot_empty t s"
  shows "slot_empty t (snd (rt_spawn vacant u s))" "slot_empty t (spawn_detached vacant u s)"
proof -
  have "t \<noteq> rt_task_count s" using assms by (auto simp: slot_empty_def rt_wf_def rt_core_shape)
  then show "slot_empty t (snd (rt_spawn vacant u s))" "slot_empty t (spawn_detached vacant u s)"
    using assms(2) by (simp_all add: slot_empty_def task_shape_def rt_spawn_eq spawn_detached_eq)
qed

definition holds_slot :: "nat \<Rightarrow> 'u boxed \<Rightarrow> ('u, 'o) runtime \<Rightarrow> bool" where
  "holds_slot t f s \<longleftrightarrow> rt_wf s \<and> slot_ok t s f \<and> slot_empty t s"

lemma slot_ok_same: "same_tasks s s' \<Longrightarrow> slot_ok t s' f = slot_ok t s f"
  using same_tasks_in_slab [of s s' t] by (simp add: slot_ok_def same_tasks_def)

lemma slot_ok_grow:
  assumes "rt_wf s" "slot_ok t s f" "in_slab t s \<Longrightarrow> in_slab t s'"
    "\<And>j. j < rt_join_count s \<Longrightarrow> rt_joins s' j = rt_joins s j"
  shows "slot_ok t s' f"
proof -
  have "rt_joins s j = Some js \<Longrightarrow> j < rt_join_count s" for j js
    using assms(1) by (auto simp: rt_wf_def rt_core_def ids_ok_def)
  then show ?thesis using assms by (auto simp: slot_ok_def)
qed

lemma holds_slot_keeps:
  fixes s :: "('u, 'o) runtime"
  assumes v: "vacant_ok vacant" and slot: "holds_slot t f s"
  shows "holds_slot t f (rt_wake here w s)"
    "holds_slot t f (snd (rt_spawn vacant u s))" "holds_slot t f (spawn_detached vacant u s)"
    "g \<in> {js_canceled_update (\<lambda>_. True), js_output_update (\<lambda>_. None), js_waker_update (\<lambda>_. wo)}
      \<Longrightarrow> holds_slot t f (update_join j g s)"
    "holds_slot t f (snd (take_future a s))" "holds_slot t f (drop_future x s)"
    "(\<And>tm. timer_inv tm \<Longrightarrow> timer_inv (h tm)) \<Longrightarrow> holds_slot t f (s\<lparr>rt_timer := map_option h (rt_timer s)\<rparr>)"
proof -
  have wf: "rt_wf s" and sl: "slot_ok t s f" and em: "slot_empty t s" using slot by (auto simp: holds_slot_def)
  show "holds_slot t f (rt_wake here w s)"
    using rt_wake_wf [OF wf] sl slot_ok_same [OF rt_wake_same [of s here w]] em rt_wake_same [of s here w] by (simp add: holds_slot_def)
  show "holds_slot t f (snd (rt_spawn vacant u s))"
    using rt_spawn_wf [OF wf v] slot_ok_grow [OF wf sl] slot_empty_spawn [OF wf em] by (simp add: holds_slot_def)
  show "holds_slot t f (spawn_detached vacant u s)"
    using spawn_detached_wf [OF wf v] slot_ok_grow [OF wf sl] slot_empty_spawn [OF wf em] by (simp add: holds_slot_def)
  show "holds_slot t f (update_join j g s)"
    if "g \<in> {js_canceled_update (\<lambda>_. True), js_output_update (\<lambda>_. None), js_waker_update (\<lambda>_. wo)}"
    using that update_join_wf [OF _ wf, of g] sl em by (auto simp: holds_slot_def slot_ok_def)
  show "holds_slot t f (snd (take_future a s))"
    using take_future_wf [OF wf, of a] sl slot_empty_frame(4) [OF em, of a]
    by (auto simp: holds_slot_def slot_ok_def take_future_def)
  show "holds_slot t f (drop_future x s)"
    using wf_frame(1) [OF wf] sl slot_empty_frame(3) [of t x s] em
    by (simp add: holds_slot_def slot_ok_def drop_future_def)
  show "holds_slot t f (s\<lparr>rt_timer := map_option h (rt_timer s)\<rparr>)" if "\<And>tm. timer_inv tm \<Longrightarrow> timer_inv (h tm)"
    using keep_timer_ok [OF wf that] sl em by (simp add: holds_slot_def slot_ok_def)
qed

interpretation slot: user_code vacant "\<lambda>s. vacant_ok vacant \<longrightarrow> holds_slot t f s" for vacant t f
  by unfold_locales (blast intro: holds_slot_keeps)+

interpretation wf: user_code vacant "\<lambda>s. vacant_ok vacant \<longrightarrow> rt_wf s" for vacant
  by unfold_locales
    (auto simp: rt_wake_wf rt_spawn_wf spawn_detached_wf update_join_wf take_future_wf wf_frame drop_future_def keep_timer_ok
      simp del: rt_wake.simps)

definition script_ok :: "('u, 'o) poll_script \<Rightarrow> bool" where
  "script_ok p \<longleftrightarrow> list_all action_ok (ps_acts p) \<and> list_all action_ok (ps_destructor p)"

lemma holds_slot_log [simp]: "holds_slot t f (log_poll u s) = holds_slot t f s"
proof -
  have "rt_wf (log_poll u s) = rt_wf s"
    using wf_frame(2) [of s "rt_polled s @ [u]"] wf_frame(2) [of "log_poll u s" "rt_polled s"]
    by (auto simp: log_poll_def)
  then show ?thesis by (simp add: holds_slot_def slot_ok_def slot_empty_def task_shape_def log_poll_def)
qed

lemma holds_slot_output:
  "holds_slot t f s \<Longrightarrow> holds_slot t f (update_join j (\<lambda>js. js\<lparr>js_output := v, js_waker := w\<rparr>) s)"
  using update_join_wf [of "\<lambda>js. js\<lparr>js_output := v, js_waker := w\<rparr>" s j] by (auto simp: holds_slot_def slot_ok_def)

lemma boxed_poll_slot:
  assumes v: "vacant_ok vacant" and p: "script_ok p" and s: "holds_slot t f s"
  shows "holds_slot t f (snd (boxed_poll vacant t f p s))"
proof -
  have a: "holds_slot t f (acts vacant (ps_acts p) (log_poll t s))"
    using slot.acts_P [of vacant t f "log_poll t s" "ps_acts p"] v p s by (simp add: script_ok_def)
  show ?thesis
  proof (cases f)
    case (Detached u)
    then show ?thesis using a by (simp add: detached_poll_def)
  next
    case (SpawnFuture j u)
    then show ?thesis
      using a s holds_slot_output [OF a] holds_slot_keeps(1) [OF v holds_slot_output [OF a]]
      by (auto simp: spawn_future_poll_def Let_def split: poll_result.split option.split)
  qed
qed

lemma put_future_wf: "holds_slot t f s \<Longrightarrow> rt_wf (put_future t f s)"
proof -
  assume h: "holds_slot t f s"
  let ?s = "put_future t f s"
  obtain k where k: "task_shape s t = Some (k, None)" using h by (auto simp: holds_slot_def slot_empty_def)
  have wf: "rt_wf s" "rt_core s" using h by (auto simp: holds_slot_def rt_wf_def)
  have ts: "task_shape ?s = (task_shape s)(t \<mapsto> (k, Some f))"
    using k by (auto simp: put_future_def task_shape_def)
  have sl: "rt_token_to_task s k = Some t" "f = SpawnFuture j u \<Longrightarrow> join_shape s j = Some (Some t)" for j u
    using h k by (auto simp: holds_slot_def slot_ok_def in_slab_shape join_shape_def)
  have fr: "rt_token_to_task ?s = rt_token_to_task s" "join_shape ?s = join_shape s"
    "rt_task_count ?s = rt_task_count s" "rt_join_count ?s = rt_join_count s" "rt_timer_ok ?s = rt_timer_ok s"
    by (simp_all add: put_future_def rt_timer_ok_def)
  have c: "\<forall>k t. rt_token_to_task s k = Some t \<longrightarrow> (\<exists>f. task_shape s t = Some (k, f))"
    "\<forall>t k f. task_shape s t = Some (k, Some f) \<longrightarrow> rt_token_to_task s k = Some t
       \<and> (\<forall>j u. f = SpawnFuture j u \<longrightarrow> join_shape s j = Some (Some t))"
    using wf(2) unfolding rt_core_shape by blast+
  have "rt_core ?s"
    unfolding rt_core_shape ts fr
  proof (intro conjI)
    show "\<forall>k' t'. rt_token_to_task s k' = Some t' \<longrightarrow> (\<exists>g. ((task_shape s)(t \<mapsto> (k, Some f))) t' = Some (k', g))"
      using c(1) k by force
    show "\<forall>t' k' g. ((task_shape s)(t \<mapsto> (k, Some f))) t' = Some (k', Some g) \<longrightarrow> rt_token_to_task s k' = Some t'
        \<and> (\<forall>j u. g = SpawnFuture j u \<longrightarrow> join_shape s j = Some (Some t'))"
      using c(2) sl by (auto split: if_split)
  qed (use wf(2) k in \<open>auto simp: rt_core_shape\<close>)
  moreover have "task_queued u ?s = task_queued u s" for u
    by (auto simp: put_future_def task_queued_def split: option.splits)
  ultimately show ?thesis using wf(1) by (simp add: rt_wf_def entries_ok_def put_future_def)
qed

lemma slab_take_wf:
  assumes "rt_wf s" "in_slab t s" "slot_empty t s"
  shows "\<exists>s'. slab_take t s = Some s' \<and> rt_wf s'"
proof -
  obtain k where k: "task_shape s t = Some (k, None)" "rt_token_to_task s k = Some t"
    using assms(2,3) by (auto simp: slot_empty_def in_slab_shape)
  let ?s = "s\<lparr>rt_token_to_task := (rt_token_to_task s)(k := None)\<rparr>"
  have "slab_take t s = Some ?s" using k by (auto simp: slab_take_def shape_iff)
  moreover have "rt_core ?s"
  proof -
    have fr: "task_shape ?s = task_shape s" "join_shape ?s = join_shape s" "rt_timer_ok ?s = rt_timer_ok s"
      "rt_token_to_task ?s = (rt_token_to_task s)(k := None)" "rt_task_count ?s = rt_task_count s"
      "rt_join_count ?s = rt_join_count s"
      by (auto simp: task_shape_def join_shape_def rt_timer_ok_def)
    have c: "rt_core s" using assms(1) by (simp add: rt_wf_def)
    then have other: "task_shape s u = Some (k', Some f) \<Longrightarrow> k' \<noteq> k" for u k' f
      using k unfolding rt_core_shape by fastforce
    show ?thesis using c other unfolding rt_core_shape fr by simp
  qed
  moreover have "in_slab u ?s \<Longrightarrow> in_slab u s" for u by (auto simp: in_slab_def split: option.splits if_splits)
  then have "entries_ok ?s" using assms(1) by (auto simp: rt_wf_def entries_ok_def entries_def task_queued_def)
  ultimately show ?thesis using assms(1) by (simp add: rt_wf_def)
qed

lemma wf_drop: "rt_wf s \<Longrightarrow> rt_wf (drop_future f s)"
  by (simp add: drop_future_def wf_frame(1))

lemma acts_wf: "vacant_ok vacant \<Longrightarrow> list_all action_ok as \<Longrightarrow> rt_wf s \<Longrightarrow> rt_wf (acts vacant as s)"
  using wf.acts_P [of vacant s as] by simp

lemma take_future_slot:
  assumes wf: "rt_wf s" and f: "take_future t s = (Some f, s1)"
  shows "holds_slot t f s1"
proof -
  obtain k where k: "rt_tasks s t = Some k" "tk_future k = Some f"
    using f by (auto simp: take_future_def split: option.splits)
  then have "slot_ok t s f" using wf by (auto simp: rt_wf_def rt_core_def task_slots_ok_def)
  then have "slot_ok t s1 f" using f by (auto simp: take_future_def slot_ok_def)
  moreover have "slot_empty t s1" using f k by (auto simp: take_future_def slot_empty_def task_shape_def)
  ultimately show ?thesis using take_future_wf [OF wf, of t] f by (simp add: holds_slot_def)
qed

text \<open>
  Polling a task keeps the runtime well-formed, and unwinds only when the user's future panics: the
  slab entry it removes at the end is always its own.
\<close>

lemma poll_task_wf:
  assumes v: "vacant_ok vacant" and p: "script_ok p" and wf: "rt_wf s"
  shows "rt_wf (snd (poll_task vacant t p s))"
    and "fst (poll_task vacant t p s) \<Longrightarrow> ps_result p = PollPanic"
proof -
  obtain slot s1 where t: "take_future t s = (slot, s1)" by fastforce
  have w1: "rt_wf s1" using take_future_wf [OF wf, of t] t by simp
  have d: "rt_wf x \<Longrightarrow> rt_wf (acts vacant (ps_destructor p) (drop_future f x))" for x f
    by (rule acts_wf [OF v _ wf_drop]) (use p in \<open>simp_all add: script_ok_def\<close>)
  have "rt_wf (snd (poll_task vacant t p s)) \<and> (fst (poll_task vacant t p s) \<longrightarrow> ps_result p = PollPanic)"
  proof (cases slot)
    case None
    show ?thesis
    proof (cases "in_slab t s1")
      case True
      then have "slot_empty t s1"
        using t None by (auto simp: take_future_def slot_empty_def task_shape_def in_slab_def split: option.splits)
      then obtain s2 where "slab_take t s1 = Some s2" "rt_wf s2" using slab_take_wf [OF w1 True] by blast
      then show ?thesis using t None True by (simp add: poll_task_def)
    next
      case False
      then show ?thesis using t None w1 by (simp add: poll_task_def)
    qed
  next
    case (Some f)
    obtain r s2 where b: "boxed_poll vacant t f p s1 = (r, s2)" by fastforce
    have h: "holds_slot t f s2"
      using boxed_poll_slot [OF v p take_future_slot [OF wf]] t Some b by (metis snd_conv)
    then have w2: "rt_wf s2" "in_slab t s2" "slot_empty t s2" by (auto simp: holds_slot_def slot_ok_def)
    obtain s3 where s3: "slab_take t s2 = Some s3" "rt_wf s3" using slab_take_wf [OF w2] by blast
    have "r = BoxedPanic \<Longrightarrow> ps_result p = PollPanic"
      using b by (cases f) (auto simp: detached_poll_def spawn_future_poll_def Let_def split: poll_result.splits if_splits)
    then show ?thesis
      using t Some b d [OF w2(1)] d [OF s3(2)] s3(1) put_future_wf [OF h]
      by (cases r) (simp_all add: poll_task_def)
  qed
  then show "rt_wf (snd (poll_task vacant t p s))" "fst (poll_task vacant t p s) \<Longrightarrow> ps_result p = PollPanic"
    by blast+
qed

subsection \<open>What a batch takes\<close>

definition same_but_queues :: "('u, 'o) runtime \<Rightarrow> ('u, 'o) runtime \<Rightarrow> bool" where
  "same_but_queues s s' \<longleftrightarrow> (\<exists>q n r x. s' = s\<lparr>rt_queue := q, rt_next_task := n, rt_remote_wake := r, rt_tasks := x\<rparr>
     \<and> rw_waiting r = rw_waiting (rt_remote_wake s) \<and> rw_interrupt_pending r = rw_interrupt_pending (rt_remote_wake s)
     \<and> rw_interrupts r = rw_interrupts (rt_remote_wake s)) \<and> task_shape s' = task_shape s"

lemma same_but_queues_frame:
  assumes "same_but_queues s s'"
  shows "rt_token_to_task s' = rt_token_to_task s" "join_shape s' = join_shape s" "task_shape s' = task_shape s"
    "rt_task_count s' = rt_task_count s" "rt_join_count s' = rt_join_count s" "rt_timer s' = rt_timer s"
    "rt_remote_live s' = rt_remote_live s" "rt_joins s' = rt_joins s" "rt_current s' = rt_current s"
    "rt_root_ready s' = rt_root_ready s" "rt_held s' = rt_held s" "rt_polled s' = rt_polled s"
    "rt_dropped s' = rt_dropped s" "rt_other s' = rt_other s"
  using assms by (auto simp: same_but_queues_def join_shape_def)

lemma same_but_queues_slab: "same_but_queues s s' \<Longrightarrow> in_slab t s' = in_slab t s"
  by (simp add: in_slab_shape same_but_queues_frame)

lemma same_but_queues_core: "same_but_queues s s' \<Longrightarrow> rt_core s' = rt_core s"
  by (rule rt_core_cong) (simp_all add: same_but_queues_frame)

lemma same_but_queues_refl [simp]: "same_but_queues s s"
  by (auto simp: same_but_queues_def intro!: exI [of _ "rt_queue s"] exI [of _ "rt_next_task s"]
      exI [of _ "rt_remote_wake s"] exI [of _ "rt_tasks s"])

lemma same_but_queues_trans: "same_but_queues s s' \<Longrightarrow> same_but_queues s' s'' \<Longrightarrow> same_but_queues s s''"
  unfolding same_but_queues_def by (elim conjE exE) (intro conjI exI, simp, simp_all)

lemma same_but_queuesI:
  "s' = s\<lparr>rt_queue := rt_queue s', rt_next_task := rt_next_task s', rt_remote_wake := rt_remote_wake s', rt_tasks := rt_tasks s'\<rparr>
    \<Longrightarrow> rw_waiting (rt_remote_wake s') = rw_waiting (rt_remote_wake s)
    \<Longrightarrow> rw_interrupt_pending (rt_remote_wake s') = rw_interrupt_pending (rt_remote_wake s)
    \<Longrightarrow> rw_interrupts (rt_remote_wake s') = rw_interrupts (rt_remote_wake s)
    \<Longrightarrow> task_shape s' = task_shape s \<Longrightarrow> same_but_queues s s'"
  unfolding same_but_queues_def by blast

lemma same_but_queues_ops:
  "same_but_queues s (rw_pop s)" "same_but_queues s (queue_pop s)" "same_but_queues s (s\<lparr>rt_next_task := n\<rparr>)"
  "same_but_queues s (mark_dequeued t s)"
  by (rule same_but_queuesI; cases s; simp add: rw_pop_def queue_pop_def mark_dequeued_def update_task_def
      task_shape_def fun_eq_iff option.map_comp comp_def)+

lemma mark_dequeued_queued: "task_queued u (mark_dequeued t s) = (task_queued u s \<and> (u = t \<longrightarrow> rt_tasks s t = None))"
  by (auto simp: mark_dequeued_def task_queued_def split: option.splits)

lemma dequeue_wf:
  assumes wf: "rt_wf s" and same: "same_but_queues s s1" and q: "\<And>u. task_queued u s1 = task_queued u s"
    and ent: "\<And>u. count_list (entries s) u = count_list (entries s1) u + of_bool (u = t)"
  shows "rt_wf (mark_dequeued t s1)" "rt_tasks s1 t \<noteq> None"
proof -
  let ?s = "mark_dequeued t s1"
  have same': "same_but_queues s ?s" using same same_but_queues_ops(4) by (rule same_but_queues_trans)
  have e: "count_list (entries s) u \<le> of_bool (task_queued u s \<and> u < rt_task_count s)"
    "in_slab u s \<Longrightarrow> count_list (entries s) u = of_bool (task_queued u s)" for u
    using wf by (auto simp: rt_wf_def entries_ok_def)
  have "rt_task_count s1 = rt_task_count s" "rt_core s1" using same same_but_queues_core [OF same] wf
    by (auto simp: same_but_queues_frame rt_wf_def)
  then show alloc: "rt_tasks s1 t \<noteq> None" using e(1) [of t] ent [of t] by (auto simp: rt_core_def ids_ok_def)
  have "entries_ok ?s"
    unfolding entries_ok_def
  proof (intro allI conjI impI)
    fix u
    have c: "count_list (entries ?s) u = count_list (entries s) u - of_bool (u = t)"
      using ent [of u] by (simp add: mark_dequeued_def)
    have f: "task_queued u ?s = (task_queued u s \<and> u \<noteq> t)"
      using alloc by (auto simp: mark_dequeued_queued q)
    show "count_list (entries ?s) u \<le> of_bool (task_queued u ?s \<and> u < rt_task_count ?s)"
      using e(1) [of u] by (auto simp: c f same_but_queues_frame [OF same'] of_bool_def split: if_splits)
    assume "in_slab u ?s"
    then show "count_list (entries ?s) u = of_bool (task_queued u ?s)"
      using e(2) [of u] same_but_queues_slab [OF same'] by (auto simp: c f of_bool_def)
  qed
  then show "rt_wf ?s" using wf same_but_queues_core [OF same'] same_but_queues_frame [OF same'] by (simp add: rt_wf_def)
qed

lemma task_queued_pop [simp]: "task_queued u (rw_pop s) = task_queued u s" "task_queued u (queue_pop s) = task_queued u s"
  by (simp_all add: task_queued_def rw_pop_def queue_pop_def)

lemma pop_entries:
  "rw_queue (rt_remote_wake s) = t # rest \<Longrightarrow> count_list (entries s) u = count_list (entries (rw_pop s)) u + of_bool (u = t)"
  "rt_queue s = t # rest \<Longrightarrow> count_list (entries s) u = count_list (entries (queue_pop s)) u + of_bool (u = t)"
  "rt_next_task s = Some t \<Longrightarrow> count_list (entries s) u = count_list (entries (s\<lparr>rt_next_task := None\<rparr>)) u + of_bool (u = t)"
  by (simp_all add: entries_def rw_pop_def queue_pop_def split: option.split)

lemma rw_pop_wf:
  assumes wf: "rt_wf s" and q: "rw_queue (rt_remote_wake s) = t # rest" and dead: "\<not> in_slab t s"
  shows "rt_wf (rw_pop s)"
proof -
  have same: "same_but_queues s (rw_pop s)" by (rule same_but_queues_ops)
  have "entries_ok (rw_pop s)"
    unfolding entries_ok_def
  proof (intro allI conjI impI)
    fix u
    have e: "count_list (entries s) u \<le> of_bool (task_queued u s \<and> u < rt_task_count s)"
      "in_slab u s \<Longrightarrow> count_list (entries s) u = of_bool (task_queued u s)"
      using wf by (auto simp: rt_wf_def entries_ok_def)
    show "count_list (entries (rw_pop s)) u \<le> of_bool (task_queued u (rw_pop s) \<and> u < rt_task_count (rw_pop s))"
      using e(1) pop_entries(1) [OF q, of u] same_but_queues_frame(4) [OF same] by simp
    assume "in_slab u (rw_pop s)"
    then have "in_slab u s" using same_but_queues_slab [OF same, of u] by simp
    moreover from this have "u \<noteq> t" using dead by auto
    ultimately show "count_list (entries (rw_pop s)) u = of_bool (task_queued u (rw_pop s))"
      using e(2) pop_entries(1) [OF q, of u] by simp
  qed
  then show ?thesis
    using wf same_but_queues_core [OF same] same_but_queues_frame [OF same] by (simp add: rt_wf_def)
qed

definition dequeued :: "nat list \<Rightarrow> ('u, 'o) runtime \<Rightarrow> ('u, 'o) runtime \<Rightarrow> bool" where
  "dequeued ts s s' \<longleftrightarrow> rt_wf s' \<and> same_but_queues s s' \<and> (\<forall>u. task_queued u s' = (task_queued u s \<and> u \<notin> set ts))"

lemma dequeued_Nil [simp]: "rt_wf s \<Longrightarrow> dequeued [] s s"
  by (simp add: dequeued_def)

lemma dequeued_append: "dequeued ts s s' \<Longrightarrow> dequeued us s' s'' \<Longrightarrow> dequeued (ts @ us) s s''"
  unfolding dequeued_def by (elim conjE, intro conjI, assumption, erule (1) same_but_queues_trans, simp)

lemma dequeued_one:
  assumes "rt_wf s" "same_but_queues s s1" "\<And>u. task_queued u s1 = task_queued u s"
    "\<And>u. count_list (entries s) u = count_list (entries s1) u + of_bool (u = t)"
  shows "dequeued [t] s (mark_dequeued t s1)"
  using dequeue_wf [OF assms] same_but_queues_trans [OF assms(2) same_but_queues_ops(4) [of s1 t]] assms(3)
  by (auto simp: dequeued_def mark_dequeued_queued)

lemma drain_remote_spec:
  "rt_wf s \<Longrightarrow> drain_remote b s = (ts, b', s')
    \<Longrightarrow> dequeued ts s s' \<and> rt_queue s' = rt_queue s \<and> rt_next_task s' = rt_next_task s
      \<and> (\<exists>ws. rw_queue (rt_remote_wake s) = ws @ rw_queue (rt_remote_wake s') \<and> ts = filter (\<lambda>t. in_slab t s) ws)
      \<and> length ts + b' = b \<and> (b' = 0 \<or> rw_queue (rt_remote_wake s') = [])"
proof (induction b s arbitrary: ts b' s' rule: drain_remote.induct)
  case (1 b s)
  show ?case
  proof (cases "b = 0 \<or> rw_queue (rt_remote_wake s) = []")
    case True
    then show ?thesis using 1(3,4) by (cases "b = 0") (auto simp: drain_remote.simps [of 0 s] drain_remote.simps [of b s])
  next
    case False
    then obtain t rest where q: "rw_queue (rt_remote_wake s) = t # rest" by (auto simp: neq_Nil_conv)
    have b: "b \<noteq> 0" using False by simp
    let ?s1 = "rw_pop s" and ?s2 = "mark_dequeued t (rw_pop s)"
    have same: "same_but_queues s ?s1" by (rule same_but_queues_ops)
    have fr: "rt_queue ?s1 = rt_queue s" "rt_next_task ?s1 = rt_next_task s" "rw_queue (rt_remote_wake ?s1) = rest"
      using q by (simp_all add: rw_pop_def)
    have fr2: "rt_next_task ?s2 = rt_next_task ?s1" by (simp add: mark_dequeued_def)
    show ?thesis
    proof (cases "in_slab t ?s1")
      case True
      obtain ts1 b1 s3 where d: "drain_remote (b - 1) ?s2 = (ts1, b1, s3)" by (metis prod_cases3)
      have out: "ts = t # ts1" "b' = b1" "s' = s3"
        using 1(4) b q True d by (simp_all add: drain_remote.simps [of b s])
      have one: "dequeued [t] s ?s2"
        using dequeued_one [OF 1(3) same] pop_entries(1) [OF q] by simp
      then have "rt_wf ?s2" by (simp add: dequeued_def)
      note ih = 1(1) [OF b q HOL.refl True this d]
      have sl: "in_slab u ?s2 = in_slab u s" for u
        using one by (simp add: dequeued_def same_but_queues_slab)
      have "dequeued ts s s'" using dequeued_append [OF one] ih out by (metis append_Cons append_Nil)
      moreover have "in_slab t s" using True same_but_queues_slab [OF same] by simp
      moreover obtain ws where "rest = ws @ rw_queue (rt_remote_wake s3)" "ts1 = filter (\<lambda>t. in_slab t s) ws"
        using ih fr sl by auto
      ultimately show ?thesis using ih out fr fr2 q b by (auto intro!: exI [of _ "t # ws"])
    next
      case False
      have d: "drain_remote b ?s1 = (ts, b', s')"
        using 1(4) b q False by (simp add: drain_remote.simps [of b s])
      have dead: "\<not> in_slab t s" using False same_but_queues_slab [OF same] by simp
      have w: "rt_wf ?s1" by (rule rw_pop_wf [OF 1(3) q dead])
      note ih = 1(2) [OF b q HOL.refl False w d]
      have sl: "in_slab u ?s1 = in_slab u s" for u by (rule same_but_queues_slab [OF same])
      have "dequeued [] s ?s1" using w same by (simp add: dequeued_def)
      then have "dequeued ts s s'" using dequeued_append ih by fastforce
      moreover obtain ws where "rest = ws @ rw_queue (rt_remote_wake s')" "ts = filter (\<lambda>t. in_slab t s) ws"
        using ih fr sl by auto
      ultimately show ?thesis using ih fr q dead by (auto intro!: exI [of _ "t # ws"])
    qed
  qed
qed

lemma drain_queue_spec:
  "rt_wf s \<Longrightarrow> drain_queue b s = (ts, s')
    \<Longrightarrow> dequeued ts s s' \<and> rt_remote_wake s' = rt_remote_wake s \<and> rt_next_task s' = rt_next_task s
      \<and> ts = take b (rt_queue s) \<and> rt_queue s' = drop b (rt_queue s)"
proof (induction b s arbitrary: ts s' rule: drain_queue.induct)
  case (1 b s)
  show ?case
  proof (cases "b = 0 \<or> rt_queue s = []")
    case True
    then show ?thesis using 1(2,3) by (cases "b = 0") (auto simp: drain_queue.simps [of 0 s] drain_queue.simps [of b s])
  next
    case False
    then obtain t rest where q: "rt_queue s = t # rest" by (auto simp: neq_Nil_conv)
    have b: "b \<noteq> 0" using False by simp
    let ?s1 = "queue_pop s" and ?s2 = "mark_dequeued t (queue_pop s)"
    obtain ts1 s3 where d: "drain_queue (b - 1) ?s2 = (ts1, s3)" by fastforce
    have out: "ts = t # ts1" "s' = s3" using 1(3) b q d by (simp_all add: drain_queue.simps [of b s])
    have one: "dequeued [t] s ?s2"
      using dequeued_one [OF 1(2) same_but_queues_ops(2)] pop_entries(2) [OF q] by simp
    then have "rt_wf ?s2" by (simp add: dequeued_def)
    note ih = 1(1) [OF b q this d]
    have fr: "rt_next_task ?s2 = rt_next_task s" "rt_remote_wake ?s2 = rt_remote_wake s" "rt_queue ?s2 = rest"
      using q by (simp_all add: mark_dequeued_def queue_pop_def)
    have "dequeued ts s s'" using dequeued_append [OF one] ih out by (metis append_Cons append_Nil)
    then show ?thesis using ih out fr q b by (cases b) auto
  qed
qed

lemma take_next_task_spec:
  assumes wf: "rt_wf s" and t: "take_next_task s = (n, s')"
  shows "dequeued (case n of None \<Rightarrow> [] | Some t \<Rightarrow> [t]) s s'" "n = rt_next_task s" "rt_next_task s' = None"
    "rt_queue s' = rt_queue s" "rt_remote_wake s' = rt_remote_wake s"
proof -
  show "dequeued (case n of None \<Rightarrow> [] | Some t \<Rightarrow> [t]) s s'"
  proof (cases "rt_next_task s")
    case None
    then have "s\<lparr>rt_next_task := None\<rparr> = s" by (cases s) simp
    then have "n = None \<and> s' = s" using t None unfolding take_next_task_def Let_def by auto
    then show ?thesis using wf by simp
  next
    case (Some a)
    have "n = Some a \<and> s' = mark_dequeued a (s\<lparr>rt_next_task := None\<rparr>)" using t Some by (simp add: take_next_task_def Let_def)
    moreover have "dequeued [a] s (mark_dequeued a (s\<lparr>rt_next_task := None\<rparr>))"
      by (rule dequeued_one [OF wf same_but_queues_ops(3) _ pop_entries(3) [OF Some]]) simp
    ultimately show ?thesis by simp
  qed
  show "n = rt_next_task s" "rt_next_task s' = None" "rt_queue s' = rt_queue s" "rt_remote_wake s' = rt_remote_wake s"
    using t by (auto simp: take_next_task_def mark_dequeued_def Let_def split: option.splits)
qed

text \<open>
  A batch is the first 256 of the live ready entries: the task in the single-task slot, then the tasks
  other threads woke, then the local queue; what it does not take stays, in order.
\<close>

definition ready_list :: "('u, 'o) runtime \<Rightarrow> nat list" where
  "ready_list s = (case rt_next_task s of None \<Rightarrow> [] | Some t \<Rightarrow> [t])
     @ filter (\<lambda>t. in_slab t s) (rw_queue (rt_remote_wake s)) @ rt_queue s"

lemma fill_batch_spec:
  assumes wf: "rt_wf s" and f: "fill_batch s = (batch, s')"
  shows "dequeued batch s s'" "batch = take task_batch_size (ready_list s)"
    "ready_list s' = drop task_batch_size (ready_list s)" "batch = [] \<Longrightarrow> \<not> should_skip_wait s'"
proof -
  obtain n s1 where t: "take_next_task s = (n, s1)" by fastforce
  let ?n = "case n of None \<Rightarrow> [] | Some t \<Rightarrow> [t]" and ?b = "task_batch_size - length (case n of None \<Rightarrow> [] | Some t \<Rightarrow> [t])"
  obtain ws b' s2 where r: "drain_remote ?b s1 = (ws, b', s2)" by (metis prod_cases3)
  obtain qs s3 where q: "drain_queue b' s2 = (qs, s3)" by fastforce
  have out: "batch = ?n @ ws @ qs" "s' = s3"
    using f t r q by (simp_all add: fill_batch_def drain_ready_with_def Let_def)
  note T = take_next_task_spec [OF wf t]
  have w1: "rt_wf s1" using T(1) by (simp add: dequeued_def)
  note R = drain_remote_spec [OF w1 r]
  have w2: "rt_wf s2" using R by (simp add: dequeued_def)
  note Q = drain_queue_spec [OF w2 q]
  show deq: "dequeued batch s s'"
    using T(1) R Q unfolding out by (blast intro: dequeued_append)
  have sl: "in_slab t s1 = in_slab t s" "in_slab t s3 = in_slab t s" for t
    using T(1) deq out by (auto simp: dequeued_def same_but_queues_slab)
  obtain vs where vs: "rw_queue (rt_remote_wake s1) = vs @ rw_queue (rt_remote_wake s2)"
    "ws = filter (\<lambda>t. in_slab t s) vs"
    using R by (auto simp: sl)
  let ?rest = "filter (\<lambda>t. in_slab t s) (rw_queue (rt_remote_wake s2))"
  have len: "length ?n \<le> 1" by (simp split: option.split)
  have l: "ready_list s = ?n @ ws @ ?rest @ rt_queue s"
    using T vs by (simp add: ready_list_def)
  have e: "length (?n @ ws) + b' = task_batch_size" "b' = 0 \<or> rw_queue (rt_remote_wake s2) = []"
    using R len by (auto simp: task_batch_size_def)
  have qq: "qs = take b' (rt_queue s)" "rt_queue s3 = drop b' (rt_queue s)" "rt_remote_wake s3 = rt_remote_wake s2"
    "rt_next_task s3 = None"
    using Q R T by auto
  show "batch = take task_batch_size (ready_list s)"
    unfolding l out e(1) [symmetric] using e(2) qq(1) by auto
  show l': "ready_list s' = drop task_batch_size (ready_list s)"
    unfolding l out e(1) [symmetric] using e(2) qq by (auto simp: ready_list_def sl)
  show "\<not> should_skip_wait s'" if "batch = []"
  proof -
    have "b' = task_batch_size" "ws = []" "n = None" "qs = []" using that e(1) out by (auto split: option.splits)
    then have "rw_queue (rt_remote_wake s3) = []" "rt_queue s = []"
      using e(2) qq by (auto simp: task_batch_size_def)
    then show ?thesis using qq out by (simp add: should_skip_wait_def)
  qed
qed

end
