(* ===== verification/Executor_Turn.thy ===== *)
theory Executor_Turn
  imports Executor
begin

section \<open>Turns of the executor (vibeio/executor.rs)\<close>

text \<open>
  What whole operations of the runtime keep: a turn (\<open>poll_once\<close>), the loop of \<open>drive\<close>, and sequences of
  them. Every runtime that arises is well-formed, an operation unwinds only when user code panics, and
  a cancelled task's future is released and never polled again.
\<close>

lemma rt_wake_frame:
  "rt_current (rt_wake here w s) = rt_current s" "rt_joins (rt_wake here w s) = rt_joins s"
  "rt_dropped (rt_wake here w s) = rt_dropped s" "rt_polled (rt_wake here w s) = rt_polled s"
  "rt_task_count (rt_wake here w s) = rt_task_count s" "in_slab t (rt_wake here w s) = in_slab t s"
  "task_shape (rt_wake here w s) = task_shape s" "rt_join_count (rt_wake here w s) = rt_join_count s"
  using rt_wake_same [of s here w] same_tasks_in_slab [of s "rt_wake here w s" t] by (simp_all add: same_tasks_def)

interpretation current: user_code vacant "\<lambda>s. rt_current s = c" for vacant c
  by unfold_locales
    (auto simp: rt_wake_frame rt_spawn_eq spawn_detached_eq take_future_def drop_future_def simp del: rt_wake.simps)

lemma acts_current: "list_all action_ok as \<Longrightarrow> rt_current (acts vacant as s) = rt_current s"
  using current.acts_P [of s "rt_current s" as vacant] by simp

subsection \<open>Operations keep the runtime well-formed\<close>

lemma fold_wake_pair:
  "fold (\<lambda>w (x, y). (rt_wake here w x, y)) ws (s, tm) = (fold (rt_wake here) ws s, tm)"
  by (induction ws arbitrary: s) auto

lemma fold_wake_wf: "rt_wf s \<Longrightarrow> rt_wf (fold (rt_wake here) ws s)"
  by (induction ws arbitrary: s) (simp_all add: rt_wake_wf)

lemma fold_wake_same: "same_tasks s (fold (rt_wake here) ws s)"
proof (induction ws arbitrary: s)
  case (Cons w ws)
  show ?case using Cons [of "rt_wake here w s"] rt_wake_same [of s here w] by (simp add: same_tasks_def)
qed (simp add: same_tasks_def)

lemma spin_timer_spec:
  assumes "rt_wf s"
  shows "\<exists>ws r tm. spin_timer c s = Some (r, (fold (rt_wake True) ws s)\<lparr>rt_timer := tm\<rparr>) \<and> snd r = (ws \<noteq> [])
    \<and> rt_wf ((fold (rt_wake True) ws s)\<lparr>rt_timer := tm\<rparr>)"
proof (cases "rt_timer s")
  case None
  then have "s\<lparr>rt_timer := None\<rparr> = s" by (cases s) simp
  then show ?thesis using None assms
    by (intro exI [of _ "[]"] exI [of _ "(None, False)"] exI [of _ None]) (auto simp: spin_timer_def intro!: wf_frame(7))
next
  case (Some tm)
  let ?w = "\<lambda>w (x, y). (rt_wake True w x, y :: waker timer)"
  have inv: "timer_inv tm" using assms Some by (simp add: rt_wf_def rt_core_def rt_timer_ok_def)
  have "\<And>w st. timer_inv (snd st) \<Longrightarrow> timer_inv (snd (?w w st))" by auto
  from spin_spec [of ?w tm "sp_now c" "sp_later c" "sp_keep c" s, OF this inv] obtain xs h st' r where
    x: "spin_and_get_deadline ?w (sp_now c) (sp_later c) (sp_keep c) (s, tm) = Some ((r, xs \<noteq> []), st')"
    "st' = fold ?w (map reg_waker xs) (s, tm\<lparr>tm_deadlines := h\<rparr>)" "timer_inv (snd st')"
    by blast
  have st: "st' = (fold (rt_wake True) (map reg_waker xs) s, tm\<lparr>tm_deadlines := h\<rparr>)"
    unfolding x(2) by (rule fold_wake_pair)
  have "rt_wf ((fold (rt_wake True) (map reg_waker xs) s)\<lparr>rt_timer := Some (tm\<lparr>tm_deadlines := h\<rparr>)\<rparr>)"
    using fold_wake_wf [OF assms] x(3) st by (intro wf_frame(7)) auto
  then show ?thesis
    using Some x(1) st
    by (intro exI [of _ "map reg_waker xs"] exI [of _ "(r, xs \<noteq> [])"] exI [of _ "Some (tm\<lparr>tm_deadlines := h\<rparr>)"])
      (simp add: spin_timer_def)
qed

definition turn_ok :: "('u, 'o, 'z) turn_script_scheme \<Rightarrow> bool" where
  "turn_ok c \<longleftrightarrow> list_all action_ok (tn_wait c) \<and> (\<forall>i. script_ok (tn_polls c i))
     \<and> list_all action_ok (case tn_flush c of None \<Rightarrow> [] | Some as \<Rightarrow> as)"

definition turn_panics :: "('u, 'o, 'z) turn_script_scheme \<Rightarrow> bool" where
  "turn_panics c \<longleftrightarrow> (\<exists>i. ps_result (tn_polls c i) = PollPanic)"

lemma poll_task_current:
  assumes "script_ok p"
  shows "rt_current (snd (poll_task vacant t p s)) = rt_current s"
proof -
  have a: "rt_current (acts vacant (ps_acts p) x) = rt_current x"
    "rt_current (acts vacant (ps_destructor p) x) = rt_current x" for x :: "('a, 'b) runtime"
    using assms by (simp_all add: script_ok_def acts_current)
  have w: "rt_current (rt_wake here k x) = rt_current x" for here k and x :: "('a, 'b) runtime"
    using rt_wake_same [of x here k] by (simp add: same_tasks_def)
  have b: "rt_current (snd (boxed_poll vacant t f p x)) = rt_current x" for f and x :: "('a, 'b) runtime"
    by (cases f) (simp_all add: detached_poll_def spawn_future_poll_def log_poll_def a w Let_def
        split: poll_result.split option.split)
  have s: "slab_take t x = Some y \<Longrightarrow> rt_current y = rt_current x" for x y :: "('a, 'b) runtime"
    by (auto simp: slab_take_def split: option.splits if_splits)
  have t: "rt_current (snd (take_future t s)) = rt_current s" by (simp add: take_future_def)
  show ?thesis
    using t b [of _ "snd (take_future t s)"]
    by (auto simp: poll_task_def case_prod_beta a drop_future_def put_future_def Let_def dest!: s
        split: option.split boxed_result.split)
qed

definition drive_ok :: "('u, 'o) drive_script \<Rightarrow> bool" where
  "drive_ok c \<longleftrightarrow> turn_ok c \<and> list_all action_ok (dr_root_acts c) \<and> list_all action_ok (dr_between c)
     \<and> list_all action_ok (dr_after_flag c)"

datatype ('u, 'o) rt_op =
    OpAct "'u action"
  | OpTurn "('u, 'o) turn_script"
  | OpDrive "instant option" "'u action list" "('u, 'o) drive_script list"

fun rt_step :: "((nat \<rightharpoonup> nat) \<Rightarrow> nat) \<Rightarrow> ('u, 'o) rt_op \<Rightarrow> ('u, 'o) runtime \<Rightarrow> ('u, 'o) runtime" where
  "rt_step vacant (OpAct a) s = act vacant a s"
| "rt_step vacant (OpTurn c) s = snd (poll_once vacant c s)"
| "rt_step vacant (OpDrive d as cs) s = snd (drive vacant d as cs s)"

definition rt_run :: "((nat \<rightharpoonup> nat) \<Rightarrow> nat) \<Rightarrow> ('u, 'o) rt_op list \<Rightarrow> ('u, 'o) runtime \<Rightarrow> ('u, 'o) runtime" where
  "rt_run vacant ops s = fold (rt_step vacant) ops s"

fun rt_op_ok :: "('u, 'o) rt_op \<Rightarrow> bool" where
  "rt_op_ok (OpAct a) = action_ok a"
| "rt_op_ok (OpTurn c) = turn_ok c"
| "rt_op_ok (OpDrive d as cs) = (list_all action_ok as \<and> list_all drive_ok cs)"

text \<open>
  A property of well-formed runtimes that user code, the poll of a task, the filling of a batch and the
  bookkeeping between them keep is kept by every operation.
\<close>

locale runtime_code = user_code vacant P
  for vacant :: "(nat \<rightharpoonup> nat) \<Rightarrow> nat" and P :: "('u, 'o) runtime \<Rightarrow> bool" +
  assumes well_formed: "vacant_ok vacant \<Longrightarrow> P s \<Longrightarrow> rt_wf s"
    and keep_poll: "vacant_ok vacant \<Longrightarrow> P s \<Longrightarrow> script_ok p \<Longrightarrow> P (snd (poll_task vacant t p s))"
    and keep_batch: "vacant_ok vacant \<Longrightarrow> P s \<Longrightarrow> fill_batch s = (batch, s') \<Longrightarrow> P s'"
    and keep_held: "P s \<Longrightarrow> P (s\<lparr>rt_held := l\<rparr>)"
    and keep_current: "P s \<Longrightarrow> P (s\<lparr>rt_current := c\<rparr>)"
    and keep_root: "P s \<Longrightarrow> P (s\<lparr>rt_root_ready := b\<rparr>)"
    and keep_remote: "P s \<Longrightarrow> rw_queue r = rw_queue (rt_remote_wake s) \<Longrightarrow> P (s\<lparr>rt_remote_wake := r\<rparr>)"
    and set_timer: "P s \<Longrightarrow> (\<And>tm. tmo = Some tm \<Longrightarrow> timer_inv tm) \<Longrightarrow> P (s\<lparr>rt_timer := tmo\<rparr>)"
begin

lemma spin_P:
  assumes v: "vacant_ok vacant" and p: "P s"
  shows "\<exists>r s'. spin_timer c s = Some (r, s') \<and> P s' \<and> rt_current s' = rt_current s"
proof -
  obtain ws r tm where sp: "spin_timer c s = Some (r, (fold (rt_wake True) ws s)\<lparr>rt_timer := tm\<rparr>)"
    "rt_wf ((fold (rt_wake True) ws s)\<lparr>rt_timer := tm\<rparr>)"
    using spin_timer_spec [OF well_formed [OF v p], of c] by blast
  have "P (fold (rt_wake True) ws s)" using p by (induction ws arbitrary: s) (auto simp: keep_wake)
  then have "P ((fold (rt_wake True) ws s)\<lparr>rt_timer := tm\<rparr>)"
    using sp(2) by (intro set_timer) (auto simp: rt_wf_def rt_core_def rt_timer_ok_def)
  moreover have "rt_current (fold (rt_wake True) ws s) = rt_current s"
    using fold_wake_same [of s True ws] by (simp add: same_tasks_def)
  ultimately show ?thesis using sp(1) by auto
qed

lemma poll_batch_P:
  assumes v: "vacant_ok vacant"
  shows "P s \<Longrightarrow> (\<And>i. script_ok (p i)) \<Longrightarrow> poll_batch vacant p ts s = (b, s')
    \<Longrightarrow> P s' \<and> rt_current s' = rt_current s \<and> (b \<longrightarrow> (\<exists>i. ps_result (p i) = PollPanic))"
proof (induction ts arbitrary: p s)
  case Nil
  then show ?case by (auto simp: keep_held)
next
  case (Cons t ts)
  let ?s = "s\<lparr>rt_held := t # ts\<rparr>"
  have ps: "P ?s" by (rule keep_held [OF Cons(2)])
  obtain b1 s1 where o1: "poll_task vacant t (p 0) ?s = (b1, s1)" by fastforce
  have w: "P s1" "b1 \<Longrightarrow> ps_result (p 0) = PollPanic" "rt_current s1 = rt_current s"
    using poll_task_wf(2) [OF v Cons(3) [of 0] well_formed [OF v ps], of t] keep_poll [OF v ps Cons(3) [of 0], of t]
      poll_task_current [OF Cons(3) [of 0], of vacant t ?s] o1 by auto
  show ?case
  proof (cases b1)
    case True
    then show ?thesis using Cons(4) o1 w keep_held [OF w(1), of "[]"] by auto
  next
    case False
    then have "poll_batch vacant (\<lambda>i. p (Suc i)) ts s1 = (b, s')" using Cons(4) o1 by simp
    from Cons(1) [OF w(1) Cons(3) this] show ?thesis using w(3) by auto
  qed
qed

lemma run_batch_P:
  assumes v: "vacant_ok vacant" and c: "turn_ok c" and p: "P s" and r: "run_batch vacant c batch s = (b, s')"
  shows "P s' \<and> rt_current s' = rt_current s \<and> (b \<longrightarrow> turn_panics c)"
proof -
  let ?sp = "if length batch > timer_poll_threshold
    then map_option snd (spin_timer (tn_batch_spin c) (s\<lparr>rt_held := batch\<rparr>)) else Some s"
  obtain s1 where s1: "?sp = Some s1" "P s1" "rt_current s1 = rt_current s"
    using spin_P [OF v keep_held [OF p], of "tn_batch_spin c" batch] p
    by (cases "length batch > timer_poll_threshold") auto
  obtain b2 s2 where q: "poll_batch vacant (tn_polls c) batch s1 = (b2, s2)" by fastforce
  have "P s2 \<and> rt_current s2 = rt_current s \<and> (b2 \<longrightarrow> turn_panics c)"
    using poll_batch_P [OF v s1(2) _ q] c s1(3) by (auto simp: turn_ok_def turn_panics_def)
  moreover have "list_all action_ok as" if "tn_flush c = Some as" for as using c that by (simp add: turn_ok_def)
  ultimately show ?thesis
    using r s1(1) q by (auto simp: run_batch_def acts_P acts_current split: if_splits option.splits)
qed

lemma poll_once_P:
  assumes v: "vacant_ok vacant" and c: "turn_ok c" and p: "P s" and r: "poll_once vacant c s = (b, s')"
  shows "P s' \<and> (b \<longrightarrow> turn_panics c \<or> rt_current s \<noteq> NoRuntime)
    \<and> (rt_current s = NoRuntime \<longrightarrow> rt_current s' = NoRuntime)"
proof -
  let ?s0 = "acts vacant (tn_wait c) s"
  have w0: "P ?s0" "rt_current ?s0 = rt_current s" using acts_P [OF p] c by (auto simp: turn_ok_def acts_current)
  obtain r1 s1 where s1: "spin_timer (tn_spin c) ?s0 = Some (r1, s1)" "P s1" "rt_current s1 = rt_current s"
    using spin_P [OF v w0(1)] w0(2) by force
  show ?thesis
  proof (cases "rt_current s = NoRuntime")
    case False
    then show ?thesis using r s1 by (auto simp: poll_once_def enter_runtime_def)
  next
    case True
    let ?s2 = "s1\<lparr>rt_current := ThisRuntime\<rparr>"
    have w2: "P ?s2" by (rule keep_current [OF s1(2)])
    obtain batch s3 where f: "fill_batch ?s2 = (batch, s3)" by fastforce
    have w3: "P s3" by (rule keep_batch [OF v w2 f])
    obtain b4 s4 where x: "run_batch vacant c batch s3 = (b4, s4)" by fastforce
    have w4: "P s4" "b4 \<longrightarrow> turn_panics c" using run_batch_P [OF v c w3 x] by auto
    show ?thesis
      using r s1 True f x w2 w3 w4
      by (auto simp: poll_once_def enter_runtime_def leave_runtime_def keep_current Let_def split: if_splits)
  qed
qed

lemma drive_idle_P:
  assumes v: "vacant_ok vacant" and c: "drive_ok c" and p: "P s"
  shows "\<exists>w s'. drive_idle vacant d c s = Some (w, s') \<and> P s'"
proof -
  let ?s1 = "acts vacant (dr_after_flag c) (set_waiting s)"
  have stop: "P x \<Longrightarrow> P (stop_waiting x)" for x by (simp add: stop_waiting_def keep_remote)
  have "P (set_waiting s)" by (simp add: set_waiting_def keep_remote p)
  then have w1: "P ?s1" using c by (simp add: drive_ok_def acts_P)
  obtain r s2 where sp: "spin_timer (dr_timer_spin c) ?s1 = Some (r, s2)" "P s2" using spin_P [OF v w1] by blast
  have "list_all action_ok (tn_wait c)" using c by (simp add: drive_ok_def turn_ok_def)
  then show ?thesis using p w1 sp stop by (cases r) (auto simp: drive_idle_def Let_def acts_P)
qed

lemma drive_loop_P:
  assumes v: "vacant_ok vacant"
  shows "P s \<Longrightarrow> list_all drive_ok cs \<Longrightarrow> P (snd (drive_loop vacant d cs s))"
proof (induction cs arbitrary: s)
  case (Cons c cs)
  have c: "drive_ok c" "turn_ok c" using Cons(3) by (auto simp: drive_ok_def)
  define r where "r = (if rt_root_ready s then (dr_root c, acts vacant (dr_root_acts c) (s\<lparr>rt_root_ready := False\<rparr>))
    else (RootPending, s))"
  have w1: "P (snd r)" using keep_root [OF Cons(2)] Cons(2) c by (simp add: r_def drive_ok_def acts_P)
  obtain root s1 where rs: "r = (root, s1)" by fastforce
  obtain batch s2 where f: "fill_batch s1 = (batch, s2)" by fastforce
  have w2: "P s2" using keep_batch [OF v _ f] w1 rs by simp
  then have w3: "P (acts vacant (dr_between c) s2)" using c by (simp add: drive_ok_def acts_P)
  obtain w s3 where i: "drive_idle vacant d c (acts vacant (dr_between c) s2) = Some (w, s3)" "P s3"
    using drive_idle_P [OF v c(1) w3] by blast
  obtain b4 s4 where x: "run_batch vacant c batch s2 = (b4, s4)" by fastforce
  have w4: "P s4" using run_batch_P [OF v c(2) w2 x] by simp
  have ih: "P (snd (drive_loop vacant d cs s3))" "P (snd (drive_loop vacant d cs s4))"
    using Cons(1) i(2) w4 Cons(3) by auto
  show ?case using w1 rs f i x w4 ih by (auto simp: r_def [symmetric] split: root_poll.split)
qed simp

lemma drive_P:
  assumes v: "vacant_ok vacant" and cs: "list_all drive_ok cs" "list_all action_ok as" and p: "P s"
  shows "P (snd (drive vacant d as cs s))"
proof -
  let ?s = "s\<lparr>rt_current := ThisRuntime, rt_root_ready := True\<rparr>"
  have "P ?s" using keep_root [OF keep_current [OF p]] .
  then have "P (snd (drive_loop vacant d cs ?s))" by (rule drive_loop_P [OF v _ cs(1)])
  then show ?thesis
    using p
    by (auto simp: drive_def enter_runtime_def leave_runtime_def case_prod_beta Let_def keep_current
        acts_P cs(2) split: option.split)
qed

lemma run_P:
  assumes v: "vacant_ok vacant"
  shows "P s \<Longrightarrow> list_all rt_op_ok ops \<Longrightarrow> P (rt_run vacant ops s)"
proof (induction ops arbitrary: s)
  case (Cons op ops)
  have "P (rt_step vacant op s)"
  proof (cases op)
    case (OpTurn c)
    then show ?thesis
      using poll_once_P [OF v _ Cons(2), of c "fst (poll_once vacant c s)" "snd (poll_once vacant c s)"] Cons(3) by simp
  qed (use Cons(2,3) act_P drive_P [OF v] in auto)
  then show ?case using Cons(1,3) by (simp add: rt_run_def)
qed (simp add: rt_run_def)

end

interpretation wf_code: runtime_code vacant "\<lambda>s. vacant_ok vacant \<longrightarrow> rt_wf s" for vacant
proof unfold_locales
  show "vacant_ok vacant \<longrightarrow> rt_wf s'"
    if "vacant_ok vacant" "vacant_ok vacant \<longrightarrow> rt_wf s" "fill_batch s = (batch, s')" for s s' batch
    using fill_batch_spec(1) [OF _ that(3)] that by (simp add: dequeued_def)
qed (auto simp: poll_task_wf wf_frame)

subsection \<open>Cancelled tasks\<close>

text \<open>
  A task whose slot is empty while it is not being polled never runs again: no operation but the end of
  its own poll fills a slot.
\<close>

definition retired :: "nat \<Rightarrow> nat list \<Rightarrow> ('u, 'o) runtime \<Rightarrow> bool" where
  "retired t before s \<longleftrightarrow> rt_wf s \<and> slot_empty t s \<and> (\<exists>ps. rt_polled s = before @ ps \<and> t \<notin> set ps)"

lemma retired_same: "retired t before s \<Longrightarrow> rt_wf s' \<Longrightarrow> task_shape s' = task_shape s \<Longrightarrow> rt_polled s' = rt_polled s
    \<Longrightarrow> retired t before s'"
  by (auto simp: retired_def slot_empty_def)

lemma retired_keeps:
  assumes v: "vacant_ok vacant" and r: "retired t before s"
  shows "retired t before (rt_wake here w s)" "retired t before (snd (rt_spawn vacant u s))"
    "retired t before (spawn_detached vacant u s)" "retired t before (snd (take_future a s))"
    "retired t before (drop_future x s)"
proof -
  have wf: "rt_wf s" and em: "slot_empty t s" using r by (auto simp: retired_def)
  show "retired t before (rt_wake here w s)"
    using rt_wake_same [of s here w] rt_wake_wf [OF wf] by (intro retired_same [OF r]) (auto simp: same_tasks_def)
  show "retired t before (snd (rt_spawn vacant u s))" "retired t before (spawn_detached vacant u s)"
    using r rt_spawn_wf(1) [OF wf v] spawn_detached_wf(1) [OF wf v] slot_empty_spawn [OF wf em]
    by (auto simp: retired_def) (auto simp: rt_spawn_eq spawn_detached_eq)
  show "retired t before (snd (take_future a s))"
    using r take_future_wf [OF wf, of a] slot_empty_frame(4) [OF em, of a]
    by (auto simp: retired_def) (auto simp: take_future_def)
  show "retired t before (drop_future x s)"
    using r wf_drop [OF wf] by (auto simp: retired_def) (auto simp: drop_future_def)
qed

interpretation retired: user_code vacant "\<lambda>s. vacant_ok vacant \<longrightarrow> retired t before s" for vacant t before
proof unfold_locales
  fix s :: "('a, 'b) runtime" and g :: "'b join_state \<Rightarrow> 'b join_state" and wo j
  assume "vacant_ok vacant \<longrightarrow> retired t before s"
    "g \<in> {js_canceled_update (\<lambda>_. True), js_output_update (\<lambda>_. None), js_waker_update (\<lambda>_. wo)}"
  then show "vacant_ok vacant \<longrightarrow> retired t before (update_join j g s)"
    using update_join_wf [of g s j] by (auto simp: retired_def)
next
  fix s :: "('a, 'b) runtime" and h :: "waker timer \<Rightarrow> waker timer"
  assume "vacant_ok vacant \<longrightarrow> retired t before s" "\<And>tm. timer_inv tm \<Longrightarrow> timer_inv (h tm)"
  then show "vacant_ok vacant \<longrightarrow> retired t before (s\<lparr>rt_timer := map_option h (rt_timer s)\<rparr>)"
    using keep_timer_ok [of s h] by (auto simp: retired_def)
qed (auto simp: retired_keeps simp del: rt_wake.simps)

lemma retired_acts:
  "vacant_ok vacant \<Longrightarrow> list_all action_ok as \<Longrightarrow> retired t before s \<Longrightarrow> retired t before (acts vacant as s)"
  using retired.acts_P [of vacant t before s as] by simp

lemma boxed_poll_retired:
  assumes v: "vacant_ok vacant" and p: "script_ok p" and r: "retired t before s" and t: "t' \<noteq> t"
  shows "retired t before (snd (boxed_poll vacant t' f p s))"
proof -
  have "retired t before (log_poll t' s)"
    using r t wf_frame(2) [of s] by (auto simp: retired_def log_poll_def slot_empty_def task_shape_def)
  then have a: "retired t before (acts vacant (ps_acts p) (log_poll t' s))"
    using p by (simp add: script_ok_def retired_acts [OF v])
  have u: "retired t before (update_join j (\<lambda>js. js\<lparr>js_output := x, js_waker := w\<rparr>) (acts vacant (ps_acts p) (log_poll t' s)))"
    for j x w
    using a by (simp add: retired_def update_join_wf)
  show ?thesis
    using r a u retired_keeps(1) [OF v u]
    by (cases f) (auto simp: detached_poll_def spawn_future_poll_def Let_def split: poll_result.split option.split)
qed

lemma slab_take_shape: "slab_take t s = Some s' \<Longrightarrow> task_shape s' = task_shape s \<and> rt_polled s' = rt_polled s"
  by (auto simp: slab_take_def task_shape_def fun_eq_iff split: option.splits if_splits)

lemma retired_poll:
  assumes v: "vacant_ok vacant" and r: "retired t before s" and p: "script_ok p"
  shows "retired t before (snd (poll_task vacant t' p s))"
proof -
  have wf: "rt_wf s" using r by (simp add: retired_def)
  have end_wf: "rt_wf (snd (poll_task vacant t' p s))" by (rule poll_task_wf(1) [OF v p wf])
  obtain slot s1 where t: "take_future t' s = (slot, s1)" by fastforce
  have r1: "retired t before s1" using retired_keeps(4) [OF v r, of t'] t by simp
  show ?thesis
  proof (cases slot)
    case None
    then have "snd (poll_task vacant t' p s) = (if in_slab t' s1 then case slab_take t' s1 of None \<Rightarrow> s1 | Some s2 \<Rightarrow> s2 else s1)"
      using t by (auto simp: poll_task_def split: option.split)
    then show ?thesis
      using end_wf r1 slab_take_shape [of t' s1] by (auto intro: retired_same [OF r1] split: option.splits if_splits)
  next
    case (Some f)
    then have ne: "t' \<noteq> t" using t r by (auto simp: take_future_def retired_def slot_empty_def task_shape_def split: option.splits)
    obtain b s2 where b: "boxed_poll vacant t' f p s1 = (b, s2)" by fastforce
    have r2: "retired t before s2" using boxed_poll_retired [OF v p r1 ne, of f] b by simp
    have h: "holds_slot t' f s2"
      using boxed_poll_slot [OF v p take_future_slot [OF wf]] t Some b by (metis snd_conv)
    then have w2: "rt_wf s2" "in_slab t' s2" "slot_empty t' s2" by (auto simp: holds_slot_def slot_ok_def)
    obtain s3 where s3: "slab_take t' s2 = Some s3" "rt_wf s3" using slab_take_wf [OF w2] by blast
    then have r3: "retired t before s3" using slab_take_shape by (intro retired_same [OF r2]) auto
    have d: "retired t before x \<Longrightarrow> retired t before (acts vacant (ps_destructor p) (drop_future f x))" for x :: "('a, 'b) runtime"
      using p retired_acts [OF v _ retired_keeps(5) [OF v]] by (auto simp: script_ok_def)
    have "retired t before (put_future t' f s2)"
      using r2 put_future_wf [OF h] ne by (auto simp: retired_def slot_empty_def task_shape_def put_future_def)
    then show ?thesis
      using t Some b d [OF r2] d [OF r3] s3(1) by (cases b) (simp_all add: poll_task_def)
  qed
qed

interpretation retired_code: runtime_code vacant "\<lambda>s. vacant_ok vacant \<longrightarrow> retired t before s" for vacant t before
proof unfold_locales
  show "vacant_ok vacant \<longrightarrow> retired t before s'"
    if "vacant_ok vacant" "vacant_ok vacant \<longrightarrow> retired t before s" "fill_batch s = (batch, s')" for s s' batch
  proof -
    have r: "retired t before s" using that by simp
    then have "dequeued batch s s'" using fill_batch_spec(1) [OF _ that(3)] by (simp add: retired_def)
    then show ?thesis using retired_same [OF r, of s'] same_but_queues_frame [of s s'] by (simp add: dequeued_def)
  qed
next
  show "vacant_ok vacant \<longrightarrow> retired t before (snd (poll_task vacant a p s))"
    if "vacant_ok vacant" "vacant_ok vacant \<longrightarrow> retired t before s" "script_ok p" for s p a
    using that retired_poll by blast
qed (auto simp: retired_def wf_frame slot_empty_def task_shape_def)

text \<open>The flag of a cancelled join state and the destruction of a future are for good.\<close>

definition canceled_for_good :: "nat \<Rightarrow> ('u, 'o) runtime \<Rightarrow> bool" where
  "canceled_for_good j s \<longleftrightarrow> rt_wf s \<and> join_canceled j s"

definition gone :: "nat \<Rightarrow> ('u, 'o) runtime \<Rightarrow> bool" where
  "gone t s \<longleftrightarrow> rt_wf s \<and> t < rt_task_count s \<and> \<not> in_slab t s"

lemma wf_join_less: "rt_wf s \<Longrightarrow> rt_joins s j \<noteq> None \<Longrightarrow> j < rt_join_count s"
  by (auto simp: rt_wf_def rt_core_def ids_ok_def)

lemma join_canceled_less: "rt_wf s \<Longrightarrow> join_canceled j s \<Longrightarrow> j < rt_join_count s"
  using wf_join_less by (force simp: join_canceled_def split: option.splits)

lemma join_canceled_cong: "rt_joins s' j = rt_joins s j \<Longrightarrow> join_canceled j s' = join_canceled j s"
  by (simp add: join_canceled_def)

interpretation canceled: user_code vacant "\<lambda>s. vacant_ok vacant \<longrightarrow> canceled_for_good j s" for vacant j
proof unfold_locales
  fix s :: "('a, 'b) runtime" and here w u and g :: "'b join_state \<Rightarrow> 'b join_state" and wo i a x
    and h :: "waker timer \<Rightarrow> waker timer"
  assume "vacant_ok vacant \<longrightarrow> canceled_for_good j s"
  then have k: "vacant_ok vacant \<Longrightarrow> rt_wf s" "vacant_ok vacant \<Longrightarrow> join_canceled j s" by (auto simp: canceled_for_good_def)
  have l: "vacant_ok vacant \<Longrightarrow> j < rt_join_count s" using k join_canceled_less by blast
  show "vacant_ok vacant \<longrightarrow> canceled_for_good j (rt_wake here w s)"
    using k by (simp add: canceled_for_good_def join_canceled_def rt_wake_frame rt_wake_wf)
  show "vacant_ok vacant \<longrightarrow> canceled_for_good j (snd (rt_spawn vacant u s))"
    using k l by (simp add: canceled_for_good_def rt_spawn_wf join_canceled_cong [of "snd (rt_spawn vacant u s)" j s])
  show "vacant_ok vacant \<longrightarrow> canceled_for_good j (spawn_detached vacant u s)"
    using k l by (simp add: canceled_for_good_def spawn_detached_wf join_canceled_cong [of "spawn_detached vacant u s" j s])
  show "vacant_ok vacant \<longrightarrow> canceled_for_good j (update_join i g s)"
    if "g \<in> {js_canceled_update (\<lambda>_. True), js_output_update (\<lambda>_. None), js_waker_update (\<lambda>_. wo)}"
    using that k update_join_wf [of g s i] by (auto simp: canceled_for_good_def join_canceled_def split: option.splits)
  show "vacant_ok vacant \<longrightarrow> canceled_for_good j (snd (take_future a s))"
    using k take_future_wf [of s a] by (auto simp: canceled_for_good_def join_canceled_def take_future_def)
  show "vacant_ok vacant \<longrightarrow> canceled_for_good j (drop_future x s)"
    using k wf_drop [of s x] by (auto simp: canceled_for_good_def join_canceled_def drop_future_def)
  show "vacant_ok vacant \<longrightarrow> canceled_for_good j (s\<lparr>rt_timer := map_option h (rt_timer s)\<rparr>)"
    if "\<And>tm. timer_inv tm \<Longrightarrow> timer_inv (h tm)"
    using k keep_timer_ok [of s h] that by (auto simp: canceled_for_good_def join_canceled_def)
qed

interpretation dropped: user_code vacant "\<lambda>s. u \<in> set (rt_dropped s)" for vacant u
  by unfold_locales
    (auto simp: rt_wake_frame rt_spawn_eq spawn_detached_eq take_future_def drop_future_def simp del: rt_wake.simps)

lemma gone_spawn:
  assumes "gone t s" "vacant_ok vacant"
  shows "gone t (snd (rt_spawn vacant u s))" "gone t (spawn_detached vacant u s)"
  using assms rt_spawn_wf(1) [of s vacant u] spawn_detached_wf(1) [of s vacant u]
  by (auto simp: gone_def in_slab_def) (auto simp: rt_spawn_eq spawn_detached_eq split: option.splits if_splits)

interpretation gone: user_code vacant "\<lambda>s. vacant_ok vacant \<longrightarrow> gone t s" for vacant t
proof unfold_locales
  fix s :: "('a, 'b) runtime" and here w u and g :: "'b join_state \<Rightarrow> 'b join_state" and wo i a x
    and h :: "waker timer \<Rightarrow> waker timer"
  assume k: "vacant_ok vacant \<longrightarrow> gone t s"
  show "vacant_ok vacant \<longrightarrow> gone t (rt_wake here w s)"
    using k by (simp add: gone_def rt_wake_frame rt_wake_wf)
  show "vacant_ok vacant \<longrightarrow> gone t (snd (rt_spawn vacant u s))" "vacant_ok vacant \<longrightarrow> gone t (spawn_detached vacant u s)"
    using k gone_spawn [of t s vacant u] by simp_all
  show "vacant_ok vacant \<longrightarrow> gone t (update_join i g s)"
    if "g \<in> {js_canceled_update (\<lambda>_. True), js_output_update (\<lambda>_. None), js_waker_update (\<lambda>_. wo)}"
    using that k update_join_wf [of g s i] by (auto simp: gone_def)
  show "vacant_ok vacant \<longrightarrow> gone t (snd (take_future a s))"
    using k take_future_wf [of s a] by (auto simp: gone_def take_future_def)
  show "vacant_ok vacant \<longrightarrow> gone t (drop_future x s)"
    using k wf_drop [of s x] by (auto simp: gone_def drop_future_def)
  show "vacant_ok vacant \<longrightarrow> gone t (s\<lparr>rt_timer := map_option h (rt_timer s)\<rparr>)"
    if "\<And>tm. timer_inv tm \<Longrightarrow> timer_inv (h tm)"
    using k keep_timer_ok [of s h] that by (auto simp: gone_def)
qed

lemma acts_append: "acts vacant (as @ bs) s = acts vacant bs (acts vacant as s)"
  by (induction as arbitrary: s) auto

lemma cancel_marks:
  assumes v: "vacant_ok vacant" and wf: "rt_wf s" and j: "rt_joins s j \<noteq> None" and ok: "action_ok (Cancel j ds)"
  shows "canceled_for_good j (act vacant (Cancel j ds) s)"
proof -
  let ?s = "update_join j (js_canceled_update (\<lambda>_. True)) s"
  have c: "canceled_for_good j ?s"
    using j update_join_wf [of "js_canceled_update (\<lambda>_. True)" s j] wf by (auto simp: canceled_for_good_def join_canceled_def)
  have "canceled_for_good j (act vacant (Cancel j ds) ?s)" using canceled.act_P [of vacant j ?s "Cancel j ds"] v c ok by blast
  moreover have "update_join j (js_canceled_update (\<lambda>_. True)) ?s = ?s"
    by (cases "rt_joins s j"; cases s) (simp_all add: update_join_def)
  then have "act vacant (Cancel j ds) ?s = act vacant (Cancel j ds) s" by (simp only: act.simps)
  ultimately show ?thesis by simp
qed

interpretation joins: user_code vacant "\<lambda>s. j < rt_join_count s" for vacant j
  by unfold_locales
    (auto simp: rt_wake_frame rt_spawn_eq spawn_detached_eq take_future_def drop_future_def simp del: rt_wake.simps)

lemma acts_cancel:
  assumes v: "vacant_ok vacant" and wf: "rt_wf s" and j: "j < rt_join_count s"
    and as: "list_all action_ok as" "Cancel j ds \<in> set as"
  shows "canceled_for_good j (acts vacant as s)"
proof -
  obtain bs cs where bc: "as = bs @ Cancel j ds # cs" using as(2) by (meson split_list)
  let ?s1 = "acts vacant bs s"
  have ok: "list_all action_ok bs" "action_ok (Cancel j ds)" "list_all action_ok cs" using as(1) bc by auto
  have w1: "rt_wf ?s1" "j < rt_join_count ?s1" using acts_wf [OF v ok(1) wf] joins.acts_P [OF j ok(1)] by auto
  then have "rt_joins ?s1 j \<noteq> None" by (auto simp: rt_wf_def rt_core_def ids_ok_def)
  then have "canceled_for_good j (act vacant (Cancel j ds) ?s1)" using cancel_marks [OF v w1(1) _ ok(2)] by blast
  then have "canceled_for_good j (acts vacant cs (act vacant (Cancel j ds) ?s1))"
    using canceled.acts_P [of vacant j "act vacant (Cancel j ds) ?s1" cs] v ok(3) by blast
  then show ?thesis by (simp only: bc acts_append acts.simps)
qed

text \<open>Cancelling a task that is not being polled releases its future at once.\<close>

lemma cancel_retires:
  assumes v: "vacant_ok vacant" and wf: "rt_wf s" and t: "rt_tasks s t = Some k" "tk_future k = Some (SpawnFuture j u)"
    and ok: "action_ok (Cancel j ds)"
  shows "retired t (rt_polled s) (act vacant (Cancel j ds) s)" "u \<in> set (rt_dropped (act vacant (Cancel j ds) s))"
proof -
  let ?s1 = "update_join j (js_canceled_update (\<lambda>_. True)) s"
  have sl: "slot_ok t s (SpawnFuture j u)" using wf t by (auto simp: rt_wf_def rt_core_def task_slots_ok_def)
  have w1: "rt_wf ?s1" by (rule update_join_wf [OF _ wf]) simp
  have "join_task j ?s1 = Some t" using sl by (auto simp: slot_ok_def join_task_def task_alive_def)
  obtain s2 where s2: "take_future t ?s1 = (Some (SpawnFuture j u), s2)" using t by (simp add: take_future_def)
  have "retired t (rt_polled s) s2"
    using take_future_slot [OF w1 s2] s2 by (auto simp: holds_slot_def retired_def take_future_def)
  then have r3: "retired t (rt_polled s) (drop_future (SpawnFuture j u) s2)" by (rule retired_keeps(5) [OF v])
  have d: "list_all action_ok ds" using ok by simp
  let ?s3 = "acts vacant ds (drop_future (SpawnFuture j u) s2)"
  have r4: "retired t (rt_polled s) ?s3" by (rule retired_acts [OF v d r3])
  have e: "act vacant (Cancel j ds) s = rt_wake True (TaskWaker t) ?s3"
    using \<open>join_task j ?s1 = Some t\<close> s2 by (simp add: Let_def)
  show "retired t (rt_polled s) (act vacant (Cancel j ds) s)" unfolding e by (rule retired_keeps(1) [OF v r4])
  have "u \<in> set (rt_dropped (drop_future (SpawnFuture j u) s2))" by (simp add: drop_future_def)
  then show "u \<in> set (rt_dropped (act vacant (Cancel j ds) s))"
    unfolding e rt_wake_frame using dropped.acts_P [OF _ d] by blast
qed

text \<open>A task that cancels itself is released when its poll returns.\<close>

lemma self_cancel_retires:
  assumes v: "vacant_ok vacant" and wf: "rt_wf s" and t: "rt_tasks s t = Some k" "tk_future k = Some (SpawnFuture j u)"
    and p: "script_ok p" "Cancel j ds \<in> set (ps_acts p)" "ps_result p = PollPending" and c: "\<not> join_canceled j s"
  shows "\<exists>s'. poll_task vacant t p s = (False, s') \<and> retired t (rt_polled s @ [t]) s' \<and> u \<in> set (rt_dropped s') \<and> gone t s'"
proof -
  obtain s1 where s1: "take_future t s = (Some (SpawnFuture j u), s1)" using t by (simp add: take_future_def)
  have h1: "holds_slot t (SpawnFuture j u) s1" by (rule take_future_slot [OF wf s1])
  then have w1: "rt_wf s1" "slot_ok t s1 (SpawnFuture j u)" "slot_empty t s1" by (auto simp: holds_slot_def)
  have f1: "rt_polled s1 = rt_polled s" "rt_joins s1 = rt_joins s" using s1 by (auto simp: take_future_def)
  let ?l = "log_poll t s1" and ?s2 = "acts vacant (ps_acts p) (log_poll t s1)"
  have wl: "rt_wf ?l" "j < rt_join_count ?l"
    using wf_frame(2) [OF w1(1)] wf_join_less [OF w1(1), of j] w1(2) by (auto simp: log_poll_def slot_ok_def)
  have ok: "list_all action_ok (ps_acts p)" "list_all action_ok (ps_destructor p)" using p(1) by (auto simp: script_ok_def)
  have cg: "canceled_for_good j ?s2" by (rule acts_cancel [OF v wl ok(1) p(2)])
  have poll: "boxed_poll vacant t (SpawnFuture j u) p s1 = (BoxedReady, ?s2)"
    using c f1 cg p(3) by (simp add: spawn_future_poll_def join_canceled_def canceled_for_good_def Let_def)
  have h2: "holds_slot t (SpawnFuture j u) ?s2" using boxed_poll_slot [OF v p(1) h1] poll by simp
  have "retired t (rt_polled s @ [t]) ?l"
    using w1 wl(1) f1 by (auto simp: retired_def log_poll_def slot_empty_def task_shape_def)
  then have r2: "retired t (rt_polled s @ [t]) ?s2" by (rule retired_acts [OF v ok(1)])
  have w2: "rt_wf ?s2" "in_slab t ?s2" "slot_empty t ?s2" using h2 by (auto simp: holds_slot_def slot_ok_def)
  obtain s3 where s3: "slab_take t ?s2 = Some s3" "rt_wf s3" using slab_take_wf [OF w2] by blast
  have r3: "retired t (rt_polled s @ [t]) s3" using s3 slab_take_shape by (intro retired_same [OF r2]) auto
  have g3: "gone t s3"
    using s3 w2 by (auto simp: gone_def slab_take_def in_slab_def rt_wf_def rt_core_def ids_ok_def split: option.splits if_splits)
  let ?d = "drop_future (SpawnFuture j u) s3" and ?s' = "acts vacant (ps_destructor p) (drop_future (SpawnFuture j u) s3)"
  have "gone t ?d" using g3 by (simp add: gone_def drop_future_def wf_frame(1))
  then have "gone t ?s'" using gone.acts_P [of vacant t ?d "ps_destructor p"] v ok(2) by blast
  moreover have "retired t (rt_polled s @ [t]) ?s'" by (rule retired_acts [OF v ok(2) retired_keeps(5) [OF v r3]])
  moreover have "u \<in> set (rt_dropped ?d)" by (simp add: drop_future_def)
  then have "u \<in> set (rt_dropped ?s')" using dropped.acts_P [OF _ ok(2)] by blast
  moreover have "poll_task vacant t p s = (False, ?s')" using s1 poll s3(1) by (simp add: poll_task_def)
  ultimately show ?thesis by blast
qed

lemma runtime_new_wf: "rt_wf (runtime_with_options timer c)"
  by (simp add: runtime_with_options_def remote_wake_new_def rt_wf_def rt_core_def slab_ok_def ids_ok_def joins_ok_def
      task_slots_ok_def rt_timer_ok_def entries_ok_def entries_def in_slab_def timer_new_def timer_inv_def dh_inv_new)

lemma count_list_filter_le: "count_list (filter Q xs) x \<le> count_list xs x"
  by (induction xs) auto

lemma distinct_if_count_le: "(\<And>x. count_list xs x \<le> 1) \<Longrightarrow> distinct xs"
proof (induction xs)
  case (Cons a xs)
  have "count_list xs a = 0" using Cons(2) [of a] by simp
  moreover have "count_list xs x \<le> 1" for x using Cons(2) [of x] by (simp split: if_splits)
  ultimately show ?case using Cons(1) by (simp add: count_list_0_iff)
qed simp

text \<open>The lowest vacant token, for the examples.\<close>

definition lowest_vacant :: "(nat \<rightharpoonup> nat) \<Rightarrow> nat" where
  "lowest_vacant m = (LEAST k. m k = None)"

lemma lowest_vacant_ok: "vacant_ok lowest_vacant"
  unfolding vacant_ok_def lowest_vacant_def
  by (metis (mono_tags, lifting) LeastI_ex ex_new_if_finite infinite_UNIV_nat domIff)

subsection \<open>Properties\<close>


definition demo_poll :: "string action list \<Rightarrow> nat poll_result \<Rightarrow> (string, nat) poll_script" where
  "demo_poll as r = \<lparr>ps_acts = as, ps_result = r, ps_destructor = []\<rparr>"

definition demo_turn :: "(string, nat) poll_script \<Rightarrow> (string, nat) turn_script" where
  "demo_turn p = \<lparr>tn_wait = [], tn_spin = \<lparr>sp_now = 0, sp_later = 0, sp_keep = True\<rparr>,
     tn_batch_spin = \<lparr>sp_now = 0, sp_later = 0, sp_keep = True\<rparr>, tn_polls = (\<lambda>_. p), tn_flush = None\<rparr>"

definition demo_runtime :: "(string, nat) runtime" where
  "demo_runtime = rt_run lowest_vacant [OpAct (Spawn ''a''), OpAct (Wake False (TaskWaker 0))]
     (runtime_with_options False NoRuntime)"

lemma demo_turn_ok [simp]: "list_all action_ok as \<Longrightarrow> turn_ok (demo_turn (demo_poll as r))"
  by (simp add: turn_ok_def demo_turn_def demo_poll_def script_ok_def)

lemma lowest_vacant_0 [simp]: "m 0 = None \<Longrightarrow> lowest_vacant m = 0"
  by (simp add: lowest_vacant_def)

lemma demo_runtime_eq:
  "demo_runtime = \<lparr>rt_queue = [0], rt_next_task = None, rt_remote_wake = remote_wake_new, rt_remote_live = True,
     rt_token_to_task = [0 \<mapsto> 0], rt_root_ready = True, rt_timer = None, rt_current = NoRuntime, rt_held = [],
     rt_tasks = [0 \<mapsto> \<lparr>tk_future = Some (SpawnFuture 0 ''a''), tk_queued = True, tk_token = 0\<rparr>], rt_task_count = 1,
     rt_joins = [0 \<mapsto> \<lparr>js_output = None, js_waker = None, js_canceled = False, js_task = Some 0\<rparr>], rt_join_count = 1,
     rt_dropped = [], rt_polled = [], rt_other = []\<rparr>"
  by (simp add: demo_runtime_def rt_run_def rt_spawn_eq runtime_with_options_def enqueue_if_needed_def swap_queued_def
      task_queued_def update_task_def rw_signal_def remote_wake_new_def Let_def)

lemma demo_turn_polls:
  "rt_polled (snd (poll_once lowest_vacant (demo_turn (demo_poll [Wake True (TaskWaker 0)] PollPending)) demo_runtime)) = [0]"
  "rt_next_task (snd (poll_once lowest_vacant (demo_turn (demo_poll [Wake True (TaskWaker 0)] PollPending)) demo_runtime)) = Some 0"
  by (simp_all add: demo_runtime_eq poll_once_def demo_turn_def demo_poll_def spin_timer_def enter_runtime_def
      should_skip_wait_def fill_batch_def take_next_task_def drain_ready_with_def drain_remote.simps drain_queue.simps
      task_batch_size_def remote_wake_new_def mark_dequeued_def update_task_def queue_pop_def run_batch_def
      timer_poll_threshold_def poll_task_def take_future_def spawn_future_poll_def join_canceled_def log_poll_def
      enqueue_if_needed_def swap_queued_def task_queued_def enqueue_local_wake_def in_slab_def put_future_def
      leave_runtime_def Let_def)

lemma demo_runtime_wf: "rt_wf demo_runtime"
proof -
  have "vacant_ok lowest_vacant \<longrightarrow> rt_wf demo_runtime"
    unfolding demo_runtime_def by (rule wf_code.run_P [OF lowest_vacant_ok]) (simp_all add: runtime_new_wf)
  then show ?thesis using lowest_vacant_ok by blast
qed


text \<open>C39. A batch takes the ready tasks in order: in a well-formed runtime it is the first 256 of the task in
  the single-task slot, then the live tasks other threads woke, then the local queue, each task once,
  with the flag \<open>queued\<close> of exactly these cleared so that a later wake queues them again; the rest stays
  queued in the same order, wakes of finished tasks are dropped, and nothing else changes. An empty
  batch leaves nothing that would keep the runtime from parking.\<close>

theorem batch_takes_ready_in_order:
  assumes "rt_wf s" "fill_batch s = (batch, s')"
  shows "batch = take task_batch_size (ready_list s) \<and> ready_list s' = drop task_batch_size (ready_list s)
    \<and> distinct (ready_list s) \<and> (\<forall>t. task_queued t s' = (task_queued t s \<and> t \<notin> set batch))
    \<and> same_but_queues s s' \<and> rt_wf s' \<and> (batch = [] \<longrightarrow> \<not> should_skip_wait s')"
proof -
  have "count_list (ready_list s) t \<le> count_list (entries s) t" for t
    by (simp add: ready_list_def entries_def count_list_filter_le)
  moreover have "count_list (entries s) t \<le> 1" for t
    using assms(1) by (auto simp: rt_wf_def entries_ok_def intro: order_trans)
  ultimately have "count_list (ready_list s) t \<le> 1" for t using order_trans by blast
  then have "distinct (ready_list s)" by (rule distinct_if_count_le)
  then show ?thesis using fill_batch_spec [OF assms] by (simp add: dequeued_def)
qed

theorem batch_takes_ready_in_order_witness:
  "\<exists>s'. fill_batch demo_runtime = ([0], s') \<and> rt_wf s' \<and> ready_list s' = [] \<and> \<not> task_queued 0 s'"
proof -
  obtain batch s' where f: "fill_batch demo_runtime = (batch, s')" by fastforce
  have "ready_list demo_runtime = [0]" by (simp add: ready_list_def demo_runtime_eq remote_wake_new_def)
  then show ?thesis using batch_takes_ready_in_order [OF demo_runtime_wf f] f by (auto simp: task_batch_size_def)
qed

text \<open>C7. A cancelled future is released and never runs again. Cancelling a task that is not being polled
  destroys its future before \<open>cancel\<close> returns; a task that cancels itself during its own poll is destroyed,
  and its slab entry freed, when that poll returns, although the poll says pending. Either way, whatever
  the runtime does afterwards, that task is not polled again.\<close>

theorem cancelled_future_is_released:
  fixes s :: "('u, 'o) runtime" and ops :: "('u, 'o) rt_op list"
  assumes v: "vacant_ok vacant" and wf: "rt_wf s" and t: "rt_tasks s t = Some k" "tk_future k = Some (SpawnFuture j u)"
    and ops: "list_all rt_op_ok ops"
  shows "(action_ok (Cancel j ds) \<longrightarrow>
       (let s1 = act vacant (Cancel j ds) s
        in u \<in> set (rt_dropped s1) \<and> (\<exists>ps. rt_polled (rt_run vacant ops s1) = rt_polled s @ ps \<and> t \<notin> set ps)))
    \<and> (script_ok p \<and> Cancel j ds \<in> set (ps_acts p) \<and> ps_result p = PollPending \<and> \<not> join_canceled j s \<longrightarrow>
       (let s1 = snd (poll_task vacant t p s)
        in u \<in> set (rt_dropped s1) \<and> \<not> in_slab t s1
          \<and> (\<exists>ps. rt_polled (rt_run vacant ops s1) = rt_polled s @ t # ps \<and> t \<notin> set ps)))"
proof (intro conjI impI)
  assume ok: "action_ok (Cancel j ds)"
  let ?s1 = "act vacant (Cancel j ds) s"
  have r: "retired t (rt_polled s) ?s1" "u \<in> set (rt_dropped ?s1)" using cancel_retires [OF v wf t ok] .
  have "retired t (rt_polled s) (rt_run vacant ops ?s1)"
    using retired_code.run_P [OF v _ ops, of t "rt_polled s" ?s1] v r(1) by blast
  then show "let s1 = ?s1 in u \<in> set (rt_dropped s1) \<and> (\<exists>ps. rt_polled (rt_run vacant ops s1) = rt_polled s @ ps \<and> t \<notin> set ps)"
    using r(2) by (simp add: retired_def Let_def del: act.simps)
next
  assume p: "script_ok p \<and> Cancel j ds \<in> set (ps_acts p) \<and> ps_result p = PollPending \<and> \<not> join_canceled j s"
  then obtain s1 where s1: "poll_task vacant t p s = (False, s1)" "retired t (rt_polled s @ [t]) s1"
    "u \<in> set (rt_dropped s1)" "gone t s1"
    using self_cancel_retires [OF v wf t, of p ds] by blast
  have "retired t (rt_polled s @ [t]) (rt_run vacant ops s1)"
    using retired_code.run_P [OF v _ ops, of t "rt_polled s @ [t]" s1] v s1(2) by blast
  then show "let s1 = snd (poll_task vacant t p s)
      in u \<in> set (rt_dropped s1) \<and> \<not> in_slab t s1
        \<and> (\<exists>ps. rt_polled (rt_run vacant ops s1) = rt_polled s @ t # ps \<and> t \<notin> set ps)"
    using s1 by (simp add: retired_def gone_def Let_def)
qed

theorem cancelled_future_is_released_witness:
  "(let s1 = act lowest_vacant (Cancel 0 []) demo_runtime
      in ''a'' \<in> set (rt_dropped s1)
        \<and> 0 \<notin> set (rt_polled (rt_run lowest_vacant [OpTurn (demo_turn (demo_poll [] PollPending))] s1)))
   \<and> (let s1 = snd (poll_task lowest_vacant 0 (demo_poll [Cancel 0 []] PollPending) demo_runtime)
      in ''a'' \<in> set (rt_dropped s1) \<and> \<not> in_slab 0 s1
        \<and> (\<exists>ps. rt_polled (rt_run lowest_vacant [OpTurn (demo_turn (demo_poll [] PollPending))] s1) = 0 # ps \<and> 0 \<notin> set ps))"
proof -
  have t: "rt_tasks demo_runtime 0 = Some \<lparr>tk_future = Some (SpawnFuture 0 ''a''), tk_queued = True, tk_token = 0\<rparr>"
    "rt_polled demo_runtime = []" "\<not> join_canceled 0 demo_runtime"
    by (simp_all add: demo_runtime_eq join_canceled_def)
  have p: "script_ok (demo_poll [Cancel 0 []] PollPending)" "Cancel 0 [] \<in> set (ps_acts (demo_poll [Cancel 0 []] PollPending))"
    "ps_result (demo_poll [Cancel 0 []] PollPending) = PollPending"
    by (simp_all add: demo_poll_def script_ok_def)
  show ?thesis
    using cancelled_future_is_released [OF lowest_vacant_ok demo_runtime_wf t(1),
        of 0 "''a''" "[OpTurn (demo_turn (demo_poll [] PollPending))]" "[]" "demo_poll [Cancel 0 []] PollPending"] t(2,3) p
    by (auto simp: Let_def simp del: act.simps)
qed

end
