(* ===== verification/Executor_Wake.thy ===== *)
theory Executor_Wake
  imports Executor_Turn
begin

section \<open>Wakes and parking, interleaved (vibeio/executor.rs, vibeio/task.rs)\<close>

text \<open>
  The runtime's thread and any number of other threads, interleaved at their accesses to what they
  share: the \<open>queued\<close> flag of a task, the remote queue, the root's ready flag, and the flags \<open>waiting\<close> and
  \<open>interrupt_pending\<close>. Each step is one access, on the runtime of \<open>Executor\<close>. The accesses are taken as
  sequentially consistent, which is what the fences around \<open>waiting\<close> are there for; \<open>Executor_Runs\<close> looks
  at the store without one, in \<open>mark_dequeued\<close>.

  \<^item> \<open>x_threads\<close> holds the program counters of the wakes in progress on other threads: about to push the
    task, to load \<open>waiting\<close>, to swap \<open>interrupt_pending\<close>, to call \<open>interrupt\<close>. A wake on the runtime's
    thread that finds the flag set continues there too.
  \<^item> \<open>x_local\<close> is a wake on the runtime's thread between its swap and its local enqueue.
  \<^item> \<open>x_batch\<close> holds the tasks taken and not yet polled.
  \<^item> \<open>x_notified\<close> records the tasks woken or spawned since their last poll began.
\<close>

datatype wake_pc = RPush nat | RCheck | RSwapPending | RInterrupt

datatype run_pc =
    Running
  | Draining nat
  | DrainingQueue nat
  | Marking nat run_pc
  | Idle
  | Clearing
  | Flagging
  | CheckRoot
  | CheckQueues
  | Spinning
  | SpinWoken
  | ParkedWait
  | Dispatching
  | StopWaiting
  | StopPending

record ('u, 'o) exec_state =
  x_rt :: "('u, 'o) runtime"
  x_pc :: run_pc
  x_local :: "nat option"
  x_threads :: "wake_pc multiset"
  x_batch :: "nat list"
  x_polling :: "nat option"
  x_notified :: "nat set"

definition user_pc :: "run_pc \<Rightarrow> bool" where
  "user_pc pc \<longleftrightarrow> pc \<in> {Running, Spinning, SpinWoken, Dispatching}"

definition woken_pc :: "run_pc \<Rightarrow> run_pc" where
  "woken_pc pc = (if pc = Spinning then SpinWoken else pc)"

definition set_remote :: "(remote_wake \<Rightarrow> remote_wake) \<Rightarrow> ('u, 'o) runtime \<Rightarrow> ('u, 'o) runtime" where
  "set_remote f s = s\<lparr>rt_remote_wake := f (rt_remote_wake s)\<rparr>"

definition queue_view :: "('u, 'o) runtime \<Rightarrow> _" where
  "queue_view s = (rt_queue s, rt_next_task s, rt_remote_wake s, rt_token_to_task s, rt_root_ready s,
     rt_task_count s, rt_current s, (\<lambda>t. map_option (\<lambda>k. (tk_queued k, tk_token k)) (rt_tasks s t)))"

inductive exec_step :: "('u, 'o) exec_state \<Rightarrow> ('u, 'o) exec_state \<Rightarrow> bool" where
  remote_swap: "rt_tasks (x_rt s) t \<noteq> None \<Longrightarrow> swap_queued t (x_rt s) = (was, r)
    \<Longrightarrow> exec_step s (s\<lparr>x_rt := r, x_threads := add_mset (if was then RCheck else RPush t) (x_threads s),
                       x_notified := insert t (x_notified s)\<rparr>)"
| remote_root: "exec_step s (s\<lparr>x_rt := (x_rt s)\<lparr>rt_root_ready := True\<rparr>, x_threads := add_mset RCheck (x_threads s)\<rparr>)"
| remote_push: "RPush t \<in># x_threads s
    \<Longrightarrow> exec_step s (s\<lparr>x_rt := set_remote (rw_push t) (x_rt s),
                       x_threads := add_mset RCheck (x_threads s - {#RPush t#})\<rparr>)"
| remote_check: "RCheck \<in># x_threads s
    \<Longrightarrow> exec_step s (s\<lparr>x_threads := (if rw_waiting (rt_remote_wake (x_rt s)) then {#RSwapPending#} else {#})
                       + (x_threads s - {#RCheck#})\<rparr>)"
| remote_pending: "RSwapPending \<in># x_threads s
    \<Longrightarrow> exec_step s (s\<lparr>x_rt := set_remote (\<lambda>r. r\<lparr>rw_interrupt_pending := True\<rparr>) (x_rt s),
                       x_threads := (if rw_interrupt_pending (rt_remote_wake (x_rt s)) then {#} else {#RInterrupt#})
                         + (x_threads s - {#RSwapPending#})\<rparr>)"
| remote_interrupt: "RInterrupt \<in># x_threads s
    \<Longrightarrow> exec_step s (s\<lparr>x_rt := set_remote (\<lambda>r. r\<lparr>rw_interrupts := Suc (rw_interrupts r)\<rparr>) (x_rt s),
                       x_threads := x_threads s - {#RInterrupt#}\<rparr>)"
| local_swap: "user_pc (x_pc s) \<Longrightarrow> x_local s = None \<Longrightarrow> rt_tasks (x_rt s) t \<noteq> None \<Longrightarrow> swap_queued t (x_rt s) = (was, r)
    \<Longrightarrow> exec_step s (s\<lparr>x_rt := r, x_pc := woken_pc (x_pc s), x_local := (if was then None else Some t),
                       x_threads := (if was then {#RCheck#} else {#}) + x_threads s,
                       x_notified := insert t (x_notified s)\<rparr>)"
| local_enqueue: "x_local s = Some t \<Longrightarrow> enqueue_local_wake True t (x_rt s) = (handled, r)
    \<Longrightarrow> exec_step s (s\<lparr>x_rt := r, x_local := None,
                       x_threads := (if handled then {#} else {#RPush t#}) + x_threads s\<rparr>)"
| local_root: "user_pc (x_pc s) \<Longrightarrow> x_local s = None
    \<Longrightarrow> exec_step s (s\<lparr>x_rt := (x_rt s)\<lparr>rt_root_ready := True\<rparr>, x_pc := woken_pc (x_pc s)\<rparr>)"
| spawn: "user_pc (x_pc s) \<Longrightarrow> x_local s = None \<Longrightarrow> rt_token_to_task (x_rt s) (vacant (rt_token_to_task (x_rt s))) = None
    \<Longrightarrow> new_task vacant f (x_rt s) = (t, r)
    \<Longrightarrow> exec_step s (s\<lparr>x_rt := rt_enqueue t r, x_pc := woken_pc (x_pc s), x_notified := insert t (x_notified s)\<rparr>)"
| other: "queue_view r = queue_view (x_rt s) \<Longrightarrow> exec_step s (s\<lparr>x_rt := r\<rparr>)"
| poll: "x_pc s = Running \<Longrightarrow> x_local s = None \<Longrightarrow> x_polling s = None \<Longrightarrow> x_batch s = t # ts
    \<Longrightarrow> exec_step s (s\<lparr>x_batch := ts, x_polling := Some t, x_notified := x_notified s - {t}\<rparr>)"
| poll_pending: "x_pc s = Running \<Longrightarrow> x_local s = None \<Longrightarrow> exec_step s (s\<lparr>x_polling := None\<rparr>)"
| poll_done: "x_pc s = Running \<Longrightarrow> x_local s = None \<Longrightarrow> x_polling s = Some t \<Longrightarrow> slab_take t (x_rt s) = Some r
    \<Longrightarrow> exec_step s (s\<lparr>x_rt := r, x_polling := None\<rparr>)"
| flush: "x_pc s = Running
    \<Longrightarrow> exec_step s (s\<lparr>x_rt := set_remote (\<lambda>r. r\<lparr>rw_interrupts := 0\<rparr>) (x_rt s)\<rparr>)"
| root_polled: "x_pc s = Running \<Longrightarrow> x_local s = None \<Longrightarrow> x_polling s = None \<Longrightarrow> x_batch s = []
    \<Longrightarrow> exec_step s (s\<lparr>x_rt := (x_rt s)\<lparr>rt_root_ready := False\<rparr>\<rparr>)"
| take_next: "x_pc s = Running \<Longrightarrow> x_local s = None \<Longrightarrow> x_polling s = None \<Longrightarrow> x_batch s = []
    \<Longrightarrow> exec_step s (s\<lparr>x_rt := (x_rt s)\<lparr>rt_next_task := None\<rparr>,
         x_pc := (case rt_next_task (x_rt s) of None \<Rightarrow> Draining task_batch_size
                  | Some t \<Rightarrow> Marking t (Draining (task_batch_size - 1)))\<rparr>)"
| mark: "x_pc s = Marking t pc
    \<Longrightarrow> exec_step s (s\<lparr>x_rt := mark_dequeued t (x_rt s), x_pc := pc, x_batch := x_batch s @ [t]\<rparr>)"
| pop_remote: "x_pc s = Draining b \<Longrightarrow> b \<noteq> 0 \<Longrightarrow> rw_queue (rt_remote_wake (x_rt s)) = t # rest
    \<Longrightarrow> exec_step s (s\<lparr>x_rt := rw_pop (x_rt s),
         x_pc := (if in_slab t (x_rt s) then Marking t (Draining (b - 1)) else Draining b)\<rparr>)"
| remote_drained: "x_pc s = Draining b \<Longrightarrow> b = 0 \<or> rw_queue (rt_remote_wake (x_rt s)) = []
    \<Longrightarrow> exec_step s (s\<lparr>x_pc := DrainingQueue b\<rparr>)"
| pop_queue: "x_pc s = DrainingQueue b \<Longrightarrow> b \<noteq> 0 \<Longrightarrow> rt_queue (x_rt s) = t # rest
    \<Longrightarrow> exec_step s (s\<lparr>x_rt := queue_pop (x_rt s), x_pc := Marking t (DrainingQueue (b - 1))\<rparr>)"
| queue_drained: "x_pc s = DrainingQueue b \<Longrightarrow> b = 0 \<or> rt_queue (x_rt s) = []
    \<Longrightarrow> exec_step s (s\<lparr>x_pc := (if x_batch s = [] then Idle else Running)\<rparr>)"
| idle: "x_pc s = Idle \<Longrightarrow> exec_step s (s\<lparr>x_pc := (if rt_root_ready (x_rt s) then Running else Clearing)\<rparr>)"
| clear_pending: "x_pc s = Clearing
    \<Longrightarrow> exec_step s (s\<lparr>x_rt := set_remote (\<lambda>r. r\<lparr>rw_interrupt_pending := False\<rparr>) (x_rt s), x_pc := Flagging\<rparr>)"
| set_waiting: "x_pc s = Flagging
    \<Longrightarrow> exec_step s (s\<lparr>x_rt := set_remote (\<lambda>r. r\<lparr>rw_waiting := True\<rparr>) (x_rt s), x_pc := CheckRoot\<rparr>)"
| check_root: "x_pc s = CheckRoot
    \<Longrightarrow> exec_step s (s\<lparr>x_pc := (if rt_root_ready (x_rt s) then StopWaiting else CheckQueues)\<rparr>)"
| check_queues: "x_pc s = CheckQueues
    \<Longrightarrow> exec_step s (s\<lparr>x_pc := (if should_skip_wait (x_rt s) then StopWaiting else Spinning)\<rparr>)"
| spin_woken: "x_pc s = SpinWoken \<Longrightarrow> x_local s = None \<Longrightarrow> exec_step s (s\<lparr>x_pc := StopWaiting\<rparr>)"
| park: "x_pc s = Spinning \<Longrightarrow> exec_step s (s\<lparr>x_pc := ParkedWait\<rparr>)"
| wait_interrupted: "x_pc s = ParkedWait \<Longrightarrow> rw_interrupts (rt_remote_wake (x_rt s)) \<noteq> 0
    \<Longrightarrow> exec_step s (s\<lparr>x_rt := set_remote (\<lambda>r. r\<lparr>rw_interrupts := 0\<rparr>) (x_rt s), x_pc := Dispatching\<rparr>)"
| wait_returned: "x_pc s = ParkedWait \<Longrightarrow> exec_step s (s\<lparr>x_pc := Dispatching\<rparr>)"
| dispatched: "x_pc s = Dispatching \<Longrightarrow> x_local s = None \<Longrightarrow> exec_step s (s\<lparr>x_pc := StopWaiting\<rparr>)"
| stop_waiting: "x_pc s = StopWaiting
    \<Longrightarrow> exec_step s (s\<lparr>x_rt := set_remote (\<lambda>r. r\<lparr>rw_waiting := False\<rparr>) (x_rt s), x_pc := StopPending\<rparr>)"
| stop_pending: "x_pc s = StopPending
    \<Longrightarrow> exec_step s (s\<lparr>x_rt := set_remote (\<lambda>r. r\<lparr>rw_interrupt_pending := False\<rparr>) (x_rt s), x_pc := Running\<rparr>)"

text \<open>The loop starts on any well-formed runtime, entered and not parked.\<close>

definition exec_init :: "('u, 'o) exec_state \<Rightarrow> bool" where
  "exec_init s \<longleftrightarrow> rt_wf (x_rt s) \<and> rt_current (x_rt s) = ThisRuntime \<and> \<not> rw_waiting (rt_remote_wake (x_rt s))
     \<and> x_pc s = Running \<and> x_local s = None \<and> x_threads s = {#} \<and> x_batch s = [] \<and> x_polling s = None
     \<and> (\<forall>t \<in> x_notified s. task_queued t (x_rt s))"

subsection \<open>No wake is lost\<close>

text \<open>
  How many places hold a task that waits to be polled: a ready entry, a wake between its swap and its
  push or enqueue, an entry popped and not yet marked.
\<close>

fun marking :: "run_pc \<Rightarrow> nat option" where
  "marking (Marking t pc) = Some t"
| "marking _ = None"

definition pend :: "('u, 'o) exec_state \<Rightarrow> nat \<Rightarrow> nat" where
  "pend s t = count_list (entries (x_rt s)) t + count (x_threads s) (RPush t)
     + of_bool (x_local s = Some t) + of_bool (marking (x_pc s) = Some t)"

definition notify_inv :: "('u, 'o) exec_state \<Rightarrow> bool" where
  "notify_inv s \<longleftrightarrow>
     (\<forall>t. rt_tasks (x_rt s) t \<noteq> None \<longrightarrow> t < rt_task_count (x_rt s))
     \<and> (\<forall>t. pend s t \<le> of_bool (task_queued t (x_rt s) \<and> t < rt_task_count (x_rt s)))
     \<and> (\<forall>t. in_slab t (x_rt s) \<longrightarrow> pend s t = of_bool (task_queued t (x_rt s)))
     \<and> (\<forall>t \<in> x_notified s. in_slab t (x_rt s) \<longrightarrow> pend s t \<noteq> 0 \<or> t \<in> set (x_batch s))
     \<and> (\<forall>t pc. x_pc s = Marking t pc \<longrightarrow> marking pc = None)"

lemma notify_invD:
  assumes "notify_inv s"
  shows "rt_tasks (x_rt s) u \<noteq> None \<Longrightarrow> u < rt_task_count (x_rt s)"
    "pend s u \<le> of_bool (task_queued u (x_rt s) \<and> u < rt_task_count (x_rt s))"
    "in_slab u (x_rt s) \<Longrightarrow> pend s u = of_bool (task_queued u (x_rt s))"
    "u \<in> x_notified s \<Longrightarrow> in_slab u (x_rt s) \<Longrightarrow> pend s u \<noteq> 0 \<or> u \<in> set (x_batch s)"
    "x_pc s = Marking u pc \<Longrightarrow> marking pc = None"
  using assms unfolding notify_inv_def by auto

lemma notify_invI:
  assumes "\<And>u. rt_tasks (x_rt s) u \<noteq> None \<Longrightarrow> u < rt_task_count (x_rt s)"
    "\<And>u. pend s u \<le> of_bool (task_queued u (x_rt s) \<and> u < rt_task_count (x_rt s))"
    "\<And>u. in_slab u (x_rt s) \<Longrightarrow> pend s u = of_bool (task_queued u (x_rt s))"
    "\<And>u. u \<in> x_notified s \<Longrightarrow> in_slab u (x_rt s) \<Longrightarrow> pend s u \<noteq> 0 \<or> u \<in> set (x_batch s)"
    "\<And>u pc. x_pc s = Marking u pc \<Longrightarrow> marking pc = None"
  shows "notify_inv s"
  using assms unfolding notify_inv_def by blast

lemma entries_set_remote [simp]:
  "(\<And>r. rw_queue (f r) = rw_queue r) \<Longrightarrow> entries (set_remote f s) = entries s"
  by (simp add: entries_def set_remote_def)

lemma set_remote_frame [simp]:
  "in_slab t (set_remote f s) = in_slab t s" "task_queued t (set_remote f s) = task_queued t s"
  "rt_tasks (set_remote f s) = rt_tasks s" "rt_task_count (set_remote f s) = rt_task_count s"
  "rt_queue (set_remote f s) = rt_queue s" "rt_next_task (set_remote f s) = rt_next_task s"
  "rt_root_ready (set_remote f s) = rt_root_ready s" "rt_current (set_remote f s) = rt_current s"
  "rt_remote_wake (set_remote f s) = f (rt_remote_wake s)"
  by (simp_all add: set_remote_def)

lemma root_ready_frame [simp]:
  "entries (s\<lparr>rt_root_ready := b\<rparr>) = entries s" "task_queued t (s\<lparr>rt_root_ready := b\<rparr>) = task_queued t s"
  by (simp_all add: entries_def task_queued_def)

lemma queue_view_frame:
  assumes "queue_view r = queue_view s"
  shows "entries r = entries s" "in_slab t r = in_slab t s" "task_queued t r = task_queued t s"
    "rt_task_count r = rt_task_count s" "rt_tasks r t = None \<longleftrightarrow> rt_tasks s t = None"
proof -
  have k: "map_option (\<lambda>k. (tk_queued k, tk_token k)) (rt_tasks r t) = map_option (\<lambda>k. (tk_queued k, tk_token k)) (rt_tasks s t)"
    using assms by (simp add: queue_view_def fun_eq_iff)
  show "rt_tasks r t = None \<longleftrightarrow> rt_tasks s t = None" using k by (auto simp: map_option_case split: option.splits)
  show "task_queued t r = task_queued t s" using k by (auto simp: task_queued_def split: option.splits)
  show "entries r = entries s" "rt_task_count r = rt_task_count s"
    using assms by (simp_all add: queue_view_def entries_def)
  show "in_slab t r = in_slab t s"
    using k assms by (auto simp: in_slab_def queue_view_def split: option.splits)
qed

text \<open>A step that moves a task between those places, or changes none of them.\<close>

lemma notify_inv_same:
  assumes "notify_inv s" and "\<And>t. pend s' t = pend s t"
    and "\<And>t. in_slab t (x_rt s') = in_slab t (x_rt s)" "\<And>t. task_queued t (x_rt s') = task_queued t (x_rt s)"
    and "\<And>t. rt_tasks (x_rt s') t = None \<longleftrightarrow> rt_tasks (x_rt s) t = None" "rt_task_count (x_rt s') = rt_task_count (x_rt s)"
    and "x_notified s' \<subseteq> x_notified s"
    and "\<And>t. t \<in> x_notified s' \<Longrightarrow> t \<in> set (x_batch s) \<Longrightarrow> t \<in> set (x_batch s')"
    and "\<And>t pc. x_pc s' = Marking t pc \<Longrightarrow> marking pc = None"
  shows "notify_inv s'"
  using assms(1) assms(7) unfolding notify_inv_def assms(2-6) by (auto intro: assms(8,9))

lemma count_push [simp]: "count (add_mset x M - {#RPush t#}) y = count (add_mset x M) y - of_bool (y = RPush t)"
  by auto

lemma pend_batch [simp]:
  "pend (s\<lparr>x_batch := b\<rparr>) t = pend s t" "pend (s\<lparr>x_notified := n\<rparr>) t = pend s t" "pend (s\<lparr>x_polling := p\<rparr>) t = pend s t"
  by (simp_all add: pend_def)

lemma marking_woken [simp]: "marking (woken_pc pc) = marking pc"
  by (simp add: woken_pc_def)

lemma woken_pc_Marking [simp]: "woken_pc pc = Marking t q \<longleftrightarrow> pc = Marking t q"
  by (simp add: woken_pc_def)

lemma user_pc_marking: "user_pc pc \<Longrightarrow> marking pc = None"
  by (auto simp: user_pc_def)

lemma swap_frame:
  assumes "swap_queued t s = (was, r)" "rt_tasks s t \<noteq> None"
  shows "was = task_queued t s" "entries r = entries s" "in_slab u r = in_slab u s"
    "task_queued u r = (task_queued u s \<or> u = t)" "rt_task_count r = rt_task_count s" "rt_tasks r u = None \<longleftrightarrow> rt_tasks s u = None"
    "rt_root_ready r = rt_root_ready s" "rt_queue r = rt_queue s" "rt_next_task r = rt_next_task s"
    "rt_remote_wake r = rt_remote_wake s" "rt_current r = rt_current s"
  using assms by (auto simp: swap_queued_def task_queued_swap split: if_splits)

lemma notify_inv_swap:
  assumes inv: "notify_inv s" and t: "rt_tasks (x_rt s) t \<noteq> None" and sw: "swap_queued t (x_rt s) = (was, x_rt s')"
    and p: "\<And>u. pend s' u = pend s u + of_bool (u = t \<and> \<not> was)"
    and n: "x_notified s' = insert t (x_notified s)" and b: "x_batch s' = x_batch s"
    and pc: "\<And>t pc. x_pc s' = Marking t pc \<Longrightarrow> marking pc = None"
  shows "notify_inv s'"
proof -
  note f = swap_frame [OF sw t]
  note i = notify_invD [OF inv]
  have le: "pend s' u \<le> of_bool (task_queued u (x_rt s') \<and> u < rt_task_count (x_rt s'))" for u
    using i(2) [of u] i(1) [OF t] unfolding p f(1,4,5) by (cases "u = t") auto
  have eq: "in_slab u (x_rt s') \<Longrightarrow> pend s' u = of_bool (task_queued u (x_rt s'))" for u
    using i(3) [of u] unfolding p f(1,3,4) by (cases "u = t") auto
  have nt: "u \<in> x_notified s' \<Longrightarrow> in_slab u (x_rt s') \<Longrightarrow> pend s' u \<noteq> 0 \<or> u \<in> set (x_batch s')" for u
    using i(4) [of u] i(3) [of u] unfolding p f(1,3) n b by (cases "u = t") auto
  show ?thesis
    by (rule notify_invI [OF _ le eq nt pc]) (use i(1) in \<open>simp_all add: f(5,6)\<close>)
qed

lemma notify_inv_spawn:
  assumes inv: "notify_inv s" and v: "rt_token_to_task (x_rt s) (vacant (rt_token_to_task (x_rt s))) = None"
    and nt: "new_task vacant f (x_rt s) = (t, r)"
  shows "notify_inv (s\<lparr>x_rt := rt_enqueue t r, x_pc := woken_pc (x_pc s), x_notified := insert t (x_notified s)\<rparr>)"
    (is "notify_inv ?s'")
proof -
  note i = notify_invD [OF inv]
  have t: "t = rt_task_count (x_rt s)" and c: "rt_task_count (x_rt ?s') = Suc t"
    using nt by (auto simp: new_task_def rt_enqueue_def Let_def)
  have p: "pend ?s' u = pend s u + of_bool (u = t)" for u
    using nt by (auto simp: pend_def entries_def new_task_def rt_enqueue_def Let_def)
  have p0: "pend s t = 0" using i(2) [of t] t by simp
  have q: "task_queued u (x_rt ?s') = (if u = t then True else task_queued u (x_rt s))" for u
    using nt by (auto simp: new_task_def rt_enqueue_def Let_def task_queued_def)
  have sl: "in_slab u (x_rt ?s') \<Longrightarrow> u \<noteq> t \<Longrightarrow> in_slab u (x_rt s)" for u
    using nt v by (auto simp: new_task_def rt_enqueue_def Let_def in_slab_def split: option.splits if_splits)
  have al: "rt_tasks (x_rt ?s') u \<noteq> None \<Longrightarrow> u < rt_task_count (x_rt ?s')" for u
    using nt i(1) [of u] unfolding c by (auto simp: new_task_def rt_enqueue_def Let_def split: if_splits)
  have le: "pend ?s' u \<le> of_bool (task_queued u (x_rt ?s') \<and> u < rt_task_count (x_rt ?s'))" for u
    using i(2) [of u] p0 unfolding p q c by (cases "u = t") (auto simp: t)
  have eq: "in_slab u (x_rt ?s') \<Longrightarrow> pend ?s' u = of_bool (task_queued u (x_rt ?s'))" for u
    using i(3) [of u] sl [of u] p0 unfolding p q by (cases "u = t") auto
  have no: "u \<in> insert t (x_notified s) \<Longrightarrow> in_slab u (x_rt ?s') \<Longrightarrow> pend ?s' u \<noteq> 0 \<or> u \<in> set (x_batch s)" for u
    using i(4) [of u] sl [of u] unfolding p by (cases "u = t") auto
  show ?thesis by (rule notify_invI [OF al le eq]) (use no i(5) in simp_all)
qed

lemma notify_inv_mark:
  assumes inv: "notify_inv s" and pc: "x_pc s = Marking t pc"
  shows "notify_inv (s\<lparr>x_rt := mark_dequeued t (x_rt s), x_pc := pc, x_batch := x_batch s @ [t]\<rparr>)" (is "notify_inv ?s'")
proof -
  note i = notify_invD [OF inv]
  have i5: "marking pc = None" by (rule i(5) [OF pc])
  have p: "pend s u = pend ?s' u + of_bool (u = t)" for u
    using i5 pc by (auto simp: pend_def mark_dequeued_def)
  have p0: "pend ?s' t = 0" using i(2) [of t] p [of t] by (simp add: of_bool_def split: if_splits)
  have q: "task_queued u (x_rt ?s') = (task_queued u (x_rt s) \<and> (u = t \<longrightarrow> rt_tasks (x_rt s) t = None))" for u
    by (simp add: mark_dequeued_queued)
  have sl: "in_slab u (x_rt ?s') = in_slab u (x_rt s)" for u by (simp add: mark_dequeued_def)
  have al: "rt_tasks (x_rt ?s') u \<noteq> None \<Longrightarrow> u < rt_task_count (x_rt ?s')" for u
    using i(1) [of u] by (auto simp: mark_dequeued_def split: if_splits)
  have c: "rt_task_count (x_rt ?s') = rt_task_count (x_rt s)" by (simp add: mark_dequeued_def)
  have le: "pend ?s' u \<le> of_bool (task_queued u (x_rt ?s') \<and> u < rt_task_count (x_rt ?s'))" for u
    using i(2) [of u] p [of u] p0 unfolding q c by (cases "u = t") auto
  have eq: "in_slab u (x_rt ?s') \<Longrightarrow> pend ?s' u = of_bool (task_queued u (x_rt ?s'))" for u
    using i(3) [of u] p [of u] p0 unfolding q sl by (cases "u = t") (auto simp: in_slab_def split: option.splits)
  have no: "u \<in> x_notified ?s' \<Longrightarrow> in_slab u (x_rt ?s') \<Longrightarrow> pend ?s' u \<noteq> 0 \<or> u \<in> set (x_batch ?s')" for u
    using i(4) [of u] p [of u] unfolding sl by (cases "u = t") auto
  show ?thesis by (rule notify_invI [OF al le eq no]) (use i5 in auto)
qed

lemma notify_inv_drop:
  assumes inv: "notify_inv s" and p: "\<And>u. pend s' u + of_bool (u = t) = pend s u" and t: "\<not> in_slab t (x_rt s)"
    and f: "\<And>u. in_slab u (x_rt s') = in_slab u (x_rt s)" "\<And>u. task_queued u (x_rt s') = task_queued u (x_rt s)"
      "\<And>u. rt_tasks (x_rt s') u = None \<longleftrightarrow> rt_tasks (x_rt s) u = None" "rt_task_count (x_rt s') = rt_task_count (x_rt s)"
    and n: "x_notified s' = x_notified s" "x_batch s' = x_batch s"
    and pc: "\<And>t pc. x_pc s' = Marking t pc \<Longrightarrow> marking pc = None"
  shows "notify_inv s'"
proof -
  note i = notify_invD [OF inv]
  have le: "pend s' u \<le> pend s u" and eq: "in_slab u (x_rt s) \<Longrightarrow> pend s' u = pend s u" for u
    using p [of u] t by (cases "u = t"; simp)+
  have le': "pend s' u \<le> of_bool (task_queued u (x_rt s') \<and> u < rt_task_count (x_rt s'))" for u
    unfolding f by (rule order_trans [OF le i(2)])
  show ?thesis
    by (rule notify_invI [OF _ le']; (rule pc)?) (use i(1,3,4) eq in \<open>auto simp: f n\<close>)
qed

lemma notify_inv_take:
  assumes inv: "notify_inv s" and st: "slab_take t (x_rt s) = Some r"
  shows "notify_inv (s\<lparr>x_rt := r, x_polling := None\<rparr>)"
proof -
  have r: "entries r = entries (x_rt s)" "task_queued u r = task_queued u (x_rt s)" "rt_tasks r = rt_tasks (x_rt s)"
    "rt_task_count r = rt_task_count (x_rt s)" "in_slab u r \<Longrightarrow> in_slab u (x_rt s)" for u
    using st by (auto simp: slab_take_def entries_def task_queued_def in_slab_def split: option.splits if_splits)
  have "pend (s\<lparr>x_rt := r, x_polling := None\<rparr>) u = pend s u" for u by (simp add: pend_def r)
  then have p: "pend (s\<lparr>x_rt := r, x_polling := None\<rparr>) = pend s" by (rule ext)
  note i = notify_invD [OF inv]
  show ?thesis
    by (rule notify_invI) (unfold p, use i r(5) in \<open>simp_all add: r\<close>)
qed

lemma enqueue_local_frame:
  assumes "enqueue_local_wake True t s = (handled, r)"
  shows "in_slab u r = in_slab u s" "task_queued u r = task_queued u s" "rt_tasks r = rt_tasks s"
    "rt_task_count r = rt_task_count s" "rt_remote_wake r = rt_remote_wake s" "rt_root_ready r = rt_root_ready s"
    "count_list (entries r) u = count_list (entries s) u + of_bool (handled \<and> in_slab t s \<and> u = t)"
  using assms by (auto simp: enqueue_local_wake_def rt_enqueue_def entries_def task_queued_def split: if_splits)

lemma notify_inv_local:
  assumes inv: "notify_inv s" and l: "x_local s = Some t" and e: "enqueue_local_wake True t (x_rt s) = (handled, r)"
  shows "notify_inv (s\<lparr>x_rt := r, x_local := None, x_threads := (if handled then {#} else {#RPush t#}) + x_threads s\<rparr>)"
    (is "notify_inv ?s'")
proof -
  note f = enqueue_local_frame [OF e]
  have p: "pend ?s' u + of_bool (handled \<and> \<not> in_slab t (x_rt s) \<and> u = t) = pend s u" for u
    using l by (simp add: pend_def f(7))
  have pc: "\<And>t pc. x_pc s = Marking t pc \<Longrightarrow> marking pc = None" using inv unfolding notify_inv_def by auto
  show ?thesis
  proof (cases "handled \<and> \<not> in_slab t (x_rt s)")
    case True
    then have "pend ?s' u + of_bool (u = t) = pend s u" for u using p [of u] by simp
    then show ?thesis by (rule notify_inv_drop [OF inv, where t = t]) (use True pc in \<open>simp_all add: f\<close>)
  next
    case False
    then have "pend ?s' u = pend s u" for u using p [of u] by auto
    then show ?thesis by (rule notify_inv_same [OF inv]) (use pc in \<open>simp_all add: f\<close>)
  qed
qed

lemma count_list_entries:
  "count_list (entries s) t = of_bool (rt_next_task s = Some t) + count_list (rt_queue s) t
     + count_list (rw_queue (rt_remote_wake s)) t"
  by (auto simp: entries_def split: option.split)

lemma runtime_frame [simp]:
  "in_slab t (rw_pop s) = in_slab t s" "in_slab t (queue_pop s) = in_slab t s"
  "rt_tasks (rw_pop s) = rt_tasks s" "rt_tasks (queue_pop s) = rt_tasks s"
  "rt_task_count (rw_pop s) = rt_task_count s" "rt_task_count (queue_pop s) = rt_task_count s"
  by (simp_all add: rw_pop_def queue_pop_def)

lemma notify_inv_step: "exec_step s s' \<Longrightarrow> notify_inv s \<Longrightarrow> notify_inv s'"
proof (induction rule: exec_step.induct)
  case (remote_swap s t was r)
  note f = swap_frame [OF remote_swap(2,1)]
  show ?case
    by (rule notify_inv_swap [OF remote_swap(3,1)])
      (use remote_swap(2) notify_invD(5) [OF remote_swap(3)] in \<open>auto simp: pend_def f(2)\<close>)
next
  case (local_swap s t was r)
  note f = swap_frame [OF local_swap(4,3)]
  show ?case
    by (rule notify_inv_swap [OF local_swap(5,3)])
      (use local_swap notify_invD(5) [OF local_swap(5)] in \<open>auto simp: pend_def f(2)\<close>)
next
  case (local_enqueue s t handled r)
  then show ?case by (intro notify_inv_local)
next
  case (spawn s vacant f t r)
  then show ?case by (intro notify_inv_spawn)
next
  case (other r s)
  note f = queue_view_frame [OF other(1)]
  show ?case
    by (rule notify_inv_same [OF other(2)]) (use notify_invD(5) [OF other(2)] in \<open>simp_all add: pend_def f\<close>)
next
  case (poll s t ts)
  show ?case
    by (rule notify_inv_same [OF poll(5)]) (use notify_invD(5) [OF poll(5)] poll(4) in auto)
next
  case (poll_done s t r)
  then show ?case by (intro notify_inv_take)
next
  case (mark s t pc)
  then show ?case by (intro notify_inv_mark)
next
  case (pop_remote s b t rest)
  show ?case
  proof (cases "in_slab t (x_rt s)")
    case True
    show ?thesis
      by (rule notify_inv_same [OF pop_remote(4)])
        (use pop_remote(1,3) True in \<open>auto simp: pend_def count_list_entries rw_pop_def\<close>)
  next
    case False
    show ?thesis
      by (rule notify_inv_drop [OF pop_remote(4) _ False])
        (use pop_remote(1,3) False in \<open>auto simp: pend_def count_list_entries rw_pop_def\<close>)
  qed
next
  case (pop_queue s b t rest)
  show ?case
    by (rule notify_inv_same [OF pop_queue(4)])
      (use pop_queue(1,3) in \<open>auto simp: pend_def count_list_entries queue_pop_def\<close>)
next
  case (take_next s)
  show ?case
    by (rule notify_inv_same [OF take_next(5)])
      (use take_next(1) in \<open>auto simp: pend_def count_list_entries task_queued_def split: option.splits\<close>)
next
  case (remote_push t s)
  have c: "count (x_threads s) (RPush t) \<noteq> 0" using remote_push(1) by simp
  show ?case
    by (rule notify_inv_same [OF remote_push(2)])
      (use c notify_invD(5) [OF remote_push(2)] in \<open>auto simp: pend_def count_list_entries rw_push_def\<close>)
qed ((rule notify_inv_same, assumption); auto simp: pend_def dest: notify_invD(5) split: if_splits)+

lemma notify_inv_init: "exec_init s \<Longrightarrow> notify_inv s"
  by (rule notify_invI)
    (auto simp: exec_init_def pend_def rt_wf_def entries_ok_def rt_core_def ids_ok_def)

subsection \<open>A parked runtime is woken\<close>

definition signalled :: "('u, 'o) exec_state \<Rightarrow> bool" where
  "signalled s \<longleftrightarrow> RCheck \<in># x_threads s \<or> RSwapPending \<in># x_threads s \<or> RInterrupt \<in># x_threads s
     \<or> rw_interrupts (rt_remote_wake (x_rt s)) \<noteq> 0"

definition waiting_pc :: "run_pc \<Rightarrow> bool" where
  "waiting_pc pc \<longleftrightarrow> pc \<in> {CheckRoot, CheckQueues, Spinning, SpinWoken, ParkedWait, Dispatching, StopWaiting}"

definition batch_pc :: "run_pc \<Rightarrow> bool" where
  "batch_pc pc \<longleftrightarrow> pc = Running \<or> (\<exists>b. pc = Draining b \<or> pc = DrainingQueue b) \<or> (\<exists>t p. pc = Marking t p)"

definition park_inv :: "('u, 'o) exec_state \<Rightarrow> bool" where
  "park_inv s \<longleftrightarrow>
     (let r = rt_remote_wake (x_rt s); pc = x_pc s
      in rw_waiting r = waiting_pc pc
       \<and> (pc \<in> {Flagging, CheckRoot, CheckQueues, Spinning, SpinWoken, ParkedWait} \<longrightarrow> rw_interrupt_pending r
            \<longrightarrow> RInterrupt \<in># x_threads s \<or> rw_interrupts r \<noteq> 0)
       \<and> (pc \<in> {CheckQueues, Spinning, ParkedWait} \<longrightarrow> rt_root_ready (x_rt s) \<longrightarrow> signalled s)
       \<and> (pc \<in> {Spinning, ParkedWait} \<longrightarrow> rw_queue r \<noteq> [] \<longrightarrow> signalled s)
       \<and> (pc \<in> {Spinning, ParkedWait} \<longrightarrow> rt_next_task (x_rt s) = None \<and> rt_queue (x_rt s) = [])
       \<and> (x_local s \<noteq> None \<longrightarrow> pc \<in> {Running, SpinWoken, Dispatching})
       \<and> (x_batch s \<noteq> [] \<longrightarrow> batch_pc pc)
       \<and> (\<forall>t q. pc = Marking t q \<longrightarrow> (\<exists>b. q = Draining b \<or> q = DrainingQueue b)))"

lemmas park_defs = park_inv_def Let_def signalled_def waiting_pc_def batch_pc_def

lemma in_diff_other [simp]: "x \<noteq> y \<Longrightarrow> x \<in># M - {#y#} \<longleftrightarrow> x \<in># M"
  by (simp flip: count_greater_zero_iff)

lemma park_inv_init: "exec_init s \<Longrightarrow> park_inv s"
  by (auto simp: exec_init_def park_defs)

lemma park_inv_step: "exec_step s s' \<Longrightarrow> park_inv s \<Longrightarrow> park_inv s'"
proof (induction rule: exec_step.induct)
  case (remote_swap s t was r)
  note f = swap_frame [OF remote_swap(2,1)]
  show ?case using remote_swap(3) by (cases "x_pc s"; simp add: park_defs f)
next
  case (local_swap s t was r)
  note f = swap_frame [OF local_swap(4,3)]
  show ?case using local_swap(1,2,5) by (cases "x_pc s"; simp add: park_defs f user_pc_def woken_pc_def)
next
  case (local_enqueue s t handled r)
  note f = enqueue_local_frame [OF local_enqueue(2)]
  show ?case using local_enqueue(1,3) by (cases "x_pc s"; simp add: park_defs f)
next
  case (spawn s vacant f t r)
  have f: "rt_remote_wake (rt_enqueue t r) = rt_remote_wake (x_rt s)" "rt_root_ready (rt_enqueue t r) = rt_root_ready (x_rt s)"
    using spawn(4) by (auto simp: new_task_def rt_enqueue_def Let_def)
  show ?case using spawn(1,2,5) by (cases "x_pc s"; simp add: park_defs f user_pc_def woken_pc_def)
next
  case (other r s)
  then show ?case by (auto simp: park_defs queue_view_def)
next
  case (poll_done s t r)
  then show ?case by (auto simp: park_defs slab_take_def split: option.splits if_splits)
next
  case (take_next s)
  then show ?case by (auto simp: park_defs split: option.splits)
next
  case (mark s t pc)
  then show ?case by (auto simp: park_defs mark_dequeued_def)
next
  case (check_queues s)
  then show ?case by (auto simp: park_defs should_skip_wait_def)
next
  case (remote_root s)
  then show ?case by (cases "x_pc s"; simp add: park_defs)
next
  case (remote_push t s)
  then show ?case by (cases "x_pc s"; simp add: park_defs rw_push_def)
next
  case (remote_check s)
  then show ?case by (cases "x_pc s"; simp add: park_defs)
next
  case (remote_pending s)
  then show ?case by (cases "x_pc s"; simp add: park_defs)
next
  case (remote_interrupt s)
  then show ?case by (cases "x_pc s"; simp add: park_defs)
next
  case (local_root s)
  then show ?case by (cases "x_pc s"; simp add: park_defs user_pc_def woken_pc_def)
qed (simp_all add: park_defs rw_pop_def queue_pop_def)

interpretation exec_system: transition_system exec_init exec_step "\<lambda>s. notify_inv s \<and> park_inv s"
  by unfold_locales (auto intro: notify_inv_init park_inv_init notify_inv_step park_inv_step)

end
