(* ===== verification/Executor_Runs.thy ===== *)
theory Executor_Runs
  imports Executor_Wake
begin

section \<open>What the interleaving guarantees (vibeio/executor.rs, vibeio/task.rs)\<close>

text \<open>
  The operations of \<open>Executor\<close> are runs of the steps of \<open>Executor_Wake\<close>: filling a batch, and a wake from
  another thread from its swap to its interrupt. Every run from a well-formed runtime keeps the wakes
  and wakes a parked loop. The last part looks at the one store the steps take as sequentially
  consistent without a fence, \<open>mark_dequeued\<close>, under store buffering.
\<close>

subsection \<open>The operations of the runtime as runs of steps\<close>

lemma step_eq:
  assumes "exec_step s a" "x_rt b = x_rt a" "x_pc b = x_pc a" "x_local b = x_local a" "x_threads b = x_threads a"
    "x_batch b = x_batch a" "x_polling b = x_polling a" "x_notified b = x_notified a"
  shows "exec_step s b"
proof -
  have "b = a" by (rule exec_state.equality) (use assms in simp_all)
  then show ?thesis using assms(1) by simp
qed

lemma drain_remote_run:
  "x_pc s = Draining b \<Longrightarrow> drain_remote b (x_rt s) = (ts, b', r)
    \<Longrightarrow> exec_step\<^sup>*\<^sup>* s (s\<lparr>x_rt := r, x_pc := DrainingQueue b', x_batch := x_batch s @ ts\<rparr>)"
proof (induction b "x_rt s" arbitrary: s ts b' r rule: drain_remote.induct)
  case (1 b)
  note d = 1(4) [unfolded drain_remote.simps [of b "x_rt s"]]
  show ?case
  proof (cases "b = 0 \<or> rw_queue (rt_remote_wake (x_rt s)) = []")
    case True
    then have "ts = []" "b' = b" "r = x_rt s" using d by (auto split: if_splits)
    then show ?thesis
      by (intro r_into_rtranclp step_eq [OF exec_step.remote_drained [OF 1(3) True]]) simp_all
  next
    case False
    then obtain t rest where q: "rw_queue (rt_remote_wake (x_rt s)) = t # rest" and b: "b \<noteq> 0"
      by (auto simp: neq_Nil_conv)
    have pop: "exec_step s (s\<lparr>x_rt := rw_pop (x_rt s),
         x_pc := (if in_slab t (x_rt s) then Marking t (Draining (b - 1)) else Draining b)\<rparr>)" (is "exec_step s ?s1")
      by (rule exec_step.pop_remote [OF 1(3) b q])
    show ?thesis
    proof (cases "in_slab t (x_rt s)")
      case True
      let ?s2 = "s\<lparr>x_rt := mark_dequeued t (rw_pop (x_rt s)), x_pc := Draining (b - 1), x_batch := x_batch s @ [t]\<rparr>"
      have mark: "exec_step ?s1 ?s2" using exec_step.mark [of ?s1 t "Draining (b - 1)"] True by simp
      obtain ts1 where ts: "ts = t # ts1" and rec: "drain_remote (b - 1) (x_rt ?s2) = (ts1, b', r)"
        using d q b True by (auto split: prod.splits)
      have "exec_step\<^sup>*\<^sup>* ?s2 (?s2\<lparr>x_rt := r, x_pc := DrainingQueue b', x_batch := x_batch ?s2 @ ts1\<rparr>)"
        by (rule 1(1) [OF b q HOL.refl]) (use True rec in simp_all)
      then show ?thesis using pop mark ts by (simp add: converse_rtranclp_into_rtranclp)
    next
      case False
      have rec: "drain_remote b (x_rt ?s1) = (ts, b', r)" using d q b False by simp
      have "exec_step\<^sup>*\<^sup>* ?s1 (?s1\<lparr>x_rt := r, x_pc := DrainingQueue b', x_batch := x_batch ?s1 @ ts\<rparr>)"
        by (rule 1(2) [OF b q]) (use False rec in simp_all)
      then show ?thesis using pop by (simp add: converse_rtranclp_into_rtranclp)
    qed
  qed
qed

lemma drain_queue_run:
  "x_pc s = DrainingQueue b \<Longrightarrow> drain_queue b (x_rt s) = (ts, r)
    \<Longrightarrow> exec_step\<^sup>*\<^sup>* s (s\<lparr>x_rt := r, x_pc := (if x_batch s @ ts = [] then Idle else Running), x_batch := x_batch s @ ts\<rparr>)"
proof (induction b "x_rt s" arbitrary: s ts r rule: drain_queue.induct)
  case (1 b)
  note d = 1(3) [unfolded drain_queue.simps [of b]]
  show ?case
  proof (cases "b = 0 \<or> rt_queue (x_rt s) = []")
    case True
    then have "ts = []" "r = x_rt s" using d by (auto split: if_splits)
    then show ?thesis
      by (intro r_into_rtranclp step_eq [OF exec_step.queue_drained [OF 1(2) True]]) simp_all
  next
    case False
    then obtain t rest where q: "rt_queue (x_rt s) = t # rest" and b: "b \<noteq> 0" by (auto simp: neq_Nil_conv)
    let ?s1 = "s\<lparr>x_rt := queue_pop (x_rt s), x_pc := Marking t (DrainingQueue (b - 1))\<rparr>"
    let ?s2 = "s\<lparr>x_rt := mark_dequeued t (queue_pop (x_rt s)), x_pc := DrainingQueue (b - 1), x_batch := x_batch s @ [t]\<rparr>"
    have steps: "exec_step s ?s1" "exec_step ?s1 ?s2"
      using exec_step.pop_queue [OF 1(2) b q] exec_step.mark [of ?s1 t "DrainingQueue (b - 1)"] by simp_all
    obtain ts1 where ts: "ts = t # ts1" and rec: "drain_queue (b - 1) (x_rt ?s2) = (ts1, r)"
      using d q b by (auto split: prod.splits)
    have "exec_step\<^sup>*\<^sup>* ?s2 (?s2\<lparr>x_rt := r, x_pc := (if x_batch ?s2 @ ts1 = [] then Idle else Running), x_batch := x_batch ?s2 @ ts1\<rparr>)"
      by (rule 1(1) [OF b q]) (use rec in simp_all)
    then show ?thesis using steps ts by (simp add: converse_rtranclp_into_rtranclp)
  qed
qed

lemma fill_batch_run:
  assumes "x_pc s = Running" "x_local s = None" "x_polling s = None" "x_batch s = []" and f: "fill_batch (x_rt s) = (ts, r)"
  shows "exec_step\<^sup>*\<^sup>* s (s\<lparr>x_rt := r, x_pc := (if ts = [] then Idle else Running), x_batch := ts\<rparr>)"
proof -
  obtain first r1 where t: "take_next_task (x_rt s) = (first, r1)" by fastforce
  define b where "b = task_batch_size - (case first of None \<Rightarrow> 0 | Some _ \<Rightarrow> 1)"
  let ?s1 = "s\<lparr>x_rt := r1, x_pc := Draining b, x_batch := (case first of None \<Rightarrow> [] | Some t \<Rightarrow> [t])\<rparr>"
  note tn = exec_step.take_next [OF assms(1-4)]
  have "exec_step\<^sup>*\<^sup>* s ?s1"
  proof (cases "rt_next_task (x_rt s)")
    case None
    then have e: "first = None" "r1 = (x_rt s)\<lparr>rt_next_task := None\<rparr>" using t by (simp_all add: take_next_task_def)
    show ?thesis by (intro r_into_rtranclp step_eq [OF tn]) (use None assms(4) in \<open>simp_all add: b_def e\<close>)
  next
    case (Some t')
    then have e: "first = Some t'" "r1 = mark_dequeued t' ((x_rt s)\<lparr>rt_next_task := None\<rparr>)"
      using t by (auto simp: take_next_task_def)
    let ?s0 = "s\<lparr>x_rt := (x_rt s)\<lparr>rt_next_task := None\<rparr>, x_pc := Marking t' (Draining b)\<rparr>"
    have "exec_step s ?s0" using tn Some by (simp add: b_def e(1))
    moreover have "exec_step ?s0 ?s1" using exec_step.mark [of ?s0 t' "Draining b"] assms(4) by (simp add: e)
    ultimately show ?thesis by (simp add: converse_rtranclp_into_rtranclp)
  qed
  moreover obtain t1 b1 r2 where dr: "drain_remote b r1 = (t1, b1, r2)" using prod_cases3 by blast
  obtain t2 r3 where dq: "drain_queue b1 r2 = (t2, r3)" by fastforce
  let ?s2 = "?s1\<lparr>x_rt := r2, x_pc := DrainingQueue b1, x_batch := x_batch ?s1 @ t1\<rparr>"
  have res: "ts = x_batch ?s2 @ t2 \<and> r = r3"
    using f t dr dq by (auto simp: fill_batch_def drain_ready_with_def b_def Let_def split: option.splits)
  have "exec_step\<^sup>*\<^sup>* ?s1 ?s2" by (rule drain_remote_run) (simp, simp, rule dr)
  moreover have "exec_step\<^sup>*\<^sup>* ?s2 (?s2\<lparr>x_rt := r3, x_pc := (if x_batch ?s2 @ t2 = [] then Idle else Running), x_batch := x_batch ?s2 @ t2\<rparr>)"
    by (rule drain_queue_run) (simp, simp, rule dq)
  ultimately show ?thesis using res by simp
qed

lemma remote_wake_run:
  assumes t: "rt_tasks (x_rt s) t \<noteq> None" and live: "rt_remote_live (x_rt s)"
  shows "exec_step\<^sup>*\<^sup>* s (s\<lparr>x_rt := enqueue_if_needed False t (x_rt s), x_notified := insert t (x_notified s)\<rparr>)"
proof -
  obtain was r where sw: "swap_queued t (x_rt s) = (was, r)" by fastforce
  have lr: "rt_remote_live r" using sw live by (auto simp: swap_queued_def)
  define q where "q = (if was then r else set_remote (rw_push t) r)"
  let ?at = "\<lambda>r c. s\<lparr>x_rt := r, x_threads := c + x_threads s, x_notified := insert t (x_notified s)\<rparr>"
  have 1: "exec_step s (?at r {#if was then RCheck else RPush t#})"
    using exec_step.remote_swap [OF t sw] by simp
  have 2: "exec_step\<^sup>*\<^sup>* (?at r {#if was then RCheck else RPush t#}) (?at q {#RCheck#})"
  proof (cases was)
    case False
    show ?thesis
      by (intro r_into_rtranclp step_eq [OF exec_step.remote_push [of t]]) (use False in \<open>simp_all add: q_def\<close>)
  qed (simp add: q_def)
  let ?w = "rw_waiting (rt_remote_wake q)" and ?i = "rw_interrupt_pending (rt_remote_wake q)"
  have 3: "exec_step (?at q {#RCheck#}) (?at q (if ?w then {#RSwapPending#} else {#}))"
    by (rule step_eq [OF exec_step.remote_check]) simp_all
  let ?q2 = "set_remote (\<lambda>r. r\<lparr>rw_interrupt_pending := True\<rparr>) q"
  let ?q3 = "set_remote (\<lambda>r. r\<lparr>rw_interrupts := Suc (rw_interrupts r)\<rparr>) ?q2"
  have 4: "exec_step (?at q {#RSwapPending#}) (?at ?q2 (if ?i then {#} else {#RInterrupt#}))"
    by (rule step_eq [OF exec_step.remote_pending]) simp_all
  have 5: "exec_step (?at ?q2 {#RInterrupt#}) (?at ?q3 {#})"
    by (rule step_eq [OF exec_step.remote_interrupt]) simp_all
  have end_q: "enqueue_if_needed False t (x_rt s) = q\<lparr>rt_remote_wake := rw_signal (rt_remote_wake q)\<rparr>"
    using sw lr by (simp add: enqueue_if_needed_def enqueue_local_wake_def q_def set_remote_def)
  have 6: "exec_step\<^sup>*\<^sup>* (?at q (if ?w then {#RSwapPending#} else {#})) (?at (enqueue_if_needed False t (x_rt s)) {#})"
  proof (cases "?w \<and> \<not> ?i")
    case True
    then have "enqueue_if_needed False t (x_rt s) = ?q3" by (simp add: end_q rw_signal_def set_remote_def)
    then show ?thesis using True 4 5 by (simp add: converse_rtranclp_into_rtranclp)
  next
    case False
    have e: "enqueue_if_needed False t (x_rt s) = q" using False by (simp add: end_q rw_signal_def)
    have "?i \<Longrightarrow> ?q2 = q" by (simp add: set_remote_def)
    then show ?thesis using False 4 by (auto simp: e intro: r_into_rtranclp)
  qed
  have "?at (enqueue_if_needed False t (x_rt s)) {#}
      = s\<lparr>x_rt := enqueue_if_needed False t (x_rt s), x_notified := insert t (x_notified s)\<rparr>"
    by (rule exec_state.equality) simp_all
  then show ?thesis
    using converse_rtranclp_into_rtranclp [OF 1 rtranclp_trans [OF 2 converse_rtranclp_into_rtranclp [OF 3 6]]] by simp
qed

lemma park_run:
  assumes "x_pc s = Idle" "\<not> rt_root_ready (x_rt s)"
  shows "exec_step\<^sup>*\<^sup>* s (s\<lparr>x_rt := set_waiting (x_rt s), x_pc := CheckRoot\<rparr>)"
proof -
  let ?r = "set_remote (\<lambda>r. r\<lparr>rw_interrupt_pending := False\<rparr>) (x_rt s)"
  have "exec_step s (s\<lparr>x_pc := Clearing\<rparr>)" using exec_step.idle [OF assms(1)] assms(2) by simp
  moreover have "exec_step (s\<lparr>x_pc := Clearing\<rparr>) (s\<lparr>x_rt := ?r, x_pc := Flagging\<rparr>)"
    by (rule step_eq [OF exec_step.clear_pending]) simp_all
  moreover have "exec_step (s\<lparr>x_rt := ?r, x_pc := Flagging\<rparr>) (s\<lparr>x_rt := set_waiting (x_rt s), x_pc := CheckRoot\<rparr>)"
    by (rule step_eq [OF exec_step.set_waiting]) (simp_all add: set_remote_def set_waiting_def)
  ultimately show ?thesis by (meson converse_rtranclp_into_rtranclp rtranclp.rtrancl_refl)
qed

lemma stop_run:
  assumes "x_pc s = StopWaiting"
  shows "exec_step\<^sup>*\<^sup>* s (s\<lparr>x_rt := stop_waiting (x_rt s), x_pc := Running\<rparr>)"
proof -
  let ?s = "s\<lparr>x_rt := set_remote (\<lambda>r. r\<lparr>rw_waiting := False\<rparr>) (x_rt s), x_pc := StopPending\<rparr>"
  have "exec_step s ?s" by (rule exec_step.stop_waiting [OF assms])
  moreover have "exec_step ?s (s\<lparr>x_rt := stop_waiting (x_rt s), x_pc := Running\<rparr>)"
    by (rule step_eq [OF exec_step.stop_pending]) (simp_all add: set_remote_def stop_waiting_def)
  ultimately show ?thesis by (meson converse_rtranclp_into_rtranclp rtranclp.rtrancl_refl)
qed

subsection \<open>Properties\<close>

text \<open>A task entered on a thread of its own: the runtime of the examples, about to fill its batch.\<close>

definition demo_exec :: "(string, nat) exec_state" where
  "demo_exec = \<lparr>x_rt = demo_runtime\<lparr>rt_current := ThisRuntime\<rparr>, x_pc = Running, x_local = None, x_threads = {#},
     x_batch = [], x_polling = None, x_notified = {}\<rparr>"

lemma demo_exec_init: "exec_init demo_exec"
proof -
  have "rt_wf (demo_runtime\<lparr>rt_current := ThisRuntime\<rparr>)" using demo_runtime_wf by (simp add: wf_frame)
  then show ?thesis by (simp add: demo_exec_def exec_init_def demo_runtime_eq remote_wake_new_def)
qed

text \<open>C2. No wake is lost. However the runtime's thread and the threads that wake its tasks interleave, a live
  task woken or spawned since its last poll began is in the batch being polled, among the ready entries,
  or on its way there: popped and about to be marked, or in a wake that has set the flag and not yet
  pushed. And it is there once: two wakes never queue a task twice.
\<close>

theorem no_wake_lost:
  assumes "exec_init s0" "exec_step\<^sup>*\<^sup>* s0 s" "t \<in> x_notified s" "in_slab t (x_rt s)"
  shows "(t \<in> set (x_batch s) \<or> t \<in> set (entries (x_rt s)) \<or> RPush t \<in># x_threads s \<or> x_local s = Some t
          \<or> (\<exists>pc. x_pc s = Marking t pc))
     \<and> count_list (entries (x_rt s)) t + count (x_threads s) (RPush t) + of_bool (x_local s = Some t)
         + of_bool (\<exists>pc. x_pc s = Marking t pc) = (of_bool (task_queued t (x_rt s)) :: nat)"
proof -
  have inv: "notify_inv s" using exec_system.inv_reachable [OF assms(1,2)] by simp
  have m: "marking (x_pc s) = Some t \<longleftrightarrow> (\<exists>pc. x_pc s = Marking t pc)" by (cases "x_pc s") auto
  have "pend s t = of_bool (task_queued t (x_rt s))" "pend s t \<noteq> 0 \<or> t \<in> set (x_batch s)"
    using notify_invD(3,4) [OF inv] assms(3,4) by blast+
  moreover have "t \<in> set (entries (x_rt s)) \<longleftrightarrow> count_list (entries (x_rt s)) t \<noteq> 0" by (simp add: count_list_0_iff)
  ultimately show ?thesis by (auto simp: pend_def m not_in_iff of_bool_def split: if_splits)
qed

lemma drain_empty:
  "rw_queue (rt_remote_wake s) = [] \<Longrightarrow> drain_remote b s = ([], b, s)"
  "rt_queue s = [] \<Longrightarrow> drain_queue b s = ([], s)"
  by (simp_all add: drain_remote.simps [of b s] drain_queue.simps [of b s])

lemma demo_fill:
  "fill_batch (x_rt demo_exec) = ([0], mark_dequeued 0 (queue_pop (x_rt demo_exec)))"
proof -
  have n: "(x_rt demo_exec)\<lparr>rt_next_task := None\<rparr> = x_rt demo_exec" by (simp add: demo_exec_def demo_runtime_eq)
  have r: "drain_remote 256 (x_rt demo_exec) = ([], 256, x_rt demo_exec)"
    by (rule drain_empty) (simp add: demo_exec_def demo_runtime_eq remote_wake_new_def)
  have q: "drain_queue 256 (x_rt demo_exec) = ([0], mark_dequeued 0 (queue_pop (x_rt demo_exec)))"
  proof -
    have "rt_queue (x_rt demo_exec) = [0]" by (simp add: demo_exec_def demo_runtime_eq)
    then show ?thesis
      by (simp add: drain_queue.simps [of 256 "x_rt demo_exec"] drain_empty(2) queue_pop_def)
  qed
  have "rt_next_task (x_rt demo_exec) = None" by (simp add: demo_exec_def demo_runtime_eq)
  then show ?thesis by (simp add: fill_batch_def take_next_task_def drain_ready_with_def task_batch_size_def n r q)
qed

theorem no_wake_lost_witness:
  "\<exists>s. exec_step\<^sup>*\<^sup>* demo_exec s \<and> x_batch s = [0] \<and> x_notified s = {0} \<and> in_slab 0 (x_rt s) \<and> count (x_threads s) (RPush 0) = 1
     \<and> 0 \<notin> set (entries (x_rt s))"
proof -
  let ?r = "mark_dequeued 0 (queue_pop (x_rt demo_exec))"
  let ?s = "demo_exec\<lparr>x_rt := ?r, x_batch := [0]\<rparr>"
  obtain was q where sw: "swap_queued 0 ?r = (was, q)" by fastforce
  have t: "rt_tasks ?r 0 \<noteq> None" "\<not> task_queued 0 ?r" "in_slab 0 ?r" "entries ?r = []"
    by (simp_all add: task_queued_def mark_dequeued_def in_slab_def demo_exec_def demo_runtime_eq queue_pop_def entries_def
        remote_wake_new_def)
  note f = swap_frame [OF sw t(1)]
  let ?s' = "?s\<lparr>x_rt := q, x_threads := {#RPush 0#}, x_notified := {0}\<rparr>"
  have "exec_step\<^sup>*\<^sup>* demo_exec ?s"
    using fill_batch_run [OF _ _ _ _ demo_fill] by (simp add: demo_exec_def)
  moreover have "exec_step ?s ?s'"
    by (rule step_eq [OF exec_step.remote_swap [of ?s 0 was q]]) (use t sw f(1) in \<open>simp_all add: demo_exec_def\<close>)
  ultimately have run: "exec_step\<^sup>*\<^sup>* demo_exec ?s'" by (rule rtranclp.rtrancl_into_rtrancl)
  have sl: "in_slab 0 (x_rt ?s')" using t(3) f(3) by simp
  have "count_list (entries (x_rt ?s')) 0 + count (x_threads ?s') (RPush 0) \<le> 1"
    using no_wake_lost [OF demo_exec_init run _ sl] by (simp add: of_bool_def split: if_splits)
  then have "0 \<notin> set (entries (x_rt ?s'))" by (simp add: count_list_0_iff)
  then show ?thesis using run sl by (intro exI [of _ ?s']) simp
qed

text \<open>C5. A parked runtime is woken. Whenever the loop sleeps in the driver while its root future was notified
  or a live task was woken, and no wake is still in progress on another thread, the driver has an
  interrupt pending: the loop does not sleep over work.
\<close>

theorem parked_runtime_is_interrupted:
  assumes "exec_init s0" "exec_step\<^sup>*\<^sup>* s0 s" "x_pc s = ParkedWait" "x_threads s = {#}"
    and "rt_root_ready (x_rt s) \<or> (\<exists>t \<in> x_notified s. in_slab t (x_rt s))"
  shows "rw_interrupts (rt_remote_wake (x_rt s)) \<noteq> 0"
proof -
  have inv: "notify_inv s" "park_inv s" using exec_system.inv_reachable [OF assms(1,2)] by simp_all
  have p: "rw_queue (rt_remote_wake (x_rt s)) \<noteq> [] \<or> rt_root_ready (x_rt s)
      \<Longrightarrow> rw_interrupts (rt_remote_wake (x_rt s)) \<noteq> 0"
    "rt_next_task (x_rt s) = None" "rt_queue (x_rt s) = []" "x_local s = None" "x_batch s = []"
    using inv(2) assms(3,4) by (auto simp: park_defs)
  show ?thesis
  proof (cases "rt_root_ready (x_rt s)")
    case False
    then obtain t where t: "t \<in> x_notified s" "in_slab t (x_rt s)" using assms(5) by blast
    have "pend s t \<noteq> 0" using notify_invD(4) [OF inv(1) t] p(5) by simp
    then have "rw_queue (rt_remote_wake (x_rt s)) \<noteq> []" using p(2-4) assms(3,4) by (auto simp: pend_def entries_def)
    then show ?thesis using p(1) by simp
  next
    case True
    then show ?thesis using p(1) by simp
  qed
qed

definition demo_idle :: "run_pc \<Rightarrow> bool \<Rightarrow> remote_wake \<Rightarrow> wake_pc multiset \<Rightarrow> (string, nat) exec_state" where
  "demo_idle pc root r threads =
     \<lparr>x_rt = (runtime_with_options False ThisRuntime)\<lparr>rt_root_ready := root, rt_remote_wake := r\<rparr>, x_pc = pc, x_local = None,
      x_threads = threads, x_batch = [], x_polling = None, x_notified = {}\<rparr>"

lemma demo_idle_fill:
  "fill_batch (x_rt (demo_idle pc root remote_wake_new threads)) = ([], x_rt (demo_idle pc root remote_wake_new threads))"
  (is "fill_batch ?r = _")
proof -
  have e: "?r\<lparr>rt_next_task := None\<rparr> = ?r" "rt_next_task ?r = None" "rw_queue (rt_remote_wake ?r) = []" "rt_queue ?r = []"
    by (simp_all add: demo_idle_def runtime_with_options_def remote_wake_new_def)
  have "drain_remote 256 ?r = ([], 256, ?r)" "drain_queue 256 ?r = ([], ?r)"
    by (rule drain_empty, rule e)+
  then show ?thesis by (simp add: e(1,2) fill_batch_def take_next_task_def drain_ready_with_def task_batch_size_def)
qed

lemma demo_idle_parks:
  defines "w \<equiv> remote_wake_new\<lparr>rw_waiting := True\<rparr>"
  shows "exec_step\<^sup>*\<^sup>* (demo_idle Running True remote_wake_new {#}) (demo_idle ParkedWait False w {#})"
proof -
  note d = demo_idle_def runtime_with_options_def w_def
  have 1: "exec_step (demo_idle Running True remote_wake_new {#}) (demo_idle Running False remote_wake_new {#})"
    by (rule step_eq [OF exec_step.root_polled]) (simp_all add: d)
  have 2: "exec_step\<^sup>*\<^sup>* (demo_idle Running False remote_wake_new {#}) (demo_idle Idle False remote_wake_new {#})"
    using fill_batch_run [OF _ _ _ _ demo_idle_fill] by (simp add: d)
  have 3: "exec_step\<^sup>*\<^sup>* (demo_idle Idle False remote_wake_new {#}) (demo_idle CheckRoot False w {#})"
    using park_run [of "demo_idle Idle False remote_wake_new {#}"] by (simp add: d set_waiting_def remote_wake_new_def)
  have 4: "exec_step (demo_idle CheckRoot False w {#}) (demo_idle CheckQueues False w {#})"
    by (rule step_eq [OF exec_step.check_root]) (simp_all add: d)
  have 5: "exec_step (demo_idle CheckQueues False w {#}) (demo_idle Spinning False w {#})"
    by (rule step_eq [OF exec_step.check_queues]) (simp_all add: d should_skip_wait_def remote_wake_new_def)
  have 6: "exec_step (demo_idle Spinning False w {#}) (demo_idle ParkedWait False w {#})"
    by (rule step_eq [OF exec_step.park]) (simp_all add: d)
  have "exec_step\<^sup>*\<^sup>* (demo_idle Running False remote_wake_new {#}) (demo_idle CheckRoot False w {#})"
    by (rule rtranclp_trans [OF 2 3])
  then show ?thesis using 1 4 5 6 by (meson converse_rtranclp_into_rtranclp rtranclp.rtrancl_into_rtrancl)
qed

theorem parked_runtime_is_interrupted_witness:
  "\<exists>s. exec_step\<^sup>*\<^sup>* (demo_idle Running True remote_wake_new {#}) s \<and> x_pc s = ParkedWait \<and> x_threads s = {#}
     \<and> rt_root_ready (x_rt s) \<and> rw_interrupts (rt_remote_wake (x_rt s)) \<noteq> 0"
proof -
  let ?w = "remote_wake_new\<lparr>rw_waiting := True\<rparr>"
  let ?i = "remote_wake_new\<lparr>rw_waiting := True, rw_interrupt_pending := True\<rparr>"
  let ?s = "demo_idle ParkedWait True (?i\<lparr>rw_interrupts := 1\<rparr>) {#}"
  note d = demo_idle_def runtime_with_options_def remote_wake_new_def
  have 1: "exec_step (demo_idle ParkedWait False ?w {#}) (demo_idle ParkedWait True ?w {#RCheck#})"
    by (rule step_eq [OF exec_step.remote_root]) (simp_all add: d)
  have 2: "exec_step (demo_idle ParkedWait True ?w {#RCheck#}) (demo_idle ParkedWait True ?w {#RSwapPending#})"
    by (rule step_eq [OF exec_step.remote_check]) (simp_all add: d)
  have 3: "exec_step (demo_idle ParkedWait True ?w {#RSwapPending#}) (demo_idle ParkedWait True ?i {#RInterrupt#})"
    by (rule step_eq [OF exec_step.remote_pending]) (simp_all add: d set_remote_def)
  have 4: "exec_step (demo_idle ParkedWait True ?i {#RInterrupt#}) ?s"
    by (rule step_eq [OF exec_step.remote_interrupt]) (simp_all add: d set_remote_def)
  have run: "exec_step\<^sup>*\<^sup>* (demo_idle Running True remote_wake_new {#}) ?s"
    using demo_idle_parks 1 2 3 4 by (meson rtranclp.rtrancl_into_rtrancl)
  have init: "exec_init (demo_idle Running True remote_wake_new {#})"
  proof -
    have "x_rt (demo_idle Running True remote_wake_new {#}) = (runtime_with_options False NoRuntime)\<lparr>rt_current := ThisRuntime\<rparr>"
      by (simp add: d)
    moreover have "rt_wf ((runtime_with_options False NoRuntime)\<lparr>rt_current := ThisRuntime\<rparr>)"
      by (simp add: wf_frame runtime_new_wf)
    ultimately show ?thesis by (simp add: exec_init_def) (simp add: d)
  qed
  have "rw_interrupts (rt_remote_wake (x_rt ?s)) \<noteq> 0"
    by (rule parked_runtime_is_interrupted [OF init run]) (simp_all add: d)
  then show ?thesis using run by (intro exI [of _ ?s]) (simp add: d)
qed

subsection \<open>The store of mark_dequeued under store buffering\<close>

text \<open>
  \<open>mark_dequeued\<close> stores \<open>false\<close> with \<open>Ordering::Relaxed\<close>, and for a task popped from the local queue no
  fence or read-modify-write follows before its future is polled (\<open>waker_ref\<close> takes no reference). So
  the store may still be in the runtime thread's store buffer while the poll reads the memory other
  threads write. The model follows one popped task: the memory's \<open>queued\<close>, the buffered stores of the
  runtime's thread to it, what the future waits for (\<open>bm_ready\<close>), the task's ready entries, and a thread
  that publishes and wakes. Its \<open>swap\<close> acts on memory, as a read-modify-write does. \<open>buffered = False\<close> is
  the same program with the dequeue as a read-modify-write.
\<close>

datatype poll_pc = PMark | PPoll | PReturned bool

datatype publish_pc = WPublish | WSwap | WPush | WReturned

record wake_memory =
  bm_queued :: bool
  bm_buffer :: "bool list"
  bm_ready :: bool
  bm_entries :: nat
  bm_poll :: poll_pc
  bm_waker :: publish_pc

inductive memory_step :: "bool \<Rightarrow> wake_memory \<Rightarrow> wake_memory \<Rightarrow> bool" for buffered where
  mem_mark: "bm_poll m = PMark
    \<Longrightarrow> memory_step buffered m (if buffered then m\<lparr>bm_buffer := bm_buffer m @ [False], bm_poll := PPoll\<rparr>
                              else m\<lparr>bm_queued := False, bm_poll := PPoll\<rparr>)"
| mem_flush: "bm_buffer m = b # bs \<Longrightarrow> memory_step buffered m (m\<lparr>bm_queued := b, bm_buffer := bs\<rparr>)"
| mem_poll: "bm_poll m = PPoll \<Longrightarrow> memory_step buffered m (m\<lparr>bm_poll := PReturned (bm_ready m)\<rparr>)"
| mem_publish: "bm_waker m = WPublish \<Longrightarrow> memory_step buffered m (m\<lparr>bm_ready := True, bm_waker := WSwap\<rparr>)"
| mem_swap: "bm_waker m = WSwap
    \<Longrightarrow> memory_step buffered m (m\<lparr>bm_queued := True, bm_waker := (if bm_queued m then WReturned else WPush)\<rparr>)"
| mem_push: "bm_waker m = WPush \<Longrightarrow> memory_step buffered m (m\<lparr>bm_entries := Suc (bm_entries m), bm_waker := WReturned\<rparr>)"

definition memory_init :: wake_memory where
  "memory_init = \<lparr>bm_queued = True, bm_buffer = [], bm_ready = False, bm_entries = 0, bm_poll = PMark, bm_waker = WPublish\<rparr>"

text \<open>The wake is lost: the future returned pending before the publication, and nothing will poll it again.\<close>

definition wake_lost :: "wake_memory \<Rightarrow> bool" where
  "wake_lost m \<longleftrightarrow> bm_poll m = PReturned False \<and> bm_waker m = WReturned \<and> bm_ready m \<and> bm_buffer m = [] \<and> bm_entries m = 0"

definition ordered_inv :: "wake_memory \<Rightarrow> bool" where
  "ordered_inv m \<longleftrightarrow> bm_buffer m = [] \<and> (bm_poll m = PMark \<longrightarrow> bm_queued m)
     \<and> (bm_poll m = PReturned False \<longrightarrow> bm_waker m = WReturned \<longrightarrow> bm_entries m \<noteq> 0)
     \<and> (bm_poll m = PPoll \<longrightarrow> bm_waker m = WReturned \<longrightarrow> bm_ready m)
     \<and> (bm_waker m \<in> {WPublish, WSwap} \<longrightarrow> bm_poll m \<noteq> PMark \<longrightarrow> \<not> bm_queued m)
     \<and> (bm_waker m = WPublish \<longleftrightarrow> \<not> bm_ready m)"

lemma ordered_inv_step: "memory_step False m m' \<Longrightarrow> ordered_inv m \<Longrightarrow> ordered_inv m'"
  by (induction rule: memory_step.induct) (auto simp: ordered_inv_def)

interpretation ordered_system: transition_system "\<lambda>m. m = memory_init" "memory_step False" ordered_inv
  by unfold_locales (simp add: ordered_inv_def memory_init_def, rule ordered_inv_step)

text \<open>C40. The relaxed dequeue can lose a wake. With the store of \<open>mark_dequeued\<close> buffered past the poll, there is
  a run in which another thread publishes, finds the flag still set and pushes nothing, while the poll
  had already read the old value: the future is pending, nothing is queued for it, and the flag ends
  clear. With the dequeue as a read-modify-write no run of the same program loses the wake.
\<close>

theorem relaxed_dequeue_loses_wake:
  "(\<exists>m. (memory_step True)\<^sup>*\<^sup>* memory_init m \<and> wake_lost m \<and> \<not> bm_queued m)
     \<and> (\<nexists>m. (memory_step False)\<^sup>*\<^sup>* memory_init m \<and> wake_lost m)"
proof
  let ?m = "\<lambda>q b r p w. \<lparr>bm_queued = q, bm_buffer = b, bm_ready = r, bm_entries = 0, bm_poll = p, bm_waker = w\<rparr>"
  have 1: "memory_step True memory_init (?m True [False] False PPoll WPublish)"
    using mem_mark [of memory_init True] by (simp add: memory_init_def)
  have 2: "memory_step True (?m True [False] False PPoll WPublish) (?m True [False] False (PReturned False) WPublish)"
    using mem_poll [of "?m True [False] False PPoll WPublish" True] by simp
  have 3: "memory_step True (?m True [False] False (PReturned False) WPublish) (?m True [False] True (PReturned False) WSwap)"
    using mem_publish [of "?m True [False] False (PReturned False) WPublish" True] by simp
  have 4: "memory_step True (?m True [False] True (PReturned False) WSwap) (?m True [False] True (PReturned False) WReturned)"
    using mem_swap [of "?m True [False] True (PReturned False) WSwap" True] by simp
  have 5: "memory_step True (?m True [False] True (PReturned False) WReturned) (?m False [] True (PReturned False) WReturned)"
    using mem_flush [of "?m True [False] True (PReturned False) WReturned" False "[]" True] by simp
  have "(memory_step True)\<^sup>*\<^sup>* memory_init (?m False [] True (PReturned False) WReturned)"
    by (rule converse_rtranclp_into_rtranclp, rule 1, rule converse_rtranclp_into_rtranclp, rule 2,
        rule converse_rtranclp_into_rtranclp, rule 3, rule converse_rtranclp_into_rtranclp, rule 4, rule r_into_rtranclp, rule 5)
  then show "\<exists>m. (memory_step True)\<^sup>*\<^sup>* memory_init m \<and> wake_lost m \<and> \<not> bm_queued m"
    by (intro exI [of _ "?m False [] True (PReturned False) WReturned"]) (simp add: wake_lost_def)
  show "\<nexists>m. (memory_step False)\<^sup>*\<^sup>* memory_init m \<and> wake_lost m"
    using ordered_system.inv_reachable [OF HOL.refl] by (auto simp: wake_lost_def ordered_inv_def)
qed

end
