(* ===== verification/Uring_Driver.thy ===== *)
theory Uring_Driver
  imports Prelude
begin

unbundle bit_operations_syntax

section \<open>The io_uring driver (vibeio/driver/uring.rs)\<close>

text \<open>
  Registrations for readiness and multishot accept, one-shot operations and their retained storage,
  and the loop that drains the completion queue.

  \<^item> The ring is the submission queue (\<open>ur_sq\<close>), the requests the kernel holds (\<open>ur_inflight\<close>) and the
    completion queue (\<open>ur_cq\<close>). What the kernel does is an argument: how many entries a submission
    takes and what it returns, and which completions it posts (\<open>kernel_step\<close>).
  \<^item> A slab is its vector of entries; the token an insertion gets is an argument, any vacant one.
  \<^item> A waker is a number, equal numbers will wake the same task. An operation returns the wakers it
    wakes; destructors and wakers run after the operation, outside its borrows.
  \<^item> \<open>sqe_id\<close>, \<open>cqe_id\<close>, \<open>cqe_fd\<close>, \<open>co_request\<close> and the fields from \<open>ur_next_request\<close> on record history:
    the request an entry belongs to, whether its result is a descriptor, the descriptors the kernel
    produced, those closed and those given to a caller, and the payloads destroyed, each with the
    request it was retained for.
\<close>

subsection \<open>Slabs\<close>

definition slab_get :: "'a option list \<Rightarrow> nat \<Rightarrow> 'a option" where
  "slab_get xs t = (if t < length xs then xs ! t else None)"

definition slab_put :: "nat \<Rightarrow> 'a \<Rightarrow> 'a option list \<Rightarrow> 'a option list" where
  "slab_put t x xs = (if t < length xs then xs[t := Some x] else xs @ [Some x])"

definition slab_del :: "nat \<Rightarrow> 'a option list \<Rightarrow> 'a option list" where
  "slab_del t xs = xs[t := None]"

definition slab_vacant :: "nat \<Rightarrow> 'a option list \<Rightarrow> bool" where
  "slab_vacant t xs \<longleftrightarrow> t \<le> length xs \<and> slab_get xs t = None"

subsection \<open>Request keys\<close>

definition KEY_KIND_BITS :: nat where
  "KEY_KIND_BITS = 2"

definition KEY_KIND_MASK :: u64 where
  "KEY_KIND_MASK = push_bit KEY_KIND_BITS 1 - 1"

definition POLL_KEY_KIND :: u64 where
  "POLL_KEY_KIND = 0"

definition COMPLETION_KEY_KIND :: u64 where
  "COMPLETION_KEY_KIND = 1"

definition ACCEPT_KEY_KIND :: u64 where
  "ACCEPT_KEY_KIND = 2"

definition interrupt_key :: u64 where
  "interrupt_key = - 1"

definition encode_completion_key :: "nat \<Rightarrow> u64" where
  "encode_completion_key token = push_bit KEY_KIND_BITS (word_of_nat token) OR COMPLETION_KEY_KIND"

definition encode_poll_key :: "nat \<Rightarrow> 32 word \<Rightarrow> u64" where
  "encode_poll_key token generation =
     push_bit 34 (ucast generation AND 0x3fffffff)
     OR push_bit KEY_KIND_BITS (word_of_nat token AND 0xffffffff) OR POLL_KEY_KIND"

definition encode_accept_key :: "nat \<Rightarrow> 32 word \<Rightarrow> u64" where
  "encode_accept_key token generation =
     push_bit 34 (ucast generation AND 0x3fffffff)
     OR push_bit KEY_KIND_BITS (word_of_nat token AND 0xffffffff) OR ACCEPT_KEY_KIND"

definition decode_token :: "u64 \<Rightarrow> nat" where
  "decode_token key = unat (drop_bit KEY_KIND_BITS key AND 0xffffffff)"

definition decode_poll_generation :: "u64 \<Rightarrow> 32 word" where
  "decode_poll_generation key = ucast (drop_bit 34 key)"

definition decode_key_kind :: "u64 \<Rightarrow> u64" where
  "decode_key_kind key = key AND KEY_KIND_MASK"

lemmas key_kind_defs = KEY_KIND_BITS_def KEY_KIND_MASK_def POLL_KEY_KIND_def COMPLETION_KEY_KIND_def ACCEPT_KEY_KIND_def
  interrupt_key_def

lemma key_masks:
  "(0xffffffff :: u64) = mask 32" "(0x3fffffff :: u64) = mask 30" "KEY_KIND_MASK = mask 2"
  by (simp_all add: key_kind_defs mask_eq_exp_minus_1)

lemmas key_defs = encode_completion_key_def encode_poll_key_def encode_accept_key_def decode_token_def
  decode_poll_generation_def decode_key_kind_def key_masks

lemma take_bit_2_simps:
  "take_bit 2 (push_bit 34 x) = (0 :: u64)" "take_bit 2 (push_bit 2 x) = (0 :: u64)"
  "take_bit 2 (0 :: u64) = 0" "take_bit 2 (1 :: u64) = 1" "take_bit 2 (2 :: u64) = 2" "take_bit 2 (- 1 :: u64) = 3"
  by (simp_all add: take_bit_push_bit take_bit_minus_one_eq_mask mask_eq_exp_minus_1)

lemma key_kinds:
  "decode_key_kind (encode_completion_key t) = COMPLETION_KEY_KIND"
  "decode_key_kind (encode_poll_key t g) = POLL_KEY_KIND"
  "decode_key_kind (encode_accept_key t g) = ACCEPT_KEY_KIND"
  "decode_key_kind interrupt_key = 3"
  unfolding decode_key_kind_def key_masks(3) take_bit_eq_mask [symmetric]
  unfolding encode_completion_key_def encode_poll_key_def encode_accept_key_def key_kind_defs
  by (simp_all only: take_bit_or take_bit_2_simps or.left_neutral or.right_neutral)

lemma nat_bit_bound: "bit t n \<Longrightarrow> t < 2 ^ m \<Longrightarrow> n < (m :: nat)" for t :: nat
  by (metis bit_take_bit_iff take_bit_nat_eq_self_iff)

lemma decode_completion:
  assumes "t < 2 ^ 32"
  shows "decode_token (encode_completion_key t) = t"
proof -
  have "bit t n \<Longrightarrow> n < 32" for n using nat_bit_bound [OF _ assms] .
  then have "drop_bit 2 (push_bit 2 (word_of_nat t) OR 1 :: u64) AND mask 32 = word_of_nat t"
    by (intro bit_word_eqI) (fastforce simp: bit_simps)
  then show ?thesis using assms by (simp add: key_defs key_kind_defs unat_of_nat)
qed

lemma decode_generation_key:
  fixes c :: u64 and g :: "32 word"
  assumes t: "t < 2 ^ 32" and g: "g < 2 ^ 30" and c: "\<forall>n. bit c n \<longrightarrow> n < 2"
  defines "k \<equiv> push_bit 34 (ucast g AND mask 30) OR push_bit 2 (word_of_nat t AND mask 32) OR c"
  shows "drop_bit 2 k AND mask 32 = word_of_nat t" "drop_bit 34 k = ucast g"
proof -
  have bt: "bit t n \<Longrightarrow> n < 32" for n using nat_bit_bound [OF _ t] .
  have "unat g < 2 ^ 30" using g by (simp add: word_less_nat_alt)
  then have bg: "bit g n \<Longrightarrow> n < 30" for n using nat_bit_bound [of "unat g" n 30] by (simp add: bit_unsigned_iff)
  show "drop_bit 2 k AND mask 32 = word_of_nat t"
    by (rule bit_word_eqI) (use bt c in \<open>fastforce simp: k_def bit_simps\<close>)
  show "drop_bit 34 k = ucast g"
    by (rule bit_word_eqI) (use bt bg c in \<open>fastforce simp: k_def bit_simps\<close>)
qed

lemma decode_poll:
  assumes "t < 2 ^ 32" "g < 2 ^ 30"
  shows "decode_token (encode_poll_key t g) = t" "decode_poll_generation (encode_poll_key t g) = g"
    "decode_token (encode_accept_key t g) = t" "decode_poll_generation (encode_accept_key t g) = g"
proof -
  have c: "\<forall>n. bit (0 :: u64) n \<longrightarrow> n < 2" "\<forall>n. bit (2 :: u64) n \<longrightarrow> n < 2"
    using bit_push_bit_iff [of 1 "1 :: u64"] by (auto simp: bit_1_iff)
  note k = decode_generation_key [where c = 0, OF assms c(1)] decode_generation_key [where c = 2, OF assms c(2)]
  have u: "unat (word_of_nat t :: u64) = t" using assms(1) by (simp add: unat_of_nat)
  show "decode_token (encode_poll_key t g) = t" "decode_token (encode_accept_key t g) = t"
    unfolding key_defs key_kind_defs k(1,3) by (rule u)+
  have rt: "ucast (ucast g :: u64) = g"
    by (rule bit_word_eqI) (auto simp: bit_simps)
  show "decode_poll_generation (encode_poll_key t g) = g" "decode_poll_generation (encode_accept_key t g) = g"
    unfolding key_defs key_kind_defs k(2,4) by (rule rt)+
qed

subsection \<open>State\<close>

type_synonym raw_fd = int

datatype uring_error =
    OsError nat
  | InvalidResult
  | SqFull
  | NotRegistered nat
  | CompletionMode nat
  | AcceptNeedsCompletion
  | BuildError
  | ShutdownPending

record mio_interest =
  mi_readable :: bool
  mi_writable :: bool

record poll_registration =
  pg_read_closed :: bool
  pg_unclaimed_readiness :: bool
  pg_fd :: raw_fd
  pg_poll_mask :: "32 word"
  pg_waiter :: "nat option"
  pg_poll_armed :: bool
  pg_generation :: "32 word"

record accept_registration =
  ag_results :: "(int + raw_fd) list"
  ag_waiter :: "nat option"
  ag_armed :: bool

record completion_registration =
  cg_fd :: raw_fd
  cg_generation :: "32 word"
  cg_accept :: "accept_registration option"

datatype handle_registration =
    CompletionReg completion_registration
  | PollReg poll_registration

datatype 'd retained = RetainedOne 'd | RetainedGroup "'d list"

record 'd completion =
  co_waiter :: "nat option"
  co_completed :: "int option"
  co_ignored_data :: "'d retained option"
  co_returns_fd :: bool
  co_request :: nat

datatype sqe_op = PollAdd raw_fd "32 word" | AcceptMulti raw_fd | OpEntry bool | ReadInterrupt

record sqe =
  sqe_key :: u64
  sqe_op :: sqe_op
  sqe_id :: nat

record cqe =
  cqe_key :: u64
  cqe_result :: int
  cqe_more :: bool
  cqe_id :: nat
  cqe_fd :: bool

record 'd uring =
  ur_sq :: "sqe list"
  ur_sq_entries :: nat
  ur_inflight :: "sqe list"
  ur_cq :: "cqe list"
  ur_registrations :: "handle_registration option list"
  ur_completions :: "'d completion option list"
  ur_next_registration_generation :: "32 word"
  ur_pending_submissions :: bool
  ur_next_request :: nat
  ur_fds :: "raw_fd list"
  ur_closed :: "raw_fd list"
  ur_delivered :: "raw_fd list"
  ur_released :: "(nat option \<times> 'd) list"

definition POLLIN :: "32 word" where "POLLIN = 1"
definition POLLOUT :: "32 word" where "POLLOUT = 4"
definition POLLHUP :: "32 word" where "POLLHUP = 16"
definition POLLRDHUP :: "32 word" where "POLLRDHUP = 0x2000"
definition EBUSY :: nat where "EBUSY = 16"
definition ETIME :: nat where "ETIME = 62"
definition ENOENT :: nat where "ENOENT = 2"

definition interest_to_poll_mask :: "mio_interest \<Rightarrow> 32 word" where
  "interest_to_poll_mask interest =
     (if mi_readable interest then POLLIN OR POLLRDHUP else 0) OR (if mi_writable interest then POLLOUT else 0)"

definition completion_error :: "int \<Rightarrow> uring_error" where
  "completion_error result =
     (if result = - (2 ^ 31) then InvalidResult
      else if - result > 0 then OsError (nat (- result)) else InvalidResult)"

definition retain_completion_data :: "'d retained option \<Rightarrow> 'd \<Rightarrow> 'd retained option" where
  "retain_completion_data retained data =
     Some (case retained of
             Some (RetainedGroup grp) \<Rightarrow> RetainedGroup (grp @ [data])
           | Some (RetainedOne first) \<Rightarrow> RetainedGroup [first, data]
           | None \<Rightarrow> RetainedOne data)"

fun payloads :: "'d retained option \<Rightarrow> 'd list" where
  "payloads None = []"
| "payloads (Some (RetainedOne d)) = [d]"
| "payloads (Some (RetainedGroup ds)) = ds"

text \<open>Destroying a completion: its unclaimed descriptor is closed, its payloads are dropped.\<close>

definition completion_fds :: "'d completion \<Rightarrow> raw_fd list" where
  "completion_fds c =
     (case co_completed c of Some r \<Rightarrow> if co_returns_fd c \<and> r \<ge> 0 then [r] else [] | None \<Rightarrow> [])"

definition drop_completion :: "'d completion \<Rightarrow> 'd uring \<Rightarrow> 'd uring" where
  "drop_completion c u =
     u\<lparr>ur_closed := ur_closed u @ completion_fds c,
       ur_released := ur_released u @ map (Pair (Some (co_request c))) (payloads (co_ignored_data c))\<rparr>"

subsection \<open>Submitting\<close>

text \<open>One entry into the kernel: how many entries it takes, and what the call returns (\<open>Inl\<close>: the error number).\<close>

type_synonym submit_outcome = "nat \<times> (nat + nat)"

definition ring_submit :: "submit_outcome \<Rightarrow> 'd uring \<Rightarrow> (nat + nat) \<times> 'd uring" where
  "ring_submit ans u =
     (snd ans, u\<lparr>ur_sq := drop (fst ans) (ur_sq u), ur_inflight := ur_inflight u @ take (fst ans) (ur_sq u)\<rparr>)"

definition submitter_call_result :: "nat + nat \<Rightarrow> uring_error + unit" where
  "submitter_call_result r =
     (case r of Inr n \<Rightarrow> Inr ()
      | Inl e \<Rightarrow> if e = EBUSY then Inr () else if e = ETIME then Inr () else Inl (OsError e))"

definition sq_push :: "u64 \<Rightarrow> sqe_op \<Rightarrow> 'd uring \<Rightarrow> (uring_error + unit) \<times> 'd uring" where
  "sq_push key op u =
     (if length (ur_sq u) \<ge> ur_sq_entries u then (Inl SqFull, u)
      else (Inr (), u\<lparr>ur_sq := ur_sq u @ [\<lparr>sqe_key = key, sqe_op = op, sqe_id = ur_next_request u\<rparr>],
                      ur_next_request := Suc (ur_next_request u), ur_pending_submissions := True\<rparr>))"

definition push_entry ::
    "submit_outcome \<Rightarrow> u64 \<Rightarrow> sqe_op \<Rightarrow> 'd uring \<Rightarrow> (uring_error + unit) \<times> 'd uring" where
  "push_entry ans key op u =
     (if length (ur_sq u) \<ge> ur_sq_entries u
      then let (r, u1) = ring_submit ans u
           in case submitter_call_result r of
                Inl e \<Rightarrow> (Inl e, u1)
              | Inr _ \<Rightarrow> sq_push key op u1
      else sq_push key op u)"

definition push_poll_add ::
    "submit_outcome \<Rightarrow> nat \<Rightarrow> 32 word \<Rightarrow> raw_fd \<Rightarrow> 32 word \<Rightarrow> 'd uring \<Rightarrow> (uring_error + unit) \<times> 'd uring" where
  "push_poll_add ans token generation fd poll_mask u =
     push_entry ans (encode_poll_key token generation) (PollAdd fd poll_mask) u"

text \<open>\<open>None\<close> is the panic: without the interrupt's read the driver could not be woken.\<close>

definition submit_interrupt :: "submit_outcome \<Rightarrow> 'd uring \<Rightarrow> 'd uring option" where
  "submit_interrupt ans u =
     (case push_entry ans interrupt_key ReadInterrupt u of (Inl e, u1) \<Rightarrow> None | (Inr _, u1) \<Rightarrow> Some u1)"

text \<open>
  A ring of the wanted size, or of one of the fallback sizes while the kernel is out of memory. \<open>build\<close> is
  the attempt at a size: the ring or an error number.
\<close>

definition ENOMEM :: nat where "ENOMEM = 12"

fun build_candidates :: "(nat \<Rightarrow> nat + 'r) \<Rightarrow> nat option \<Rightarrow> nat option \<Rightarrow> nat list \<Rightarrow> (nat + 'r \<times> nat) option" where
  "build_candidates build previous memory_error [] = map_option Inl memory_error"
| "build_candidates build previous memory_error (candidate # rest) =
     (if previous = Some candidate then build_candidates build previous memory_error rest
      else case build candidate of
             Inr r \<Rightarrow> Some (Inr (r, candidate))
           | Inl e \<Rightarrow> if e = ENOMEM then build_candidates build (Some candidate) (Some e) rest else Some (Inl e))"

text \<open>\<open>None\<close> is the panic of \<open>expect\<close>.\<close>

definition build_with_memory_fallback :: "nat \<Rightarrow> (nat \<Rightarrow> nat + 'r) \<Rightarrow> (nat + 'r \<times> nat) option" where
  "build_with_memory_fallback entries build =
     build_candidates build None None (entries # map (min entries) [256, 64])"

definition uring_new :: "nat \<Rightarrow> submit_outcome \<Rightarrow> 'd uring option" where
  "uring_new entries ans = submit_interrupt ans
     \<lparr>ur_sq = [], ur_sq_entries = entries, ur_inflight = [], ur_cq = [], ur_registrations = [], ur_completions = [],
      ur_next_registration_generation = 0, ur_pending_submissions = False, ur_next_request = 0, ur_fds = [],
      ur_closed = [], ur_delivered = [], ur_released = []\<rparr>"

subsection \<open>Registrations\<close>

datatype registration_mode = CompletionModeReg | PollModeReg

definition next_generation_value :: "32 word \<Rightarrow> 32 word" where
  "next_generation_value g = (let g1 = (g + 1) AND 0x3fffffff in if g1 = 0 then 1 else g1)"

definition register_handle_with_mode ::
    "nat \<Rightarrow> raw_fd \<Rightarrow> mio_interest \<Rightarrow> registration_mode \<Rightarrow> 'd uring \<Rightarrow> nat \<times> 'd uring" where
  "register_handle_with_mode token fd interest mode u =
     (let generation = next_generation_value (ur_next_registration_generation u);
          reg = (case mode of
                   CompletionModeReg \<Rightarrow> CompletionReg \<lparr>cg_fd = fd, cg_generation = generation, cg_accept = None\<rparr>
                 | PollModeReg \<Rightarrow> PollReg \<lparr>pg_read_closed = False, pg_unclaimed_readiness = False, pg_fd = fd,
                     pg_poll_mask = interest_to_poll_mask interest, pg_waiter = None, pg_poll_armed = False,
                     pg_generation = generation\<rparr>)
      in (token, u\<lparr>ur_next_registration_generation := generation,
                   ur_registrations := slab_put token reg (ur_registrations u)\<rparr>))"

definition set_reg :: "nat \<Rightarrow> handle_registration \<Rightarrow> 'd uring \<Rightarrow> 'd uring" where
  "set_reg token reg u = u\<lparr>ur_registrations := slab_put token reg (ur_registrations u)\<rparr>"

definition reregister_handle :: "nat \<Rightarrow> mio_interest \<Rightarrow> 'd uring \<Rightarrow> (uring_error + unit) \<times> 'd uring" where
  "reregister_handle token interest u =
     (case slab_get (ur_registrations u) token of
        Some (CompletionReg g) \<Rightarrow> (Inr (), u)
      | Some (PollReg g) \<Rightarrow> (Inr (), set_reg token (PollReg (g\<lparr>pg_poll_mask := interest_to_poll_mask interest\<rparr>)) u)
      | None \<Rightarrow> (Inl (NotRegistered token), u))"

text \<open>Destroying a registration closes the accepted descriptors it still holds.\<close>

definition accept_fds :: "accept_registration \<Rightarrow> raw_fd list" where
  "accept_fds a = List.map_filter (case_sum (\<lambda>_. None) Some) (ag_results a)"

fun registration_fds :: "handle_registration \<Rightarrow> raw_fd list" where
  "registration_fds (CompletionReg g) = (case cg_accept g of None \<Rightarrow> [] | Some a \<Rightarrow> accept_fds a)"
| "registration_fds (PollReg g) = []"

definition drop_registration :: "handle_registration option \<Rightarrow> 'd uring \<Rightarrow> 'd uring" where
  "drop_registration reg u =
     (case reg of None \<Rightarrow> u | Some r \<Rightarrow> u\<lparr>ur_closed := ur_closed u @ registration_fds r\<rparr>)"

definition needs_cancel :: "handle_registration option \<Rightarrow> 'd uring \<Rightarrow> bool" where
  "needs_cancel reg u =
     (case reg of
        Some (PollReg g) \<Rightarrow> pg_poll_armed g
      | Some (CompletionReg g) \<Rightarrow>
          (case cg_accept g of None \<Rightarrow> False | Some a \<Rightarrow> ag_armed a)
          \<or> list_ex (\<lambda>c. case c of None \<Rightarrow> False | Some k \<Rightarrow> co_completed k = None) (ur_completions u)
      | None \<Rightarrow> False)"

text \<open>
  The synchronous cancellation is a request to the kernel: its effect is that the kernel posts the
  completions of the requests it cancels.
\<close>

definition deregister_handle :: "submit_outcome \<Rightarrow> nat \<Rightarrow> 'd uring \<Rightarrow> (uring_error + unit) \<times> 'd uring" where
  "deregister_handle ans token u =
     (let reg = slab_get (ur_registrations u) token;
          u1 = u\<lparr>ur_registrations := slab_del token (ur_registrations u)\<rparr>;
          (r, u2) = (if needs_cancel reg u \<and> ur_sq u \<noteq> []
                     then (let (r, u2) = ring_submit ans u1 in (submitter_call_result r, u2))
                     else (Inr (), u1))
      in case r of
           Inl e \<Rightarrow> (Inl e, drop_registration reg u2)
         | Inr _ \<Rightarrow> (if reg = None then Inl (NotRegistered token) else Inr (), drop_registration reg u2))"

definition clear_readiness :: "nat \<Rightarrow> 'd uring \<Rightarrow> 'd uring" where
  "clear_readiness token u =
     (case slab_get (ur_registrations u) token of
        Some (PollReg g) \<Rightarrow> set_reg token (PollReg (g\<lparr>pg_unclaimed_readiness := False\<rparr>)) u
      | _ \<Rightarrow> u)"

definition take_unclaimed_readiness :: "nat \<Rightarrow> 'd uring \<Rightarrow> bool \<times> 'd uring" where
  "take_unclaimed_readiness token u =
     (case slab_get (ur_registrations u) token of
        Some (PollReg g) \<Rightarrow>
          if pg_read_closed g then (True, u)
          else (pg_unclaimed_readiness g, set_reg token (PollReg (g\<lparr>pg_unclaimed_readiness := False\<rparr>)) u)
      | _ \<Rightarrow> (False, u))"

definition update_waiter :: "nat option \<Rightarrow> nat \<Rightarrow> nat option" where
  "update_waiter slot waker = (if slot = Some waker then slot else Some waker)"

definition submit_poll ::
    "submit_outcome \<Rightarrow> nat \<Rightarrow> nat \<Rightarrow> mio_interest \<Rightarrow> 'd uring \<Rightarrow> (uring_error + unit) \<times> nat list \<times> 'd uring" where
  "submit_poll ans token waker interest u =
     (case slab_get (ur_registrations u) token of
        Some (CompletionReg g) \<Rightarrow> (Inl (CompletionMode token), [], u)
      | None \<Rightarrow> (Inl (NotRegistered token), [], u)
      | Some (PollReg g) \<Rightarrow>
          if mi_readable interest \<and> pg_read_closed g then (Inr (), [waker], u)
          else if pg_unclaimed_readiness g
          then (Inr (), [waker], set_reg token (PollReg (g\<lparr>pg_unclaimed_readiness := False\<rparr>)) u)
          else
            let desired_mask = interest_to_poll_mask interest;
                g1 = g\<lparr>pg_waiter := update_waiter (pg_waiter g) waker, pg_poll_mask := desired_mask\<rparr>
            in if pg_poll_armed g1 then (Inr (), [], set_reg token (PollReg g1) u)
               else
                 let g2 = g1\<lparr>pg_poll_armed := True\<rparr>;
                     (r, u1) = push_poll_add ans token (pg_generation g2) (pg_fd g2) desired_mask (set_reg token (PollReg g2) u)
                 in case r of
                      Inr _ \<Rightarrow> (Inr (), [], u1)
                    | Inl e \<Rightarrow> (Inl e, [], set_reg token (PollReg (g2\<lparr>pg_poll_armed := False, pg_waiter := None\<rparr>)) u1))"

datatype accept_poll = AcceptReady "uring_error + raw_fd" | AcceptPending

definition accept_registration_new :: accept_registration where
  "accept_registration_new = \<lparr>ag_results = [], ag_waiter = None, ag_armed = False\<rparr>"

definition poll_multishot_accept ::
    "submit_outcome \<Rightarrow> nat \<Rightarrow> nat \<Rightarrow> 'd uring \<Rightarrow> accept_poll \<times> 'd uring" where
  "poll_multishot_accept ans token waker u =
     (case slab_get (ur_registrations u) token of
        Some (PollReg g) \<Rightarrow> (AcceptReady (Inl AcceptNeedsCompletion), u)
      | None \<Rightarrow> (AcceptReady (Inl (NotRegistered token)), u)
      | Some (CompletionReg g) \<Rightarrow>
          let a = (case cg_accept g of None \<Rightarrow> accept_registration_new | Some a \<Rightarrow> a);
              put = (\<lambda>a1. set_reg token (CompletionReg (g\<lparr>cg_accept := Some a1\<rparr>)))
          in case ag_results a of
               Inr fd # rest \<Rightarrow>
                 (AcceptReady (Inr fd), put (a\<lparr>ag_results := rest\<rparr>) (u\<lparr>ur_delivered := ur_delivered u @ [fd]\<rparr>))
             | Inl e # rest \<Rightarrow> (AcceptReady (Inl (completion_error e)), put (a\<lparr>ag_results := rest\<rparr>) u)
             | [] \<Rightarrow>
                 let a1 = a\<lparr>ag_waiter := update_waiter (ag_waiter a) waker\<rparr>
                 in if ag_armed a1 then (AcceptPending, put a1 u)
                    else
                      let a2 = a1\<lparr>ag_armed := True\<rparr>;
                          (r, u1) = push_entry ans (encode_accept_key token (cg_generation g)) (AcceptMulti (cg_fd g)) (put a2 u)
                      in case r of
                           Inr _ \<Rightarrow> (AcceptPending, u1)
                         | Inl e \<Rightarrow> (AcceptReady (Inl e), put (a2\<lparr>ag_armed := False, ag_waiter := None\<rparr>) u1))"

subsection \<open>One-shot operations\<close>

datatype completion_io_result = SubmitErr uring_error | Retry nat

definition submit_completion ::
    "submit_outcome \<Rightarrow> nat \<Rightarrow> uring_error + unit \<Rightarrow> bool \<Rightarrow> nat \<Rightarrow> 'd uring \<Rightarrow> completion_io_result \<times> 'd uring" where
  "submit_completion ans token build returns_fd waker u =
     (case build of
        Inl e \<Rightarrow> (SubmitErr e, u)
      | Inr _ \<Rightarrow>
          let request = ur_next_request u;
              (r, u1) = push_entry ans (encode_completion_key token) (OpEntry returns_fd) u
          in case r of
               Inl e \<Rightarrow> (SubmitErr e, u1)
             | Inr _ \<Rightarrow>
                 (Retry token, u1\<lparr>ur_completions := slab_put token
                   \<lparr>co_waiter = Some waker, co_completed = None, co_ignored_data = None, co_returns_fd = returns_fd,
                    co_request = request\<rparr> (ur_completions u1)\<rparr>))"

definition get_completion_result :: "nat \<Rightarrow> 'd uring \<Rightarrow> int option \<times> 'd uring" where
  "get_completion_result token u =
     (case slab_get (ur_completions u) token of
        None \<Rightarrow> (None, u)
      | Some c \<Rightarrow>
          (case co_completed c of
             None \<Rightarrow> (None, u)
           | Some r \<Rightarrow>
               (Some r, drop_completion (c\<lparr>co_completed := None\<rparr>)
                  (u\<lparr>ur_completions := slab_del token (ur_completions u),
                     ur_delivered := ur_delivered u @ completion_fds c\<rparr>))))"

definition set_completion_waker :: "nat \<Rightarrow> nat \<Rightarrow> 'd uring \<Rightarrow> 'd uring" where
  "set_completion_waker token waker u =
     (case slab_get (ur_completions u) token of
        None \<Rightarrow> u
      | Some c \<Rightarrow> u\<lparr>ur_completions := slab_put token (c\<lparr>co_waiter := update_waiter (co_waiter c) waker\<rparr>) (ur_completions u)\<rparr>)"

definition ignore_completion :: "nat \<Rightarrow> 'd \<Rightarrow> 'd uring \<Rightarrow> 'd uring" where
  "ignore_completion token data u =
     (case slab_get (ur_completions u) token of
        None \<Rightarrow> u\<lparr>ur_released := ur_released u @ [(None, data)]\<rparr>
      | Some c \<Rightarrow>
          let c1 = c\<lparr>co_ignored_data := retain_completion_data (co_ignored_data c) data\<rparr>
          in if co_completed c1 \<noteq> None
             then drop_completion c1 (u\<lparr>ur_completions := slab_del token (ur_completions u)\<rparr>)
             else u\<lparr>ur_completions := slab_put token c1 (ur_completions u)\<rparr>)"

subsection \<open>Draining the completion queue\<close>

record 'd completion_batch =
  ba_interrupt :: bool
  ba_fast_wakers :: "nat list"
  ba_overflow_wakers :: "nat list"
  ba_retired :: "'d completion list"

definition batch_new :: "'d completion_batch" where
  "batch_new = \<lparr>ba_interrupt = False, ba_fast_wakers = [], ba_overflow_wakers = [], ba_retired = []\<rparr>"

text \<open>The first eight wakers go into the inline array, the others into the vector.\<close>

definition add_waker :: "nat option \<Rightarrow> 'd completion_batch \<Rightarrow> 'd completion_batch" where
  "add_waker waiter b =
     (case waiter of
        None \<Rightarrow> b
      | Some w \<Rightarrow>
          if length (ba_fast_wakers b) < 8 then b\<lparr>ba_fast_wakers := ba_fast_wakers b @ [w]\<rparr>
          else b\<lparr>ba_overflow_wakers := ba_overflow_wakers b @ [w]\<rparr>)"

definition drain_poll :: "cqe \<Rightarrow> 'd completion_batch \<times> 'd uring \<Rightarrow> 'd completion_batch \<times> 'd uring" where
  "drain_poll e s =
     (let (b, u) = s; token = decode_token (cqe_key e); generation = decode_poll_generation (cqe_key e)
      in case slab_get (ur_registrations u) token of
           Some (PollReg g) \<Rightarrow>
             if pg_generation g = generation then
               let closed = cqe_result e \<ge> 0 \<and> word_of_int (cqe_result e) AND (POLLRDHUP OR POLLHUP) \<noteq> 0
               in (add_waker (pg_waiter g) b,
                   set_reg token (PollReg (g\<lparr>pg_read_closed := pg_read_closed g \<or> closed, pg_poll_armed := cqe_more e,
                     pg_waiter := None, pg_unclaimed_readiness := True\<rparr>)) u)
             else (b, u)
         | _ \<Rightarrow> (b, u))"

definition drain_accept :: "cqe \<Rightarrow> 'd completion_batch \<times> 'd uring \<Rightarrow> 'd completion_batch \<times> 'd uring" where
  "drain_accept e s =
     (let (b, u) = s; token = decode_token (cqe_key e); generation = decode_poll_generation (cqe_key e);
          result = cqe_result e;
          accepted = (if result \<ge> 0 then Inr result else Inl result);
          close = u\<lparr>ur_closed := ur_closed u @ (if result \<ge> 0 then [result] else [])\<rparr>
      in case slab_get (ur_registrations u) token of
           Some (CompletionReg g) \<Rightarrow>
             if cg_generation g = generation then
               (case cg_accept g of
                  Some a \<Rightarrow>
                    (add_waker (ag_waiter a) b,
                     set_reg token (CompletionReg (g\<lparr>cg_accept := Some (a\<lparr>ag_armed := cqe_more e,
                       ag_results := ag_results a @ [accepted], ag_waiter := None\<rparr>)\<rparr>)) u)
                | None \<Rightarrow> (b, close))
             else (b, close)
         | _ \<Rightarrow> (b, close))"

definition drain_completion :: "cqe \<Rightarrow> 'd completion_batch \<times> 'd uring \<Rightarrow> 'd completion_batch \<times> 'd uring" where
  "drain_completion e s =
     (let (b, u) = s; token = decode_token (cqe_key e)
      in case slab_get (ur_completions u) token of
           None \<Rightarrow> (b, u)
         | Some c \<Rightarrow>
             let c1 = c\<lparr>co_completed := Some (cqe_result e), co_waiter := None\<rparr>
             in if co_ignored_data c \<noteq> None
                then (add_waker (co_waiter c) (b\<lparr>ba_retired := ba_retired b @ [c1]\<rparr>),
                      u\<lparr>ur_completions := slab_del token (ur_completions u)\<rparr>)
                else (add_waker (co_waiter c) b, u\<lparr>ur_completions := slab_put token c1 (ur_completions u)\<rparr>))"

definition drain_cqe :: "cqe \<Rightarrow> 'd completion_batch \<times> 'd uring \<Rightarrow> 'd completion_batch \<times> 'd uring" where
  "drain_cqe e s =
     (if cqe_key e = interrupt_key then (fst s\<lparr>ba_interrupt := True\<rparr>, snd s)
      else if decode_key_kind (cqe_key e) = POLL_KEY_KIND then drain_poll e s
      else if decode_key_kind (cqe_key e) = ACCEPT_KEY_KIND then drain_accept e s
      else drain_completion e s)"

definition drain_cq :: "'d uring \<Rightarrow> 'd completion_batch \<times> 'd uring" where
  "drain_cq u = fold drain_cqe (ur_cq u) (batch_new, u\<lparr>ur_cq := []\<rparr>)"

text \<open>\<open>CompletionBatch::dispatch\<close>: the retired completions are destroyed, then the wakers are woken.\<close>

definition dispatch :: "'d completion_batch \<Rightarrow> 'd uring \<Rightarrow> nat list \<times> 'd uring" where
  "dispatch b u = (ba_fast_wakers b @ ba_overflow_wakers b, fold drop_completion (ba_retired b) u)"

definition finish_collect :: "submit_outcome \<Rightarrow> 'd uring \<Rightarrow> (nat list \<times> 'd uring) option" where
  "finish_collect ans u =
     (let (b, u1) = drain_cq u
      in case (if ba_interrupt b then submit_interrupt ans u1 else Some u1) of
           None \<Rightarrow> None
         | Some u2 \<Rightarrow> Some (dispatch b u2))"

text \<open>
  \<open>collect_completions\<close>: whether to block and whether to enter the kernel at all, the submission, and
  the drain. \<open>overflow\<close> and \<open>taskrun\<close> are the ring's flags, \<open>timeout = Some 0\<close> is a poll, and \<open>kern\<close> is
  what the kernel has done by the time the call returns.
\<close>

definition collect_plan :: "bool \<Rightarrow> nat option \<Rightarrow> bool \<Rightarrow> 'd uring \<Rightarrow> bool \<times> bool" where
  "collect_plan wait_for_one timeout kernel_work u =
     (let idle_poll = (wait_for_one \<and> timeout = Some 0
            \<and> list_all (\<lambda>r. r = None) (ur_registrations u) \<and> list_all (\<lambda>c. c = None) (ur_completions u)
            \<and> \<not> kernel_work);
          ready = (ur_cq u \<noteq> []);
          wait = (wait_for_one \<and> \<not> idle_poll \<and> (\<not> ready \<or> kernel_work) \<and> (timeout \<noteq> Some 0 \<or> kernel_work))
      in (wait, if wait \<or> kernel_work then True else ur_sq u \<noteq> []))"

definition collect_completions ::
    "bool \<Rightarrow> nat option \<Rightarrow> bool \<Rightarrow> bool \<Rightarrow> submit_outcome \<Rightarrow> ('d uring \<Rightarrow> 'd uring) \<Rightarrow> submit_outcome \<Rightarrow> 'd uring
      \<Rightarrow> ((uring_error + nat list) \<times> 'd uring) option" where
  "collect_completions wait_for_one timeout overflow taskrun ans kern ans2 u =
     (let (wait, should_submit) = collect_plan wait_for_one timeout (overflow \<or> taskrun) u;
          (r, u1) = (if should_submit
                     then (let (r, u1) = ring_submit ans u; u2 = kern u1
                           in (submitter_call_result r,
                               if submitter_call_result r = Inr () then u2\<lparr>ur_pending_submissions := ur_sq u2 \<noteq> []\<rparr> else u2))
                     else (Inr (), u\<lparr>ur_pending_submissions := False\<rparr>))
      in case r of
           Inl e \<Rightarrow> Some (Inl e, u1)
         | Inr _ \<Rightarrow> map_option (\<lambda>(ws, u2). (Inr ws, u2)) (finish_collect ans2 u1))"

subsection \<open>Shutting down\<close>

definition drain_shutdown_cqe :: "cqe \<Rightarrow> 'd uring \<Rightarrow> 'd uring" where
  "drain_shutdown_cqe e u =
     (if cqe_key e = interrupt_key then u
      else if decode_key_kind (cqe_key e) = ACCEPT_KEY_KIND \<and> cqe_result e \<ge> 0
      then u\<lparr>ur_closed := ur_closed u @ [cqe_result e]\<rparr>
      else if decode_key_kind (cqe_key e) = COMPLETION_KEY_KIND
      then (case slab_get (ur_completions u) (decode_token (cqe_key e)) of
              None \<Rightarrow> u
            | Some c \<Rightarrow> u\<lparr>ur_completions := slab_put (decode_token (cqe_key e))
                           (c\<lparr>co_completed := Some (cqe_result e)\<rparr>) (ur_completions u)\<rparr>)
      else u)"

definition drain_shutdown_cq :: "'d uring \<Rightarrow> 'd uring" where
  "drain_shutdown_cq u = fold drain_shutdown_cqe (ur_cq u) (u\<lparr>ur_cq := []\<rparr>)"

text \<open>The bounded loop that pushes the queued entries into the kernel, \<open>n\<close> rounds left.\<close>

fun quiesce_submit :: "nat \<Rightarrow> (nat \<Rightarrow> submit_outcome) \<Rightarrow> 'd uring \<Rightarrow> (uring_error + unit) \<times> 'd uring" where
  "quiesce_submit 0 anss u = (Inr (), u)"
| "quiesce_submit (Suc n) anss u =
     (let u1 = drain_shutdown_cq u
      in if ur_sq u1 = [] then (Inr (), u1)
         else case ring_submit (anss n) u1 of
                (Inl e, u2) \<Rightarrow> (Inl (OsError e), u2)
              | (Inr _, u2) \<Rightarrow> quiesce_submit n anss u2)"

text \<open>
  The last drain: while completions are left in the kernel's overflow list, enter it and drain again.
  Each element is what the kernel posts on one entry and what the call returns; the list ends when the
  overflow flag is clear.
\<close>

fun quiesce_drain :: "(('d uring \<Rightarrow> 'd uring) \<times> (nat + nat)) list \<Rightarrow> 'd uring \<Rightarrow> (uring_error + unit) \<times> 'd uring" where
  "quiesce_drain [] u = (Inr (), drain_shutdown_cq u)"
| "quiesce_drain ((kern, r) # rest) u =
     (let u1 = kern (drain_shutdown_cq u)
      in case r of Inl e \<Rightarrow> (Inl (OsError e), u1) | Inr _ \<Rightarrow> quiesce_drain rest u1)"

definition quiesce ::
    "(nat \<Rightarrow> submit_outcome) \<Rightarrow> nat option \<Rightarrow> ('d uring \<Rightarrow> 'd uring) \<Rightarrow> (('d uring \<Rightarrow> 'd uring) \<times> (nat + nat)) list \<Rightarrow> 'd uring
      \<Rightarrow> (uring_error + unit) \<times> 'd uring" where
  "quiesce anss cancel_error kern overflow u =
     (case quiesce_submit 4 anss u of
        (Inl e, u1) \<Rightarrow> (Inl e, u1)
      | (Inr _, u1) \<Rightarrow>
          if ur_sq u1 \<noteq> [] then (Inl ShutdownPending, u1)
          else
            let u2 = kern u1
            in case cancel_error of
                 Some e \<Rightarrow> if e = ENOENT then quiesce_drain overflow u2 else (Inl (OsError e), u2)
               | None \<Rightarrow> quiesce_drain overflow u2)"

text \<open>
  Dropping the driver. After a failed \<open>quiesce\<close> the slabs are forgotten: nothing they hold is released.
\<close>

definition uring_drop ::
    "(nat \<Rightarrow> submit_outcome) \<Rightarrow> nat option \<Rightarrow> ('d uring \<Rightarrow> 'd uring) \<Rightarrow> (('d uring \<Rightarrow> 'd uring) \<times> (nat + nat)) list \<Rightarrow> 'd uring \<Rightarrow> 'd uring" where
  "uring_drop anss cancel_error kern overflow u =
     (case quiesce anss cancel_error kern overflow u of
        (Inl e, u1) \<Rightarrow> u1\<lparr>ur_completions := [], ur_registrations := []\<rparr>
      | (Inr _, u1) \<Rightarrow>
          (fold (\<lambda>c. case c of None \<Rightarrow> id | Some k \<Rightarrow> drop_completion k) (ur_completions u1)
            (fold drop_registration (ur_registrations u1) u1))\<lparr>ur_completions := [], ur_registrations := []\<rparr>)"

end
