(* ===== verification/Spec2Isabelle.thy ===== *)
theory Spec2Isabelle
  imports Vibeio_Timer Callbacks Timer_Callback Timer_Queue Ready_Queue State_Snapshot Loop_Core Dispatcher
    Handle_Order Loop_Wake Loop_Run Fd_Watch Writer_Worker Read_Events Stream_Reader Executor_Turn Executor_Runs
    Uring_Driver
begin

text \<open>
  A verification development of the event loop.
\<close>

end
